(* ===== verification/Nachos_Prelude.thy ===== *)
theory Nachos_Prelude
  imports Main "HOL-Library.Word" "HOL-Library.Signed_Division"
begin

text \<open>
  The shared vocabulary of the development.  It holds the result type of every routine of the
  kernel that can fail (\<open>ASSERT\<close>, an invalid pointer, an index out of the bounds of a C array),
  the C arithmetic of \<open>threads/utility.h\<close> (division truncates towards zero), the 32-bit
  signed wrap-around, and the little-endian byte layout that the casts of the form
  \<open>(char *)&x\<close> rely on, together with the generic list and word lemmas used by
  the component theories.
\<close>

unbundle bit_operations_syntax

named_theorems nachos_defs \<open>definitions unfolded by the component proofs\<close>
named_theorems nachos_simps \<open>rewrite rules shared by the component proofs\<close>

section \<open>Faults and results\<close>

text \<open>
  \<open>Abort\<close> is the \<open>ASSERT\<close> macro with a false condition (it calls \<open>abort()\<close>);
  \<open>BadPointer\<close> is the dereference of a null or dangling pointer; \<open>BadIndex\<close> is an access
  outside a C array; \<open>DivTrap\<close> is the processor exception of a signed division that overflows;
  \<open>Undefined\<close> is an operation whose result the language leaves undefined (an \<open>int\<close> counter that overflows,
  a shift by 32 or more); \<open>Diverges\<close> is a loop that ran out of the fuel the model gives it.
\<close>

datatype fault = Abort | BadPointer | BadIndex | DivTrap | Undefined | Diverges

type_synonym 'a res = "fault + 'a"

definition rbind :: "'a res \<Rightarrow> ('a \<Rightarrow> 'b res) \<Rightarrow> 'b res" where
  "rbind m f = (case m of Inl e \<Rightarrow> Inl e | Inr x \<Rightarrow> f x)"

definition ASSERT :: "bool \<Rightarrow> 'a res \<Rightarrow> 'a res" where
  "ASSERT c k = (if c then k else Inl Abort)"

text \<open>Code that goes on only when the operations before it are defined.\<close>

definition DEFINED :: "bool \<Rightarrow> 'a res \<Rightarrow> 'a res" where
  "DEFINED c k = (if c then k else Inl Undefined)"

lemma rbind_simps [simp]:
  "rbind (Inl e) f = Inl e"
  "rbind (Inr x) f = f x"
  by (simp_all add: rbind_def)

lemma rbind_cong [fundef_cong]:
  "m = m' \<Longrightarrow> (\<And>x. m' = Inr x \<Longrightarrow> f x = g x) \<Longrightarrow> rbind m f = rbind m' g"
  by (cases m') (auto simp: rbind_def)

lemma ASSERT_cong [fundef_cong]:
  "c = c' \<Longrightarrow> (c' \<Longrightarrow> k = k') \<Longrightarrow> ASSERT c k = ASSERT c' k'"
  by (auto simp: ASSERT_def)

lemma rbind_eq_Inr_iff: "rbind m f = Inr y \<longleftrightarrow> (\<exists>x. m = Inr x \<and> f x = Inr y)"
  by (cases m) auto

lemma ASSERT_simps [simp]:
  "ASSERT True k = k"
  "ASSERT False k = Inl Abort"
  by (simp_all add: ASSERT_def)

lemma ASSERT_eq_Inr_iff: "ASSERT c k = Inr y \<longleftrightarrow> c \<and> k = Inr y"
  by (simp add: ASSERT_def)

lemma DEFINED_cong [fundef_cong]:
  "c = c' \<Longrightarrow> (c' \<Longrightarrow> k = k') \<Longrightarrow> DEFINED c k = DEFINED c' k'"
  by (auto simp: DEFINED_def)

lemma DEFINED_simps [simp]:
  "DEFINED True k = k"
  "DEFINED False k = Inl Undefined"
  by (simp_all add: DEFINED_def)

lemma DEFINED_eq_Inr_iff [simp]: "DEFINED c k = Inr y \<longleftrightarrow> c \<and> k = Inr y"
  by (simp add: DEFINED_def)

section \<open>C arithmetic\<close>

text \<open>\<open>threads/utility.h\<close>: division and remainder of C truncate towards zero.\<close>

definition divRoundDown :: "int \<Rightarrow> int \<Rightarrow> int" where
  "divRoundDown n s = n sdiv s"

definition divRoundUp :: "int \<Rightarrow> int \<Rightarrow> int" where
  "divRoundUp n s = (n sdiv s) + (if n smod s > 0 then 1 else 0)"

lemma sdiv_nonneg: "0 \<le> n \<Longrightarrow> 0 < s \<Longrightarrow> n sdiv s = n div (s::int)"
  by (cases "n = 0") (simp_all add: signed_divide_int_def)

lemma smod_nonneg: "0 \<le> n \<Longrightarrow> 0 < s \<Longrightarrow> n smod s = n mod (s::int)"
  by (cases "n = 0") (simp_all add: signed_modulo_int_def)

lemma divRoundDown_nonneg: "0 \<le> n \<Longrightarrow> 0 < s \<Longrightarrow> divRoundDown n s = n div s"
  by (simp add: divRoundDown_def sdiv_nonneg)

lemma divRoundUp_bounds:
  assumes "0 \<le> n" "0 < s"
  shows "n \<le> divRoundUp n s * s" "divRoundUp n s * s < n + s" "0 \<le> divRoundUp n s"
proof -
  have eq: "n = n div s * s + n mod s" by simp
  have lt: "n mod s < s" "0 \<le> n mod s" using assms by auto
  have up: "divRoundUp n s = n div s + (if n mod s > 0 then 1 else 0)"
    using assms by (simp add: divRoundUp_def sdiv_nonneg smod_nonneg)
  show "n \<le> divRoundUp n s * s" "divRoundUp n s * s < n + s"
    using eq lt by (simp_all only: up distrib_right split: if_split) linarith+
  show "0 \<le> divRoundUp n s" using assms by (simp add: up pos_imp_zdiv_nonneg_iff)
qed

lemma dvd_less_add_le: "d dvd x \<Longrightarrow> d dvd m \<Longrightarrow> x < m \<Longrightarrow> x + d \<le> (m::nat)"
proof (elim dvdE)
  fix k l assume "x < m" "x = d * k" "m = d * l"
  then have "d * Suc k \<le> d * l" by (intro mult_le_mono2) simp
  then show ?thesis using \<open>x = d * k\<close> \<open>m = d * l\<close> by simp
qed

text \<open>
  The value a signed 32-bit expression holds after wrap-around (the behaviour of the
  two's complement hosts the program is built for).
\<close>

definition i32 :: "int \<Rightarrow> int" where
  "i32 x = sint (word_of_int x :: 32 word)"

definition is_int32 :: "int \<Rightarrow> bool" where
  "is_int32 x \<longleftrightarrow> - (2 ^ 31) \<le> x \<and> x < 2 ^ 31"

lemma i32_id: "is_int32 x \<Longrightarrow> i32 x = x"
  by (simp add: i32_def is_int32_def sint_word_ariths signed_take_bit_int_eq_self sint_sbintrunc')

lemma is_int32_sint [simp]: "is_int32 (sint (w :: 32 word))"
  using sint_lt [of w] sint_ge [of w] by (simp add: is_int32_def)

lemma is_int32_i32 [simp]: "is_int32 (i32 x)"
  by (simp add: i32_def)

section \<open>Little-endian layout\<close>

type_synonym byte = "8 word"

text \<open>The object representation of a 32-bit integer on the (little-endian) x86 hosts.\<close>

definition word_to_bytes :: "32 word \<Rightarrow> byte list" where
  "word_to_bytes w = [ucast w, ucast (drop_bit 8 w), ucast (drop_bit 16 w), ucast (drop_bit 24 w)]"

definition bytes_to_word :: "byte list \<Rightarrow> 32 word" where
  "bytes_to_word bs = ucast (bs ! 0) OR push_bit 8 (ucast (bs ! 1)) OR
     push_bit 16 (ucast (bs ! 2)) OR push_bit 24 (ucast (bs ! 3))"

definition int_to_bytes :: "int \<Rightarrow> byte list" where
  "int_to_bytes i = word_to_bytes (word_of_int i)"

definition bytes_to_int :: "byte list \<Rightarrow> int" where
  "bytes_to_int bs = sint (bytes_to_word bs)"

lemma length_word_to_bytes [simp]: "length (word_to_bytes w) = 4"
  by (simp add: word_to_bytes_def)

lemma length_int_to_bytes [simp]: "length (int_to_bytes i) = 4"
  by (simp add: int_to_bytes_def)

lemma bytes_to_word_to_bytes [simp]: "bytes_to_word (word_to_bytes w @ bs) = w"
proof (rule bit_word_eqI)
  fix n assume "n < LENGTH(32)"
  then have n: "n < 32" by simp
  then consider "n < 8" | "8 \<le> n" "n < 16" | "16 \<le> n" "n < 24" | "24 \<le> n" by linarith
  then show "bit (bytes_to_word (word_to_bytes w @ bs)) n = bit w n"
    using n by cases (simp_all add: bytes_to_word_def word_to_bytes_def bit_simps nth_append, auto)
qed

lemma bytes_to_word_to_bytes_Nil [simp]: "bytes_to_word (word_to_bytes w) = w"
  using bytes_to_word_to_bytes [of w "[]"] by simp

lemma word_to_bytes_to_word:
  assumes "length bs = 4" shows "word_to_bytes (bytes_to_word bs) = bs"
proof -
  obtain a b c d where bs: "bs = [a, b, c, d]"
    using assms by (auto simp: numeral_eq_Suc length_Suc_conv)
  show ?thesis unfolding bs word_to_bytes_def bytes_to_word_def
    by (auto intro!: bit_word_eqI simp: bit_simps) (auto dest!: bit_imp_le_length)
qed

lemma bytes_to_int_to_bytes [simp]: "is_int32 i \<Longrightarrow> bytes_to_int (int_to_bytes i @ bs) = i"
  by (simp add: bytes_to_int_def int_to_bytes_def i32_id [unfolded i32_def])

lemma bytes_to_int_to_bytes_Nil [simp]: "is_int32 i \<Longrightarrow> bytes_to_int (int_to_bytes i) = i"
  using bytes_to_int_to_bytes [of i "[]"] by simp

lemma is_int32_bytes_to_int [simp]: "is_int32 (bytes_to_int bs)"
  by (simp add: bytes_to_int_def)

section \<open>Arrays laid out one element after the other\<close>

text \<open>Element \<open>i\<close> of an array whose elements take \<open>n\<close> bytes each.\<close>

definition slot :: "nat \<Rightarrow> 'a list \<Rightarrow> nat \<Rightarrow> 'a list" where
  "slot n bs i = take n (drop (i * n) bs)"

lemma length_concat_const:
  "(\<And>x. x \<in> set xs \<Longrightarrow> length (f x) = n) \<Longrightarrow> length (concat (map f xs)) = length xs * n"
  by (induction xs) auto

lemma drop_concat_const:
  assumes "\<And>x. x \<in> set xs \<Longrightarrow> length (f x) = n" "i \<le> length xs"
  shows "drop (i * n) (concat (map f xs)) = concat (map f (drop i xs))"
  using assms
proof (induction xs arbitrary: i)
  case Nil then show ?case by simp
next
  case (Cons x xs)
  then show ?case by (cases i) auto
qed

lemma slot_concat_map:
  assumes "\<And>x. x \<in> set xs \<Longrightarrow> length (f x) = n" "i < length xs"
  shows "slot n (concat (map f xs) @ ys) i = f (xs ! i)"
proof -
  have len: "length (concat (map f xs)) = length xs * n" by (rule length_concat_const) (rule assms)
  have "drop i xs = xs ! i # drop (Suc i) xs" using assms(2) by (rule Cons_nth_drop_Suc [symmetric])
  moreover have "length (f (xs ! i)) = n" using assms by simp
  moreover have "i * n \<le> length xs * n" using assms(2) by simp
  ultimately show ?thesis
    using assms by (simp add: slot_def len drop_concat_const)
qed

lemma map_slot_concat:
  assumes "\<And>x. x \<in> set xs \<Longrightarrow> length (f x) = n" "\<And>x. x \<in> set xs \<Longrightarrow> g (f x) = x"
  shows "map (\<lambda>i. g (slot n (concat (map f xs) @ ys) i)) [0..<length xs] = xs"
  by (rule nth_equalityI) (use assms in \<open>simp_all add: slot_concat_map\<close>)

section \<open>Overwriting a segment of a list\<close>

text \<open>\<open>overwrite pos new xs\<close> overwrites \<open>xs\<close> from \<open>pos\<close> on with \<open>new\<close> (the effect of \<open>bcopy\<close>).\<close>

definition overwrite :: "nat \<Rightarrow> 'a list \<Rightarrow> 'a list \<Rightarrow> 'a list" where
  "overwrite pos new xs = take pos xs @ new @ drop (pos + length new) xs"

lemma length_overwrite [simp]: "pos + length new \<le> length xs \<Longrightarrow> length (overwrite pos new xs) = length xs"
  by (simp add: overwrite_def)

lemma nth_overwrite:
  assumes "pos + length new \<le> length xs" "i < length xs"
  shows "overwrite pos new xs ! i = (if pos \<le> i \<and> i < pos + length new then new ! (i - pos) else xs ! i)"
  using assms by (auto simp: overwrite_def nth_append not_less)

lemma take_drop_overwrite:
  "pos + length new \<le> length xs \<Longrightarrow> take (length new) (drop pos (overwrite pos new xs)) = new"
  by (simp add: overwrite_def)

section \<open>Array accesses\<close>

text \<open>\<open>a[i] = v\<close> and \<open>a[i]\<close> for a C array of a known length.\<close>

definition array_set :: "'a list \<Rightarrow> int \<Rightarrow> 'a \<Rightarrow> 'a list res" where
  "array_set a i v = (if 0 \<le> i \<and> i < int (length a) then Inr (a[nat i := v]) else Inl BadIndex)"

definition array_get :: "'a list \<Rightarrow> int \<Rightarrow> 'a res" where
  "array_get a i = (if 0 \<le> i \<and> i < int (length a) then Inr (a ! nat i) else Inl BadIndex)"

lemma array_ok [simp]:
  "0 \<le> i \<Longrightarrow> i < int (length a) \<Longrightarrow> array_get a i = Inr (a ! nat i)"
  "0 \<le> i \<Longrightarrow> i < int (length a) \<Longrightarrow> array_set a i v = Inr (a[nat i := v])"
  by (simp_all add: array_get_def array_set_def)

lemma array_bad [simp]: "array_set a (-1) v = Inl BadIndex"
  by (simp add: array_set_def)

section \<open>Maps\<close>

lemma map_upds_nth:
  "distinct xs \<Longrightarrow> length xs = length ys \<Longrightarrow> k < length xs \<Longrightarrow> (m(xs [\<mapsto>] ys)) (xs ! k) = Some (ys ! k)"
proof (induction xs arbitrary: m ys k)
  case Nil then show ?case by simp
next
  case (Cons x xs)
  then obtain y ys' where "ys = y # ys'" by (cases ys) auto
  with Cons show ?case by (cases k) auto
qed

end
