(* ===== verification/Nachos_List.thy ===== *)
theory Nachos_List
  imports Nachos_Prelude "HOL-Library.Multiset"
begin

text \<open>
  \<open>threads/list.h\<close>: the singly linked list that the scheduler, the semaphores and the
  interrupt simulation queue their items on.  The model is at the level of the pointers of the
  code: a heap of list elements, the \<open>first\<close> and \<open>last\<close> pointers, and a counter that stands
  for \<open>new\<close> (it never returns an address twice).  A dereference of a null or freed
  pointer is a fault.  The theory shows that the operations never fault, never leak
  an element, and implement the abstract list operations the other components use.
\<close>

section \<open>The data structure\<close>

record 'a ListElement =
  next_ptr :: "nat option"
  key :: int
  item :: 'a

record 'a List_t =
  first_ptr :: "nat option"
  last_ptr :: "nat option"
  elements :: "nat \<rightharpoonup> 'a ListElement"
  allocated :: nat

definition deref :: "'a List_t \<Rightarrow> nat option \<Rightarrow> 'a ListElement res" where
  "deref l p = (case p of None \<Rightarrow> Inl BadPointer
     | Some a \<Rightarrow> (case elements l a of None \<Rightarrow> Inl BadPointer | Some e \<Rightarrow> Inr e))"

definition store :: "nat \<Rightarrow> 'a ListElement \<Rightarrow> 'a List_t \<Rightarrow> 'a List_t" where
  "store a e l = l\<lparr>elements := (elements l)(a \<mapsto> e)\<rparr>"

text \<open>\<open>p->next = q\<close>\<close>

definition set_next :: "nat option \<Rightarrow> nat option \<Rightarrow> 'a List_t \<Rightarrow> 'a List_t res" where
  "set_next p q l = rbind (deref l p) (\<lambda>e. Inr (store (the p) (e\<lparr>next_ptr := q\<rparr>) l))"

text \<open>\<open>new ListNode(item, sortKey)\<close>: the address of the new element and the updated heap.\<close>

definition new_element :: "'a \<Rightarrow> int \<Rightarrow> 'a List_t \<Rightarrow> nat \<times> 'a List_t" where
  "new_element it k l =
     (allocated l,
      store (allocated l) \<lparr>next_ptr = None, key = k, item = it\<rparr>
        (l\<lparr>allocated := Suc (allocated l)\<rparr>))"

definition List_new :: "'a List_t" where
  "List_new = \<lparr>first_ptr = None, last_ptr = None, elements = Map.empty, allocated = 0\<rparr>"

section \<open>The operations\<close>

definition IsEmpty :: "'a List_t \<Rightarrow> bool" where
  "IsEmpty l = (first_ptr l = None)"

definition Append :: "'a \<Rightarrow> 'a List_t \<Rightarrow> 'a List_t res" where
  "Append it l =
     (let (element, l1) = new_element it 0 l in
      if IsEmpty l1 then Inr (l1\<lparr>first_ptr := Some element, last_ptr := Some element\<rparr>)
      else rbind (set_next (last_ptr l1) (Some element) l1)
             (\<lambda>l2. Inr (l2\<lparr>last_ptr := Some element\<rparr>)))"

definition Prepend :: "'a \<Rightarrow> 'a List_t \<Rightarrow> 'a List_t res" where
  "Prepend it l =
     (let (element, l1) = new_element it 0 l in
      if IsEmpty l1 then Inr (l1\<lparr>first_ptr := Some element, last_ptr := Some element\<rparr>)
      else rbind (set_next (Some element) (first_ptr l1) l1)
             (\<lambda>l2. Inr (l2\<lparr>first_ptr := Some element\<rparr>)))"

text \<open>
  The \<open>for\<close> loop of \<open>SortedInsert\<close>; the fuel is the number of elements ever allocated, so
  running out of it means that the list is cyclic.
\<close>

fun sorted_insert_loop :: "nat \<Rightarrow> int \<Rightarrow> nat \<Rightarrow> nat option \<Rightarrow> 'a List_t \<Rightarrow> 'a List_t res" where
  "sorted_insert_loop 0 k element p l = Inl Diverges"
| "sorted_insert_loop (Suc fuel) k element p l =
     rbind (deref l p) (\<lambda>e.
       if next_ptr e = None
       then rbind (set_next (last_ptr l) (Some element) l)
              (\<lambda>l2. Inr (l2\<lparr>last_ptr := Some element\<rparr>))
       else rbind (deref l (next_ptr e)) (\<lambda>e2.
         if k < key e2
         then rbind (set_next (Some element) (next_ptr e) l) (\<lambda>l2. set_next p (Some element) l2)
         else sorted_insert_loop fuel k element (next_ptr e) l))"

definition SortedInsert :: "'a \<Rightarrow> int \<Rightarrow> 'a List_t \<Rightarrow> 'a List_t res" where
  "SortedInsert it k l =
     (let (element, l1) = new_element it k l in
      if IsEmpty l1 then Inr (l1\<lparr>first_ptr := Some element, last_ptr := Some element\<rparr>)
      else rbind (deref l1 (first_ptr l1)) (\<lambda>e.
        if k < key e
        then rbind (set_next (Some element) (first_ptr l1) l1)
               (\<lambda>l2. Inr (l2\<lparr>first_ptr := Some element\<rparr>))
        else sorted_insert_loop (allocated l1) k element (first_ptr l1) l1))"

text \<open>
  \<open>SortedRemove(int *keyPtr)\<close> returns the removed item together with its key (the value stored
  through \<open>keyPtr\<close>), and no item (\<open>Item()\<close>, a null pointer) for an empty list.  The removed
  element is deleted from the heap.
\<close>

definition SortedRemove :: "'a List_t \<Rightarrow> ((int \<times> 'a) option \<times> 'a List_t) res" where
  "SortedRemove l =
     (if IsEmpty l then Inr (None, l)
      else rbind (deref l (first_ptr l)) (\<lambda>e.
        let l1 = (if first_ptr l = last_ptr l then l\<lparr>first_ptr := None, last_ptr := None\<rparr>
                  else l\<lparr>first_ptr := next_ptr e\<rparr>)
        in Inr (Some (key e, item e),
                l1\<lparr>elements := (elements l1)(the (first_ptr l) := None)\<rparr>)))"

definition Remove :: "'a List_t \<Rightarrow> ('a option \<times> 'a List_t) res" where
  "Remove l = rbind (SortedRemove l) (\<lambda>(r, l1). Inr (map_option snd r, l1))"

text \<open>\<open>Apply\<close> walks the list; the applied procedure acts on a state that is passed along.\<close>

fun apply_loop :: "nat \<Rightarrow> ('a \<Rightarrow> 's \<Rightarrow> 's) \<Rightarrow> nat option \<Rightarrow> 'a List_t \<Rightarrow> 's \<Rightarrow> 's res" where
  "apply_loop fuel f None l s = Inr s"
| "apply_loop 0 f (Some p) l s = Inl Diverges"
| "apply_loop (Suc fuel) f (Some p) l s =
     rbind (deref l (Some p)) (\<lambda>e. apply_loop fuel f (next_ptr e) l (f (item e) s))"

definition Apply :: "('a \<Rightarrow> 's \<Rightarrow> 's) \<Rightarrow> 'a List_t \<Rightarrow> 's \<Rightarrow> 's res" where
  "Apply f l s = apply_loop (allocated l) f (first_ptr l) l s"

text \<open>\<open>~List\<close>: remove elements until the list is empty.\<close>

fun destroy_loop :: "nat \<Rightarrow> 'a List_t \<Rightarrow> 'a List_t res" where
  "destroy_loop 0 l = (if IsEmpty l then Inr l else Inl Diverges)"
| "destroy_loop (Suc fuel) l =
     (if IsEmpty l then Inr l else rbind (Remove l) (\<lambda>(_, l1). destroy_loop fuel l1))"

definition List_destroy :: "'a List_t \<Rightarrow> 'a List_t res" where
  "List_destroy l = destroy_loop (allocated l) l"

section \<open>The abstract list\<close>

text \<open>
  What the clients of the class see: a sequence of items with their sort keys.  These are the
  operations that the models of the scheduler, the semaphores and the interrupt simulation use.
\<close>

type_synonym 'a keyed = "(int \<times> 'a) list"

definition l_append :: "'a \<Rightarrow> 'a keyed \<Rightarrow> 'a keyed" where
  "l_append x xs = xs @ [(0, x)]"

definition l_prepend :: "'a \<Rightarrow> 'a keyed \<Rightarrow> 'a keyed" where
  "l_prepend x xs = (0, x) # xs"

fun l_sorted_insert :: "'a \<Rightarrow> int \<Rightarrow> 'a keyed \<Rightarrow> 'a keyed" where
  "l_sorted_insert x k [] = [(k, x)]"
| "l_sorted_insert x k ((k', y) # xs) =
     (if k < k' then (k, x) # (k', y) # xs else (k', y) # l_sorted_insert x k xs)"

fun l_remove :: "'a keyed \<Rightarrow> (int \<times> 'a) option \<times> 'a keyed" where
  "l_remove [] = (None, [])"
| "l_remove (x # xs) = (Some x, xs)"

section \<open>The representation\<close>

text \<open>\<open>seg h p as q\<close>: following \<open>next\<close> from \<open>p\<close> visits the addresses \<open>as\<close> and arrives at \<open>q\<close>.\<close>

fun seg :: "(nat \<rightharpoonup> 'a ListElement) \<Rightarrow> nat option \<Rightarrow> nat list \<Rightarrow> nat option \<Rightarrow> bool" where
  "seg h p [] q \<longleftrightarrow> p = q"
| "seg h p (a # as) q \<longleftrightarrow> p = Some a \<and> (\<exists>e. h a = Some e \<and> seg h (next_ptr e) as q)"

definition content :: "(nat \<rightharpoonup> 'a ListElement) \<Rightarrow> nat list \<Rightarrow> 'a keyed" where
  "content h ps = map (\<lambda>a. (key (the (h a)), item (the (h a)))) ps"

definition last_of :: "nat list \<Rightarrow> nat option" where
  "last_of ps = (if ps = [] then None else Some (last ps))"

definition repr :: "'a List_t \<Rightarrow> nat list \<Rightarrow> bool" where
  "repr l ps \<longleftrightarrow> seg (elements l) (first_ptr l) ps None \<and> distinct ps \<and>
     last_ptr l = last_of ps \<and> dom (elements l) = set ps \<and> (\<forall>a \<in> set ps. a < allocated l)"

text \<open>\<open>represents l xs\<close>: the pointer structure \<open>l\<close> is a well-formed list with contents \<open>xs\<close>.\<close>

definition represents :: "'a List_t \<Rightarrow> 'a keyed \<Rightarrow> bool" where
  "represents l xs \<longleftrightarrow> (\<exists>ps. repr l ps \<and> content (elements l) ps = xs)"

lemma seg_append [simp]: "seg h p (as @ bs) q \<longleftrightarrow> (\<exists>r. seg h p as r \<and> seg h r bs q)"
  by (induction as arbitrary: p) auto

lemma seg_upd [simp]: "a \<notin> set as \<Longrightarrow> seg (h(a := v)) p as q = seg h p as q"
  by (induction as arbitrary: p) auto

lemma seg_dom: "seg h p as q \<Longrightarrow> set as \<subseteq> dom h"
  by (induction as arbitrary: p) auto

lemma content_simps [simp]:
  "content h [] = []"
  "content h (a # as) = (key (the (h a)), item (the (h a))) # content h as"
  "content h (as @ bs) = content h as @ content h bs"
  by (simp_all add: content_def)

lemma content_upd [simp]: "a \<notin> set as \<Longrightarrow> content (h(a := v)) as = content h as"
  by (auto simp: content_def)

lemma last_of_simps [simp]:
  "last_of [] = None"
  "last_of (as @ [a]) = Some a"
  "last_of (as @ a # b # bs) = last_of (b # bs)"
  "last_of (a # b # bs) = last_of (b # bs)"
  "last_of [a] = Some a"
  by (simp_all add: last_of_def)

lemma last_of_append [simp]: "bs \<noteq> [] \<Longrightarrow> last_of (as @ bs) = last_of bs"
  by (simp add: last_of_def)

lemma deref_Some [simp]: "elements l a = Some e \<Longrightarrow> deref l (Some a) = Inr e"
  by (simp add: deref_def)

lemma set_next_Some [simp]:
  "elements l a = Some e \<Longrightarrow> set_next (Some a) q l = Inr (store a (e\<lparr>next_ptr := q\<rparr>) l)"
  by (simp add: set_next_def)

lemma store_sel [simp]:
  "first_ptr (store a e l) = first_ptr l"
  "last_ptr (store a e l) = last_ptr l"
  "allocated (store a e l) = allocated l"
  "elements (store a e l) = (elements l)(a \<mapsto> e)"
  by (simp_all add: store_def)

lemma IsEmpty_represents: "represents l xs \<Longrightarrow> IsEmpty l \<longleftrightarrow> xs = []"
proof -
  assume "represents l xs"
  then obtain ps where "repr l ps" "content (elements l) ps = xs"
    by (auto simp: represents_def)
  then show ?thesis by (cases ps) (auto simp: repr_def IsEmpty_def)
qed

text \<open>The contents are determined by the pointers, so \<open>represents\<close> is an abstraction function.\<close>

lemma seg_unique: "seg h p as None \<Longrightarrow> seg h p bs None \<Longrightarrow> as = bs"
proof (induction as arbitrary: p bs)
  case Nil then show ?case by (cases bs) auto
next
  case (Cons a as) then show ?case by (cases bs) auto
qed

lemma represents_unique: "represents l xs \<Longrightarrow> represents l ys \<Longrightarrow> xs = ys"
  by (auto simp: represents_def repr_def dest: seg_unique)

section \<open>Linking a new element\<close>

text \<open>
  The state right after \<open>new ListNode\<close>: the list \<open>ps\<close> is intact and the element \<open>el\<close> is in the
  heap but not linked yet.
\<close>

definition unlinked :: "'a List_t \<Rightarrow> nat list \<Rightarrow> nat \<Rightarrow> 'a \<Rightarrow> int \<Rightarrow> bool" where
  "unlinked l ps el x k \<longleftrightarrow> seg (elements l) (first_ptr l) ps None \<and> distinct (el # ps) \<and>
     last_ptr l = last_of ps \<and> dom (elements l) = insert el (set ps) \<and>
     elements l el = Some \<lparr>next_ptr = None, key = k, item = x\<rparr> \<and>
     (\<forall>a \<in> set (el # ps). a < allocated l)"

lemma new_element_unlinked:
  assumes "repr l ps" "new_element x k l = (el, l1)"
  shows "unlinked l1 ps el x k" "content (elements l1) ps = content (elements l) ps"
    "allocated l1 = Suc (allocated l)"
proof -
  have el: "el = allocated l" and l1: "l1 = store (allocated l) \<lparr>next_ptr = None, key = k, item = x\<rparr>
        (l\<lparr>allocated := Suc (allocated l)\<rparr>)"
    using assms(2) by (auto simp: new_element_def)
  have fresh: "allocated l \<notin> set ps" using assms(1) by (auto simp: repr_def)
  show "unlinked l1 ps el x k" using assms(1) fresh
    by (auto simp: el l1 unlinked_def repr_def less_Suc_eq)
  show "content (elements l1) ps = content (elements l) ps" using fresh by (simp add: l1)
  show "allocated l1 = Suc (allocated l)" by (simp add: l1)
qed

lemma link_only:
  assumes "unlinked l [] el x k"
  shows "represents (l\<lparr>first_ptr := Some el, last_ptr := Some el\<rparr>) [(k, x)]"
  using assms unfolding represents_def
  by (intro exI [of _ "[el]"]) (auto simp: unlinked_def repr_def)

lemma link_front:
  assumes "unlinked l ps el x k" "ps \<noteq> []"
  shows "\<exists>l2. set_next (Some el) (first_ptr l) l = Inr l2 \<and>
     represents (l2\<lparr>first_ptr := Some el\<rparr>) ((k, x) # content (elements l) ps)"
proof -
  have "elements l el = Some \<lparr>next_ptr = None, key = k, item = x\<rparr>"
    using assms(1) by (simp add: unlinked_def)
  moreover have "repr ((store el \<lparr>next_ptr = first_ptr l, key = k, item = x\<rparr> l)\<lparr>first_ptr := Some el\<rparr>)
      (el # ps)"
    using assms by (cases ps) (auto simp: unlinked_def repr_def)
  moreover have "el \<notin> set ps" using assms(1) by (simp add: unlinked_def)
  ultimately show ?thesis unfolding represents_def
    by (auto intro!: exI [of _ "el # ps"])
qed

lemma link_after:
  assumes "unlinked l (as @ p # b # bs) el x k"
  shows "\<exists>l2 l3. set_next (Some el) (Some b) l = Inr l2 \<and> set_next (Some p) (Some el) l2 = Inr l3 \<and>
     represents l3 (content (elements l) (as @ [p]) @ (k, x) # content (elements l) (b # bs))"
proof -
  obtain e where e: "elements l p = Some e" "next_ptr e = Some b"
    using assms by (auto simp: unlinked_def)
  have neq: "el \<noteq> p" "p \<notin> set as" "p \<noteq> b" "p \<notin> set bs" "el \<notin> set as" "el \<noteq> b" "el \<notin> set bs"
    using assms by (auto simp: unlinked_def)
  let ?l2 = "store el \<lparr>next_ptr = Some b, key = k, item = x\<rparr> l"
  let ?l3 = "store p (e\<lparr>next_ptr := Some el\<rparr>) ?l2"
  have "elements l el = Some \<lparr>next_ptr = None, key = k, item = x\<rparr>"
    using assms by (simp add: unlinked_def)
  moreover have "repr ?l3 (as @ p # el # b # bs)"
    using assms e neq by (auto simp: unlinked_def repr_def)
  ultimately show ?thesis using e neq unfolding represents_def
    by (auto intro!: exI [of _ "as @ p # el # b # bs"])
qed

lemma link_end:
  assumes "unlinked l ps el x k" "ps \<noteq> []"
  shows "\<exists>l2. set_next (last_ptr l) (Some el) l = Inr l2 \<and>
     represents (l2\<lparr>last_ptr := Some el\<rparr>) (content (elements l) ps @ [(k, x)])"
proof -
  obtain as p where ps: "ps = as @ [p]" using assms(2) by (metis rev_exhaust)
  obtain e where e: "elements l p = Some e" "next_ptr e = None"
    using assms by (auto simp: unlinked_def ps)
  have neq: "el \<noteq> p" "p \<notin> set as" "el \<notin> set as"
    using assms by (auto simp: unlinked_def ps)
  have last: "last_ptr l = Some p" using assms by (simp add: unlinked_def ps)
  let ?l2 = "store p (e\<lparr>next_ptr := Some el\<rparr>) l"
  have "elements l el = Some \<lparr>next_ptr = None, key = k, item = x\<rparr>"
    using assms by (simp add: unlinked_def)
  then have "repr (?l2\<lparr>last_ptr := Some el\<rparr>) (as @ [p, el])"
    using assms e neq by (auto simp: unlinked_def repr_def ps)
  moreover have "content (elements ?l2) (as @ [p, el]) = content (elements l) ps @ [(k, x)]"
    using assms e neq by (auto simp: unlinked_def ps)
  ultimately show ?thesis using e last unfolding represents_def by auto
qed

section \<open>The operations refine the abstract ones\<close>

lemma represents_List_new [simp]: "represents List_new []"
  unfolding represents_def by (rule exI [of _ "[]"]) (simp add: repr_def List_new_def)

lemma unlinked_IsEmpty: "unlinked l ps el x k \<Longrightarrow> IsEmpty l \<longleftrightarrow> ps = []"
  by (cases ps) (auto simp: unlinked_def IsEmpty_def)

lemma Append_refines:
  assumes "represents l xs"
  shows "\<exists>l'. Append x l = Inr l' \<and> represents l' (l_append x xs)"
proof -
  obtain ps where ps: "repr l ps" "content (elements l) ps = xs"
    using assms by (auto simp: represents_def)
  obtain el l1 where l1: "new_element x 0 l = (el, l1)" by (cases "new_element x 0 l")
  note u = new_element_unlinked [OF ps(1) l1]
  show ?thesis
    using link_only [of l1 el x 0] link_end [OF u(1)] u ps(2)
    by (cases "ps = []") (auto simp: Append_def l1 l_append_def unlinked_IsEmpty [OF u(1)])
qed

lemma Prepend_refines:
  assumes "represents l xs"
  shows "\<exists>l'. Prepend x l = Inr l' \<and> represents l' (l_prepend x xs)"
proof -
  obtain ps where ps: "repr l ps" "content (elements l) ps = xs"
    using assms by (auto simp: represents_def)
  obtain el l1 where l1: "new_element x 0 l = (el, l1)" by (cases "new_element x 0 l")
  note u = new_element_unlinked [OF ps(1) l1]
  show ?thesis
    using link_only [of l1 el x 0] link_front [OF u(1)] u ps(2)
    by (cases "ps = []") (auto simp: Prepend_def l1 l_prepend_def unlinked_IsEmpty [OF u(1)])
qed

lemma sorted_insert_loop_correct:
  assumes "unlinked l (as @ p # bs) el x k" "length bs < fuel"
  shows "\<exists>l'. sorted_insert_loop fuel k el (Some p) l = Inr l' \<and>
     represents l' (content (elements l) (as @ [p]) @ l_sorted_insert x k (content (elements l) bs))"
  using assms
proof (induction bs arbitrary: as p fuel)
  case Nil
  obtain e where "elements l p = Some e" "next_ptr e = None"
    using Nil.prems(1) by (auto simp: unlinked_def)
  with link_end [OF Nil.prems(1)] Nil.prems(2) show ?case
    by (cases fuel) auto
next
  case (Cons b bs)
  obtain f where fuel: "fuel = Suc f" using Cons.prems(2) by (cases fuel) auto
  obtain e e2 where e: "elements l p = Some e" "next_ptr e = Some b" "elements l b = Some e2"
    using Cons.prems(1) by (auto simp: unlinked_def)
  have "unlinked l ((as @ [p]) @ b # bs) el x k" using Cons.prems(1) by simp
  moreover have "length bs < f" using Cons.prems(2) fuel by simp
  ultimately have IH: "\<exists>l'. sorted_insert_loop f k el (Some b) l = Inr l' \<and>
     represents l' (content (elements l) ((as @ [p]) @ [b]) @
       l_sorted_insert x k (content (elements l) bs))"
    by (rule Cons.IH)
  show ?case
  proof (cases "k < key e2")
    case True
    with link_after [OF Cons.prems(1)] e show ?thesis by (auto simp: fuel)
  next
    case False
    with IH e show ?thesis by (auto simp: fuel)
  qed
qed

lemma repr_length: "repr l ps \<Longrightarrow> length ps \<le> allocated l"
proof -
  assume "repr l ps"
  then have "set ps \<subseteq> {..<allocated l}" "distinct ps" by (auto simp: repr_def)
  then show ?thesis
    using card_mono [of "{..<allocated l}" "set ps"] by (simp add: distinct_card)
qed

lemma SortedInsert_refines:
  assumes "represents l xs"
  shows "\<exists>l'. SortedInsert x k l = Inr l' \<and> represents l' (l_sorted_insert x k xs)"
proof -
  obtain ps where ps: "repr l ps" "content (elements l) ps = xs"
    using assms by (auto simp: represents_def)
  obtain el l1 where l1: "new_element x k l = (el, l1)" by (cases "new_element x k l")
  note u = new_element_unlinked [OF ps(1) l1]
  show ?thesis
  proof (cases ps)
    case Nil
    with link_only [of l1 el x k] u ps(2) show ?thesis
      by (auto simp: SortedInsert_def l1 unlinked_IsEmpty [OF u(1)])
  next
    case (Cons p bs)
    obtain e where e: "first_ptr l1 = Some p" "elements l1 p = Some e"
      using u(1) Cons by (auto simp: unlinked_def)
    have "length bs < allocated l1"
      using repr_length [OF ps(1)] u(3) Cons by simp
    then have loop: "\<exists>l'. sorted_insert_loop (allocated l1) k el (Some p) l1 = Inr l' \<and>
        represents l' (content (elements l1) ([] @ [p]) @ l_sorted_insert x k (content (elements l1) bs))"
      using sorted_insert_loop_correct [of l1 "[]" p bs el x k] u(1) Cons by simp
    have front: "\<exists>l2. set_next (Some el) (first_ptr l1) l1 = Inr l2 \<and>
        represents (l2\<lparr>first_ptr := Some el\<rparr>) ((k, x) # xs)"
      using link_front [OF u(1)] Cons u(2) ps(2) by simp
    have xs: "xs = (key e, item e) # content (elements l1) bs"
      using u(2) ps(2) Cons e by simp
    have ne: "\<not> IsEmpty l1" using unlinked_IsEmpty [OF u(1)] Cons by simp
    show ?thesis
      using loop front e(2) by (auto simp: SortedInsert_def l1 ne e xs)
  qed
qed

lemma SortedRemove_refines:
  assumes "represents l xs"
  shows "\<exists>l'. SortedRemove l = Inr (fst (l_remove xs), l') \<and> represents l' (snd (l_remove xs))"
proof -
  obtain ps where ps: "repr l ps" "content (elements l) ps = xs"
    using assms by (auto simp: represents_def)
  show ?thesis
  proof (cases ps)
    case Nil
    with ps assms show ?thesis by (auto simp: SortedRemove_def IsEmpty_def repr_def)
  next
    case (Cons p bs)
    obtain e where e: "first_ptr l = Some p" "elements l p = Some e" "seg (elements l) (next_ptr e) bs None"
      using ps(1) Cons by (auto simp: repr_def)
    let ?l' = "(if bs = [] then l\<lparr>first_ptr := None, last_ptr := None\<rparr> else l\<lparr>first_ptr := next_ptr e\<rparr>)
        \<lparr>elements := (elements l)(p := None)\<rparr>"
    have single: "Some p = last_ptr l \<longleftrightarrow> bs = []"
      using ps(1) Cons by (auto simp: repr_def last_of_def)
    have "repr ?l' bs" using ps(1) Cons e by (cases bs) (auto simp: repr_def)
    moreover have "content (elements ?l') bs = content (elements l) bs"
      using ps(1) Cons by (simp add: repr_def)
    ultimately have "represents ?l' (content (elements l) bs)" by (auto simp: represents_def)
    moreover have "xs = (key e, item e) # content (elements l) bs" using ps(2) Cons e by simp
    moreover have "SortedRemove l = Inr (Some (key e, item e), ?l')"
      using e single by (simp add: SortedRemove_def IsEmpty_def)
    ultimately show ?thesis by simp
  qed
qed

lemma Remove_refines:
  assumes "represents l xs"
  shows "\<exists>l'. Remove l = Inr (map_option snd (fst (l_remove xs)), l') \<and> represents l' (snd (l_remove xs))"
  using SortedRemove_refines [OF assms] by (auto simp: Remove_def)

lemma apply_loop_correct:
  assumes "seg (elements l) p ps None" "length ps \<le> fuel"
  shows "apply_loop fuel f p l s = Inr (fold f (map snd (content (elements l) ps)) s)"
  using assms
proof (induction ps arbitrary: p fuel s)
  case Nil then show ?case by simp
next
  case (Cons a ps)
  then show ?case by (cases fuel) auto
qed

lemma Apply_correct:
  assumes "represents l xs"
  shows "Apply f l s = Inr (fold f (map snd xs) s)"
proof -
  obtain ps where ps: "repr l ps" "content (elements l) ps = xs"
    using assms by (auto simp: represents_def)
  then show ?thesis
    using apply_loop_correct [of l "first_ptr l" ps "allocated l" f s] repr_length [OF ps(1)]
    by (simp add: Apply_def repr_def)
qed

lemma destroy_loop_correct:
  "represents l xs \<Longrightarrow> length xs \<le> fuel \<Longrightarrow> \<exists>l'. destroy_loop fuel l = Inr l' \<and> represents l' []"
proof (induction xs arbitrary: l fuel)
  case Nil then show ?case by (cases fuel) (auto simp: IsEmpty_represents)
next
  case (Cons x xs)
  then obtain f where f: "fuel = Suc f" by (cases fuel) auto
  obtain l1 where "Remove l = Inr (Some (snd x), l1)" "represents l1 xs"
    using Remove_refines [OF Cons.prems(1)] by auto
  with Cons f show ?case by (auto simp: IsEmpty_represents [OF Cons.prems(1)])
qed

lemma List_destroy_correct:
  assumes "represents l xs"
  shows "\<exists>l'. List_destroy l = Inr l' \<and> represents l' [] \<and> elements l' = Map.empty"
proof -
  obtain ps where ps: "repr l ps" "content (elements l) ps = xs"
    using assms by (auto simp: represents_def)
  have "length xs \<le> allocated l" using ps repr_length [OF ps(1)] by (auto simp: content_def)
  then obtain l' where l': "destroy_loop (allocated l) l = Inr l'" "represents l' []"
    using destroy_loop_correct [OF assms] by blast
  then have "elements l' = Map.empty" by (auto simp: represents_def repr_def content_def)
  with l' show ?thesis by (auto simp: List_destroy_def)
qed

section \<open>Sortedness and stability\<close>

lemma mset_l_sorted_insert [simp]: "mset (l_sorted_insert x k xs) = add_mset (k, x) (mset xs)"
  by (induction x k xs rule: l_sorted_insert.induct) auto

lemma set_l_sorted_insert [simp]: "set (l_sorted_insert x k xs) = insert (k, x) (set xs)"
  by (induction x k xs rule: l_sorted_insert.induct) auto

lemma length_l_sorted_insert [simp]: "length (l_sorted_insert x k xs) = Suc (length xs)"
  by (induction x k xs rule: l_sorted_insert.induct) auto

lemma sorted_l_sorted_insert [simp]:
  "sorted (map fst xs) \<Longrightarrow> sorted (map fst (l_sorted_insert x k xs))"
  by (induction x k xs rule: l_sorted_insert.induct) fastforce+

lemma filter_l_sorted_insert:
  "sorted (map fst xs) \<Longrightarrow>
   filter (\<lambda>y. fst y = c) (l_sorted_insert x k xs) =
   filter (\<lambda>y. fst y = c) xs @ (if k = c then [(k, x)] else [])"
proof (induction x k xs rule: l_sorted_insert.induct)
  case (2 x k k' y xs)
  have none: "k < k' \<Longrightarrow> filter (\<lambda>y. fst y = k) xs = []"
    using "2.prems" by (auto intro!: filter_False)
  show ?case using 2 none by (cases "k < k'") auto
qed simp

lemma l_remove_simps [simp]:
  "fst (l_remove xs) = (if xs = [] then None else Some (hd xs))"
  "snd (l_remove xs) = tl xs"
  by (cases xs; simp)+

section \<open>Interfaces for the clients of the class\<close>

text \<open>Running a list of insertions, and taking a number of items out again.\<close>

fun put_all :: "('a \<Rightarrow> 'q \<Rightarrow> 'q res) \<Rightarrow> 'a list \<Rightarrow> 'q \<Rightarrow> 'q res" where
  "put_all put [] q = Inr q"
| "put_all put (x # xs) q = rbind (put x q) (put_all put xs)"

fun take_all :: "('q \<Rightarrow> ('a option \<times> 'q) res) \<Rightarrow> nat \<Rightarrow> 'q \<Rightarrow> ('a list \<times> 'q) res" where
  "take_all get 0 q = Inr ([], q)"
| "take_all get (Suc n) q = rbind (get q) (\<lambda>(r, q1).
     case r of None \<Rightarrow> Inr ([], q1)
     | Some x \<Rightarrow> rbind (take_all get n q1) (\<lambda>(ys, q2). Inr (x # ys, q2)))"

text \<open>
  A container whose items come out at the front: \<open>put\<close> may place an item anywhere, as the
  function \<open>place\<close> on the abstract contents says.
\<close>

locale front_container =
  fixes put :: "'a \<Rightarrow> 'q \<Rightarrow> 'q res"
    and get :: "'q \<Rightarrow> ('a option \<times> 'q) res"
    and holds :: "'q \<Rightarrow> 'a list \<Rightarrow> bool"
    and place :: "'a \<Rightarrow> 'a list \<Rightarrow> 'a list"
  assumes put_law: "holds q xs \<Longrightarrow> \<exists>q'. put x q = Inr q' \<and> holds q' (place x xs)"
    and get_empty: "holds q [] \<Longrightarrow> \<exists>q'. get q = Inr (None, q') \<and> holds q' []"
    and get_law: "holds q (x # xs) \<Longrightarrow> \<exists>q'. get q = Inr (Some x, q') \<and> holds q' xs"
begin

lemma put_all_law: "holds q xs \<Longrightarrow> \<exists>q'. put_all put ys q = Inr q' \<and> holds q' (fold place ys xs)"
proof (induction ys arbitrary: q xs)
  case Nil then show ?case by simp
next
  case (Cons y ys)
  obtain q1 where "put y q = Inr q1" "holds q1 (place y xs)" using put_law [OF Cons.prems] by blast
  with Cons.IH show ?case by simp
qed

lemma take_all_law: "holds q (xs @ ys) \<Longrightarrow> \<exists>q'. take_all get (length xs) q = Inr (xs, q') \<and> holds q' ys"
proof (induction xs arbitrary: q)
  case Nil then show ?case by simp
next
  case (Cons x xs)
  obtain q1 where "get q = Inr (Some x, q1)" "holds q1 (xs @ ys)"
    using get_law [of q x "xs @ ys"] Cons.prems by auto
  with Cons.IH show ?case by fastforce
qed

lemma put_then_take:
  assumes "holds q []" "length (fold place ys []) = length ys"
  shows "\<exists>q1 q2. put_all put ys q = Inr q1 \<and> take_all get (length ys) q1 = Inr (fold place ys [], q2) \<and>
     holds q2 []"
proof -
  obtain q1 where q1: "put_all put ys q = Inr q1" "holds q1 (fold place ys [] @ [])"
    using put_all_law [OF assms(1), of ys] by auto
  show ?thesis using take_all_law [OF q1(2)] q1(1) assms(2) by auto
qed

end

text \<open>A first-in first-out queue: \<open>put\<close> is \<open>Append\<close>.\<close>

locale fifo = front_container put get holds "\<lambda>x xs. xs @ [x]"
  for put :: "'a \<Rightarrow> 'q \<Rightarrow> 'q res" and get :: "'q \<Rightarrow> ('a option \<times> 'q) res"
    and holds :: "'q \<Rightarrow> 'a list \<Rightarrow> bool"
begin

lemma fold_snoc: "fold (\<lambda>x xs. xs @ [x]) ys xs = xs @ ys"
  by (induction ys arbitrary: xs) auto

lemma first_in_first_out:
  "holds q [] \<Longrightarrow> \<exists>q1 q2. put_all put ys q = Inr q1 \<and> take_all get (length ys) q1 = Inr (ys, q2) \<and> holds q2 []"
  using put_then_take [of q ys] by (simp add: fold_snoc)

end

text \<open>A priority queue of keyed items: \<open>put\<close> is \<open>SortedInsert\<close>.\<close>

locale prio_queue = front_container put get holds "\<lambda>(k, x). l_sorted_insert x k"
  for put :: "int \<times> 'a \<Rightarrow> 'q \<Rightarrow> 'q res" and get :: "'q \<Rightarrow> ((int \<times> 'a) option \<times> 'q) res"
    and holds :: "'q \<Rightarrow> 'a keyed \<Rightarrow> bool"
begin

lemma mset_fold_sorted_insert:
  "mset (fold (\<lambda>(k, x). l_sorted_insert x k) xs ys) = mset xs + mset ys"
  by (induction xs arbitrary: ys) (simp_all split: prod.split)

lemma sorted_fold_sorted_insert:
  "sorted (map fst ys) \<Longrightarrow> sorted (map fst (fold (\<lambda>(k, x). l_sorted_insert x k) xs ys))"
  by (induction xs arbitrary: ys) (simp_all split: prod.split)

lemma filter_fold_sorted_insert:
  "sorted (map fst ys) \<Longrightarrow> filter (\<lambda>y. fst y = c) (fold (\<lambda>(k, x). l_sorted_insert x k) xs ys) =
     filter (\<lambda>y. fst y = c) ys @ filter (\<lambda>y. fst y = c) xs"
  by (induction xs arbitrary: ys) (simp_all add: filter_l_sorted_insert split: prod.split)

lemma fold_sorted_insert_sort_key: "fold (\<lambda>(k, x). l_sorted_insert x k) xs [] = sort_key fst xs"
proof (rule properties_for_sort_key [symmetric])
  let ?ys = "fold (\<lambda>(k, x). l_sorted_insert x k) xs []"
  show "mset ?ys = mset xs" by (simp add: mset_fold_sorted_insert)
  show "sorted (map fst ?ys)" by (simp add: sorted_fold_sorted_insert)
  show "filter (\<lambda>y. fst k = fst y) ?ys = filter (\<lambda>y. fst k = fst y) xs" for k
    using filter_fold_sorted_insert [of "[]" "fst k" xs] by (simp add: eq_commute [of "fst k"])
qed

lemma put_take_sorts:
  "holds q [] \<Longrightarrow> \<exists>q1 q2. put_all put xs q = Inr q1 \<and>
     take_all get (length xs) q1 = Inr (sort_key fst xs, q2) \<and> holds q2 []"
  using put_then_take [of q xs] by (simp add: fold_sorted_insert_sort_key)

end

text \<open>The linked list of \<open>list.h\<close> provides both interfaces.\<close>

definition holds_items :: "'a List_t \<Rightarrow> 'a list \<Rightarrow> bool" where
  "holds_items l xs \<longleftrightarrow> represents l (map (Pair 0) xs)"

interpretation list_fifo: fifo Append Remove holds_items
proof unfold_locales
  fix l :: "'a List_t" and x :: 'a and xs :: "'a list"
  show "holds_items l xs \<Longrightarrow> \<exists>l'. Append x l = Inr l' \<and> holds_items l' (xs @ [x])"
    using Append_refines [of l "map (Pair 0) xs" x] by (simp add: holds_items_def l_append_def)
  show "holds_items l [] \<Longrightarrow> \<exists>l'. Remove l = Inr (None, l') \<and> holds_items l' []"
    using Remove_refines [of l "[]"] by (simp add: holds_items_def)
  show "holds_items l (x # xs) \<Longrightarrow> \<exists>l'. Remove l = Inr (Some x, l') \<and> holds_items l' xs"
    using Remove_refines [of l "map (Pair 0) (x # xs)"] by (simp add: holds_items_def)
qed

interpretation list_prio: prio_queue "\<lambda>(k, x). SortedInsert x k" SortedRemove represents
proof unfold_locales
  fix l :: "'a List_t" and x :: "int \<times> 'a" and xs :: "'a keyed"
  show "represents l xs \<Longrightarrow> \<exists>l'. (case x of (k, x) \<Rightarrow> SortedInsert x k) l = Inr l' \<and>
      represents l' ((case x of (k, x) \<Rightarrow> l_sorted_insert x k) xs)"
    using SortedInsert_refines by (cases x) auto
  show "represents l [] \<Longrightarrow> \<exists>l'. SortedRemove l = Inr (None, l') \<and> represents l' []"
    using SortedRemove_refines [of l "[]"] by simp
  show "represents l (x # xs) \<Longrightarrow> \<exists>l'. SortedRemove l = Inr (Some x, l') \<and> represents l' xs"
    using SortedRemove_refines [of l "x # xs"] by simp
qed

end
