(* ===== verification/Nachos_BitMap.thy ===== *)
theory Nachos_BitMap
  imports Nachos_Prelude
begin

text \<open>
  \<open>userprog/bitmap.cc\<close>: an array of bits kept in an array of 32-bit words.  The model keeps the
  words and the bit arithmetic of the code; the theory shows that they implement a finite set
  of integers with a least-free-number allocator.  The interface that the file system, the open
  file table, the semaphore table and the page frames rely on is the locale \<open>allocator\<close>.
\<close>

section \<open>The bitmap of the code\<close>

definition BitsInWord :: int where "BitsInWord = 32"

record BitMap =
  numBits :: int
  numWords :: int
  bits :: "32 word list"

text \<open>\<open>map[which / BitsInWord]\<close>: the index of the word, and the position of the bit in it.\<close>

definition word_index :: "int \<Rightarrow> nat" where
  "word_index which = nat (which sdiv BitsInWord)"

definition bit_index :: "int \<Rightarrow> nat" where
  "bit_index which = nat (which smod BitsInWord)"

definition Mark :: "int \<Rightarrow> BitMap \<Rightarrow> BitMap res" where
  "Mark which bm = ASSERT (which \<ge> 0 \<and> which < numBits bm)
     (if word_index which < length (bits bm)
      then Inr (bm\<lparr>bits := (bits bm)[word_index which :=
             (bits bm ! word_index which) OR push_bit (bit_index which) 1]\<rparr>)
      else Inl BadIndex)"

definition Clear :: "int \<Rightarrow> BitMap \<Rightarrow> BitMap res" where
  "Clear which bm = ASSERT (which \<ge> 0 \<and> which < numBits bm)
     (if word_index which < length (bits bm)
      then Inr (bm\<lparr>bits := (bits bm)[word_index which :=
             (bits bm ! word_index which) AND NOT (push_bit (bit_index which) 1)]\<rparr>)
      else Inl BadIndex)"

definition Test :: "int \<Rightarrow> BitMap \<Rightarrow> bool res" where
  "Test which bm = ASSERT (which \<ge> 0 \<and> which < numBits bm)
     (if word_index which < length (bits bm)
      then Inr (((bits bm ! word_index which) AND push_bit (bit_index which) 1) \<noteq> 0)
      else Inl BadIndex)"

text \<open>
  The constructor clears every bit of a freshly allocated (uninitialised) array: \<open>junk\<close> is what
  the allocated memory happens to hold.
\<close>

fun clear_loop :: "int list \<Rightarrow> BitMap \<Rightarrow> BitMap res" where
  "clear_loop [] bm = Inr bm"
| "clear_loop (i # is) bm = rbind (Clear i bm) (clear_loop is)"

definition BitMap_new :: "32 word list \<Rightarrow> int \<Rightarrow> BitMap res" where
  "BitMap_new junk nitems =
     clear_loop [0..nitems - 1]
       \<lparr>numBits = nitems, numWords = divRoundUp nitems BitsInWord,
        bits = take (nat (divRoundUp nitems BitsInWord)) junk\<rparr>"

fun find_loop :: "int list \<Rightarrow> BitMap \<Rightarrow> (int \<times> BitMap) res" where
  "find_loop [] bm = Inr (-1, bm)"
| "find_loop (i # is) bm = rbind (Test i bm) (\<lambda>t.
     if \<not> t then rbind (Mark i bm) (\<lambda>bm1. Inr (i, bm1)) else find_loop is bm)"

definition Find :: "BitMap \<Rightarrow> (int \<times> BitMap) res" where
  "Find bm = find_loop [0..numBits bm - 1] bm"

fun num_clear_loop :: "int list \<Rightarrow> int \<Rightarrow> BitMap \<Rightarrow> int res" where
  "num_clear_loop [] count bm = Inr count"
| "num_clear_loop (i # is) count bm = rbind (Test i bm) (\<lambda>t.
     num_clear_loop is (if \<not> t then count + 1 else count) bm)"

definition NumClear :: "BitMap \<Rightarrow> int res" where
  "NumClear bm = num_clear_loop [0..numBits bm - 1] 0 bm"

text \<open>\<open>Print\<close>: the numbers it prints, in order.\<close>

fun print_loop :: "int list \<Rightarrow> BitMap \<Rightarrow> int list res" where
  "print_loop [] bm = Inr []"
| "print_loop (i # is) bm = rbind (Test i bm) (\<lambda>t.
     rbind (print_loop is bm) (\<lambda>out. Inr (if t then i # out else out)))"

definition BitMap_Print :: "BitMap \<Rightarrow> int list res" where
  "BitMap_Print bm = print_loop [0..numBits bm - 1] bm"

section \<open>The set a bitmap stands for\<close>

definition bitmap_ok :: "BitMap \<Rightarrow> bool" where
  "bitmap_ok bm \<longleftrightarrow> 0 \<le> numBits bm \<and> numWords bm = divRoundUp (numBits bm) BitsInWord \<and>
     length (bits bm) = nat (numWords bm)"

definition used :: "BitMap \<Rightarrow> int set" where
  "used bm = {i. 0 \<le> i \<and> i < numBits bm \<and> bit (bits bm ! word_index i) (bit_index i)}"

lemma index_arith:
  assumes "0 \<le> i"
  shows "word_index i = nat (i div 32)" "bit_index i = nat (i mod 32)" "bit_index i < 32"
  using assms by (simp_all add: word_index_def bit_index_def BitsInWord_def sdiv_nonneg smod_nonneg nat_less_iff)

lemma index_inj:
  assumes "0 \<le> i" "0 \<le> j" "word_index i = word_index j" "bit_index i = bit_index j"
  shows "i = j"
proof -
  have "i div 32 = j div 32" "i mod 32 = j mod 32"
    using assms by (simp_all add: index_arith eq_nat_nat_iff pos_imp_zdiv_nonneg_iff)
  then show ?thesis by (metis mult_div_mod_eq)
qed

lemma word_index_in_range:
  assumes "bitmap_ok bm" "0 \<le> i" "i < numBits bm"
  shows "word_index i < length (bits bm)"
proof -
  have "numBits bm \<le> numWords bm * 32"
    using assms divRoundUp_bounds(1) [of "numBits bm" 32] by (simp add: bitmap_ok_def BitsInWord_def)
  then have "i div 32 < numWords bm" using assms by linarith
  then show ?thesis using assms by (simp add: bitmap_ok_def index_arith nat_less_eq_zless)
qed

lemma Test_correct:
  assumes "bitmap_ok bm" "0 \<le> i" "i < numBits bm"
  shows "Test i bm = Inr (i \<in> used bm)"
proof -
  show ?thesis using assms
    by (simp add: Test_def word_index_in_range used_def bit_iff_and_push_bit_not_eq_0)
qed

lemma Mark_correct:
  assumes "bitmap_ok bm" "0 \<le> i" "i < numBits bm"
  shows "\<exists>bm'. Mark i bm = Inr bm' \<and> bitmap_ok bm' \<and> numBits bm' = numBits bm \<and>
    used bm' = insert i (used bm)"
proof -
  let ?bm' = "bm\<lparr>bits := (bits bm)[word_index i := (bits bm ! word_index i) OR push_bit (bit_index i) 1]\<rparr>"
  have "used ?bm' = insert i (used bm)"
  proof (rule set_eqI)
    fix j
    show "j \<in> used ?bm' \<longleftrightarrow> j \<in> insert i (used bm)"
    proof (cases "0 \<le> j \<and> j < numBits bm")
      case True
      then show ?thesis
        using assms word_index_in_range [OF assms] index_inj [of j i] index_arith(3) [of j] index_arith(3) [of i]
        by (auto simp: used_def nth_list_update bit_simps)
    next
      case False
      then show ?thesis using assms by (auto simp: used_def)
    qed
  qed
  then show ?thesis using assms word_index_in_range [OF assms]
    by (auto simp: Mark_def bitmap_ok_def)
qed

lemma Clear_correct:
  assumes "bitmap_ok bm" "0 \<le> i" "i < numBits bm"
  shows "\<exists>bm'. Clear i bm = Inr bm' \<and> bitmap_ok bm' \<and> numBits bm' = numBits bm \<and>
    used bm' = used bm - {i}"
proof -
  let ?bm' = "bm\<lparr>bits := (bits bm)[word_index i := (bits bm ! word_index i) AND NOT (push_bit (bit_index i) 1)]\<rparr>"
  have "used ?bm' = used bm - {i}"
  proof (rule set_eqI)
    fix j
    show "j \<in> used ?bm' \<longleftrightarrow> j \<in> used bm - {i}"
    proof (cases "0 \<le> j \<and> j < numBits bm")
      case True
      then show ?thesis
        using assms word_index_in_range [OF assms] index_inj [of j i] index_arith(3) [of j] index_arith(3) [of i]
        by (auto simp: used_def nth_list_update bit_simps)
    next
      case False
      then show ?thesis using assms by (auto simp: used_def)
    qed
  qed
  then show ?thesis using assms word_index_in_range [OF assms]
    by (auto simp: Clear_def bitmap_ok_def)
qed

lemma out_of_range_aborts:
  assumes "\<not> (0 \<le> i \<and> i < numBits bm)"
  shows "Mark i bm = Inl Abort" "Clear i bm = Inl Abort" "Test i bm = Inl Abort"
  using assms by (auto simp: Mark_def Clear_def Test_def ASSERT_def)

section \<open>The loops\<close>

lemma used_subset: "used bm \<subseteq> {0..<numBits bm}"
  by (auto simp: used_def)

lemma clear_loop_correct:
  assumes "bitmap_ok bm" "\<forall>i \<in> set is. 0 \<le> i \<and> i < numBits bm"
  shows "\<exists>bm'. clear_loop is bm = Inr bm' \<and> bitmap_ok bm' \<and> numBits bm' = numBits bm \<and>
    used bm' = used bm - set is"
  using assms
proof (induction "is" arbitrary: bm)
  case Nil then show ?case by simp
next
  case (Cons i "is")
  obtain bm1 where bm1: "Clear i bm = Inr bm1" "bitmap_ok bm1" "numBits bm1 = numBits bm"
    "used bm1 = used bm - {i}"
    using Clear_correct [of bm i] Cons.prems by auto
  then show ?case using Cons.IH [of bm1] Cons.prems by auto
qed

lemma BitMap_new_correct:
  assumes "0 \<le> n" "nat (divRoundUp n BitsInWord) \<le> length junk"
  shows "\<exists>bm. BitMap_new junk n = Inr bm \<and> bitmap_ok bm \<and> numBits bm = n \<and> used bm = {}"
proof -
  let ?bm = "\<lparr>numBits = n, numWords = divRoundUp n BitsInWord,
        bits = take (nat (divRoundUp n BitsInWord)) junk\<rparr>"
  have "bitmap_ok ?bm" using assms by (simp add: bitmap_ok_def)
  from clear_loop_correct [OF this, of "[0..n - 1]"]
  obtain bm where bm: "clear_loop [0..n - 1] ?bm = Inr bm" "bitmap_ok bm" "numBits bm = n"
    "used bm = used ?bm - {0..n - 1}" by auto
  moreover have "used ?bm - {0..n - 1} = {}" using used_subset [of ?bm] by auto
  ultimately show ?thesis by (simp add: BitMap_new_def)
qed

lemma find_loop_correct:
  assumes "bitmap_ok bm" "\<forall>i \<in> set is. 0 \<le> i \<and> i < numBits bm"
  shows "case find (\<lambda>i. i \<notin> used bm) is of
      None \<Rightarrow> find_loop is bm = Inr (-1, bm)
    | Some i \<Rightarrow> \<exists>bm'. find_loop is bm = Inr (i, bm') \<and> bitmap_ok bm' \<and> numBits bm' = numBits bm \<and>
        used bm' = insert i (used bm)"
  using assms(2)
proof (induction "is")
  case Nil then show ?case by simp
next
  case (Cons i "is")
  then have "Test i bm = Inr (i \<in> used bm)" using Test_correct [OF assms(1)] by simp
  moreover have "\<exists>bm'. Mark i bm = Inr bm' \<and> bitmap_ok bm' \<and> numBits bm' = numBits bm \<and>
    used bm' = insert i (used bm)" using Mark_correct [OF assms(1)] Cons.prems by simp
  ultimately show ?case using Cons by (auto split: option.splits)
qed

lemma Find_correct:
  assumes "bitmap_ok bm"
  shows "used bm = {0..<numBits bm} \<Longrightarrow> Find bm = Inr (-1, bm)"
    "used bm \<noteq> {0..<numBits bm} \<Longrightarrow> \<exists>i bm'. Find bm = Inr (i, bm') \<and> i \<notin> used bm \<and>
       0 \<le> i \<and> i < numBits bm \<and> (\<forall>j. 0 \<le> j \<and> j < i \<longrightarrow> j \<in> used bm) \<and>
       bitmap_ok bm' \<and> numBits bm' = numBits bm \<and> used bm' = insert i (used bm)"
proof -
  let ?is = "[0..numBits bm - 1]"
  note loop = find_loop_correct [OF assms, of ?is]
  show "Find bm = Inr (-1, bm)" if "used bm = {0..<numBits bm}"
  proof -
    have "find (\<lambda>i. i \<notin> used bm) ?is = None" using that by (auto simp: find_None_iff)
    with loop show ?thesis by (simp add: Find_def)
  qed
  show "\<exists>i bm'. Find bm = Inr (i, bm') \<and> i \<notin> used bm \<and> 0 \<le> i \<and> i < numBits bm \<and>
       (\<forall>j. 0 \<le> j \<and> j < i \<longrightarrow> j \<in> used bm) \<and>
       bitmap_ok bm' \<and> numBits bm' = numBits bm \<and> used bm' = insert i (used bm)"
    if ne: "used bm \<noteq> {0..<numBits bm}"
  proof -
    obtain j where "j \<in> {0..<numBits bm}" "j \<notin> used bm" using ne used_subset [of bm] by blast
    then have "find (\<lambda>i. i \<notin> used bm) ?is \<noteq> None" by (auto simp: find_None_iff)
    then obtain i where i: "find (\<lambda>i. i \<notin> used bm) ?is = Some i" by auto
    then obtain n where n: "n < length ?is" "i \<notin> used bm" "i = ?is ! n"
      "\<forall>m < n. ?is ! m \<in> used bm" by (auto simp: find_Some_iff)
    have i_n: "i = int n" using n by simp
    have "\<forall>j. 0 \<le> j \<and> j < i \<longrightarrow> j \<in> used bm"
    proof (intro allI impI)
      fix j assume "0 \<le> j \<and> j < i"
      then have "nat j < n" "?is ! nat j = j" using n i_n by auto
      with n(4) show "j \<in> used bm" by metis
    qed
    then show ?thesis using loop i n i_n by (auto simp: Find_def)
  qed
qed

lemma num_clear_loop_correct:
  assumes "bitmap_ok bm" "\<forall>i \<in> set is. 0 \<le> i \<and> i < numBits bm"
  shows "num_clear_loop is c bm = Inr (c + int (length (filter (\<lambda>i. i \<notin> used bm) is)))"
  using assms(2)
  by (induction "is" arbitrary: c) (simp_all add: Test_correct [OF assms(1)])

lemma NumClear_correct:
  assumes "bitmap_ok bm"
  shows "NumClear bm = Inr (int (card ({0..<numBits bm} - used bm)))"
proof -
  let ?f = "filter (\<lambda>i. i \<notin> used bm) [0..numBits bm - 1]"
  have "length ?f = card (set ?f)" by (intro distinct_card [symmetric] distinct_filter) simp
  also have "set ?f = {0..<numBits bm} - used bm" by auto
  finally show ?thesis using num_clear_loop_correct [OF assms, of "[0..numBits bm - 1]" 0]
    by (simp add: NumClear_def)
qed

lemma print_loop_correct:
  assumes "bitmap_ok bm" "\<forall>i \<in> set is. 0 \<le> i \<and> i < numBits bm"
  shows "print_loop is bm = Inr (filter (\<lambda>i. i \<in> used bm) is)"
  using assms(2) by (induction "is") (simp_all add: Test_correct [OF assms(1)])

lemma BitMap_Print_correct:
  "bitmap_ok bm \<Longrightarrow> BitMap_Print bm = Inr (filter (\<lambda>i. i \<in> used bm) [0..numBits bm - 1])"
  by (simp add: BitMap_Print_def print_loop_correct)

section \<open>The allocator interface\<close>

text \<open>The loop \<open>for (i = 0; i < n; i++) x[i] = map->Find();\<close> of the clients.\<close>

fun find_n :: "('b \<Rightarrow> (int \<times> 'b) res) \<Rightarrow> nat \<Rightarrow> 'b \<Rightarrow> (int list \<times> 'b) res" where
  "find_n fnd 0 b = Inr ([], b)"
| "find_n fnd (Suc n) b = rbind (fnd b) (\<lambda>(i, b1).
     rbind (find_n fnd n b1) (\<lambda>(is, b2). Inr (i # is, b2)))"

text \<open>The loop that gives a list of numbers back, checking that each is in use.\<close>

fun release_all :: "(int \<Rightarrow> 'b \<Rightarrow> bool res) \<Rightarrow> (int \<Rightarrow> 'b \<Rightarrow> 'b res) \<Rightarrow> int list \<Rightarrow> 'b \<Rightarrow> 'b res" where
  "release_all test clear [] b = Inr b"
| "release_all test clear (i # is) b = rbind (test i b) (\<lambda>t.
     ASSERT t (rbind (clear i b) (release_all test clear is)))"

locale allocator =
  fixes mark clear :: "int \<Rightarrow> 'b \<Rightarrow> 'b res"
    and test :: "int \<Rightarrow> 'b \<Rightarrow> bool res"
    and fnd :: "'b \<Rightarrow> (int \<times> 'b) res"
    and num_clear :: "'b \<Rightarrow> int res"
    and cap :: "'b \<Rightarrow> int"
    and taken :: "'b \<Rightarrow> int set"
    and ok :: "'b \<Rightarrow> bool"
  assumes taken_range: "ok b \<Longrightarrow> taken b \<subseteq> {0..<cap b}"
    and mark_law: "ok b \<Longrightarrow> 0 \<le> i \<Longrightarrow> i < cap b \<Longrightarrow>
      \<exists>b'. mark i b = Inr b' \<and> ok b' \<and> cap b' = cap b \<and> taken b' = insert i (taken b)"
    and clear_law: "ok b \<Longrightarrow> 0 \<le> i \<Longrightarrow> i < cap b \<Longrightarrow>
      \<exists>b'. clear i b = Inr b' \<and> ok b' \<and> cap b' = cap b \<and> taken b' = taken b - {i}"
    and test_law: "ok b \<Longrightarrow> 0 \<le> i \<Longrightarrow> i < cap b \<Longrightarrow> test i b = Inr (i \<in> taken b)"
    and find_law: "ok b \<Longrightarrow> taken b \<noteq> {0..<cap b} \<Longrightarrow>
      \<exists>i b'. fnd b = Inr (i, b') \<and> i \<notin> taken b \<and> 0 \<le> i \<and> i < cap b \<and>
        ok b' \<and> cap b' = cap b \<and> taken b' = insert i (taken b)"
    and find_full: "ok b \<Longrightarrow> taken b = {0..<cap b} \<Longrightarrow> fnd b = Inr (-1, b)"
    and num_clear_law: "ok b \<Longrightarrow> num_clear b = Inr (int (card ({0..<cap b} - taken b)))"
begin

lemma find_n_law:
  assumes "ok b" "n \<le> card ({0..<cap b} - taken b)"
  shows "\<exists>is b'. find_n fnd n b = Inr (is, b') \<and> length is = n \<and> distinct is \<and>
    set is \<subseteq> {0..<cap b} - taken b \<and> ok b' \<and> cap b' = cap b \<and> taken b' = taken b \<union> set is"
  using assms
proof (induction n arbitrary: b)
  case 0 then show ?case by simp
next
  case (Suc n)
  have "taken b \<noteq> {0..<cap b}" using Suc.prems(2) by (metis Diff_cancel card.empty not_less_eq_eq zero_le)
  then obtain i b1 where b1: "fnd b = Inr (i, b1)" "i \<notin> taken b" "0 \<le> i" "i < cap b"
    "ok b1" "cap b1 = cap b" "taken b1 = insert i (taken b)"
    using find_law [OF Suc.prems(1)] by blast
  have "{0..<cap b1} - taken b1 = ({0..<cap b} - taken b) - {i}" using b1 by auto
  then have "n \<le> card ({0..<cap b1} - taken b1)" using Suc.prems(2) b1 by simp
  then obtain js b2 where "find_n fnd n b1 = Inr (js, b2)" "length js = n" "distinct js"
    "set js \<subseteq> {0..<cap b1} - taken b1" "ok b2" "cap b2 = cap b1" "taken b2 = taken b1 \<union> set js"
    using Suc.IH [OF b1(5)] by blast
  then show ?case using b1 by auto
qed

lemma release_all_law:
  assumes "ok b" "set is \<subseteq> taken b" "distinct is"
  shows "\<exists>b'. release_all test clear is b = Inr b' \<and> ok b' \<and> cap b' = cap b \<and>
    taken b' = taken b - set is"
  using assms
proof (induction "is" arbitrary: b)
  case Nil then show ?case by simp
next
  case (Cons i "is")
  have i: "0 \<le> i" "i < cap b" "i \<in> taken b" using Cons.prems taken_range [of b] by auto
  obtain b1 where b1: "clear i b = Inr b1" "ok b1" "cap b1 = cap b" "taken b1 = taken b - {i}"
    using clear_law [OF Cons.prems(1) i(1,2)] by blast
  have "set is \<subseteq> taken b1" using Cons.prems b1 by auto
  then obtain b2 where "release_all test clear is b1 = Inr b2" "ok b2" "cap b2 = cap b1"
    "taken b2 = taken b1 - set is" using Cons.IH [OF b1(2)] Cons.prems by auto
  then show ?case using b1 test_law [OF Cons.prems(1) i(1,2)] i(3) by auto
qed

text \<open>What was taken by \<open>find_n\<close> can be given back, and the allocator is as it was.\<close>

lemma find_n_release_all:
  assumes "ok b" "n \<le> card ({0..<cap b} - taken b)"
  shows "\<exists>is b1 b2. find_n fnd n b = Inr (is, b1) \<and> release_all test clear is b1 = Inr b2 \<and>
    taken b2 = taken b"
proof -
  obtain "is" b1 where 1: "find_n fnd n b = Inr (is, b1)" "distinct is" "set is \<inter> taken b = {}"
    "ok b1" "taken b1 = taken b \<union> set is" using find_n_law [OF assms] by blast
  then show ?thesis using release_all_law [of b1 "is"] by auto
qed

end

interpretation bm: allocator Mark Clear Test Find NumClear numBits used bitmap_ok
proof unfold_locales
  fix b :: BitMap and i :: int
  assume ok: "bitmap_ok b"
  show "used b \<subseteq> {0..<numBits b}" by (rule used_subset)
  show "NumClear b = Inr (int (card ({0..<numBits b} - used b)))" by (rule NumClear_correct [OF ok])
  show "used b = {0..<numBits b} \<Longrightarrow> Find b = Inr (-1, b)" by (rule Find_correct(1) [OF ok])
  show "used b \<noteq> {0..<numBits b} \<Longrightarrow> \<exists>i b'. Find b = Inr (i, b') \<and> i \<notin> used b \<and> 0 \<le> i \<and>
      i < numBits b \<and> bitmap_ok b' \<and> numBits b' = numBits b \<and> used b' = insert i (used b)"
    using Find_correct(2) [OF ok] by blast
  assume "0 \<le> i" "i < numBits b"
  then show "Test i b = Inr (i \<in> used b)"
    "\<exists>b'. Mark i b = Inr b' \<and> bitmap_ok b' \<and> numBits b' = numBits b \<and> used b' = insert i (used b)"
    "\<exists>b'. Clear i b = Inr b' \<and> bitmap_ok b' \<and> numBits b' = numBits b \<and> used b' = used b - {i}"
    using ok by (simp_all add: Test_correct Mark_correct Clear_correct)
qed

end
