(* ===== verification/Nachos_Tables.thy ===== *)
theory Nachos_Tables
  imports Nachos_BitMap
begin

text \<open>
  The two handle tables of \<open>userprog\<close>: the open file table of a thread
  (\<open>nachostabla.cc\<close>) and the table of user semaphores (\<open>semTabla.cc\<close>).  Both pair an array with
  a bitmap of the entries in use.  What their clients, the system calls, rely on is the
  locale \<open>handle_table\<close>.
\<close>

section \<open>NachosOpenFilesTable\<close>

definition maxArch :: int where "maxArch = 256"

text \<open>
  \<open>openFiles\<close> is a pointer to an array of \<open>int\<close>; \<open>arrays\<close> is the part of the memory of the host that such pointers reach:
  the arrays that exist, by their addresses.  \<open>usage\<close> is not initialised by the constructor.
\<close>

record NachosOpenFilesTable =
  openFiles :: nat
  openFilesMap :: BitMap
  usage :: int
  arrays :: "nat \<rightharpoonup> int list"

definition of_read :: "NachosOpenFilesTable \<Rightarrow> int \<Rightarrow> int res" where
  "of_read t i = (case arrays t (openFiles t) of None \<Rightarrow> Inl BadPointer | Some a \<Rightarrow> array_get a i)"

definition of_write :: "NachosOpenFilesTable \<Rightarrow> int \<Rightarrow> int \<Rightarrow> NachosOpenFilesTable res" where
  "of_write t i v = (case arrays t (openFiles t) of None \<Rightarrow> Inl BadPointer
     | Some a \<Rightarrow> rbind (array_set a i v) (\<lambda>a1. Inr (t\<lparr>arrays := (arrays t)(openFiles t \<mapsto> a1)\<rparr>)))"

text \<open>A block with a local array: the array exists, at the address \<open>p\<close> of the stack, while the block runs.\<close>

definition local_array :: "nat \<Rightarrow> int list \<Rightarrow> (NachosOpenFilesTable \<Rightarrow> NachosOpenFilesTable res) \<Rightarrow>
    NachosOpenFilesTable \<Rightarrow> NachosOpenFilesTable res" where
  "local_array p vec block t = rbind (block (t\<lparr>arrays := (arrays t)(p \<mapsto> vec)\<rparr>)) (\<lambda>t1. Inr (t1\<lparr>arrays := (arrays t1)(p := None)\<rparr>))"

text \<open>The constructor's two loops.\<close>

fun of_init_std :: "int list \<Rightarrow> NachosOpenFilesTable \<Rightarrow> NachosOpenFilesTable res" where
  "of_init_std [] t = Inr t"
| "of_init_std (i # is) t = rbind (of_write t i i) (\<lambda>t1.
     rbind (Mark i (openFilesMap t1)) (\<lambda>bm. of_init_std is (t1\<lparr>openFilesMap := bm\<rparr>)))"

fun of_init_rest :: "int list \<Rightarrow> NachosOpenFilesTable \<Rightarrow> NachosOpenFilesTable res" where
  "of_init_rest [] t = Inr t"
| "of_init_rest (i # is) t = rbind (of_write t i 0) (of_init_rest is)"

text \<open>
  The constructor.  \<open>junk\<close>, \<open>raw\<close>, \<open>vec\<close> and \<open>u\<close> are what the bitmap's words, the pointer, the array and the usage counter hold
  before they are initialised, \<open>p\<close> is where the compiler puts \<open>int vec[maxArch]\<close>, and \<open>mem\<close> the arrays that exist at the call.
  The block after the declaration of \<open>vec\<close> is the rest of the constructor.
\<close>

definition NachosOpenFilesTable_init :: "nat \<Rightarrow> NachosOpenFilesTable \<Rightarrow> NachosOpenFilesTable res" where
  "NachosOpenFilesTable_init p t = rbind (of_init_std [0..2] (t\<lparr>openFiles := p\<rparr>)) (of_init_rest [3..maxArch - 1])"

definition NachosOpenFilesTable_new ::
    "32 word list \<Rightarrow> nat \<Rightarrow> nat \<Rightarrow> int list \<Rightarrow> int \<Rightarrow> (nat \<rightharpoonup> int list) \<Rightarrow> NachosOpenFilesTable res" where
  "NachosOpenFilesTable_new junk raw p vec u mem = rbind (BitMap_new junk maxArch) (\<lambda>bm.
     local_array p vec (NachosOpenFilesTable_init p) \<lparr>openFiles = raw, openFilesMap = bm, usage = u, arrays = mem\<rparr>)"

definition NOF_isOpened :: "int \<Rightarrow> NachosOpenFilesTable \<Rightarrow> bool res" where
  "NOF_isOpened h t = Test h (openFilesMap t)"

definition NOF_Open :: "int \<Rightarrow> NachosOpenFilesTable \<Rightarrow> (int \<times> NachosOpenFilesTable) res" where
  "NOF_Open UnixHandle t = rbind (Find (openFilesMap t)) (\<lambda>(space, bm).
     rbind (of_write (t\<lparr>openFilesMap := bm\<rparr>) space UnixHandle) (\<lambda>t1. Inr (space, t1)))"

definition NOF_Close :: "int \<Rightarrow> NachosOpenFilesTable \<Rightarrow> (int \<times> NachosOpenFilesTable) res" where
  "NOF_Close h t = rbind (NOF_isOpened h t) (\<lambda>b.
     if b \<and> h > 2
     then rbind (Clear h (openFilesMap t)) (\<lambda>bm.
          rbind (of_write (t\<lparr>openFilesMap := bm\<rparr>) h 0) (\<lambda>t1. Inr (1, t1)))
     else Inr (-1, t))"

definition NOF_getUnixHandle :: "int \<Rightarrow> NachosOpenFilesTable \<Rightarrow> int res" where
  "NOF_getUnixHandle h t = rbind (NOF_isOpened h t) (\<lambda>b.
     if b then of_read t h else Inr (-1))"

definition NOF_addThread :: "NachosOpenFilesTable \<Rightarrow> NachosOpenFilesTable" where
  "NOF_addThread t = t\<lparr>usage := i32 (usage t + 1)\<rparr>"

definition NOF_delThread :: "NachosOpenFilesTable \<Rightarrow> NachosOpenFilesTable" where
  "NOF_delThread t = t\<lparr>usage := i32 (usage t - 1)\<rparr>"

section \<open>SemTabla\<close>

definition maxSem :: int where "maxSem = 128"

record SemTabla =
  semaforosAbiertos :: "int list"
  semaforosMap :: BitMap
  sem_usage :: int

fun sem_init :: "int list \<Rightarrow> int list \<Rightarrow> int list res" where
  "sem_init [] a = Inr a"
| "sem_init (i # is) a = rbind (array_set a i (-1)) (sem_init is)"

text \<open>The array is a member of the class; \<open>usage\<close> is again left uninitialised (\<open>u\<close>).\<close>

definition SemTabla_new :: "32 word list \<Rightarrow> int list \<Rightarrow> int \<Rightarrow> SemTabla res" where
  "SemTabla_new junk arr u = rbind (BitMap_new junk maxSem) (\<lambda>bm.
     rbind (sem_init [0..maxSem - 1] arr) (\<lambda>a.
       Inr \<lparr>semaforosAbiertos = a, semaforosMap = bm, sem_usage = u\<rparr>))"

definition Sem_isCreate :: "int \<Rightarrow> SemTabla \<Rightarrow> bool res" where
  "Sem_isCreate sid t = Test sid (semaforosMap t)"

definition Sem_Create :: "int \<Rightarrow> SemTabla \<Rightarrow> (int \<times> SemTabla) res" where
  "Sem_Create val t = rbind (Find (semaforosMap t)) (\<lambda>(space, bm).
     rbind (array_set (semaforosAbiertos t) space val) (\<lambda>a.
       Inr (space, t\<lparr>semaforosMap := bm, semaforosAbiertos := a\<rparr>)))"

definition Sem_Close :: "int \<Rightarrow> SemTabla \<Rightarrow> (int \<times> SemTabla) res" where
  "Sem_Close sid t =
     (if sem_usage t = 0
      then rbind (Sem_isCreate sid t) (\<lambda>b.
        if b then rbind (Clear sid (semaforosMap t)) (\<lambda>bm.
               rbind (array_set (semaforosAbiertos t) sid (-1)) (\<lambda>a.
                 Inr (1, t\<lparr>semaforosMap := bm, semaforosAbiertos := a\<rparr>)))
        else Inr (-1, t))
      else Inr (-1, t))"

definition Sem_getSemaphore :: "int \<Rightarrow> SemTabla \<Rightarrow> int res" where
  "Sem_getSemaphore sid t = rbind (Sem_isCreate sid t) (\<lambda>b.
     if b then array_get (semaforosAbiertos t) sid else Inr (-1))"

definition Sem_addThread :: "SemTabla \<Rightarrow> SemTabla" where
  "Sem_addThread t = t\<lparr>sem_usage := i32 (sem_usage t + 1)\<rparr>"

definition Sem_delThread :: "SemTabla \<Rightarrow> SemTabla" where
  "Sem_delThread t = t\<lparr>sem_usage := i32 (sem_usage t - 1)\<rparr>"

section \<open>The interface of a handle table\<close>

text \<open>Registering a list of values, one after the other, and the handles they got.\<close>

fun create_all :: "('v \<Rightarrow> 't \<Rightarrow> (int \<times> 't) res) \<Rightarrow> 'v list \<Rightarrow> 't \<Rightarrow> (int list \<times> 't) res" where
  "create_all create [] t = Inr ([], t)"
| "create_all create (v # vs) t = rbind (create v t) (\<lambda>(i, t1).
     rbind (create_all create vs t1) (\<lambda>(is, t2). Inr (i # is, t2)))"

locale handle_table =
  fixes create :: "int \<Rightarrow> 't \<Rightarrow> (int \<times> 't) res"
    and close :: "int \<Rightarrow> 't \<Rightarrow> (int \<times> 't) res"
    and lookup :: "int \<Rightarrow> 't \<Rightarrow> int res"
    and view :: "'t \<Rightarrow> int \<rightharpoonup> int"
    and ok :: "'t \<Rightarrow> bool"
    and cap :: int
    and reserved :: "int set"
  assumes view_range: "ok t \<Longrightarrow> dom (view t) \<subseteq> {0..<cap}"
    and create_law: "ok t \<Longrightarrow> dom (view t) \<noteq> {0..<cap} \<Longrightarrow>
      \<exists>i t'. create v t = Inr (i, t') \<and> i \<notin> dom (view t) \<and> ok t' \<and> view t' = (view t)(i \<mapsto> v)"
    and create_full: "ok t \<Longrightarrow> dom (view t) = {0..<cap} \<Longrightarrow> create v t = Inl BadIndex"
    and close_law: "ok t \<Longrightarrow> i \<in> dom (view t) \<Longrightarrow> i \<notin> reserved \<Longrightarrow>
      \<exists>t'. close i t = Inr (1, t') \<and> ok t' \<and> view t' = (view t)(i := None)"
    and close_refused: "ok t \<Longrightarrow> 0 \<le> i \<Longrightarrow> i < cap \<Longrightarrow> i \<notin> dom (view t) \<or> i \<in> reserved \<Longrightarrow>
      close i t = Inr (-1, t)"
    and lookup_law: "ok t \<Longrightarrow> 0 \<le> i \<Longrightarrow> i < cap \<Longrightarrow>
      lookup i t = Inr (case view t i of None \<Rightarrow> -1 | Some v \<Rightarrow> v)"
    and lookup_abort: "\<not> (0 \<le> i \<and> i < cap) \<Longrightarrow> ok t \<Longrightarrow> lookup i t = Inl Abort"
begin

lemma create_all_law:
  assumes "ok t" "length vs + card (dom (view t)) \<le> nat cap"
  shows "\<exists>is t'. create_all create vs t = Inr (is, t') \<and> ok t' \<and> length is = length vs \<and>
    distinct is \<and> set is \<inter> dom (view t) = {} \<and> view t' = (view t)(is [\<mapsto>] vs)"
  using assms
proof (induction vs arbitrary: t)
  case Nil then show ?case by (auto intro!: exI [of _ "[]"])
next
  case (Cons v vs)
  have "dom (view t) \<noteq> {0..<cap}" using Cons.prems(2) by auto
  then obtain i t1 where t1: "create v t = Inr (i, t1)" "i \<notin> dom (view t)" "ok t1"
    "view t1 = (view t)(i \<mapsto> v)" using create_law [OF Cons.prems(1)] by blast
  have "finite (dom (view t))" using view_range [OF Cons.prems(1)] finite_subset by blast
  then have "length vs + card (dom (view t1)) \<le> nat cap"
    using Cons.prems(2) t1(2,4) by simp
  from Cons.IH [OF t1(3) this] obtain "is" t2 where "create_all create vs t1 = Inr (is, t2)" "ok t2"
    "length is = length vs" "distinct is" "set is \<inter> dom (view t1) = {}"
    "view t2 = (view t1)(is [\<mapsto>] vs)" by blast
  then show ?case using t1 by (intro exI [of _ "i # is"]) auto
qed

text \<open>After any registrations that fit, each handle still gives the value it was made for.\<close>

lemma lookup_create_all:
  assumes "ok t" "length vs + card (dom (view t)) \<le> nat cap"
  shows "\<exists>is t'. create_all create vs t = Inr (is, t') \<and> distinct is \<and> length is = length vs \<and>
    (\<forall>k < length vs. lookup (is ! k) t' = Inr (vs ! k))"
proof -
  obtain "is" t' where 1: "create_all create vs t = Inr (is, t')" "ok t'" "length is = length vs"
    "distinct is" "view t' = (view t)(is [\<mapsto>] vs)" using create_all_law [OF assms] by blast
  have "lookup (is ! k) t' = Inr (vs ! k)" if "k < length vs" for k
  proof -
    have "view t' (is ! k) = Some (vs ! k)"
      using 1 that by (simp add: map_upds_nth)
    moreover from this have "is ! k \<in> {0..<cap}" using view_range [OF 1(2)] by auto
    ultimately show ?thesis using lookup_law [OF 1(2)] by simp
  qed
  with 1 show ?thesis by blast
qed

lemma close_then_lookup:
  assumes "ok t" "i \<in> dom (view t)" "i \<notin> reserved"
  shows "\<exists>t'. close i t = Inr (1, t') \<and> lookup i t' = Inr (-1) \<and>
    (\<forall>j. 0 \<le> j \<and> j < cap \<and> j \<noteq> i \<longrightarrow> lookup j t' = lookup j t)"
proof -
  obtain t' where t': "close i t = Inr (1, t')" "ok t'" "view t' = (view t)(i := None)"
    using close_law [OF assms] by blast
  have "i \<in> {0..<cap}" using assms view_range by blast
  then show ?thesis using t' assms(1) by (auto simp: lookup_law)
qed

end

section \<open>The tables provide the interface\<close>

definition handle_view :: "BitMap \<Rightarrow> int list \<Rightarrow> int \<rightharpoonup> int" where
  "handle_view bm a i = (if i \<in> used bm then Some (a ! nat i) else None)"

lemma dom_handle_view [simp]: "dom (handle_view bm a) = used bm"
  by (auto simp: handle_view_def split: if_splits)

text \<open>A handle is taken or given back in the bitmap and in the array together.\<close>

lemma handle_view_insert:
  assumes "used bm' = insert i (used bm)" "0 \<le> i" "nat i < length a" "\<forall>j \<in> used bm. 0 \<le> j"
  shows "handle_view bm' (a[nat i := v]) = (handle_view bm a)(i \<mapsto> v)"
proof
  fix j show "handle_view bm' (a[nat i := v]) j = ((handle_view bm a)(i \<mapsto> v)) j"
    using assms by (auto simp: handle_view_def nth_list_update eq_nat_nat_iff)
qed

lemma handle_view_remove:
  assumes "used bm' = used bm - {i}" "0 \<le> i" "\<forall>j \<in> used bm. 0 \<le> j"
  shows "handle_view bm' (a[nat i := v]) = (handle_view bm a)(i := None)"
proof
  fix j show "handle_view bm' (a[nat i := v]) j = ((handle_view bm a)(i := None)) j"
    using assms by (auto simp: handle_view_def nth_list_update_neq eq_nat_nat_iff)
qed

lemma used_nonneg: "\<forall>j \<in> used bm. 0 \<le> j"
  by (auto simp: used_def)

definition sem_ok :: "SemTabla \<Rightarrow> bool" where
  "sem_ok t \<longleftrightarrow> bitmap_ok (semaforosMap t) \<and> numBits (semaforosMap t) = maxSem \<and>
     length (semaforosAbiertos t) = nat maxSem \<and> sem_usage t = 0"

definition sem_view :: "SemTabla \<Rightarrow> int \<rightharpoonup> int" where
  "sem_view t = handle_view (semaforosMap t) (semaforosAbiertos t)"

interpretation sem: handle_table Sem_Create Sem_Close Sem_getSemaphore sem_view sem_ok maxSem "{}"
proof unfold_locales
  fix t :: SemTabla and i v :: int
  show "\<not> (0 \<le> i \<and> i < maxSem) \<Longrightarrow> sem_ok t \<Longrightarrow> Sem_getSemaphore i t = Inl Abort"
    by (simp add: Sem_getSemaphore_def Sem_isCreate_def sem_ok_def out_of_range_aborts)
  assume ok: "sem_ok t"
  show "dom (sem_view t) \<subseteq> {0..<maxSem}"
    using ok used_subset [of "semaforosMap t"] by (simp add: sem_view_def sem_ok_def)
  show "dom (sem_view t) = {0..<maxSem} \<Longrightarrow> Sem_Create v t = Inl BadIndex"
    using ok bm.find_full [of "semaforosMap t"] by (simp add: sem_view_def sem_ok_def Sem_Create_def)
  show "\<exists>i t'. Sem_Create v t = Inr (i, t') \<and> i \<notin> dom (sem_view t) \<and> sem_ok t' \<and>
      sem_view t' = (sem_view t)(i \<mapsto> v)" if free: "dom (sem_view t) \<noteq> {0..<maxSem}"
  proof -
    obtain j bm' where "Find (semaforosMap t) = Inr (j, bm')" "j \<notin> used (semaforosMap t)" "0 \<le> j"
      "j < maxSem" "bitmap_ok bm'" "numBits bm' = maxSem" "used bm' = insert j (used (semaforosMap t))"
      using bm.find_law [of "semaforosMap t"] free ok by (auto simp: sem_ok_def sem_view_def)
    then show ?thesis using ok
      by (auto simp: Sem_Create_def sem_ok_def sem_view_def maxSem_def handle_view_insert used_nonneg)
  qed
  show "0 \<le> i \<Longrightarrow> i < maxSem \<Longrightarrow> Sem_getSemaphore i t =
      Inr (case sem_view t i of None \<Rightarrow> -1 | Some v \<Rightarrow> v)"
    using ok by (simp add: Sem_getSemaphore_def Sem_isCreate_def sem_ok_def bm.test_law sem_view_def
        handle_view_def maxSem_def)
  show "0 \<le> i \<Longrightarrow> i < maxSem \<Longrightarrow> i \<notin> dom (sem_view t) \<or> i \<in> {} \<Longrightarrow> Sem_Close i t = Inr (-1, t)"
    using ok by (simp add: Sem_Close_def Sem_isCreate_def sem_ok_def bm.test_law sem_view_def)
  show "\<exists>t'. Sem_Close i t = Inr (1, t') \<and> sem_ok t' \<and> sem_view t' = (sem_view t)(i := None)"
    if "i \<in> dom (sem_view t)"
  proof -
    have i: "0 \<le> i" "i < maxSem" "i \<in> used (semaforosMap t)"
      using that ok used_subset [of "semaforosMap t"] by (auto simp: sem_view_def sem_ok_def)
    obtain bm' where "Clear i (semaforosMap t) = Inr bm'" "bitmap_ok bm'" "numBits bm' = maxSem"
      "used bm' = used (semaforosMap t) - {i}"
      using bm.clear_law [of "semaforosMap t" i] i ok by (auto simp: sem_ok_def)
    then show ?thesis using ok i
      by (auto simp: Sem_Close_def Sem_isCreate_def sem_ok_def bm.test_law sem_view_def maxSem_def
          handle_view_remove used_nonneg)
  qed
qed

definition nof_ok :: "NachosOpenFilesTable \<Rightarrow> bool" where
  "nof_ok t \<longleftrightarrow> bitmap_ok (openFilesMap t) \<and> numBits (openFilesMap t) = maxArch \<and>
     arrays t (openFiles t) \<noteq> None \<and> length (the (arrays t (openFiles t))) = nat maxArch"

definition nof_view :: "NachosOpenFilesTable \<Rightarrow> int \<rightharpoonup> int" where
  "nof_view t = handle_view (openFilesMap t) (the (arrays t (openFiles t)))"

lemma of_access:
  assumes "arrays t (openFiles t) \<noteq> None"
  shows "of_read t i = array_get (the (arrays t (openFiles t))) i"
    "of_write t i v = rbind (array_set (the (arrays t (openFiles t))) i v) (\<lambda>a. Inr (t\<lparr>arrays := (arrays t)(openFiles t \<mapsto> a)\<rparr>))"
  using assms by (auto simp: of_read_def of_write_def)

interpretation nof: handle_table NOF_Open NOF_Close NOF_getUnixHandle nof_view nof_ok maxArch "{..2}"
proof unfold_locales
  fix t :: NachosOpenFilesTable and i v :: int
  show "\<not> (0 \<le> i \<and> i < maxArch) \<Longrightarrow> nof_ok t \<Longrightarrow> NOF_getUnixHandle i t = Inl Abort"
    by (simp add: NOF_getUnixHandle_def NOF_isOpened_def nof_ok_def out_of_range_aborts)
  assume ok: "nof_ok t"
  show "dom (nof_view t) \<subseteq> {0..<maxArch}"
    using ok used_subset [of "openFilesMap t"] by (simp add: nof_view_def nof_ok_def)
  show "dom (nof_view t) = {0..<maxArch} \<Longrightarrow> NOF_Open v t = Inl BadIndex"
    using ok bm.find_full [of "openFilesMap t"]
    by (simp add: nof_view_def nof_ok_def NOF_Open_def of_access)
  show "\<exists>i t'. NOF_Open v t = Inr (i, t') \<and> i \<notin> dom (nof_view t) \<and> nof_ok t' \<and>
      nof_view t' = (nof_view t)(i \<mapsto> v)" if free: "dom (nof_view t) \<noteq> {0..<maxArch}"
  proof -
    obtain j bm' where "Find (openFilesMap t) = Inr (j, bm')" "j \<notin> used (openFilesMap t)" "0 \<le> j"
      "j < maxArch" "bitmap_ok bm'" "numBits bm' = maxArch" "used bm' = insert j (used (openFilesMap t))"
      using bm.find_law [of "openFilesMap t"] free ok by (auto simp: nof_ok_def nof_view_def)
    then show ?thesis using ok
      by (auto simp: NOF_Open_def of_access nof_ok_def nof_view_def maxArch_def handle_view_insert used_nonneg)
  qed
  show "0 \<le> i \<Longrightarrow> i < maxArch \<Longrightarrow> NOF_getUnixHandle i t =
      Inr (case nof_view t i of None \<Rightarrow> -1 | Some v \<Rightarrow> v)"
    using ok by (simp add: NOF_getUnixHandle_def NOF_isOpened_def nof_ok_def bm.test_law nof_view_def
        handle_view_def maxArch_def of_access)
  show "0 \<le> i \<Longrightarrow> i < maxArch \<Longrightarrow> i \<notin> dom (nof_view t) \<or> i \<in> {..2} \<Longrightarrow> NOF_Close i t = Inr (-1, t)"
    using ok by (auto simp: NOF_Close_def NOF_isOpened_def nof_ok_def bm.test_law nof_view_def)
  show "\<exists>t'. NOF_Close i t = Inr (1, t') \<and> nof_ok t' \<and> nof_view t' = (nof_view t)(i := None)"
    if "i \<in> dom (nof_view t)" "i \<notin> {..2}"
  proof -
    have i: "0 \<le> i" "i < maxArch" "i \<in> used (openFilesMap t)" "2 < i"
      using that ok used_subset [of "openFilesMap t"] by (auto simp: nof_view_def nof_ok_def)
    obtain bm' where "Clear i (openFilesMap t) = Inr bm'" "bitmap_ok bm'" "numBits bm' = maxArch"
      "used bm' = used (openFilesMap t) - {i}"
      using bm.clear_law [of "openFilesMap t" i] i ok by (auto simp: nof_ok_def)
    then show ?thesis using ok i
      by (auto simp: NOF_Close_def NOF_isOpened_def of_access nof_ok_def bm.test_law nof_view_def
          maxArch_def handle_view_remove used_nonneg)
  qed
qed

section \<open>The constructors\<close>

lemma sem_init_correct:
  "\<forall>i \<in> set is. 0 \<le> i \<and> i < int (length a) \<Longrightarrow> \<exists>a'. sem_init is a = Inr a' \<and> length a' = length a"
proof (induction "is" arbitrary: a)
  case Nil then show ?case by simp
next
  case (Cons i "is")
  then show ?case using Cons.IH [of "a[nat i := -1]"] by auto
qed

lemma SemTabla_new_correct:
  assumes "4 \<le> length junk" "length arr = 128"
  shows "\<exists>t. SemTabla_new junk arr u = Inr t \<and> sem_usage t = u \<and> (u = 0 \<longrightarrow> sem_ok t) \<and>
    sem_view t = Map.empty"
proof -
  have "nat (divRoundUp maxSem BitsInWord) \<le> length junk"
    using assms by (simp add: divRoundUp_def maxSem_def BitsInWord_def)
  then obtain bm where bm: "BitMap_new junk maxSem = Inr bm" "bitmap_ok bm" "numBits bm = maxSem" "used bm = {}"
    using BitMap_new_correct [of maxSem junk] by (auto simp: maxSem_def)
  have "\<forall>i \<in> set [0..maxSem - 1]. 0 \<le> i \<and> i < int (length arr)" using assms by (auto simp: maxSem_def)
  then obtain a where a: "sem_init [0..maxSem - 1] arr = Inr a" "length a = length arr"
    using sem_init_correct [of "[0..maxSem - 1]" arr] by blast
  show ?thesis using bm a assms
    by (auto simp: SemTabla_new_def sem_ok_def sem_view_def maxSem_def handle_view_def)
qed

text \<open>Values stored in a fresh table get different handles, and each handle looks its own value up.\<close>

lemma semaphore_handles:
  assumes "4 \<le> length mem" "length arr = 128" "length vs \<le> nat maxSem"
  shows "\<exists>t0 handles t. SemTabla_new mem arr 0 = Inr t0 \<and> create_all Sem_Create vs t0 = Inr (handles, t) \<and>
    distinct handles \<and> length handles = length vs \<and> (\<forall>k < length vs. Sem_getSemaphore (handles ! k) t = Inr (vs ! k))"
proof -
  obtain t0 where t0: "SemTabla_new mem arr 0 = Inr t0" "sem_ok t0" "sem_view t0 = Map.empty"
    using SemTabla_new_correct [OF assms(1,2), of 0] by auto
  then show ?thesis using sem.lookup_create_all [OF t0(2), of vs] assms(3) by auto
qed

lemma Sem_Close_usage: "sem_usage t \<noteq> 0 \<Longrightarrow> Sem_Close i t = Inr (-1, t)"
  by (simp add: Sem_Close_def)

lemma of_init_std_correct:
  assumes "nof_ok t" "\<forall>i \<in> set is. 0 \<le> i \<and> i < maxArch" "distinct is"
  shows "\<exists>t'. of_init_std is t = Inr t' \<and> nof_ok t' \<and> nof_view t' = (nof_view t)(is [\<mapsto>] is)"
  using assms
proof (induction "is" arbitrary: t)
  case Nil then show ?case by simp
next
  case (Cons i "is")
  have i: "0 \<le> i" "i < maxArch" using Cons.prems by auto
  obtain bm' where bm': "Mark i (openFilesMap t) = Inr bm'" "bitmap_ok bm'" "numBits bm' = maxArch"
    "used bm' = insert i (used (openFilesMap t))"
    using bm.mark_law [of "openFilesMap t" i] i Cons.prems(1) by (auto simp: nof_ok_def)
  let ?t1 = "t\<lparr>arrays := (arrays t)(openFiles t \<mapsto> (the (arrays t (openFiles t)))[nat i := i]), openFilesMap := bm'\<rparr>"
  have t1: "nof_ok ?t1" "nof_view ?t1 = (nof_view t)(i \<mapsto> i)"
    using bm' i Cons.prems(1)
    by (auto simp: nof_ok_def nof_view_def maxArch_def handle_view_insert used_nonneg)
  have "\<forall>j \<in> set is. 0 \<le> j \<and> j < maxArch" "distinct is" using Cons.prems by auto
  then obtain t' where t': "of_init_std is ?t1 = Inr t'" "nof_ok t'"
    "nof_view t' = (nof_view ?t1)(is [\<mapsto>] is)" using Cons.IH [OF t1(1)] by blast
  have "of_init_std (i # is) t = of_init_std is ?t1"
    using Cons.prems(1) bm' i by (simp add: nof_ok_def of_access maxArch_def)
  then show ?case using t' by (simp only: map_upds_Cons t1(2)) blast
qed

lemma of_init_rest_correct:
  assumes "nof_ok t" "\<forall>i \<in> set is. 0 \<le> i \<and> i < maxArch \<and> i \<notin> dom (nof_view t)"
  shows "\<exists>t'. of_init_rest is t = Inr t' \<and> nof_ok t' \<and> nof_view t' = nof_view t"
  using assms
proof (induction "is" arbitrary: t)
  case Nil then show ?case by simp
next
  case (Cons i "is")
  have i: "0 \<le> i" "i < maxArch" "i \<notin> used (openFilesMap t)" using Cons.prems by (auto simp: nof_view_def)
  let ?t1 = "t\<lparr>arrays := (arrays t)(openFiles t \<mapsto> (the (arrays t (openFiles t)))[nat i := 0])\<rparr>"
  have 1: "nof_ok ?t1" using Cons.prems(1) by (simp add: nof_ok_def)
  have 2: "nof_view ?t1 = nof_view t"
  proof
    fix j
    have "j \<in> used (openFilesMap t) \<Longrightarrow> nat i \<noteq> nat j"
      using i used_nonneg [of "openFilesMap t"] by (metis nat_0_le)
    then show "nof_view ?t1 j = nof_view t j" by (simp add: nof_view_def handle_view_def)
  qed
  show ?case using Cons.IH [OF 1] Cons.prems i 2
    by (auto simp: nof_ok_def of_access maxArch_def)
qed

lemma of_init_keeps: "of_init_std is t = Inr t' \<Longrightarrow> openFiles t' = openFiles t" "of_init_rest is t = Inr t' \<Longrightarrow> openFiles t' = openFiles t"
  by (induction "is" arbitrary: t) (auto simp: rbind_eq_Inr_iff of_write_def split: option.splits)

text \<open>While the array exists, the constructor builds the intended table: the three standard handles.\<close>

lemma NachosOpenFilesTable_init_correct:
  assumes "bitmap_ok (openFilesMap t)" "numBits (openFilesMap t) = maxArch" "used (openFilesMap t) = {}" "arrays t p = Some vec" "length vec = 256"
  shows "\<exists>t'. NachosOpenFilesTable_init p t = Inr t' \<and> nof_ok t' \<and> nof_view t' = [0 \<mapsto> 0, 1 \<mapsto> 1, 2 \<mapsto> 2] \<and> openFiles t' = p"
proof -
  let ?t = "t\<lparr>openFiles := p\<rparr>"
  have is3: "[0..2] = [0, 1, 2::int]" by (simp add: upto.simps)
  have "nof_ok ?t" "nof_view ?t = Map.empty"
    using assms by (auto simp: nof_ok_def nof_view_def handle_view_def maxArch_def)
  then obtain t1 where t1: "of_init_std [0..2] ?t = Inr t1" "nof_ok t1" "nof_view t1 = [0 \<mapsto> 0, 1 \<mapsto> 1, 2 \<mapsto> 2]"
    using of_init_std_correct [of ?t "[0, 1, 2]"] by (auto simp: is3 maxArch_def)
  obtain t2 where t2: "of_init_rest [3..maxArch - 1] t1 = Inr t2" "nof_ok t2" "nof_view t2 = nof_view t1"
    using of_init_rest_correct [OF t1(2), of "[3..maxArch - 1]"] t1(3) by auto
  then show ?thesis using t1 of_init_keeps(1) [OF t1(1)] of_init_keeps(2) [OF t2(1)] by (simp add: NachosOpenFilesTable_init_def)
qed

text \<open>
  But the block of the array ends with the constructor and \<open>openFiles\<close> keeps its address: \<open>Open\<close> of anything and a lookup of the
  three standard handles use an array that does not exist; the operations that only look at the bitmap say that nothing else is open.
\<close>

lemma NachosOpenFilesTable_new_dangling:
  assumes "8 \<le> length junk" "length vec = 256"
  shows "\<exists>t. NachosOpenFilesTable_new junk raw p vec u mem = Inr t \<and> (\<forall>h. NOF_Open h t = Inl BadPointer) \<and>
    (\<forall>i. 0 \<le> i \<and> i < maxArch \<longrightarrow> NOF_isOpened i t = Inr (i \<le> 2) \<and> NOF_Close i t = Inr (-1, t) \<and>
      NOF_getUnixHandle i t = (if i \<le> 2 then Inl BadPointer else Inr (-1)))"
proof -
  have "nat (divRoundUp maxArch BitsInWord) \<le> length junk"
    using assms by (simp add: divRoundUp_def maxArch_def BitsInWord_def)
  then obtain bm where bm: "BitMap_new junk maxArch = Inr bm" "bitmap_ok bm" "numBits bm = maxArch" "used bm = {}"
    using BitMap_new_correct [of maxArch junk] by (auto simp: maxArch_def)
  obtain t where t: "NachosOpenFilesTable_init p \<lparr>openFiles = raw, openFilesMap = bm, usage = u, arrays = mem(p \<mapsto> vec)\<rparr> = Inr t" "nof_ok t"
    "nof_view t = [0 \<mapsto> 0, 1 \<mapsto> 1, 2 \<mapsto> 2]" "openFiles t = p"
    using NachosOpenFilesTable_init_correct [of "\<lparr>openFiles = raw, openFilesMap = bm, usage = u, arrays = mem(p \<mapsto> vec)\<rparr>" p vec] bm assms(2)
    by auto
  let ?t = "t\<lparr>arrays := (arrays t)(p := None)\<rparr>"
  have new: "NachosOpenFilesTable_new junk raw p vec u mem = Inr ?t"
    using bm(1) t(1) by (simp add: NachosOpenFilesTable_new_def local_array_def)
  have "used (openFilesMap t) = dom (nof_view t)" by (simp add: nof_view_def)
  then have used: "used (openFilesMap t) = {0, 1, 2}" using t(3) by auto
  then have "3 \<notin> used (openFilesMap t)" by simp
  moreover have "3 \<in> {0..<numBits (openFilesMap t)}" using t(2) by (simp add: nof_ok_def maxArch_def)
  ultimately have "used (openFilesMap t) \<noteq> {0..<numBits (openFilesMap t)}" by metis
  then obtain i bm' where f: "Find (openFilesMap t) = Inr (i, bm')"
    using bm.find_law [of "openFilesMap t"] t(2) by (auto simp: nof_ok_def)
  then have "NOF_Open h ?t = Inl BadPointer" for h using t(4) by (simp add: NOF_Open_def of_write_def)
  moreover have o: "NOF_isOpened i ?t = Inr (i \<le> 2)" if "0 \<le> i" "i < maxArch" for i
  proof -
    have "i \<in> {0, 1, 2} \<longleftrightarrow> i \<le> 2" using that by auto
    moreover have "Test i (openFilesMap t) = Inr (i \<in> used (openFilesMap t))"
      using that t(2) by (intro bm.test_law) (auto simp: nof_ok_def)
    ultimately show ?thesis using used by (simp add: NOF_isOpened_def)
  qed
  ultimately show ?thesis using new o t(4) by (auto simp: NOF_Close_def NOF_getUnixHandle_def of_read_def)
qed

end
