(* ===== verification/Nachos_Machine.thy ===== *)
theory Nachos_Machine
  imports Nachos_Prelude
begin

text \<open>
  \<open>machine/machine.h\<close>, \<open>machine.cc\<close> and \<open>translate.cc\<close>: the registers and the main memory of the
  simulated workstation, the translation of virtual addresses by a page table or a TLB,
  and the memory accesses of user programs.  A routine that raises an exception ends by
  trapping to the kernel; here it returns the exception, and the caller continues with
  \<open>RaiseException\<close>.
\<close>

section \<open>State\<close>

definition SectorSize :: nat where "SectorSize = 128"
definition PageSize :: nat where "PageSize = SectorSize"
definition NumPhysPages :: nat where "NumPhysPages = 32"
definition MemorySize :: nat where "MemorySize = NumPhysPages * PageSize"
definition TLBSize :: nat where "TLBSize = 4"

lemmas machine_sizes = SectorSize_def PageSize_def NumPhysPages_def MemorySize_def TLBSize_def

datatype ExceptionType = NoException | SyscallException | PageFaultException | ReadOnlyException
  | BusErrorException | AddressErrorException | OverflowException | IllegalInstrException

abbreviation "StackReg \<equiv> 29 :: nat"
abbreviation "RetAddrReg \<equiv> 31 :: nat"
abbreviation "HiReg \<equiv> 32 :: nat"
abbreviation "LoReg \<equiv> 33 :: nat"
abbreviation "PCReg \<equiv> 34 :: nat"
abbreviation "NextPCReg \<equiv> 35 :: nat"
abbreviation "PrevPCReg \<equiv> 36 :: nat"
abbreviation "LoadReg \<equiv> 37 :: nat"
abbreviation "LoadValueReg \<equiv> 38 :: nat"
abbreviation "BadVAddrReg \<equiv> 39 :: nat"
abbreviation "NumTotalRegs \<equiv> 40 :: nat"

record TranslationEntry =
  virtualPage :: "32 word"
  physicalPage :: "32 word"
  valid :: bool
  readOnly :: bool
  use :: bool
  dirty :: bool

record Machine =
  mainMemory :: "byte list"
  registers :: "32 word list"
  tlb :: "TranslationEntry list option"
  pageTable :: "TranslationEntry list option"
  pageTableSize :: "32 word"
  singleStep :: bool

text \<open>\<open>Machine::Machine\<close>; with \<open>USE_TLB\<close> the entries hold junk but for two flags.\<close>

definition Machine_new :: "TranslationEntry list option \<Rightarrow> 32 word \<Rightarrow> bool \<Rightarrow> Machine" where
  "Machine_new tlb_junk junk debug =
     \<lparr>mainMemory = replicate MemorySize 0, registers = replicate NumTotalRegs 0,
      tlb = map_option (map (\<lambda>e. e\<lparr>valid := False, dirty := False\<rparr>)) tlb_junk,
      pageTable = None, pageTableSize = junk, singleStep = debug\<rparr>"

definition ReadRegister :: "int \<Rightarrow> Machine \<Rightarrow> 32 word res" where
  "ReadRegister num m = ASSERT (num \<ge> 0 \<and> num < int NumTotalRegs) (Inr (registers m ! nat num))"

definition WriteRegister :: "int \<Rightarrow> 32 word \<Rightarrow> Machine \<Rightarrow> Machine res" where
  "WriteRegister num v m = ASSERT (num \<ge> 0 \<and> num < int NumTotalRegs)
     (Inr (m\<lparr>registers := (registers m)[nat num := v]\<rparr>))"

text \<open>\<open>Machine::DelayedLoad\<close> (\<open>mipssim.cc\<close>): finish the pending load and start the next one.\<close>

definition DelayedLoad :: "nat \<Rightarrow> 32 word \<Rightarrow> Machine \<Rightarrow> Machine res" where
  "DelayedLoad nextReg nextValue m =
     (let r = registers m in
      if unat (r ! LoadReg) < NumTotalRegs
      then Inr (m\<lparr>registers := (((r[unat (r ! LoadReg) := r ! LoadValueReg])
             [LoadReg := of_nat nextReg])[LoadValueReg := nextValue])[0 := 0]\<rparr>)
      else Inl BadIndex)"

text \<open>
  \<open>Machine::RaiseException\<close>: record the failing address, finish the pending load, and trap to the
  kernel (\<open>ExceptionHandler\<close>, here a parameter).
\<close>

definition RaiseException ::
    "(ExceptionType \<Rightarrow> Machine \<Rightarrow> 'r res) \<Rightarrow> ExceptionType \<Rightarrow> 32 word \<Rightarrow> Machine \<Rightarrow> 'r res" where
  "RaiseException handler which badVAddr m =
     rbind (DelayedLoad 0 0 (m\<lparr>registers := (registers m)[BadVAddrReg := badVAddr]\<rparr>)) (handler which)"

section \<open>Address translation\<close>

text \<open>\<open>WordToHost\<close> and its three companions: no-ops on the little-endian hosts of the build.\<close>

definition WordToHost :: "32 word \<Rightarrow> 32 word" where "WordToHost w = w"
definition ShortToHost :: "16 word \<Rightarrow> 16 word" where "ShortToHost w = w"
definition WordToMachine :: "32 word \<Rightarrow> 32 word" where "WordToMachine w = WordToHost w"
definition ShortToMachine :: "16 word \<Rightarrow> 16 word" where "ShortToMachine w = ShortToHost w"

text \<open>The associative search of the TLB: the index of the first matching valid entry.\<close>

fun tlb_search :: "nat \<Rightarrow> TranslationEntry list \<Rightarrow> 32 word \<Rightarrow> nat option" where
  "tlb_search i [] vpn = None"
| "tlb_search i (e # es) vpn = (if valid e \<and> virtualPage e = vpn then Some i else tlb_search (Suc i) es vpn)"

text \<open>
  \<open>find_entry\<close>: lines 202--235 of \<open>translate.cc\<close>, which find the entry (in the TLB or in the page
  table) that translates page \<open>vpn\<close>, or the exception to report.
\<close>

definition find_entry :: "32 word \<Rightarrow> Machine \<Rightarrow> (ExceptionType + nat \<times> TranslationEntry) res" where
  "find_entry vpn m =
     (case (tlb m, pageTable m) of
        (Some _, Some _) \<Rightarrow> Inl Abort
      | (None, None) \<Rightarrow> Inl Abort
      | (None, Some pt) \<Rightarrow>
          if vpn \<ge> pageTableSize m then Inr (Inl AddressErrorException)
          else if unat vpn \<ge> length pt then Inl BadIndex
          else if \<not> valid (pt ! unat vpn) then Inr (Inl PageFaultException)
          else Inr (Inr (unat vpn, pt ! unat vpn))
      | (Some t, None) \<Rightarrow>
          (case tlb_search 0 (take TLBSize t) vpn of
             None \<Rightarrow> Inr (Inl PageFaultException)
           | Some i \<Rightarrow> Inr (Inr (i, t ! i))))"

definition set_entry :: "nat \<Rightarrow> TranslationEntry \<Rightarrow> Machine \<Rightarrow> Machine" where
  "set_entry i e m = m\<lparr>tlb := map_option (\<lambda>t. t[i := e]) (tlb m),
                       pageTable := map_option (\<lambda>t. t[i := e]) (pageTable m)\<rparr>"

definition misaligned :: "32 word \<Rightarrow> nat \<Rightarrow> bool" where
  "misaligned a sz \<longleftrightarrow> sz = 4 \<and> a AND 3 \<noteq> 0 \<or> sz = 2 \<and> a AND 1 \<noteq> 0"

text \<open>
  \<open>Machine::Translate\<close>: an exception, or the physical address together with the machine whose
  use and dirty bits are set.
\<close>

definition Translate :: "32 word \<Rightarrow> nat \<Rightarrow> bool \<Rightarrow> Machine \<Rightarrow> ((ExceptionType + nat) \<times> Machine) res" where
  "Translate virtAddr sz writing m =
     (if misaligned virtAddr sz then Inr (Inl AddressErrorException, m)
      else let vpn = virtAddr div of_nat PageSize; offset = virtAddr mod of_nat PageSize in
       rbind (find_entry vpn m) (\<lambda>f. case f of
           Inl ex \<Rightarrow> Inr (Inl ex, m)
         | Inr (i, entry) \<Rightarrow>
             if readOnly entry \<and> writing then Inr (Inl ReadOnlyException, m)
             else let pageFrame = physicalPage entry in
               if pageFrame \<ge> of_nat NumPhysPages then Inr (Inl BusErrorException, m)
               else let m' = set_entry i (entry\<lparr>use := True, dirty := dirty entry \<or> writing\<rparr>) m;
                        physAddr = unat (pageFrame * of_nat PageSize + offset)
                    in ASSERT (physAddr + sz \<le> MemorySize) (Inr (Inr physAddr, m'))))"

section \<open>Memory accesses\<close>

text \<open>Bytes \<open>p\<close>, \<open>p + 1\<close>, \<dots> of main memory as a little-endian number.\<close>

definition mem_short :: "byte list \<Rightarrow> nat \<Rightarrow> 16 word" where
  "mem_short mem p = ucast (mem ! p) OR push_bit 8 (ucast (mem ! (p + 1)))"

definition mem_word :: "byte list \<Rightarrow> nat \<Rightarrow> 32 word" where
  "mem_word mem p = bytes_to_word (take 4 (drop p mem))"

definition ReadMem :: "32 word \<Rightarrow> nat \<Rightarrow> Machine \<Rightarrow> ((ExceptionType + 32 word) \<times> Machine) res" where
  "ReadMem addr sz m = rbind (Translate addr sz False m) (\<lambda>(t, m1).
     case t of
       Inl ex \<Rightarrow> Inr (Inl ex, m1)
     | Inr p \<Rightarrow>
         if sz = 1 then Inr (Inr (scast (mainMemory m1 ! p)), m1)
         else if sz = 2 then Inr (Inr (ucast (ShortToHost (mem_short (mainMemory m1) p))), m1)
         else if sz = 4 then Inr (Inr (WordToHost (mem_word (mainMemory m1) p)), m1)
         else Inl Abort)"

text \<open>\<open>write_bytes\<close>: the assignment through a \<open>short\<close> or \<open>int\<close> pointer into main memory.\<close>

definition write_bytes :: "nat \<Rightarrow> byte list \<Rightarrow> Machine \<Rightarrow> Machine" where
  "write_bytes p bs m = m\<lparr>mainMemory := overwrite p bs (mainMemory m)\<rparr>"

definition WriteMem :: "32 word \<Rightarrow> nat \<Rightarrow> 32 word \<Rightarrow> Machine \<Rightarrow> (ExceptionType option \<times> Machine) res" where
  "WriteMem addr sz v m = rbind (Translate addr sz True m) (\<lambda>(t, m1).
     case t of
       Inl ex \<Rightarrow> Inr (Some ex, m1)
     | Inr p \<Rightarrow>
         if sz = 1 then Inr (None, write_bytes p [ucast (v AND 255)] m1)
         else if sz = 2 then Inr (None, write_bytes p
                (let s = ShortToMachine (ucast (v AND 0xffff)) in [ucast s, ucast (drop_bit 8 s)]) m1)
         else if sz = 4 then Inr (None, write_bytes p (word_to_bytes (WordToMachine v)) m1)
         else Inl Abort)"

section \<open>Well-formed machines\<close>

definition machine_ok :: "Machine \<Rightarrow> bool" where
  "machine_ok m \<longleftrightarrow> length (mainMemory m) = MemorySize \<and> length (registers m) = NumTotalRegs \<and>
     (case (tlb m, pageTable m) of
        (Some t, None) \<Rightarrow> length t = TLBSize
      | (None, Some pt) \<Rightarrow> length pt = unat (pageTableSize m)
      | _ \<Rightarrow> False)"

text \<open>The table in use: what decides which frames a user program can reach.\<close>

definition the_table :: "Machine \<Rightarrow> TranslationEntry list" where
  "the_table m = (case tlb m of Some t \<Rightarrow> t | None \<Rightarrow> (case pageTable m of Some pt \<Rightarrow> pt | None \<Rightarrow> []))"

lemma tlb_search_Some:
  assumes "tlb_search i es vpn = Some j"
  shows "i \<le> j" "j < i + length es" "valid (es ! (j - i))" "virtualPage (es ! (j - i)) = vpn"
  using assms
  by (induction i es vpn rule: tlb_search.induct) (auto split: if_splits simp: nth_Cons' Suc_diff_le)

lemma tlb_search_update:
  assumes "tlb_search i es vpn = Some j" "valid e" "virtualPage e = vpn"
  shows "tlb_search i (es[j - i := e]) vpn = Some j"
  using assms
proof (induction i es vpn rule: tlb_search.induct)
  case (2 i e' es vpn)
  show ?case
  proof (cases "valid e' \<and> virtualPage e' = vpn")
    case True with 2 show ?thesis by simp
  next
    case False
    then have s: "tlb_search (Suc i) es vpn = Some j" using 2 by (simp split: if_splits)
    then obtain k where k: "j - i = Suc k" "j - Suc i = k" using tlb_search_Some(1) [OF s]
      by (metis Suc_diff_Suc Suc_le_lessD)
    from 2 False s k show ?thesis by auto
  qed
qed simp

lemma find_entry_total: "machine_ok m \<Longrightarrow> \<exists>r. find_entry vpn m = Inr r"
  by (auto simp: machine_ok_def find_entry_def word_le_nat_alt not_le split: option.splits)

lemma find_entry_table:
  assumes "machine_ok m" "find_entry vpn m = Inr (Inr (i, e))"
  shows "i < length (the_table m)" "the_table m ! i = e" "valid e"
proof -
  show "i < length (the_table m)" "the_table m ! i = e" "valid e"
    using assms tlb_search_Some(2,3) [of 0 "the (tlb m)" vpn i]
    by (auto simp: machine_ok_def find_entry_def the_table_def split: option.splits if_splits)
qed

lemma and_3_mod_4: "(a::32 word) AND 3 = a mod 4"
proof -
  have "a AND mask 2 = a mod 2 ^ 2" by (metis take_bit_eq_mask take_bit_eq_mod)
  moreover have "mask 2 = (3::32 word)" by (simp add: mask_eq_exp_minus_1)
  ultimately show ?thesis by simp
qed

lemma aligned_unat:
  assumes "\<not> misaligned a sz"
  shows "sz = 4 \<longrightarrow> unat a mod 4 = 0" "sz = 2 \<longrightarrow> unat a mod 2 = 0"
proof -
  have "(a::32 word) mod 4 = 0 \<longleftrightarrow> unat a mod 4 = 0" "a mod 2 = 0 \<longleftrightarrow> unat a mod 2 = 0"
    by (simp_all add: unat_eq_zero [symmetric] unat_mod)
  then show "sz = 4 \<longrightarrow> unat a mod 4 = 0" "sz = 2 \<longrightarrow> unat a mod 2 = 0"
    using assms by (auto simp: misaligned_def and_3_mod_4 and_one_eq)
qed

lemma offset_fits:
  assumes "\<not> misaligned a sz" "sz \<in> {1, 2, 4}"
  shows "unat (a mod of_nat PageSize) + sz \<le> PageSize"
proof -
  have "unat (a mod of_nat PageSize) = unat a mod 128"
    by (simp add: machine_sizes unat_mod)
  moreover have "d dvd 128 \<Longrightarrow> n mod d = 0 \<Longrightarrow> n mod 128 + d \<le> 128" for n d :: nat
    by (rule dvd_less_add_le) (auto simp: dvd_mod mod_eq_0_iff_dvd)
  note this [of 4 "unat a"] this [of 2 "unat a"] this [of 1 "unat a"]
  ultimately show ?thesis using assms(2) aligned_unat [OF assms(1)] by (auto simp: machine_sizes)
qed

lemma phys_addr:
  assumes "f < (of_nat NumPhysPages :: 32 word)"
  shows "unat (f * of_nat PageSize + a mod of_nat PageSize) = unat f * PageSize + unat a mod PageSize"
    "unat f < NumPhysPages"
proof -
  show f: "unat f < NumPhysPages" using assms by (simp add: machine_sizes word_less_nat_alt)
  have "unat (a mod (128::32 word)) = unat a mod 128" by (simp add: unat_mod)
  moreover have "unat a mod 128 < 128" by simp
  ultimately show "unat (f * of_nat PageSize + a mod of_nat PageSize) = unat f * PageSize + unat a mod PageSize"
    using f by (simp add: machine_sizes unat_word_ariths)
qed

section \<open>Translation is safe and confined to the table\<close>

lemma set_entry_sel [simp]:
  "mainMemory (set_entry i e m) = mainMemory m"
  "registers (set_entry i e m) = registers m"
  "pageTableSize (set_entry i e m) = pageTableSize m"
  by (simp_all add: set_entry_def)

lemma machine_ok_set_entry [simp]: "machine_ok m \<Longrightarrow> machine_ok (set_entry i e m)"
  by (auto simp: machine_ok_def set_entry_def split: option.splits)

text \<open>
  The four outcomes of a translation that does not stop the machine: on success the physical
  address lies in the frame of a valid entry for the page, at the same offset.
\<close>

lemma Translate_cases:
  assumes "machine_ok m" "sz \<in> {1, 2, 4}"
  obtains (exn) ex where "Translate a sz w m = Inr (Inl ex, m)" "ex \<noteq> NoException"
  | (hit) i e where "Translate a sz w m =
        Inr (Inr (unat (physicalPage e) * PageSize + unat a mod PageSize),
             set_entry i (e\<lparr>use := True, dirty := dirty e \<or> w\<rparr>) m)"
      "find_entry (a div of_nat PageSize) m = Inr (Inr (i, e))" "\<not> (readOnly e \<and> w)"
      "unat (physicalPage e) < NumPhysPages" "\<not> misaligned a sz" "unat a mod PageSize + sz \<le> PageSize"
proof (cases "misaligned a sz")
  case True
  then have "Translate a sz w m = Inr (Inl AddressErrorException, m)" by (simp add: Translate_def)
  then show ?thesis by (rule exn) simp
next
  case False
  obtain r where r: "find_entry (a div of_nat PageSize) m = Inr r"
    using find_entry_total [OF assms(1)] by blast
  show ?thesis
  proof (cases r)
    case (Inl ex)
    then have "ex \<noteq> NoException" using r
      by (auto simp: find_entry_def split: option.splits if_splits)
    moreover have "Translate a sz w m = Inr (Inl ex, m)" using False r Inl by (simp add: Translate_def)
    ultimately show ?thesis by (intro exn)
  next
    case (Inr ie)
    obtain i e where ie: "ie = (i, e)" by (cases ie)
    consider (ro) "readOnly e \<and> w" | (bus) "\<not> (readOnly e \<and> w)" "physicalPage e \<ge> of_nat NumPhysPages"
      | (ok) "\<not> (readOnly e \<and> w)" "physicalPage e < of_nat NumPhysPages" by fastforce
    then show ?thesis
    proof cases
      case ro
      then have "Translate a sz w m = Inr (Inl ReadOnlyException, m)"
        using False r Inr ie by (simp add: Translate_def)
      then show ?thesis by (rule exn) simp
    next
      case bus
      then have "Translate a sz w m = Inr (Inl BusErrorException, m)"
        using False r Inr ie by (auto simp: Translate_def)
      then show ?thesis by (rule exn) simp
    next
      case ok
      note pa = phys_addr(1) [OF ok(2), of a] phys_addr(2) [OF ok(2)]
      have fit: "unat a mod PageSize + sz \<le> PageSize"
        using offset_fits [OF False assms(2)] by (simp add: machine_sizes unat_mod)
      have "unat (physicalPage e) * PageSize + unat a mod PageSize + sz \<le> MemorySize"
        using pa(2) fit by (simp add: machine_sizes)
      then have "Translate a sz w m = Inr (Inr (unat (physicalPage e) * PageSize + unat a mod PageSize),
             set_entry i (e\<lparr>use := True, dirty := dirty e \<or> w\<rparr>) m)"
        using ok False r Inr ie pa(1) by (auto simp: Translate_def Let_def)
      then show ?thesis using r Inr ie ok(1) pa(2) False fit by (intro hit) auto
    qed
  qed
qed

lemma Translate_safe:
  assumes "machine_ok m" "sz \<in> {1, 2, 4}"
  shows "\<exists>r m'. Translate a sz w m = Inr (r, m') \<and> machine_ok m' \<and> mainMemory m' = mainMemory m \<and>
    registers m' = registers m \<and>
    (\<forall>p. r = Inr p \<longrightarrow> p + sz \<le> MemorySize \<and>
       (\<exists>e \<in> set (the_table m). valid e \<and> p div PageSize = unat (physicalPage e)))"
proof (cases rule: Translate_cases [OF assms, of a w, case_names exn hit])
  case (exn ex)
  then show ?thesis using assms(1) by simp
next
  case (hit i e)
  have "e \<in> set (the_table m)" "valid e" using find_entry_table [OF assms(1) hit(2)] by auto
  moreover have "(unat (physicalPage e) * PageSize + unat a mod PageSize) div PageSize = unat (physicalPage e)"
    by (simp add: machine_sizes)
  ultimately show ?thesis using hit assms(1) by (auto simp: machine_sizes)
qed

section \<open>Memory accesses: safety, confinement, round trip\<close>

lemma ReadMem_safe:
  assumes "machine_ok m" "sz \<in> {1, 2, 4}"
  shows "\<exists>r m'. ReadMem a sz m = Inr (r, m') \<and> machine_ok m' \<and> mainMemory m' = mainMemory m \<and>
    registers m' = registers m"
proof (cases rule: Translate_cases [OF assms, of a False, case_names exn hit])
  case (exn ex) then show ?thesis using assms(1) by (simp add: ReadMem_def)
next
  case (hit i e) then show ?thesis using assms by (auto simp: ReadMem_def)
qed

lemma machine_ok_write_bytes:
  "machine_ok m \<Longrightarrow> p + length bs \<le> MemorySize \<Longrightarrow> machine_ok (write_bytes p bs m)"
  by (auto simp: machine_ok_def write_bytes_def split: option.splits)

text \<open>The bytes that a write of the given size stores.\<close>

definition value_bytes :: "nat \<Rightarrow> 32 word \<Rightarrow> byte list" where
  "value_bytes sz v = (if sz = 1 then [ucast (v AND 255)]
     else if sz = 2 then (let s = ShortToMachine (ucast (v AND 0xffff)) in [ucast s, ucast (drop_bit 8 s)])
     else word_to_bytes (WordToMachine v))"

lemma length_value_bytes [simp]: "sz \<in> {1, 2, 4} \<Longrightarrow> length (value_bytes sz v) = sz"
  by (auto simp: value_bytes_def Let_def)

lemma WriteMem_cases:
  assumes "machine_ok m" "sz \<in> {1, 2, 4}"
  obtains (exn) ex where "WriteMem a sz v m = Inr (Some ex, m)" "ex \<noteq> NoException"
  | (hit) i e where "WriteMem a sz v m = Inr (None,
        write_bytes (unat (physicalPage e) * PageSize + unat a mod PageSize) (value_bytes sz v)
          (set_entry i (e\<lparr>use := True, dirty := True\<rparr>) m))"
      "find_entry (a div of_nat PageSize) m = Inr (Inr (i, e))" "\<not> readOnly e"
      "unat (physicalPage e) < NumPhysPages" "\<not> misaligned a sz" "unat a mod PageSize + sz \<le> PageSize"
proof (cases rule: Translate_cases [OF assms, of a True, case_names exn hit])
  case (exn ex)
  then have "WriteMem a sz v m = Inr (Some ex, m)" by (simp add: WriteMem_def)
  then show ?thesis using exn(2) by (rule that(1))
next
  case (hit i e)
  have "WriteMem a sz v m = Inr (None,
        write_bytes (unat (physicalPage e) * PageSize + unat a mod PageSize) (value_bytes sz v)
          (set_entry i (e\<lparr>use := True, dirty := True\<rparr>) m))"
    using hit(1) assms(2) by (auto simp: WriteMem_def value_bytes_def)
  then show ?thesis using hit by (intro that(2)) auto
qed

text \<open>
  A write never changes a byte outside the frames that the table of the program maps, whatever
  address the program uses.
\<close>

lemma WriteMem_confined:
  assumes "machine_ok m" "sz \<in> {1, 2, 4}"
  shows "\<exists>r m'. WriteMem a sz v m = Inr (r, m') \<and> machine_ok m' \<and> registers m' = registers m \<and>
    (\<forall>q < MemorySize. (\<forall>e \<in> set (the_table m). valid e \<and> \<not> readOnly e \<longrightarrow> unat (physicalPage e) \<noteq> q div PageSize)
       \<longrightarrow> mainMemory m' ! q = mainMemory m ! q)"
proof (cases rule: WriteMem_cases [OF assms, of a v, case_names exn hit])
  case (exn ex) then show ?thesis using assms(1) by simp
next
  case (hit i e)
  let ?p = "unat (physicalPage e) * PageSize + unat a mod PageSize"
  let ?m' = "write_bytes ?p (value_bytes sz v) (set_entry i (e\<lparr>use := True, dirty := True\<rparr>) m)"
  have e: "e \<in> set (the_table m)" "valid e" using find_entry_table [OF assms(1) hit(2)] by auto
  have fit: "?p + sz \<le> MemorySize" using hit by (simp add: machine_sizes)
  have "mainMemory ?m' ! q = mainMemory m ! q"
    if q: "q < MemorySize" "unat (physicalPage e) \<noteq> q div PageSize" for q
  proof -
    have "\<not> (?p \<le> q \<and> q < ?p + sz)"
    proof
      assume r: "?p \<le> q \<and> q < ?p + sz"
      have "q div PageSize = unat (physicalPage e)"
        using r hit(6) by (intro div_nat_eqI) (auto simp: machine_sizes)
      with q show False by simp
    qed
    then show ?thesis using q fit assms
      by (auto simp: write_bytes_def nth_overwrite machine_ok_def)
  qed
  moreover have "machine_ok ?m'" using fit assms by (intro machine_ok_write_bytes) auto
  ultimately show ?thesis using hit(1,3) e by (auto simp: write_bytes_def)
qed

text \<open>The frames that the program may write, and what a step of the program keeps.\<close>

definition user_frames :: "Machine \<Rightarrow> nat set" where
  "user_frames m = {unat (physicalPage e) |e. e \<in> set (the_table m) \<and> valid e \<and> \<not> readOnly e}"

definition confined :: "Machine \<Rightarrow> Machine \<Rightarrow> bool" where
  "confined m m' \<longleftrightarrow> machine_ok m' \<and> user_frames m' = user_frames m \<and>
     (\<forall>q < MemorySize. q div PageSize \<notin> user_frames m \<longrightarrow> mainMemory m' ! q = mainMemory m ! q)"

lemma confined_refl: "machine_ok m \<Longrightarrow> confined m m"
  by (simp add: confined_def)

lemma confined_trans: "confined m m1 \<Longrightarrow> confined m1 m2 \<Longrightarrow> confined m m2"
  by (simp add: confined_def)

lemma user_frames_set_entry:
  assumes "machine_ok m" "find_entry vpn m = Inr (Inr (i, e))"
  shows "user_frames (set_entry i (e\<lparr>use := u, dirty := d\<rparr>) m) = user_frames m"
proof -
  let ?e = "e\<lparr>use := u, dirty := d\<rparr>"
  let ?frames = "\<lambda>es. {unat (physicalPage e) |e. e \<in> set es \<and> valid e \<and> \<not> readOnly e}"
  have t: "the_table (set_entry i ?e m) = (the_table m)[i := ?e]"
    using assms(1) by (auto simp: machine_ok_def the_table_def set_entry_def split: option.splits)
  have frames: "?frames es = (\<lambda>(p, v, r). unat p) ` {x \<in> set (map (\<lambda>e. (physicalPage e, valid e, readOnly e)) es).
      fst (snd x) \<and> \<not> snd (snd x)}" for es
    by force
  have "map (\<lambda>e. (physicalPage e, valid e, readOnly e)) ((the_table m)[i := ?e])
      = map (\<lambda>e. (physicalPage e, valid e, readOnly e)) (the_table m)"
    using find_entry_table(1,2) [OF assms]
    by (auto simp: map_update intro!: list_update_same_conv [THEN iffD2])
  then show ?thesis unfolding user_frames_def t frames by (simp only:)
qed

lemma ReadMem_confined:
  assumes "machine_ok m" "sz \<in> {1, 2, 4}"
  shows "\<exists>r m'. ReadMem a sz m = Inr (r, m') \<and> confined m m' \<and> registers m' = registers m"
proof (cases rule: Translate_cases [OF assms, of a False, case_names exn hit])
  case (exn ex) then show ?thesis using assms(1) by (simp add: ReadMem_def confined_refl)
next
  case (hit i e)
  have "user_frames (set_entry i (e\<lparr>use := True\<rparr>) m) = user_frames m"
    using user_frames_set_entry [OF assms(1) hit(2), of "dirty e" True] by simp
  then show ?thesis using hit(1) assms by (auto simp: ReadMem_def confined_def)
qed

lemma user_frames_write_bytes [simp]: "user_frames (write_bytes p bs m) = user_frames m"
  by (simp add: user_frames_def the_table_def write_bytes_def split: option.split)

lemma WriteMem_step:
  assumes "machine_ok m" "sz \<in> {1, 2, 4}"
  shows "\<exists>r m'. WriteMem a sz v m = Inr (r, m') \<and> confined m m' \<and> registers m' = registers m"
proof (cases rule: WriteMem_cases [OF assms, of a v, case_names exn hit])
  case (exn ex) then show ?thesis using assms(1) by (simp add: confined_refl)
next
  case (hit i e)
  obtain r m' where w: "WriteMem a sz v m = Inr (r, m')" "machine_ok m'" "registers m' = registers m"
    "\<forall>q < MemorySize. (\<forall>e \<in> set (the_table m). valid e \<and> \<not> readOnly e \<longrightarrow> unat (physicalPage e) \<noteq> q div PageSize)
       \<longrightarrow> mainMemory m' ! q = mainMemory m ! q"
    using WriteMem_confined [OF assms] by metis
  have "user_frames m' = user_frames (set_entry i (e\<lparr>use := True, dirty := True\<rparr>) m)"
    using hit(1) w(1) by simp
  then have "confined m m'" using w user_frames_set_entry [OF assms(1) hit(2)]
    unfolding confined_def user_frames_def by fastforce
  then show ?thesis using w by blast
qed

text \<open>The value that a read of the given size returns after the value \<open>v\<close> was stored.\<close>

definition read_back :: "nat \<Rightarrow> 32 word \<Rightarrow> 32 word" where
  "read_back sz v = (if sz = 1 then scast (ucast v :: byte) else if sz = 2 then ucast (ucast v :: 16 word) else v)"

lemma find_entry_after:
  assumes "machine_ok m" "find_entry vpn m = Inr (Inr (i, e))" "virtualPage e' = virtualPage e" "valid e'"
  shows "find_entry vpn (write_bytes p bs (set_entry i e' m)) = Inr (Inr (i, e'))"
proof (cases "tlb m")
  case None
  then show ?thesis using assms
    by (auto simp: machine_ok_def find_entry_def set_entry_def write_bytes_def split: option.splits if_splits)
next
  case (Some t)
  have s: "tlb_search 0 t vpn = Some i" "length t = TLBSize" "pageTable m = None" "e = t ! i"
    using assms Some by (auto simp: machine_ok_def find_entry_def split: option.splits)
  note facts = tlb_search_Some [OF s(1)]
  have "virtualPage e' = vpn" using facts(4) s(4) assms(3) by simp
  then have "tlb_search 0 (t[i := e']) vpn = Some i" using tlb_search_update [OF s(1) assms(4)] by simp
  then show ?thesis using s facts(2) Some
    by (simp add: find_entry_def set_entry_def write_bytes_def)
qed

lemma and_masks: "(v::32 word) AND 255 = take_bit 8 v" "(v::32 word) AND 65535 = take_bit 16 v"
  by (simp_all add: take_bit_eq_mask mask_eq_exp_minus_1)

lemma mem_read_back:
  assumes "p + sz \<le> length mem" "sz \<in> {1, 2, 4}"
  shows "sz = 1 \<Longrightarrow> overwrite p (value_bytes sz v) mem ! p = ucast v"
    "sz = 2 \<Longrightarrow> mem_short (overwrite p (value_bytes sz v) mem) p = ucast v"
    "sz = 4 \<Longrightarrow> mem_word (overwrite p (value_bytes sz v) mem) p = v"
proof -
  show "sz = 1 \<Longrightarrow> overwrite p (value_bytes sz v) mem ! p = ucast v"
    using assms(1) by (auto simp: nth_overwrite value_bytes_def and_masks intro!: bit_word_eqI simp: bit_simps)
  show "sz = 4 \<Longrightarrow> mem_word (overwrite p (value_bytes sz v) mem) p = v"
    using assms take_drop_overwrite [of p "value_bytes 4 v" mem]
    by (simp add: mem_word_def value_bytes_def WordToMachine_def WordToHost_def)
  assume sz: "sz = 2"
  let ?s = "ucast (v AND 0xffff) :: 16 word"
  have "mem_short (overwrite p (value_bytes sz v) mem) p = ucast (ucast ?s :: byte) OR push_bit 8 (ucast (ucast (drop_bit 8 ?s) :: byte))"
    using assms(1) sz by (simp add: mem_short_def nth_overwrite value_bytes_def Let_def ShortToMachine_def ShortToHost_def)
  also have "\<dots> = ucast v"
    unfolding and_masks by (rule bit_word_eqI) (auto simp: bit_simps)
  finally show "mem_short (overwrite p (value_bytes sz v) mem) p = ucast v" .
qed

lemma WriteMem_ReadMem:
  assumes "machine_ok m" "sz \<in> {1, 2, 4}" "WriteMem a sz v m = Inr (None, m1)"
  shows "\<exists>m2. ReadMem a sz m1 = Inr (Inr (read_back sz v), m2)"
proof (cases rule: WriteMem_cases [OF assms(1,2), of a v, case_names exn hit])
  case (exn ex) then show ?thesis using assms(3) by simp
next
  case (hit i e)
  let ?p = "unat (physicalPage e) * PageSize + unat a mod PageSize"
  let ?e = "e\<lparr>use := True, dirty := True\<rparr>"
  have m1: "m1 = write_bytes ?p (value_bytes sz v) (set_entry i ?e m)" using hit(1) assms(3) by simp
  have fit: "?p + sz \<le> MemorySize" using hit by (simp add: machine_sizes)
  have ok: "machine_ok m1" unfolding m1 using fit assms by (intro machine_ok_write_bytes) auto
  have v: "valid e" using find_entry_table(3) [OF assms(1) hit(2)] .
  have fe: "find_entry (a div of_nat PageSize) m1 = Inr (Inr (i, ?e))"
    unfolding m1 by (rule find_entry_after [OF assms(1) hit(2)]) (use v in auto)
  have mem: "mainMemory m1 = overwrite ?p (value_bytes sz v) (mainMemory m)" by (simp add: m1 write_bytes_def)
  have len: "?p + sz \<le> length (mainMemory m)" using fit assms(1) by (simp add: machine_ok_def)
  have nb: "\<not> of_nat NumPhysPages \<le> physicalPage e"
    using hit(4) by (simp add: machine_sizes word_le_nat_alt)
  show ?thesis
  proof (cases rule: Translate_cases [OF ok assms(2), of a False, case_names exn ok])
    case (exn ex)
    then show ?thesis using fe hit(5) fit nb phys_addr(1) [of "physicalPage e" a]
      by (auto simp: Translate_def Let_def not_le)
  next
    case (ok j e')
    then have "j = i" "e' = ?e" using fe by auto
    then show ?thesis using ok(1) mem_read_back [OF len assms(2), of v] assms(2) mem
      by (auto simp: ReadMem_def read_back_def ShortToHost_def WordToHost_def)
  qed
qed

end
