(* ===== verification/Nachos_MIPS.thy ===== *)
theory Nachos_MIPS
  imports Nachos_Machine
begin

text \<open>
  \<open>machine/mipssim.h\<close> and \<open>mipssim.cc\<close>: the decoder and the execution of one user instruction on
  the simulated R2000, with its delayed loads and branch delay slots, and the
  shift-and-add multiplication \<open>Mult\<close>.  Registers are 32-bit words; the signed and unsigned
  readings of the C code are written out (\<open>sint\<close>, \<open>uint\<close>).
\<close>

section \<open>Instructions\<close>

datatype (plugins only: code size) OpCode =
    OP_ADD | OP_ADDI | OP_ADDIU | OP_ADDU | OP_AND | OP_ANDI | OP_BEQ | OP_BGEZ | OP_BGEZAL
  | OP_BGTZ | OP_BLEZ | OP_BLTZ | OP_BLTZAL | OP_BNE | OP_DIV | OP_DIVU | OP_J | OP_JAL | OP_JALR
  | OP_JR | OP_LB | OP_LBU | OP_LH | OP_LHU | OP_LUI | OP_LW | OP_LWL | OP_LWR | OP_MFHI | OP_MFLO
  | OP_MTHI | OP_MTLO | OP_MULT | OP_MULTU | OP_NOR | OP_OR | OP_ORI | OP_SB | OP_SH
  | OP_SLL | OP_SLLV | OP_SLT | OP_SLTI | OP_SLTIU | OP_SLTU | OP_SRA | OP_SRAV | OP_SRL | OP_SRLV
  | OP_SUB | OP_SUBU | OP_SW | OP_SWL | OP_SWR | OP_XOR | OP_XORI | OP_SYSCALL | OP_UNIMP | OP_RES
  | SPECIAL | BCOND

datatype Format = IFMT | JFMT | RFMT

text \<open>Bits 31:26 of an instruction select an entry of \<open>opTable\<close>.\<close>

definition opTable :: "(OpCode \<times> Format) list" where
  "opTable = [
    (SPECIAL, RFMT), (BCOND, IFMT), (OP_J, JFMT), (OP_JAL, JFMT),
    (OP_BEQ, IFMT), (OP_BNE, IFMT), (OP_BLEZ, IFMT), (OP_BGTZ, IFMT),
    (OP_ADDI, IFMT), (OP_ADDIU, IFMT), (OP_SLTI, IFMT), (OP_SLTIU, IFMT),
    (OP_ANDI, IFMT), (OP_ORI, IFMT), (OP_XORI, IFMT), (OP_LUI, IFMT),
    (OP_UNIMP, IFMT), (OP_UNIMP, IFMT), (OP_UNIMP, IFMT), (OP_UNIMP, IFMT),
    (OP_RES, IFMT), (OP_RES, IFMT), (OP_RES, IFMT), (OP_RES, IFMT),
    (OP_RES, IFMT), (OP_RES, IFMT), (OP_RES, IFMT), (OP_RES, IFMT),
    (OP_RES, IFMT), (OP_RES, IFMT), (OP_RES, IFMT), (OP_RES, IFMT),
    (OP_LB, IFMT), (OP_LH, IFMT), (OP_LWL, IFMT), (OP_LW, IFMT),
    (OP_LBU, IFMT), (OP_LHU, IFMT), (OP_LWR, IFMT), (OP_RES, IFMT),
    (OP_SB, IFMT), (OP_SH, IFMT), (OP_SWL, IFMT), (OP_SW, IFMT),
    (OP_RES, IFMT), (OP_RES, IFMT), (OP_SWR, IFMT), (OP_RES, IFMT),
    (OP_UNIMP, IFMT), (OP_UNIMP, IFMT), (OP_UNIMP, IFMT), (OP_UNIMP, IFMT),
    (OP_RES, IFMT), (OP_RES, IFMT), (OP_RES, IFMT), (OP_RES, IFMT),
    (OP_UNIMP, IFMT), (OP_UNIMP, IFMT), (OP_UNIMP, IFMT), (OP_UNIMP, IFMT),
    (OP_RES, IFMT), (OP_RES, IFMT), (OP_RES, IFMT), (OP_RES, IFMT)]"

text \<open>The \<open>funct\<close> field of a \<open>SPECIAL\<close> instruction selects an entry of \<open>specialTable\<close>.\<close>

definition specialTable :: "OpCode list" where
  "specialTable = [
    OP_SLL, OP_RES, OP_SRL, OP_SRA, OP_SLLV, OP_RES, OP_SRLV, OP_SRAV,
    OP_JR, OP_JALR, OP_RES, OP_RES, OP_SYSCALL, OP_UNIMP, OP_RES, OP_RES,
    OP_MFHI, OP_MTHI, OP_MFLO, OP_MTLO, OP_RES, OP_RES, OP_RES, OP_RES,
    OP_MULT, OP_MULTU, OP_DIV, OP_DIVU, OP_RES, OP_RES, OP_RES, OP_RES,
    OP_ADD, OP_ADDU, OP_SUB, OP_SUBU, OP_AND, OP_OR, OP_XOR, OP_NOR,
    OP_RES, OP_RES, OP_SLT, OP_SLTU, OP_RES, OP_RES, OP_RES, OP_RES,
    OP_RES, OP_RES, OP_RES, OP_RES, OP_RES, OP_RES, OP_RES, OP_RES,
    OP_RES, OP_RES, OP_RES, OP_RES, OP_RES, OP_RES, OP_RES, OP_RES]"

record Instruction =
  opCode :: OpCode
  rs :: nat
  rt :: nat
  rd :: nat
  extra :: "32 word"

definition bits_of :: "32 word \<Rightarrow> nat \<Rightarrow> 32 word \<Rightarrow> nat" where
  "bits_of v sh m = unat (drop_bit sh v AND m)"

definition Decode :: "32 word \<Rightarrow> Instruction" where
  "Decode v =
     (let (op, fmt) = opTable ! bits_of v 26 0x3f;
          ex = (if fmt = IFMT then (let e = v AND 0xffff in if e AND 0x8000 \<noteq> 0 then e OR 0xffff0000 else e)
                else if fmt = RFMT then drop_bit 6 v AND 0x1f
                else v AND 0x3ffffff);
          op' = (if op = SPECIAL then specialTable ! bits_of v 0 0x3f
                 else if op = BCOND then
                   (let i = v AND 0x1f0000 in
                    if i = 0 then OP_BLTZ else if i = 0x10000 then OP_BGEZ
                    else if i = 0x100000 then OP_BLTZAL else if i = 0x110000 then OP_BGEZAL
                    else OP_UNIMP)
                 else op)
      in \<lparr>opCode = op', rs = bits_of v 21 0x1f, rt = bits_of v 16 0x1f, rd = bits_of v 11 0x1f, extra = ex\<rparr>)"

section \<open>Multiplication\<close>

text \<open>
  The loop of \<open>Mult\<close>: \<open>n\<close> iterations are left.  \<open>a\<close> is a C \<open>int\<close>, so \<open>a >>= 1\<close> is an arithmetic
  shift.
\<close>

fun mult_loop :: "nat \<Rightarrow> 32 word \<Rightarrow> 32 word \<Rightarrow> 32 word \<Rightarrow> 32 word \<Rightarrow> 32 word \<Rightarrow> 32 word \<times> 32 word" where
  "mult_loop 0 a bHi bLo hi lo = (hi, lo)"
| "mult_loop (Suc n) a bHi bLo hi lo =
     (let odd_a = (a AND 1 \<noteq> 0);
          lo1 = (if odd_a then lo + bLo else lo);
          hi1 = (if odd_a then (if lo1 < bLo then hi + 1 else hi) + bHi else hi)
      in if odd_a \<and> a AND 0xfffffffe = 0 then (hi1, lo1)
         else mult_loop n (signed_drop_bit 1 a)
                (if bLo AND 0x80000000 \<noteq> 0 then push_bit 1 bHi OR 1 else push_bit 1 bHi)
                (push_bit 1 bLo) hi1 lo1)"

definition Mult :: "32 word \<Rightarrow> 32 word \<Rightarrow> bool \<Rightarrow> 32 word \<times> 32 word" where
  "Mult a b signedArith =
     (if a = 0 \<or> b = 0 then (0, 0)
      else let neg_a = (signedArith \<and> sint a < 0); neg_b = (signedArith \<and> sint b < 0);
               negative = (neg_a \<noteq> neg_b);
               a1 = (if neg_a then - a else a); b1 = (if neg_b then - b else b);
               (hi, lo) = mult_loop 32 a1 0 b1 0 0
           in if negative then (let hi1 = NOT hi; lo1 = NOT lo + 1 in
                                (if lo1 = 0 then hi1 + 1 else hi1, lo1))
              else (hi, lo))"

section \<open>Execution\<close>

text \<open>
  What one instruction does before the common tail of \<open>OneInstruction\<close>: either it continues with
  the next program counter and a delayed load, or it raises an exception (and returns).
\<close>

datatype exec_out =
    Cont (cont_machine: Machine) (pcAfter: "32 word") (nextLoadReg: nat) (nextLoadValue: "32 word")
  | Raise ExceptionType "32 word" Machine

abbreviation reg :: "Machine \<Rightarrow> nat \<Rightarrow> 32 word" where
  "reg m n \<equiv> registers m ! n"

definition set_reg :: "nat \<Rightarrow> 32 word \<Rightarrow> Machine \<Rightarrow> Machine" where
  "set_reg n v m = m\<lparr>registers := (registers m)[n := v]\<rparr>"

definition SIGN_BIT :: "32 word" where "SIGN_BIT = 0x80000000"

definition IndexToAddr :: "32 word \<Rightarrow> 32 word" where "IndexToAddr x = push_bit 2 x"

definition next4 :: "Machine \<Rightarrow> 32 word" where "next4 m = reg m NextPCReg + 4"

text \<open>Continue with no delayed load: with the register \<open>n\<close> set, with a new program counter.\<close>

definition put :: "Machine \<Rightarrow> nat \<Rightarrow> 32 word \<Rightarrow> exec_out res" where
  "put m n v = Inr (Cont (set_reg n v m) (next4 m) 0 0)"

definition goto :: "Machine \<Rightarrow> 32 word \<Rightarrow> exec_out res" where
  "goto m pc = Inr (Cont m pc 0 0)"

definition branch_if :: "bool \<Rightarrow> Instruction \<Rightarrow> Machine \<Rightarrow> exec_out res" where
  "branch_if c i m = goto m (if c then reg m NextPCReg + IndexToAddr (extra i) else next4 m)"

text \<open>\<open>exec_add\<close>: lines 125--159, the additions and the first logical operations.\<close>

definition exec_add :: "Instruction \<Rightarrow> Machine \<Rightarrow> exec_out res option" where
  "exec_add i m = (let a = reg m (rs i); b = reg m (rt i) in
     case opCode i of
       OP_ADD \<Rightarrow> Some (let sum = a + b in
         if (a XOR b) AND SIGN_BIT = 0 \<and> (a XOR sum) AND SIGN_BIT \<noteq> 0
         then Inr (Raise OverflowException 0 m) else put m (rd i) sum)
     | OP_ADDI \<Rightarrow> Some (let sum = a + extra i in
         if (a XOR extra i) AND SIGN_BIT = 0 \<and> (extra i XOR sum) AND SIGN_BIT \<noteq> 0
         then Inr (Raise OverflowException 0 m) else put m (rt i) sum)
     | OP_ADDIU \<Rightarrow> Some (put m (rt i) (a + extra i))
     | OP_ADDU \<Rightarrow> Some (put m (rd i) (a + b))
     | OP_AND \<Rightarrow> Some (put m (rd i) (a AND b))
     | OP_ANDI \<Rightarrow> Some (put m (rt i) (a AND (extra i AND 0xffff)))
     | _ \<Rightarrow> None)"

text \<open>\<open>exec_branch\<close>: lines 161--193, the conditional branches.\<close>

definition exec_branch :: "Instruction \<Rightarrow> Machine \<Rightarrow> exec_out res option" where
  "exec_branch i m = (let a = reg m (rs i); b = reg m (rt i); link = set_reg RetAddrReg (next4 m) m in
     case opCode i of
       OP_BEQ \<Rightarrow> Some (branch_if (a = b) i m)
     | OP_BGEZAL \<Rightarrow> Some (branch_if (reg link (rs i) AND SIGN_BIT = 0) i link)
     | OP_BGEZ \<Rightarrow> Some (branch_if (a AND SIGN_BIT = 0) i m)
     | OP_BGTZ \<Rightarrow> Some (branch_if (sint a > 0) i m)
     | OP_BLEZ \<Rightarrow> Some (branch_if (sint a \<le> 0) i m)
     | OP_BLTZAL \<Rightarrow> Some (branch_if (reg link (rs i) AND SIGN_BIT \<noteq> 0) i link)
     | OP_BLTZ \<Rightarrow> Some (branch_if (a AND SIGN_BIT \<noteq> 0) i m)
     | OP_BNE \<Rightarrow> Some (branch_if (a \<noteq> b) i m)
     | _ \<Rightarrow> None)"

text \<open>\<open>exec_div\<close>: lines 195--217; the host's signed division traps on \<open>INT_MIN / -1\<close>.\<close>

definition exec_div :: "Instruction \<Rightarrow> Machine \<Rightarrow> exec_out res option" where
  "exec_div i m = (let a = reg m (rs i); b = reg m (rt i) in
     case opCode i of
       OP_DIV \<Rightarrow> Some (if b = 0 then goto (set_reg HiReg 0 (set_reg LoReg 0 m)) (next4 m)
         else if sint a = - (2 ^ 31) \<and> sint b = -1 then Inl DivTrap
         else goto (let m1 = set_reg LoReg (word_of_int (sint a sdiv sint b)) m
                    in set_reg HiReg (word_of_int (sint (reg m1 (rs i)) smod sint (reg m1 (rt i)))) m1) (next4 m))
     | OP_DIVU \<Rightarrow> Some (if b = 0 then goto (set_reg HiReg 0 (set_reg LoReg 0 m)) (next4 m)
         else goto (set_reg HiReg (a mod b) (set_reg LoReg (a div b) m)) (next4 m))
     | _ \<Rightarrow> None)"

text \<open>\<open>exec_jump\<close>: lines 219--229.\<close>

definition exec_jump :: "Instruction \<Rightarrow> Machine \<Rightarrow> exec_out res option" where
  "exec_jump i m = (let target = (next4 m AND 0xf0000000) OR IndexToAddr (extra i) in
     case opCode i of
       OP_JAL \<Rightarrow> Some (goto (set_reg RetAddrReg (next4 m) m) target)
     | OP_J \<Rightarrow> Some (goto m target)
     | OP_JALR \<Rightarrow> Some (let m1 = set_reg (rd i) (next4 m) m in goto m1 (reg m1 (rs i)))
     | OP_JR \<Rightarrow> Some (goto m (reg m (rs i)))
     | _ \<Rightarrow> None)"

text \<open>A load: read \<open>sz\<close> bytes at \<open>a\<close> and continue with the delayed load of \<open>f value\<close>.\<close>

definition load :: "32 word \<Rightarrow> nat \<Rightarrow> (32 word \<Rightarrow> 32 word) \<Rightarrow> Instruction \<Rightarrow> Machine \<Rightarrow> exec_out res" where
  "load a sz f i m = rbind (ReadMem a sz m) (\<lambda>(r, m1). case r of
      Inl ex \<Rightarrow> Inr (Raise ex a m1)
    | Inr v \<Rightarrow> Inr (Cont m1 (next4 m1) (rt i) (f v)))"

text \<open>The value an unaligned load starts from: the pending load if it targets the same register.\<close>

definition load_base :: "Instruction \<Rightarrow> Machine \<Rightarrow> 32 word" where
  "load_base i m = (if reg m LoadReg = of_nat (rt i) then reg m LoadValueReg else reg m (rt i))"

text \<open>\<open>exec_load\<close>: lines 231--343.\<close>

definition exec_load :: "Instruction \<Rightarrow> Machine \<Rightarrow> exec_out res option" where
  "exec_load i m = (let a = reg m (rs i) + extra i in
     case opCode i of
       OP_LB \<Rightarrow> Some (load a 1 (\<lambda>v. if v AND 0x80 \<noteq> 0 then v OR 0xffffff00 else v AND 0xff) i m)
     | OP_LBU \<Rightarrow> Some (load a 1 (\<lambda>v. v AND 0xff) i m)
     | OP_LH \<Rightarrow> Some (if a AND 1 \<noteq> 0 then Inr (Raise AddressErrorException a m)
         else load a 2 (\<lambda>v. if v AND 0x8000 \<noteq> 0 then v OR 0xffff0000 else v AND 0xffff) i m)
     | OP_LHU \<Rightarrow> Some (if a AND 1 \<noteq> 0 then Inr (Raise AddressErrorException a m)
         else load a 2 (\<lambda>v. v AND 0xffff) i m)
     | OP_LUI \<Rightarrow> Some (put m (rt i) (push_bit 16 (extra i)))
     | OP_LW \<Rightarrow> Some (if a AND 3 \<noteq> 0 then Inr (Raise AddressErrorException a m) else load a 4 (\<lambda>v. v) i m)
     | OP_LWL \<Rightarrow> Some (ASSERT (a AND 3 = 0) (load a 4 (\<lambda>v. let n = load_base i m in
         if a AND 3 = 0 then v
         else if a AND 3 = 1 then (n AND 0xff) OR push_bit 8 v
         else if a AND 3 = 2 then (n AND 0xffff) OR push_bit 16 v
         else (n AND 0xffffff) OR push_bit 24 v) i m))
     | OP_LWR \<Rightarrow> Some (ASSERT (a AND 3 = 0) (load a 4 (\<lambda>v. let n = load_base i m in
         if a AND 3 = 0 then (n AND 0xffffff00) OR (signed_drop_bit 24 v AND 0xff)
         else if a AND 3 = 1 then (n AND 0xffff0000) OR (signed_drop_bit 16 v AND 0xffff)
         else if a AND 3 = 2 then (n AND 0xff000000) OR (signed_drop_bit 8 v AND 0xffffff)
         else v) i m))
     | _ \<Rightarrow> None)"

text \<open>\<open>exec_move\<close>: lines 345--381, the Hi and Lo registers, multiplication, \<open>NOR\<close>, \<open>OR\<close>, \<open>ORI\<close>.\<close>

definition exec_move :: "Instruction \<Rightarrow> Machine \<Rightarrow> exec_out res option" where
  "exec_move i m = (let a = reg m (rs i); b = reg m (rt i);
       mult = (\<lambda>s. let (hi, lo) = Mult a b s in goto (set_reg LoReg lo (set_reg HiReg hi m)) (next4 m)) in
     case opCode i of
       OP_MFHI \<Rightarrow> Some (put m (rd i) (reg m HiReg))
     | OP_MFLO \<Rightarrow> Some (put m (rd i) (reg m LoReg))
     | OP_MTHI \<Rightarrow> Some (put m HiReg a)
     | OP_MTLO \<Rightarrow> Some (put m LoReg a)
     | OP_MULT \<Rightarrow> Some (mult True)
     | OP_MULTU \<Rightarrow> Some (mult False)
     | OP_NOR \<Rightarrow> Some (put m (rd i) (NOT (a OR b)))
     | OP_OR \<Rightarrow> Some (put m (rd i) (a OR a))
     | OP_ORI \<Rightarrow> Some (put m (rt i) (a OR (extra i AND 0xffff)))
     | _ \<Rightarrow> None)"

text \<open>A store of \<open>sz\<close> bytes.\<close>

definition do_store :: "32 word \<Rightarrow> nat \<Rightarrow> 32 word \<Rightarrow> Machine \<Rightarrow> exec_out res" where
  "do_store a sz v m = rbind (WriteMem a sz v m) (\<lambda>(r, m1). case r of
      Some ex \<Rightarrow> Inr (Raise ex a m1)
    | None \<Rightarrow> Inr (Cont m1 (next4 m1) 0 0))"

text \<open>\<open>exec_shift\<close>: lines 383--455, the short stores, the shifts and the comparisons.\<close>

definition exec_shift :: "Instruction \<Rightarrow> Machine \<Rightarrow> exec_out res option" where
  "exec_shift i m = (let a = reg m (rs i); b = reg m (rt i); flag = (\<lambda>c. if c then 1 else 0);
       sh = unat (extra i); shv = unat (a AND 0x1f) in
     case opCode i of
       OP_SB \<Rightarrow> Some (do_store (a + extra i) 1 b m)
     | OP_SH \<Rightarrow> Some (do_store (a + extra i) 2 b m)
     | OP_SLL \<Rightarrow> Some (put m (rd i) (push_bit sh b))
     | OP_SLLV \<Rightarrow> Some (put m (rd i) (push_bit shv b))
     | OP_SLT \<Rightarrow> Some (put m (rd i) (flag (sint a < sint b)))
     | OP_SLTI \<Rightarrow> Some (put m (rt i) (flag (sint a < sint (extra i))))
     | OP_SLTIU \<Rightarrow> Some (put m (rt i) (flag (a < extra i)))
     | OP_SLTU \<Rightarrow> Some (put m (rd i) (flag (a < b)))
     | OP_SRA \<Rightarrow> Some (put m (rd i) (signed_drop_bit sh b))
     | OP_SRAV \<Rightarrow> Some (put m (rd i) (signed_drop_bit shv b))
     | OP_SRL \<Rightarrow> Some (put m (rd i) (signed_drop_bit sh b))
     | OP_SRLV \<Rightarrow> Some (put m (rd i) (signed_drop_bit shv b))
     | _ \<Rightarrow> None)"

text \<open>A read-modify-write of the word at \<open>a\<close> (\<open>SWL\<close>, \<open>SWR\<close>).\<close>

definition merge_store :: "32 word \<Rightarrow> (32 word \<Rightarrow> 32 word) \<Rightarrow> Machine \<Rightarrow> exec_out res" where
  "merge_store a f m = rbind (ReadMem (a AND NOT 3) 4 m) (\<lambda>(r, m1). case r of
      Inl ex \<Rightarrow> Inr (Raise ex (a AND NOT 3) m1)
    | Inr v \<Rightarrow> do_store (a AND NOT 3) 4 (f v) m1)"

text \<open>\<open>exec_store\<close>: lines 457--549, subtraction, the word stores, the traps and \<open>XOR\<close>.\<close>

definition exec_store :: "Instruction \<Rightarrow> Machine \<Rightarrow> exec_out res option" where
  "exec_store i m = (let a = reg m (rs i); b = reg m (rt i); ad = a + extra i in
     case opCode i of
       OP_SUB \<Rightarrow> Some (let diff = a - b in
         if (a XOR b) AND SIGN_BIT \<noteq> 0 \<and> (a XOR diff) AND SIGN_BIT \<noteq> 0
         then Inr (Raise OverflowException 0 m) else put m (rd i) diff)
     | OP_SUBU \<Rightarrow> Some (put m (rd i) (a - b))
     | OP_SW \<Rightarrow> Some (do_store ad 4 b m)
     | OP_SWL \<Rightarrow> Some (ASSERT (ad AND 3 = 0) (merge_store ad (\<lambda>v.
         if ad AND 3 = 0 then b
         else if ad AND 3 = 1 then (v AND 0xff000000) OR (signed_drop_bit 8 b AND 0xffffff)
         else if ad AND 3 = 2 then (v AND 0xffff0000) OR (signed_drop_bit 16 b AND 0xffff)
         else (v AND 0xffffff00) OR (signed_drop_bit 24 b AND 0xff)) m))
     | OP_SWR \<Rightarrow> Some (ASSERT (ad AND 3 = 0) (merge_store ad (\<lambda>v.
         if ad AND 3 = 0 then (v AND 0xffffff) OR push_bit 24 b
         else if ad AND 3 = 1 then (v AND 0xffff) OR push_bit 16 b
         else if ad AND 3 = 2 then (v AND 0xff) OR push_bit 8 b
         else b) m))
     | OP_SYSCALL \<Rightarrow> Some (Inr (Raise SyscallException 0 m))
     | OP_XOR \<Rightarrow> Some (put m (rd i) (a XOR b))
     | OP_XORI \<Rightarrow> Some (put m (rt i) (a XOR (extra i AND 0xffff)))
     | OP_RES \<Rightarrow> Some (Inr (Raise IllegalInstrException 0 m))
     | OP_UNIMP \<Rightarrow> Some (Inr (Raise IllegalInstrException 0 m))
     | _ \<Rightarrow> None)"

text \<open>The \<open>switch\<close> over the operation code; its default case is \<open>ASSERT(false)\<close>.\<close>

fun first_match :: "'a option list \<Rightarrow> 'a option" where
  "first_match [] = None"
| "first_match (None # xs) = first_match xs"
| "first_match (Some x # xs) = Some x"

definition exec :: "Instruction \<Rightarrow> Machine \<Rightarrow> exec_out res" where
  "exec i m = (case first_match [exec_add i m, exec_branch i m, exec_div i m, exec_jump i m,
       exec_load i m, exec_move i m, exec_shift i m, exec_store i m] of
     Some r \<Rightarrow> r | None \<Rightarrow> Inl Abort)"

text \<open>The tail of \<open>OneInstruction\<close> (lines 555--565): the delayed load, then the program counters.\<close>

definition finish :: "Machine \<Rightarrow> 32 word \<Rightarrow> nat \<Rightarrow> 32 word \<Rightarrow> Machine res" where
  "finish m pc lr lv = rbind (DelayedLoad lr lv m) (\<lambda>m1.
     Inr (set_reg NextPCReg pc (let m2 = set_reg PrevPCReg (reg m1 PCReg) m1
                                 in set_reg PCReg (reg m2 NextPCReg) m2)))"

text \<open>
  \<open>fetch_execute\<close> is \<open>OneInstruction\<close> up to the trap: it returns the exception the
  instruction raises, if any, and the failing address; \<open>OneInstruction\<close> then enters the kernel.
\<close>

definition fetch_execute :: "Machine \<Rightarrow> ((ExceptionType \<times> 32 word) option \<times> Machine) res" where
  "fetch_execute m = rbind (ReadMem (reg m PCReg) 4 m) (\<lambda>(r, m1). case r of
      Inl ex \<Rightarrow> Inr (Some (ex, reg m PCReg), m1)
    | Inr raw \<Rightarrow> rbind (exec (Decode raw) m1) (\<lambda>out. case out of
          Raise ex bad m2 \<Rightarrow> Inr (Some (ex, bad), m2)
        | Cont m2 pc lr lv \<Rightarrow> rbind (finish m2 pc lr lv) (\<lambda>m3. Inr (None, m3))))"

definition OneInstruction :: "(ExceptionType \<Rightarrow> Machine \<Rightarrow> Machine res) \<Rightarrow> Machine \<Rightarrow> Machine res" where
  "OneInstruction handler m = rbind (fetch_execute m) (\<lambda>(trap, m1). case trap of
      None \<Rightarrow> Inr m1
    | Some (ex, bad) \<Rightarrow> RaiseException handler ex bad m1)"

section \<open>Multiplication is exact\<close>

text \<open>The double word that \<open>hi\<close> and \<open>lo\<close> hold, modulo \<open>2 ^ 64\<close>.\<close>

definition dword :: "32 word \<Rightarrow> 32 word \<Rightarrow> 64 word" where
  "dword hi lo = word_of_int (uint hi * 2 ^ 32 + uint lo)"


lemma dword_range:
  assumes "0 \<le> x" "x < 2 ^ 32" "0 \<le> y" "y < (2 ^ 32 :: int)"
  shows "(x * 2 ^ 32 + y) mod 2 ^ 64 = x * 2 ^ 32 + y"
proof (rule mod_pos_pos_trivial)
  show "0 \<le> x * 2 ^ 32 + y" using assms by simp
  have "x \<le> 2 ^ 32 - 1" using assms by simp
  then have "x * 2 ^ 32 \<le> (2 ^ 32 - 1) * 2 ^ 32" by (rule mult_right_mono) simp
  then show "x * 2 ^ 32 + y < 2 ^ 64" using assms by simp
qed

lemma uint_dword: "uint (dword hi lo) = uint hi * 2 ^ 32 + uint lo"
  using dword_range [of "uint hi" "uint lo"] uint_lt2p [of hi] uint_lt2p [of lo]
  unfolding dword_def uint_word_of_int by simp

lemma dword_of_int:
  "dword (word_of_int x) (word_of_int y) = word_of_int (x * 2 ^ 32 + (y mod 2 ^ 32))"
proof -
  have "(x mod 2 ^ 32) * 2 ^ 32 = (x * 2 ^ 32) mod (2 ^ 64 :: int)"
    using mult_mod_left [of x "2 ^ 32" "2 ^ 32"] by simp
  then have "((x mod 2 ^ 32) * 2 ^ 32 + y mod 2 ^ 32) mod 2 ^ 64 = (x * 2 ^ 32 + y mod 2 ^ 32) mod (2 ^ 64 :: int)"
    by (simp only: mod_add_left_eq)
  then show ?thesis
    unfolding dword_def word_of_int_eq_iff take_bit_eq_mod uint_word_of_int by simp
qed

lemma carry_out:
  assumes "0 \<le> x" "x < 2 ^ 32" "0 \<le> y" "y < 2 ^ 32"
  shows "(x + y) mod 2 ^ 32 = x + y - (if x + y \<ge> 2 ^ 32 then 2 ^ 32 else (0::int))"
  using assms by (simp add: mod_add_if_z)

lemma dword_add:
  "dword ((if lo + bLo < bLo then hi + 1 else hi) + bHi) (lo + bLo) = dword hi lo + dword bHi bLo"
proof -
  have b: "uint lo < 2 ^ 32" "uint bLo < 2 ^ 32" using uint_lt2p [of bLo] uint_lt2p [of lo] by simp_all
  then have lt: "lo + bLo < bLo \<longleftrightarrow> uint lo + uint bLo \<ge> 2 ^ 32"
    by (simp add: word_less_def uint_word_ariths mod_add_if_z)
  have "(uint lo + uint bLo) mod 2 ^ 32 = uint lo + uint bLo - (if lo + bLo < bLo then 2 ^ 32 else 0)"
    using b carry_out [of "uint lo" "uint bLo"] by (simp add: lt)
  moreover have "dword ((if lo + bLo < bLo then hi + 1 else hi) + bHi) (lo + bLo) =
     dword (word_of_int ((if lo + bLo < bLo then uint hi + 1 else uint hi) + uint bHi)) (word_of_int (uint lo + uint bLo))"
    by simp
  ultimately show ?thesis
    by (simp only: dword_of_int) (simp add: dword_def algebra_simps)
qed

lemma top_bit: "bLo AND 0x80000000 \<noteq> 0 \<longleftrightarrow> uint (bLo :: 32 word) \<ge> 2 ^ 31"
proof -
  have "bLo AND 0x80000000 \<noteq> 0 \<longleftrightarrow> bit bLo 31"
    using and_exp_eq_0_iff_not_bit [of bLo 31] by simp
  also have "\<dots> \<longleftrightarrow> odd (uint bLo div 2 ^ 31)" using bit_uint_iff [of bLo 31] by (simp add: bit_iff_odd [of "uint bLo"])
  also have "\<dots> \<longleftrightarrow> uint bLo \<ge> 2 ^ 31"
  proof (cases "uint bLo \<ge> 2 ^ 31")
    case True
    moreover have "uint bLo < 2 ^ 32" using uint_lt2p [of bLo] by simp
    ultimately have "uint bLo div 2 ^ 31 = 1" 
      using int_div_pos_eq [of "uint bLo" "2 ^ 31" 1 "uint bLo - 2 ^ 31"] by simp
    then show ?thesis using True by simp
  qed simp
  finally show ?thesis .
qed

lemma dword_double:
  "dword (if bLo AND 0x80000000 \<noteq> 0 then push_bit 1 bHi OR 1 else push_bit 1 bHi) (push_bit 1 bLo) = 2 * dword bHi bLo"
proof -
  have b: "uint bLo < 2 ^ 32" using uint_lt2p [of bLo] by simp
  have "push_bit 1 bHi OR 1 = 2 * bHi + 1" by (simp add: push_bit_eq_mult or_one_eq)
  then have "dword (if bLo AND 0x80000000 \<noteq> 0 then push_bit 1 bHi OR 1 else push_bit 1 bHi) (push_bit 1 bLo) =
     dword (word_of_int (2 * uint bHi + (if uint bLo \<ge> 2 ^ 31 then 1 else 0))) (word_of_int (2 * uint bLo))"
    unfolding top_bit by (simp add: push_bit_eq_mult mult.commute)
  moreover have "(2 * uint bLo) mod 2 ^ 32 = 2 * uint bLo - (if uint bLo \<ge> 2 ^ 31 then 2 ^ 32 else 0)"
  proof -
    have "uint bLo + uint bLo \<ge> 2 ^ 32 \<longleftrightarrow> uint bLo \<ge> 2 ^ 31" by simp
    then show ?thesis using carry_out [OF uint_ge_0 b uint_ge_0 b] unfolding mult_2 by (simp only:)
  qed
  ultimately show ?thesis by (simp only: dword_of_int) (simp add: dword_def algebra_simps)
qed

lemma take_bit_step:
  assumes "n < 32"
  shows "uint (take_bit (Suc n) (a :: 32 word)) = (if a AND 1 \<noteq> 0 then 1 else 0) + 2 * uint (take_bit n (signed_drop_bit 1 a))"
proof -
  have "take_bit n (uint (signed_drop_bit 1 a)) = take_bit n (uint a div 2)"
    using assms by (auto intro!: bit_eqI simp: bit_take_bit_iff bit_uint_iff bit_signed_drop_bit_iff bit_Suc simp flip: bit_Suc)
  moreover have "a AND 1 \<noteq> 0 \<longleftrightarrow> odd (uint a)" 
    using bit_uint_iff [of a 0] by (simp add: bit_0 and_one_eq odd_iff_mod_2_eq_one)
  ultimately show ?thesis
    unfolding unsigned_take_bit_eq take_bit_Suc [of n "uint a"] by (simp add: odd_iff_mod_2_eq_one)
qed

lemma mult_loop_correct:
  assumes "n \<le> 32" "mult_loop n a bHi bLo hi lo = (hi', lo')"
  shows "dword hi' lo' = dword hi lo + dword bHi bLo * word_of_int (uint (take_bit n a))"
  using assms
proof (induction n a bHi bLo hi lo rule: mult_loop.induct)
  case (2 n a bHi bLo hi lo)
  define c where "c = (a AND 1 \<noteq> 0)"
  define lo1 where "lo1 = (if c then lo + bLo else lo)"
  define hi1 where "hi1 = (if c then (if lo1 < bLo then hi + 1 else hi) + bHi else hi)"
  have acc: "dword hi1 lo1 = dword hi lo + dword bHi bLo * word_of_int (if c then 1 else 0)"
    by (simp add: hi1_def lo1_def dword_add)
  show ?case
  proof (cases "c \<and> a AND 0xfffffffe = 0")
    case True
    have "a = (a AND 1) OR (a AND 0xfffffffe)"
      using take_bit_eq_mask [of 32 a] take_bit_length_eq [of a]
      by (simp add: mask_eq_exp_minus_1 flip: bit.conj_disj_distrib)
    moreover have "a AND 1 = (if odd a then 1 else 0)" by (simp add: and_one_eq odd_iff_mod_2_eq_one)
    ultimately have "a = 1" using True unfolding c_def by (metis or.right_neutral)
    moreover have "(hi', lo') = (hi1, lo1)"
      using "2.prems"(2) True by (simp add: Let_def c_def lo1_def hi1_def split: if_splits)
    ultimately show ?thesis using acc True by simp
  next
    case False
    have "dword hi' lo' = dword hi1 lo1 + 2 * dword bHi bLo * word_of_int (uint (take_bit n (signed_drop_bit 1 a)))"
      using "2.IH" [OF c_def lo1_def hi1_def False] "2.prems" False
      unfolding dword_double [symmetric]
      by (simp only: mult_loop.simps Let_def flip: c_def lo1_def hi1_def) simp
    then show ?thesis using "2.prems"(1) unfolding acc
      by (simp add: take_bit_step c_def [symmetric] algebra_simps)
  qed
qed simp

lemma uint_abs: "uint (if sint a < 0 then - a else (a :: 32 word)) = \<bar>sint a\<bar>"
proof -
  have r: "sint a < 2 ^ 31" "- (2 ^ 31) \<le> sint a" using sint_lt [of a] sint_ge [of a] by simp_all
  have "uint (- a) = (- sint a) mod 2 ^ 32" using uint_word_of_int [of "- sint a", where 'a = 32] by simp
  moreover have "uint a = sint a mod 2 ^ 32" using uint_word_of_int [of "sint a", where 'a = 32] by simp
  moreover have "0 \<le> x \<Longrightarrow> x \<le> 2 ^ 31 \<Longrightarrow> x mod 2 ^ 32 = x" for x :: int
    by (rule mod_pos_pos_trivial) simp_all
  note this [of "sint a"] this [of "- sint a"]
  ultimately show ?thesis using r by simp
qed

lemma dword_negate: "dword (if NOT lo + 1 = 0 then NOT hi + 1 else NOT hi) (NOT lo + 1) = - dword hi lo"
proof -
  have m: "(- uint lo) mod 2 ^ 32 = (if lo = 0 then 0 else 2 ^ 32 - uint lo)"
    using uint_lt2p [of lo] by (simp add: zmod_zminus1_eq_if uint_0_iff)
  have n: "NOT lo + 1 = word_of_int (- uint lo)" by (simp add: not_eq_complement)
  have h: "(if NOT lo + 1 = 0 then NOT hi + 1 else NOT hi) = word_of_int (- uint hi - (if lo = 0 then 0 else 1))"
    by (simp add: not_eq_complement)
  show ?thesis unfolding h unfolding n dword_of_int m by (simp add: dword_def)
qed

lemma Mult_dword:
  assumes "Mult a b s = (hi, lo)"
  shows "dword hi lo = word_of_int (if s then sint a * sint b else uint a * uint b)"
proof (cases "a = 0 \<or> b = 0")
  case True
  then show ?thesis using assms by (auto simp: Mult_def dword_def)
next
  case False
  define na where "na = (s \<and> sint a < 0)"
  define nb where "nb = (s \<and> sint b < 0)"
  define a1 where "a1 = (if na then - a else a)"
  define b1 where "b1 = (if nb then - b else b)"
  obtain hi0 lo0 where l: "mult_loop 32 a1 0 b1 0 0 = (hi0, lo0)" by fastforce
  have "take_bit 32 a1 = a1" using take_bit_length_eq [of a1] by simp
  then have d0: "dword hi0 lo0 = word_of_int (uint a1 * uint b1)"
    using mult_loop_correct [OF _ l] by (simp add: dword_def mult.commute)
  have "(hi, lo) = (if na \<noteq> nb then (if NOT lo0 + 1 = 0 then NOT hi0 + 1 else NOT hi0, NOT lo0 + 1) else (hi0, lo0))"
    using assms False l unfolding Mult_def Let_def na_def [symmetric] nb_def [symmetric]
      a1_def [symmetric] b1_def [symmetric] by simp
  then have "dword hi lo = (if na \<noteq> nb then - dword hi0 lo0 else dword hi0 lo0)"
    using dword_negate [of lo0 hi0] by (auto split: if_splits)
  moreover have "(if s then sint a * sint b else uint a * uint b) = (if na \<noteq> nb then - (uint a1 * uint b1) else uint a1 * uint b1)"
    using uint_abs [of a] uint_abs [of b] by (auto simp: na_def nb_def a1_def b1_def split: if_splits)
  ultimately show ?thesis by (simp add: d0)
qed

lemma Mult_exact:
  assumes "Mult a b s = (hi, lo)"
  shows "s \<Longrightarrow> sint (dword hi lo) = sint a * sint b" "\<not> s \<Longrightarrow> uint (dword hi lo) = uint a * uint b"
proof -
  have r: "\<bar>sint a\<bar> \<le> 2 ^ 31" "\<bar>sint b\<bar> \<le> 2 ^ 31"
    using sint_lt [of a] sint_ge [of a] sint_lt [of b] sint_ge [of b] by simp_all
  have "\<bar>sint a * sint b\<bar> \<le> 2 ^ 31 * 2 ^ 31" unfolding abs_mult by (rule mult_mono [OF r]) simp_all
  then have "signed_take_bit 63 (sint a * sint b) = sint a * sint b"
    by (intro signed_take_bit_int_eq_self) (auto simp: abs_le_iff)
  moreover have "sint (dword hi lo) = signed_take_bit 63 (sint a * sint b)" if s
    using that sint_sbintrunc' [of "sint a * sint b", where 'a = 64]
    unfolding Mult_dword [OF assms] by (simp only: if_True) simp
  ultimately show "sint (dword hi lo) = sint a * sint b" if s using that by simp
  have u: "uint a \<le> 2 ^ 32 - 1" "uint b \<le> 2 ^ 32 - 1" using uint_lt2p [of a] uint_lt2p [of b] by simp_all
  have "uint a * uint b \<le> (2 ^ 32 - 1) * (2 ^ 32 - 1)" by (rule mult_mono [OF u]) simp_all
  then show "uint (dword hi lo) = uint a * uint b" if "\<not> s"
    using that unfolding Mult_dword [OF assms] uint_word_of_int by simp
qed

section \<open>Decoding\<close>

lemma bits_of_less: "bits_of v sh 0x1f < 32" "bits_of v sh 0x3f < 64"
proof -
  have "unat (w AND 0x1f) < 32" "unat (w AND 0x3f) < 64" for w :: "32 word"
    using word_and_le1 [of w "0x1f"] word_and_le1 [of w "0x3f"] by (simp_all add: word_le_nat_alt)
  then show "bits_of v sh 0x1f < 32" "bits_of v sh 0x3f < 64" by (simp_all add: bits_of_def)
qed

lemma Decode_regs: "rs (Decode v) < 32" "rt (Decode v) < 32" "rd (Decode v) < 32"
  by (simp_all add: Decode_def Let_def bits_of_less split: prod.split)

lemma specialTable_final: "n < 64 \<Longrightarrow> specialTable ! n \<notin> {SPECIAL, BCOND}"
proof -
  have "set specialTable \<inter> {SPECIAL, BCOND} = {}" by (simp add: specialTable_def)
  moreover assume "n < 64"
  then have "specialTable ! n \<in> set specialTable" by (intro nth_mem) (simp add: specialTable_def)
  ultimately show ?thesis by blast
qed

lemma Decode_final: "opCode (Decode v) \<notin> {SPECIAL, BCOND}"
  using specialTable_final [OF bits_of_less(2) [of v 0]]
  by (auto simp: Decode_def Let_def split: prod.split)

section \<open>One instruction keeps the machine well formed\<close>

definition step_ok :: "Machine \<Rightarrow> Machine \<Rightarrow> bool" where
  "step_ok m m' \<longleftrightarrow> confined m m' \<and> registers m' ! LoadReg = registers m ! LoadReg"

text \<open>\<open>F\<close> says which faults the outcome \<open>r\<close> of an instruction may be.\<close>

definition out_ok :: "(fault \<Rightarrow> bool) \<Rightarrow> Machine \<Rightarrow> exec_out res \<Rightarrow> bool" where
  "out_ok F m r = (case r of
      Inl f \<Rightarrow> F f
    | Inr (Raise ex bad m') \<Rightarrow> step_ok m m'
    | Inr (Cont m' pc lr lv) \<Rightarrow> step_ok m m' \<and> lr < 32)"

lemma set_reg_sel [simp]:
  "mainMemory (set_reg n v m) = mainMemory m" "tlb (set_reg n v m) = tlb m"
  "pageTable (set_reg n v m) = pageTable m" "pageTableSize (set_reg n v m) = pageTableSize m"
  "registers (set_reg n v m) = (registers m)[n := v]"
  by (simp_all add: set_reg_def)

lemma confined_set_reg [simp]: "confined m (set_reg n v m') \<longleftrightarrow> confined m m'"
  by (simp add: confined_def machine_ok_def user_frames_def the_table_def cong: option.case_cong)

lemma step_ok_refl [simp]: "machine_ok m \<Longrightarrow> step_ok m m"
  by (simp add: step_ok_def confined_refl)

lemma step_ok_set_reg [simp]: "n \<noteq> LoadReg \<Longrightarrow> step_ok m (set_reg n v m') \<longleftrightarrow> step_ok m m'"
  by (simp add: step_ok_def)

lemma out_ok_put [simp]: "machine_ok m \<Longrightarrow> n \<noteq> LoadReg \<Longrightarrow> out_ok F m (put m n v)"
  by (simp add: out_ok_def put_def)

lemma out_ok_goto [simp]: "step_ok m m' \<Longrightarrow> out_ok F m (goto m' pc)"
  by (simp add: out_ok_def goto_def)

lemma out_ok_branch [simp]: "step_ok m m' \<Longrightarrow> out_ok F m (branch_if c i m')"
  by (simp add: branch_if_def)

lemma out_ok_Raise [simp]: "out_ok F m (Inr (Raise ex b m')) \<longleftrightarrow> step_ok m m'"
  by (simp add: out_ok_def)

lemma out_ok_ASSERT [simp]: "(\<not> c \<Longrightarrow> F Abort) \<Longrightarrow> (c \<Longrightarrow> out_ok F m r) \<Longrightarrow> out_ok F m (ASSERT c r)"
  by (simp add: ASSERT_def out_ok_def)

lemma out_ok_Cont [simp]: "out_ok F m (Inr (Cont m' pc lr lv)) \<longleftrightarrow> step_ok m m' \<and> lr < 32"
  by (simp add: out_ok_def)

lemma step_ok_trans: "step_ok m m1 \<Longrightarrow> step_ok m1 m2 \<Longrightarrow> step_ok m m2"
  unfolding step_ok_def by (metis confined_trans)

lemma out_ok_trans: "step_ok m m1 \<Longrightarrow> out_ok F m1 r \<Longrightarrow> out_ok F m r"
  unfolding out_ok_def by (auto split: sum.splits exec_out.splits intro: step_ok_trans)

lemma ReadMem_step_ok:
  assumes "machine_ok m" "sz \<in> {1, 2, 4}"
  obtains r m' where "ReadMem a sz m = Inr (r, m')" "step_ok m m'" "machine_ok m'"
    "registers m' = registers m"
  using ReadMem_confined [OF assms, of a] by (auto simp: step_ok_def confined_def)

lemma WriteMem_step_ok:
  assumes "machine_ok m" "sz \<in> {1, 2, 4}"
  obtains r m' where "WriteMem a sz v m = Inr (r, m')" "step_ok m m'"
  using WriteMem_step [OF assms, of a v] by (auto simp: step_ok_def)

lemma out_ok_load [simp]:
  assumes "machine_ok m" "sz \<in> {1, 2, 4}" "rt i < 32"
  shows "out_ok F m (load a sz f i m)"
proof -
  obtain r m' where "ReadMem a sz m = Inr (r, m')" "step_ok m m'" by (rule ReadMem_step_ok [OF assms(1,2)])
  then show ?thesis using assms(3) by (cases r) (simp_all add: load_def)
qed

lemma do_store_ok [simp]:
  assumes "machine_ok m" "sz \<in> {1, 2, 4}"
  shows "out_ok F m (do_store a sz v m)"
proof -
  obtain r m' where "WriteMem a sz v m = Inr (r, m')" "step_ok m m'" by (rule WriteMem_step_ok [OF assms])
  then show ?thesis by (cases r) (simp_all add: do_store_def)
qed

lemma merge_store_ok [simp]:
  assumes "machine_ok m"
  shows "out_ok F m (merge_store a f m)"
proof -
  obtain r m1 where r: "ReadMem (a AND NOT 3) 4 m = Inr (r, m1)" "step_ok m m1" "machine_ok m1"
    by (rule ReadMem_step_ok [OF assms, of 4 "a AND NOT 3"]) auto
  show ?thesis
  proof (cases r)
    case (Inr v)
    then have "merge_store a f m = do_store (a AND NOT 3) 4 (f v) m1"
      using r(1) by (simp add: merge_store_def)
    moreover have "out_ok F m1 (do_store (a AND NOT 3) 4 (f v) m1)" using r(3) by (intro do_store_ok) auto
    ultimately show ?thesis using out_ok_trans [OF r(2)] by simp
  qed (use r in \<open>simp add: merge_store_def\<close>)
qed

text \<open>The only ways in which a decoded instruction can stop the simulator itself.\<close>

definition exec_faults :: "Instruction \<Rightarrow> Machine \<Rightarrow> fault \<Rightarrow> bool" where
  "exec_faults i m f \<longleftrightarrow>
     f = Abort \<and> opCode i \<in> {OP_LWL, OP_LWR, OP_SWL, OP_SWR} \<and> (reg m (rs i) + extra i) AND 3 \<noteq> 0 \<or>
     f = DivTrap \<and> opCode i = OP_DIV \<and> sint (reg m (rs i)) = - (2 ^ 31) \<and> sint (reg m (rt i)) = -1"

lemma exec_parts_ok:
  assumes "machine_ok m" "rs i < 32" "rt i < 32" "rd i < 32"
  shows "exec_add i m = Some r \<Longrightarrow> out_ok F m r"
    "exec_branch i m = Some r \<Longrightarrow> out_ok F m r"
    "exec_jump i m = Some r \<Longrightarrow> out_ok F m r"
    "exec_move i m = Some r \<Longrightarrow> out_ok F m r"
    "exec_shift i m = Some r \<Longrightarrow> out_ok F m r"
  using assms
  by (auto simp: exec_add_def exec_branch_def exec_jump_def exec_move_def exec_shift_def Let_def
    split: OpCode.splits if_splits prod.splits)

lemma out_ok_DivTrap [simp]: "out_ok F m (Inl f) \<longleftrightarrow> F f"
  by (simp add: out_ok_def)

lemma exec_parts_may_fault:
  assumes "machine_ok m" "rs i < 32" "rt i < 32" "rd i < 32"
  shows "exec_div i m = Some r \<Longrightarrow> out_ok (exec_faults i m) m r"
    "exec_load i m = Some r \<Longrightarrow> out_ok (exec_faults i m) m r"
    "exec_store i m = Some r \<Longrightarrow> out_ok (exec_faults i m) m r"
  using assms
  by (auto simp: exec_div_def exec_load_def exec_store_def exec_faults_def Let_def
    split: OpCode.splits if_splits intro!: out_ok_ASSERT)

lemma exec_covers:
  assumes "opCode i \<notin> {SPECIAL, BCOND}"
  shows "\<exists>r \<in> {exec_add i m, exec_branch i m, exec_div i m, exec_jump i m,
       exec_load i m, exec_move i m, exec_shift i m, exec_store i m}. r \<noteq> None"
  using assms by (cases "opCode i") (simp_all add: exec_add_def exec_branch_def exec_div_def exec_jump_def
    exec_load_def exec_move_def exec_shift_def exec_store_def Let_def)

lemma first_match_None: "first_match xs = None \<longleftrightarrow> (\<forall>x \<in> set xs. x = None)"
  by (induction xs rule: first_match.induct) auto

lemma first_match_Some: "first_match xs = Some r \<Longrightarrow> Some r \<in> set xs"
  by (induction xs rule: first_match.induct) auto

lemma exec_ok:
  assumes "machine_ok m"
  shows "out_ok (exec_faults (Decode v) m) m (exec (Decode v) m)"
proof -
  let ?i = "Decode v"
  let ?rs = "[exec_add ?i m, exec_branch ?i m, exec_div ?i m, exec_jump ?i m,
       exec_load ?i m, exec_move ?i m, exec_shift ?i m, exec_store ?i m]"
  have "first_match ?rs \<noteq> None"
    unfolding first_match_None using exec_covers [OF Decode_final, of v m] by auto
  then obtain r where r: "first_match ?rs = Some r" by auto
  have "exec_add ?i m = Some r \<or> exec_branch ?i m = Some r \<or> exec_div ?i m = Some r \<or> exec_jump ?i m = Some r \<or>
      exec_load ?i m = Some r \<or> exec_move ?i m = Some r \<or> exec_shift ?i m = Some r \<or> exec_store ?i m = Some r"
    using first_match_Some [OF r] by auto
  then have "out_ok (exec_faults ?i m) m r"
    by (elim disjE) (blast intro: exec_parts_ok [OF assms Decode_regs]
      exec_parts_may_fault [OF assms Decode_regs])+
  then show ?thesis by (simp add: exec_def r)
qed

text \<open>
  The invariant of a running machine: well formed, \<open>R0\<close> holds zero, and the pending load
  targets a general register.
\<close>

definition cpu_ok :: "Machine \<Rightarrow> bool" where
  "cpu_ok m \<longleftrightarrow> machine_ok m \<and> reg m 0 = 0 \<and> unat (reg m LoadReg) < 32"

lemma confined_registers:
  "confined m m' \<Longrightarrow> length r = NumTotalRegs \<Longrightarrow> confined m (m'\<lparr>registers := r\<rparr>)"
  by (simp add: confined_def machine_ok_def user_frames_def the_table_def cong: option.case_cong)

lemma DelayedLoad_ok:
  assumes "confined m m'" "unat (reg m' LoadReg) < 32" "lr < 32"
  shows "\<exists>m1. DelayedLoad lr lv m' = Inr m1 \<and> confined m m1 \<and> cpu_ok m1 \<and>
    (\<forall>n. 32 \<le> n \<and> n \<notin> {LoadReg, LoadValueReg} \<longrightarrow> reg m1 n = reg m' n)"
proof -
  let ?r = "((((registers m')[unat (reg m' LoadReg) := reg m' LoadValueReg])
     [LoadReg := of_nat lr])[LoadValueReg := lv])[0 := 0]"
  have l: "length (registers m') = NumTotalRegs" using assms(1) by (simp add: confined_def machine_ok_def)
  have c: "confined m (m'\<lparr>registers := ?r\<rparr>)" using l by (intro confined_registers [OF assms(1)]) simp
  have d: "DelayedLoad lr lv m' = Inr (m'\<lparr>registers := ?r\<rparr>)" using assms(2) by (simp add: DelayedLoad_def Let_def)
  have "unat (of_nat lr :: 32 word) < 32" using assms(3) by (simp add: unat_of_nat)
  then have "cpu_ok (m'\<lparr>registers := ?r\<rparr>)" using c l by (simp add: cpu_ok_def confined_def)
  moreover have "\<forall>n. 32 \<le> n \<and> n \<notin> {LoadReg, LoadValueReg} \<longrightarrow> ?r ! n = reg m' n" using assms(2) by auto
  ultimately show ?thesis using c d by auto
qed

lemma cpu_ok_set_reg: "cpu_ok m \<Longrightarrow> n \<notin> {0, LoadReg} \<Longrightarrow> cpu_ok (set_reg n v m)"
  by (auto simp: cpu_ok_def machine_ok_def nth_list_update split: option.splits)

lemma finish_ok:
  assumes "confined m m'" "unat (reg m' LoadReg) < 32" "lr < 32"
  shows "\<exists>m1. finish m' pc lr lv = Inr m1 \<and> confined m m1 \<and> cpu_ok m1 \<and>
    reg m1 PCReg = reg m' NextPCReg \<and> reg m1 NextPCReg = pc \<and> reg m1 PrevPCReg = reg m' PCReg"
proof -
  obtain m1 where m1: "DelayedLoad lr lv m' = Inr m1" "confined m m1" "cpu_ok m1"
    "\<forall>n. 32 \<le> n \<and> n \<notin> {LoadReg, LoadValueReg} \<longrightarrow> reg m1 n = reg m' n"
    using DelayedLoad_ok [OF assms] by metis
  have "length (registers m1) = NumTotalRegs" using m1(3) by (simp add: cpu_ok_def machine_ok_def)
  then show ?thesis using m1 by (simp add: finish_def Let_def cpu_ok_set_reg)
qed

text \<open>
  One instruction of a user program: the simulator itself stops only in the two cases of
  \<open>exec_faults\<close>; otherwise the machine stays well formed and only frames that the program may
  write have changed.
\<close>

lemma fetch_execute_ok:
  assumes "cpu_ok m"
  obtains (trap) ex bad m' where "fetch_execute m = Inr (Some (ex, bad), m')" "confined m m'"
      "unat (reg m' LoadReg) < 32"
  | (run) m' where "fetch_execute m = Inr (None, m')" "confined m m'" "cpu_ok m'"
  | (fault) f raw m1 where "fetch_execute m = Inl f" "ReadMem (reg m PCReg) 4 m = Inr (Inr raw, m1)"
      "exec_faults (Decode raw) m1 f"
proof -
  have ok: "machine_ok m" "unat (reg m LoadReg) < 32" using assms by (auto simp: cpu_ok_def)
  obtain r m1 where r: "ReadMem (reg m PCReg) 4 m = Inr (r, m1)" "step_ok m m1" "machine_ok m1"
    by (rule ReadMem_step_ok [OF ok(1), of 4 "reg m PCReg"]) auto
  have l1: "confined m m1" "unat (reg m1 LoadReg) < 32" using r(2) ok(2) by (auto simp: step_ok_def)
  show ?thesis
  proof (cases r)
    case (Inl ex)
    then have "fetch_execute m = Inr (Some (ex, reg m PCReg), m1)" using r(1) by (simp add: fetch_execute_def)
    then show ?thesis using l1 by (rule trap)
  next
    case (Inr raw)
    note e = exec_ok [OF r(3), of raw]
    show ?thesis
    proof (cases "exec (Decode raw) m1")
      case (Inl f)
      then have "fetch_execute m = Inl f" using r(1) Inr by (simp add: fetch_execute_def)
      then show ?thesis using r(1) Inr e Inl by (intro fault) auto
    next
      case (Inr out)
      show ?thesis
      proof (cases out)
        case (Raise ex bad m2)
        then have "step_ok m m2" using e Inr step_ok_trans [OF r(2)] by auto
        moreover have "fetch_execute m = Inr (Some (ex, bad), m2)"
          using r(1) \<open>r = Inr raw\<close> Inr Raise by (simp add: fetch_execute_def)
        ultimately show ?thesis using ok(2) by (intro trap [of ex bad m2]) (auto simp: step_ok_def)
      next
        case (Cont m2 pc lr lv)
        then have "step_ok m m2" "lr < 32" using e Inr step_ok_trans [OF r(2)] by auto
        then obtain m3 where "finish m2 pc lr lv = Inr m3" "confined m m3" "cpu_ok m3"
          using finish_ok [of m m2 lr pc lv] ok(2) by (auto simp: step_ok_def)
        then show ?thesis using r(1) \<open>r = Inr raw\<close> Inr Cont
          by (intro run [of m3]) (auto simp: fetch_execute_def)
      qed
    qed
  qed
qed

text \<open>The kernel is entered with a well-formed machine, and the failing address recorded.\<close>

lemma RaiseException_ok:
  assumes "confined m m'" "unat (reg m' LoadReg) < 32"
  shows "\<exists>m1. RaiseException handler ex bad m' = handler ex m1 \<and> confined m m1 \<and> cpu_ok m1 \<and>
    reg m1 BadVAddrReg = bad \<and> reg m1 LoadReg = 0"
proof -
  let ?m = "m'\<lparr>registers := (registers m')[BadVAddrReg := bad]\<rparr>"
  have l: "length (registers m') = NumTotalRegs" using assms(1) by (simp add: confined_def machine_ok_def)
  have "confined m ?m" using l by (intro confined_registers [OF assms(1)]) simp
  then obtain m1 where m1: "DelayedLoad 0 0 ?m = Inr m1" "confined m m1" "cpu_ok m1"
    "\<forall>n. 32 \<le> n \<and> n \<notin> {LoadReg, LoadValueReg} \<longrightarrow> reg m1 n = reg ?m n"
    using DelayedLoad_ok [of m ?m 0 0] assms(2) by auto
  have "reg m1 LoadReg = 0" using m1(1) l assms(2) by (auto simp: DelayedLoad_def Let_def split: if_splits)
  then show ?thesis using m1 l by (auto simp: RaiseException_def)
qed

lemma OneInstruction_ok:
  assumes "cpu_ok m" "OneInstruction handler m = Inr m'"
    "\<And>ex m1. confined m m1 \<Longrightarrow> cpu_ok m1 \<Longrightarrow> handler ex m1 = Inr m' \<Longrightarrow> confined m1 m' \<and> cpu_ok m'"
  shows "cpu_ok m' \<and> confined m m'"
proof (cases rule: fetch_execute_ok [OF assms(1), case_names trap run fault])
  case (trap ex bad m1)
  then show ?thesis using RaiseException_ok [OF trap(2,3), of handler ex bad] assms(2,3)
    by (auto simp: OneInstruction_def intro: confined_trans)
qed (use assms(2) in \<open>auto simp: OneInstruction_def\<close>)

section \<open>Signed overflow\<close>

lemma sign_bit: "x AND SIGN_BIT = 0 \<longleftrightarrow> sint (x :: 32 word) \<ge> 0"
proof -
  have "x AND SIGN_BIT = 0 \<longleftrightarrow> \<not> bit x 31" using and_exp_eq_0_iff_not_bit [of x 31] by (simp add: SIGN_BIT_def)
  then show ?thesis using bit_last_iff [of x] by (simp add: not_less)
qed

lemma sign_xor: "(x XOR y) AND SIGN_BIT = 0 \<longleftrightarrow> (sint x \<ge> 0 \<longleftrightarrow> sint (y :: 32 word) \<ge> 0)"
proof -
  have "x AND SIGN_BIT = 0 \<longleftrightarrow> \<not> bit x 31" for x
    using and_exp_eq_0_iff_not_bit [of x 31] by (simp add: SIGN_BIT_def)
  then show ?thesis unfolding sign_bit [symmetric] by (simp add: bit_xor_iff)
qed

lemma wrap_sign:
  assumes "- (2 ^ 32) \<le> k" "k < 2 ^ 32"
  shows "0 \<le> signed_take_bit 31 k \<longleftrightarrow> (if is_int32 k then 0 \<le> k else k < (0::int))"
proof -
  define t where "t = signed_take_bit 31 k"
  have "k < - (2 ^ 31) \<Longrightarrow> k + 2 ^ 32 \<le> t" "2 ^ 31 \<le> k \<Longrightarrow> t \<le> k - 2 ^ 32"
    "- (2 ^ 31) \<le> k \<Longrightarrow> k < 2 ^ 31 \<Longrightarrow> t = k"
    unfolding t_def using signed_take_bit_int_greater_eq [of k 31] signed_take_bit_int_less_eq [of 31 k]
      signed_take_bit_int_eq_self [of 31 k] by simp_all
  then show ?thesis using assms unfolding t_def [symmetric] is_int32_def by auto
qed

lemma overflow_iff:
  fixes a b :: "32 word"
  shows "(a XOR b) AND SIGN_BIT = 0 \<and> (a XOR (a + b)) AND SIGN_BIT \<noteq> 0 \<longleftrightarrow> \<not> is_int32 (sint a + sint b)"
    "(a XOR b) AND SIGN_BIT \<noteq> 0 \<and> (a XOR (a - b)) AND SIGN_BIT \<noteq> 0 \<longleftrightarrow> \<not> is_int32 (sint a - sint b)"
proof -
  have r: "sint a < 2 ^ 31" "- (2 ^ 31) \<le> sint a" "sint b < 2 ^ 31" "- (2 ^ 31) \<le> sint b"
    using sint_lt [of a] sint_ge [of a] sint_lt [of b] sint_ge [of b] by simp_all
  have "0 \<le> sint (a + b) \<longleftrightarrow> (if is_int32 (sint a + sint b) then 0 \<le> sint a + sint b else sint a + sint b < 0)"
    using r wrap_sign [of "sint a + sint b"] unfolding sint_word_ariths by simp
  then show "(a XOR b) AND SIGN_BIT = 0 \<and> (a XOR (a + b)) AND SIGN_BIT \<noteq> 0 \<longleftrightarrow> \<not> is_int32 (sint a + sint b)"
    using r unfolding sign_xor by (auto simp: is_int32_def split: if_splits)
  have "0 \<le> sint (a - b) \<longleftrightarrow> (if is_int32 (sint a - sint b) then 0 \<le> sint a - sint b else sint a - sint b < 0)"
    using r wrap_sign [of "sint a - sint b"] unfolding sint_word_ariths by simp
  then show "(a XOR b) AND SIGN_BIT \<noteq> 0 \<and> (a XOR (a - b)) AND SIGN_BIT \<noteq> 0 \<longleftrightarrow> \<not> is_int32 (sint a - sint b)"
    using r unfolding sign_xor by (auto simp: is_int32_def split: if_splits)
qed

lemma sint_no_wrap:
  fixes a b :: "32 word"
  shows "is_int32 (sint a + sint b) \<Longrightarrow> sint (a + b) = sint a + sint b"
    "is_int32 (sint a - sint b) \<Longrightarrow> sint (a - b) = sint a - sint b"
  by (simp_all add: is_int32_def sint_word_ariths signed_take_bit_int_eq_self)

lemma exec_ADD: "opCode i = OP_ADD \<Longrightarrow> exec i m = (if is_int32 (sint (reg m (rs i)) + sint (reg m (rt i)))
    then put m (rd i) (reg m (rs i) + reg m (rt i)) else Inr (Raise OverflowException 0 m))"
  using overflow_iff(1) [of "reg m (rs i)" "reg m (rt i)"] by (auto simp: exec_def exec_add_def Let_def)

lemma exec_SUB: "opCode i = OP_SUB \<Longrightarrow> exec i m = (if is_int32 (sint (reg m (rs i)) - sint (reg m (rt i)))
    then put m (rd i) (reg m (rs i) - reg m (rt i)) else Inr (Raise OverflowException 0 m))"
  using overflow_iff(2) [of "reg m (rs i)" "reg m (rt i)"]
  by (auto simp: exec_def exec_add_def exec_branch_def exec_div_def exec_jump_def
    exec_load_def exec_move_def exec_shift_def exec_store_def Let_def)

lemma exec_ADDI: "opCode i = OP_ADDI \<Longrightarrow> exec i m = (if is_int32 (sint (reg m (rs i)) + sint (extra i))
    then put m (rt i) (reg m (rs i) + extra i) else Inr (Raise OverflowException 0 m))"
  using overflow_iff(1) [of "extra i" "reg m (rs i)"]
  by (auto simp: exec_def exec_add_def Let_def add.commute xor.commute)

lemma exec_MULT:
  assumes "opCode i \<in> {OP_MULT, OP_MULTU}"
  shows "exec i m = (let (hi, lo) = Mult (reg m (rs i)) (reg m (rt i)) (opCode i = OP_MULT)
     in goto (set_reg LoReg lo (set_reg HiReg hi m)) (next4 m))"
  using assms by (auto simp: exec_def exec_add_def exec_branch_def exec_div_def exec_jump_def
    exec_load_def exec_move_def Let_def)

end
