(* ===== verification/Nachos_Disk.thy ===== *)
theory Nachos_Disk
  imports Nachos_Machine
begin

text \<open>
  \<open>machine/disk.cc\<close>, the part of \<open>sysdep.cc\<close> it uses, and \<open>filesys/synchdisk.cc\<close>: a disk of 1024
  sectors kept in a UNIX file behind a magic number, the latency of a request, and the synchronous
  interface that the file system uses.  What the file system relies on is the locale
  \<open>sector_store\<close>.
\<close>

section \<open>The host file\<close>

text \<open>\<open>sysdep.cc\<close>: \<open>Lseek\<close> followed by \<open>Read\<close> (which checks that all bytes came) or by \<open>WriteFile\<close>.\<close>

definition host_read :: "nat \<Rightarrow> nat \<Rightarrow> byte list \<Rightarrow> byte list res" where
  "host_read off n file = ASSERT (off + n \<le> length file \<or> n = 0) (Inr (take n (drop off file)))"

definition host_write :: "nat \<Rightarrow> byte list \<Rightarrow> byte list \<Rightarrow> byte list" where
  "host_write off bs file =
     take off (file @ replicate (off - length file) 0) @ bs @ drop (off + length bs) file"

section \<open>The disk\<close>

definition SectorsPerTrack :: int where "SectorsPerTrack = 32"
definition NumTracks :: int where "NumTracks = 32"
definition NumSectors :: int where "NumSectors = SectorsPerTrack * NumTracks"
definition RotationTime :: int where "RotationTime = 500"
definition SeekTime :: int where "SeekTime = 500"
definition MagicNumber :: int where "MagicNumber = 0x456789ab"
definition MagicSize :: nat where "MagicSize = 4"
definition DiskSize :: nat where "DiskSize = MagicSize + nat NumSectors * SectorSize"

lemmas disk_sizes = SectorsPerTrack_def NumTracks_def NumSectors_def RotationTime_def SeekTime_def
  MagicSize_def DiskSize_def SectorSize_def

record Disk =
  image :: "byte list"
  active :: bool
  lastSector :: int
  bufferInit :: int

text \<open>\<open>Disk::Disk\<close> on a host file that exists (\<open>Some\<close>) or has to be created (\<open>None\<close>).\<close>

definition Disk_new :: "byte list option \<Rightarrow> Disk res" where
  "Disk_new file =
     (let mk = (\<lambda>f. \<lparr>image = f, active = False, lastSector = 0, bufferInit = 0\<rparr>) in
      case file of
        Some f \<Rightarrow> rbind (host_read 0 MagicSize f) (\<lambda>bs.
          ASSERT (bytes_to_int bs = MagicNumber) (Inr (mk f)))
      | None \<Rightarrow> Inr (mk (host_write (DiskSize - 4) (int_to_bytes 0)
                         (host_write 0 (int_to_bytes MagicNumber) []))))"

text \<open>The result of \<open>TimeToSeek\<close> is the seek time and the wait for the next sector boundary.\<close>

definition TimeToSeek :: "int \<Rightarrow> int \<Rightarrow> Disk \<Rightarrow> int \<times> int" where
  "TimeToSeek totalTicks newSector d =
     (let newTrack = newSector sdiv SectorsPerTrack; oldTrack = lastSector d sdiv SectorsPerTrack;
          seek = \<bar>newTrack - oldTrack\<bar> * SeekTime;
          over = (totalTicks + seek) smod RotationTime
      in (seek, if over > 0 then RotationTime - over else 0))"

definition ModuloDiff :: "int \<Rightarrow> int \<Rightarrow> int" where
  "ModuloDiff to from =
     ((to smod SectorsPerTrack - from smod SectorsPerTrack) + SectorsPerTrack) smod SectorsPerTrack"

definition ComputeLatency :: "int \<Rightarrow> int \<Rightarrow> bool \<Rightarrow> Disk \<Rightarrow> int" where
  "ComputeLatency totalTicks newSector writing d =
     (let (seek, rotation) = TimeToSeek totalTicks newSector d;
          timeAfter = totalTicks + seek + rotation
      in if \<not> writing \<and> seek = 0 \<and>
            (timeAfter - bufferInit d) sdiv RotationTime > ModuloDiff newSector (bufferInit d sdiv RotationTime)
         then RotationTime
         else seek + (rotation + ModuloDiff newSector (timeAfter sdiv RotationTime) * RotationTime) + RotationTime)"

definition UpdateLast :: "int \<Rightarrow> int \<Rightarrow> Disk \<Rightarrow> Disk" where
  "UpdateLast totalTicks newSector d =
     (let (seek, rotate) = TimeToSeek totalTicks newSector d in
      d\<lparr>bufferInit := (if seek \<noteq> 0 then totalTicks + seek + rotate else bufferInit d),
        lastSector := newSector\<rparr>)"

definition sector_offset :: "int \<Rightarrow> nat" where
  "sector_offset s = nat (int SectorSize * s) + MagicSize"

text \<open>
  A request transfers the sector at once and returns the delay after which the completion
  interrupt is scheduled.
\<close>

definition ReadRequest :: "int \<Rightarrow> int \<Rightarrow> Disk \<Rightarrow> (byte list \<times> int \<times> Disk) res" where
  "ReadRequest totalTicks s d =
     (let ticks = ComputeLatency totalTicks s False d in
      ASSERT (\<not> active d) (ASSERT (s \<ge> 0 \<and> s < NumSectors)
        (rbind (host_read (sector_offset s) SectorSize (image d)) (\<lambda>bs.
           Inr (bs, ticks, UpdateLast totalTicks s (d\<lparr>active := True\<rparr>))))))"

definition WriteRequest :: "int \<Rightarrow> int \<Rightarrow> byte list \<Rightarrow> Disk \<Rightarrow> (int \<times> Disk) res" where
  "WriteRequest totalTicks s bs d =
     (let ticks = ComputeLatency totalTicks s True d in
      ASSERT (\<not> active d) (ASSERT (s \<ge> 0 \<and> s < NumSectors)
        (Inr (ticks, UpdateLast totalTicks s
           (d\<lparr>image := host_write (sector_offset s) (take SectorSize bs) (image d), active := True\<rparr>)))))"

definition HandleInterrupt :: "Disk \<Rightarrow> Disk" where
  "HandleInterrupt d = d\<lparr>active := False\<rparr>"

section \<open>The synchronous disk\<close>

text \<open>
  One call of \<open>ReadSector\<close> or \<open>WriteSector\<close> holds the lock from the request to the completion
  interrupt, so it is one step here: the request, then the interrupt that ends the wait.
  \<open>clock n\<close> is the simulated time at which request number \<open>n\<close> is made, and \<open>junk\<close> what freshly
  allocated memory holds; both are arbitrary.
\<close>

record SynchDisk =
  disk :: Disk
  requests :: nat
  clock :: "nat \<Rightarrow> int"
  junk :: "nat \<Rightarrow> byte"

definition ReadSector :: "int \<Rightarrow> SynchDisk \<Rightarrow> (byte list \<times> SynchDisk) res" where
  "ReadSector s sd = rbind (ReadRequest (clock sd (requests sd)) s (disk sd)) (\<lambda>(bs, ticks, d).
     Inr (bs, sd\<lparr>disk := HandleInterrupt d, requests := Suc (requests sd)\<rparr>))"

definition WriteSector :: "int \<Rightarrow> byte list \<Rightarrow> SynchDisk \<Rightarrow> SynchDisk res" where
  "WriteSector s bs sd = rbind (WriteRequest (clock sd (requests sd)) s bs (disk sd)) (\<lambda>(ticks, d).
     Inr (sd\<lparr>disk := HandleInterrupt d, requests := Suc (requests sd)\<rparr>))"

definition fresh :: "nat \<Rightarrow> SynchDisk \<Rightarrow> byte list" where
  "fresh n sd = map (junk sd) [0..<n]"

section \<open>What a sector holds\<close>

definition disk_ok :: "SynchDisk \<Rightarrow> bool" where
  "disk_ok sd \<longleftrightarrow> length (image (disk sd)) = DiskSize \<and> \<not> active (disk sd)"

definition sector :: "SynchDisk \<Rightarrow> int \<Rightarrow> byte list" where
  "sector sd s = take SectorSize (drop (sector_offset s) (image (disk sd)))"

lemma sector_offset_bound:
  "0 \<le> s \<Longrightarrow> s < NumSectors \<Longrightarrow> sector_offset s + SectorSize \<le> DiskSize"
  by (auto simp: sector_offset_def disk_sizes)

lemma length_sector [simp]:
  "disk_ok sd \<Longrightarrow> 0 \<le> s \<Longrightarrow> s < NumSectors \<Longrightarrow> length (sector sd s) = SectorSize"
  using sector_offset_bound [of s] by (simp add: sector_def disk_ok_def)

lemma image_UpdateLast [simp]: "image (UpdateLast t s d) = image d" "active (UpdateLast t s d) = active d"
  by (simp_all add: UpdateLast_def split: prod.split)

lemma host_write_overwrite: "off + length bs \<le> length f \<Longrightarrow> host_write off bs f = overwrite off bs f"
  by (simp add: host_write_def overwrite_def)

lemma ReadSector_ok:
  assumes "disk_ok sd" "0 \<le> s" "s < NumSectors"
  shows "\<exists>sd'. ReadSector s sd = Inr (sector sd s, sd') \<and> disk_ok sd' \<and> sector sd' = sector sd"
  using assms sector_offset_bound [OF assms(2,3)]
  by (auto simp: ReadSector_def ReadRequest_def host_read_def disk_ok_def sector_def HandleInterrupt_def
      Let_def fun_eq_iff)

lemma offsets_apart:
  assumes "0 \<le> s" "0 \<le> t" "s \<noteq> t"
  shows "sector_offset s + SectorSize \<le> sector_offset t \<or> sector_offset t + SectorSize \<le> sector_offset s"
  using assms by (simp add: sector_offset_def disk_sizes) linarith

lemma WriteSector_ok:
  assumes "disk_ok sd" "0 \<le> s" "s < NumSectors" "length bs = SectorSize"
  shows "\<exists>sd'. WriteSector s bs sd = Inr sd' \<and> disk_ok sd' \<and> sector sd' s = bs \<and>
    (\<forall>t. 0 \<le> t \<and> t < NumSectors \<and> t \<noteq> s \<longrightarrow> sector sd' t = sector sd t)"
proof -
  let ?im = "overwrite (sector_offset s) bs (image (disk sd))"
  have len: "sector_offset s + length bs \<le> length (image (disk sd))"
    using assms sector_offset_bound [OF assms(2,3)] by (simp add: disk_ok_def)
  obtain sd' where sd': "WriteSector s bs sd = Inr sd'" "image (disk sd') = ?im" "\<not> active (disk sd')"
    using assms len by (auto simp: WriteSector_def WriteRequest_def disk_ok_def HandleInterrupt_def Let_def
        host_write_overwrite)
  have "take SectorSize (drop (sector_offset t) ?im) = take SectorSize (drop (sector_offset t) (image (disk sd)))"
    if "0 \<le> t" "t < NumSectors" "t \<noteq> s" for t
    using offsets_apart [of s t] sector_offset_bound [OF that(1,2)] that assms len
    by (intro nth_equalityI) (auto simp: disk_ok_def nth_overwrite)
  then show ?thesis using sd' assms len take_drop_overwrite [OF len]
    by (auto simp: disk_ok_def sector_def)
qed

text \<open>The interface of the file system: sectors of fixed size that can be read and written.\<close>

locale sector_store =
  fixes rd :: "int \<Rightarrow> 'd \<Rightarrow> (byte list \<times> 'd) res"
    and wr :: "int \<Rightarrow> byte list \<Rightarrow> 'd \<Rightarrow> 'd res"
    and val :: "'d \<Rightarrow> int \<Rightarrow> byte list"
    and ok :: "'d \<Rightarrow> bool"
    and cap :: int
    and width :: nat
  assumes val_length: "ok d \<Longrightarrow> 0 \<le> s \<Longrightarrow> s < cap \<Longrightarrow> length (val d s) = width"
    and rd_law: "ok d \<Longrightarrow> 0 \<le> s \<Longrightarrow> s < cap \<Longrightarrow>
      \<exists>d'. rd s d = Inr (val d s, d') \<and> ok d' \<and> val d' = val d"
    and wr_law: "ok d \<Longrightarrow> 0 \<le> s \<Longrightarrow> s < cap \<Longrightarrow> length bs = width \<Longrightarrow>
      \<exists>d'. wr s bs d = Inr d' \<and> ok d' \<and> val d' s = bs \<and>
        (\<forall>t. 0 \<le> t \<and> t < cap \<and> t \<noteq> s \<longrightarrow> val d' t = val d t)"
    and out_of_range: "ok d \<Longrightarrow> \<not> (0 \<le> s \<and> s < cap) \<Longrightarrow> rd s d = Inl Abort \<and> wr s bs d = Inl Abort"
begin

lemma wr_rd:
  assumes "ok d" "0 \<le> s" "s < cap" "length bs = width"
  shows "\<exists>d1 d2. wr s bs d = Inr d1 \<and> rd s d1 = Inr (bs, d2)"
  using wr_law [OF assms] rd_law assms(2,3) by metis

end

interpretation sd: sector_store ReadSector WriteSector sector disk_ok NumSectors SectorSize
proof unfold_locales
  fix sd :: SynchDisk and s :: int and bs :: "byte list"
  assume ok: "disk_ok sd"
  show "\<not> (0 \<le> s \<and> s < NumSectors) \<Longrightarrow> ReadSector s sd = Inl Abort \<and> WriteSector s bs sd = Inl Abort"
    using ok by (auto simp: ReadSector_def WriteSector_def ReadRequest_def WriteRequest_def Let_def
        disk_ok_def ASSERT_def)
  assume "0 \<le> s" "s < NumSectors"
  then show "length (sector sd s) = SectorSize"
    "\<exists>d'. ReadSector s sd = Inr (sector sd s, d') \<and> disk_ok d' \<and> sector d' = sector sd"
    "length bs = SectorSize \<Longrightarrow> \<exists>d'. WriteSector s bs sd = Inr d' \<and> disk_ok d' \<and> sector d' s = bs \<and>
        (\<forall>t. 0 \<le> t \<and> t < NumSectors \<and> t \<noteq> s \<longrightarrow> sector d' t = sector sd t)"
    using ok ReadSector_ok WriteSector_ok by auto
qed

section \<open>Latency\<close>

lemma ModuloDiff_range:
  assumes "0 \<le> a" "0 \<le> b"
  shows "0 \<le> ModuloDiff a b" "ModuloDiff a b < SectorsPerTrack"
proof -
  have "0 \<le> a mod 32 - b mod 32 + 32" using pos_mod_bound [of 32 b] pos_mod_sign [of 32 a] by linarith
  then have "ModuloDiff a b = (a mod 32 - b mod 32 + 32) mod 32"
    using assms by (simp add: ModuloDiff_def disk_sizes smod_nonneg)
  then show "0 \<le> ModuloDiff a b" "ModuloDiff a b < SectorsPerTrack" by (simp_all add: disk_sizes)
qed

lemma TimeToSeek_range:
  assumes "0 \<le> now" "0 \<le> s" "s < NumSectors" "0 \<le> lastSector d" "lastSector d < NumSectors"
    "TimeToSeek now s d = (seek, rot)"
  shows "0 \<le> seek" "seek \<le> 31 * SeekTime" "0 \<le> rot" "rot < RotationTime"
proof -
  let ?n = "s div 32" and ?o = "lastSector d div 32"
  have r: "0 \<le> ?n" "?n \<le> 31" "0 \<le> ?o" "?o \<le> 31" using assms by (auto simp: disk_sizes)
  have seek: "seek = \<bar>?n - ?o\<bar> * 500"
    using assms by (simp add: TimeToSeek_def disk_sizes sdiv_nonneg Let_def)
  then show sk: "0 \<le> seek" "seek \<le> 31 * SeekTime" using r by (auto simp: disk_sizes abs_le_iff)
  have "rot = (if (now + seek) smod RotationTime > 0 then RotationTime - (now + seek) smod RotationTime else 0)"
    using assms(6) by (auto simp: TimeToSeek_def Let_def)
  moreover have "(now + seek) smod RotationTime = (now + seek) mod 500"
    using assms(1) sk(1) by (simp only: RotationTime_def smod_nonneg)
  moreover have "0 \<le> (now + seek) mod 500" "(now + seek) mod 500 < 500" by simp_all
  ultimately show "0 \<le> rot" "rot < RotationTime" unfolding RotationTime_def Let_def by (auto split: if_splits)
qed

text \<open>
  A request always takes at least one sector time (so scheduling its interrupt cannot fail) and
  less than two full revolutions.
\<close>

lemma ComputeLatency_range:
  assumes "0 \<le> now" "0 \<le> s" "s < NumSectors" "0 \<le> lastSector d" "lastSector d < NumSectors"
  shows "RotationTime \<le> ComputeLatency now s w d" "ComputeLatency now s w d < 2 * SectorsPerTrack * RotationTime"
proof -
  obtain seek rot where sr: "TimeToSeek now s d = (seek, rot)" by fastforce
  note r = TimeToSeek_range [OF assms sr]
  have "0 \<le> (now + seek + rot) sdiv RotationTime" using assms r by (simp add: sdiv_nonneg disk_sizes)
  from ModuloDiff_range [OF assms(2) this]
  have m: "0 \<le> ModuloDiff s ((now + seek + rot) sdiv RotationTime)"
    "ModuloDiff s ((now + seek + rot) sdiv RotationTime) \<le> 31" by (simp_all add: SectorsPerTrack_def)
  show "RotationTime \<le> ComputeLatency now s w d" "ComputeLatency now s w d < 2 * SectorsPerTrack * RotationTime"
    using r m unfolding ComputeLatency_def sr Let_def prod.case by (auto simp: disk_sizes)
qed

lemma Disk_new_fresh: "\<exists>d. Disk_new None = Inr d \<and> length (image d) = DiskSize \<and> \<not> active d \<and>
    Disk_new (Some (image d)) = Inr d"
proof -
  let ?f = "host_write (DiskSize - 4) (int_to_bytes 0) (host_write 0 (int_to_bytes MagicNumber) [])"
  have "is_int32 MagicNumber" by (simp add: is_int32_def MagicNumber_def)
  moreover have "take 4 ?f = int_to_bytes MagicNumber"
    by (simp add: host_write_def disk_sizes take_append)
  moreover have l: "length ?f = DiskSize" by (simp add: host_write_def disk_sizes)
  ultimately show ?thesis
    by (simp add: Disk_new_def host_read_def Let_def MagicSize_def) (simp add: disk_sizes)
qed

end
