(* ===== verification/Nachos_OpenFile.thy ===== *)
theory Nachos_OpenFile
  imports Nachos_Disk Nachos_BitMap
begin

text \<open>
  \<open>filesys/filehdr.cc\<close> and \<open>filesys/openfile.cc\<close>: the file header (i-node) in memory and on disk,
  the allocation of its data sectors, and reading and writing a file through the sectors.
  The contents of a file are its data sectors one after the other; \<open>ReadAt\<close> and \<open>WriteAt\<close> are shown
  to read and overwrite a segment of them, whatever the alignment of the request.
\<close>

section \<open>File headers\<close>

definition NumDirect :: nat where "NumDirect = (SectorSize - 2 * 4) div 4"

record FileHeader =
  numBytes :: int
  numSectors :: int
  dataSectors :: "int list"

text \<open>
  \<open>FileHeader::Allocate\<close>: the loop stores the sectors it finds into \<open>dataSectors\<close>, an array of
  \<open>NumDirect\<close> elements.
\<close>

fun alloc_loop :: "int list \<Rightarrow> FileHeader \<Rightarrow> BitMap \<Rightarrow> (FileHeader \<times> BitMap) res" where
  "alloc_loop [] h fm = Inr (h, fm)"
| "alloc_loop (i # is) h fm = rbind (Find fm) (\<lambda>(s, fm1).
     rbind (array_set (dataSectors h) i s) (\<lambda>a. alloc_loop is (h\<lparr>dataSectors := a\<rparr>) fm1))"

definition Allocate :: "BitMap \<Rightarrow> int \<Rightarrow> FileHeader \<Rightarrow> (bool \<times> FileHeader \<times> BitMap) res" where
  "Allocate freeMap fileSize h =
     (let h1 = h\<lparr>numBytes := fileSize, numSectors := divRoundUp fileSize (int SectorSize)\<rparr> in
      rbind (NumClear freeMap) (\<lambda>n.
        if n < numSectors h1 then Inr (False, h1, freeMap)
        else rbind (alloc_loop [0..numSectors h1 - 1] h1 freeMap) (\<lambda>(h2, fm). Inr (True, h2, fm))))"

fun dealloc_loop :: "int list \<Rightarrow> FileHeader \<Rightarrow> BitMap \<Rightarrow> BitMap res" where
  "dealloc_loop [] h fm = Inr fm"
| "dealloc_loop (i # is) h fm = rbind (array_get (dataSectors h) i) (\<lambda>s.
     rbind (Test s fm) (\<lambda>t. ASSERT t (rbind (Clear s fm) (dealloc_loop is h))))"

definition Deallocate :: "FileHeader \<Rightarrow> BitMap \<Rightarrow> BitMap res" where
  "Deallocate h fm = dealloc_loop [0..numSectors h - 1] h fm"

text \<open>The object representation of a header: 32 integers, exactly one sector.\<close>

definition hdr_bytes :: "FileHeader \<Rightarrow> byte list" where
  "hdr_bytes h = concat (map int_to_bytes (numBytes h # numSectors h # dataSectors h))"

definition hdr_of_bytes :: "byte list \<Rightarrow> FileHeader" where
  "hdr_of_bytes bs = \<lparr>numBytes = bytes_to_int (slot 4 bs 0), numSectors = bytes_to_int (slot 4 bs 1),
     dataSectors = map (\<lambda>i. bytes_to_int (slot 4 bs (i + 2))) [0..<NumDirect]\<rparr>"

definition Hdr_FetchFrom :: "int \<Rightarrow> SynchDisk \<Rightarrow> (FileHeader \<times> SynchDisk) res" where
  "Hdr_FetchFrom s sd = rbind (ReadSector s sd) (\<lambda>(bs, sd1). Inr (hdr_of_bytes bs, sd1))"

definition Hdr_WriteBack :: "int \<Rightarrow> FileHeader \<Rightarrow> SynchDisk \<Rightarrow> SynchDisk res" where
  "Hdr_WriteBack s h sd = WriteSector s (hdr_bytes h) sd"

definition ByteToSector :: "int \<Rightarrow> FileHeader \<Rightarrow> int res" where
  "ByteToSector offset h = array_get (dataSectors h) (offset sdiv int SectorSize)"

definition FileLength :: "FileHeader \<Rightarrow> int" where
  "FileLength h = numBytes h"

section \<open>Open files\<close>

record OpenFile =
  hdr :: FileHeader
  seekPosition :: int

definition OpenFile_new :: "int \<Rightarrow> SynchDisk \<Rightarrow> (OpenFile \<times> SynchDisk) res" where
  "OpenFile_new s sd = rbind (Hdr_FetchFrom s sd) (\<lambda>(h, sd1). Inr (\<lparr>hdr = h, seekPosition = 0\<rparr>, sd1))"

definition Seek :: "int \<Rightarrow> OpenFile \<Rightarrow> OpenFile" where
  "Seek position f = f\<lparr>seekPosition := position\<rparr>"

definition File_Length :: "OpenFile \<Rightarrow> int" where
  "File_Length f = FileLength (hdr f)"

text \<open>Reading the sectors \<open>is\<close> of the file, one after the other, into the buffer.\<close>

fun read_loop :: "int list \<Rightarrow> FileHeader \<Rightarrow> SynchDisk \<Rightarrow> (byte list \<times> SynchDisk) res" where
  "read_loop [] h sd = Inr ([], sd)"
| "read_loop (i # is) h sd = rbind (ByteToSector (i * int SectorSize) h) (\<lambda>s.
     rbind (ReadSector s sd) (\<lambda>(bs, sd1).
     rbind (read_loop is h sd1) (\<lambda>(rest, sd2). Inr (bs @ rest, sd2))))"

text \<open>The segment of \<open>n\<close> bytes at \<open>&buf[off]\<close>.\<close>

definition buf_part :: "byte list \<Rightarrow> int \<Rightarrow> int \<Rightarrow> byte list res" where
  "buf_part buf off n = (if 0 \<le> off \<and> 0 \<le> n \<and> off + n \<le> int (length buf)
     then Inr (take (nat n) (drop (nat off) buf)) else Inl BadIndex)"

definition buf_copy :: "byte list \<Rightarrow> byte list \<Rightarrow> int \<Rightarrow> byte list res" where
  "buf_copy from buf off = (if 0 \<le> off \<and> off + int (length from) \<le> int (length buf)
     then Inr (overwrite (nat off) from buf) else Inl BadIndex)"

definition clip :: "int \<Rightarrow> int \<Rightarrow> int \<Rightarrow> int" where
  "clip n position fileLength = (if i32 (position + n) > fileLength then i32 (fileLength - position) else n)"

text \<open>\<open>ReadAt\<close> returns the bytes it copies into the caller's buffer; their number is its result.\<close>

definition ReadAt :: "int \<Rightarrow> int \<Rightarrow> OpenFile \<Rightarrow> SynchDisk \<Rightarrow> (byte list \<times> SynchDisk) res" where
  "ReadAt n0 position f sd =
     (let fileLength = FileLength (hdr f) in
      if n0 \<le> 0 \<or> position \<ge> fileLength then Inr ([], sd)
      else let n = clip n0 position fileLength;
               firstSector = divRoundDown position (int SectorSize);
               lastSector = divRoundDown (i32 (position + n - 1)) (int SectorSize);
               numSectors = 1 + lastSector - firstSector
        in if numSectors < 0 then Inl BadIndex
           else rbind (read_loop [firstSector..lastSector] (hdr f) sd) (\<lambda>(buf, sd1).
                rbind (buf_part buf (position - firstSector * int SectorSize) n) (\<lambda>bs. Inr (bs, sd1))))"

fun write_loop :: "int list \<Rightarrow> nat \<Rightarrow> byte list \<Rightarrow> FileHeader \<Rightarrow> SynchDisk \<Rightarrow> SynchDisk res" where
  "write_loop [] k buf h sd = Inr sd"
| "write_loop (i # is) k buf h sd = rbind (ByteToSector (i * int SectorSize) h) (\<lambda>s.
     rbind (WriteSector s (slot SectorSize buf k) sd) (write_loop is (Suc k) buf h))"

text \<open>
  When \<open>c\<close> holds, sector \<open>k\<close> of the file is read into \<open>&buf[off]\<close>, so that its bytes outside the
  request are kept.
\<close>

definition read_partial ::
    "bool \<Rightarrow> int \<Rightarrow> byte list \<Rightarrow> int \<Rightarrow> OpenFile \<Rightarrow> SynchDisk \<Rightarrow> (byte list \<times> SynchDisk) res" where
  "read_partial c k buf off f sd =
     (if c then rbind (ReadAt (int SectorSize) (k * int SectorSize) f sd) (\<lambda>(bs, sd1).
             rbind (buf_copy bs buf off) (\<lambda>b. Inr (b, sd1)))
      else Inr (buf, sd))"

text \<open>\<open>WriteAt\<close>: \<open>from\<close> is the caller's buffer; the result is the number of bytes written.\<close>

definition WriteAt :: "byte list \<Rightarrow> int \<Rightarrow> int \<Rightarrow> OpenFile \<Rightarrow> SynchDisk \<Rightarrow> (int \<times> SynchDisk) res" where
  "WriteAt from n0 position f sd =
     (let fileLength = FileLength (hdr f) in
      if n0 \<le> 0 \<or> position \<ge> fileLength then Inr (0, sd)
      else let n = clip n0 position fileLength;
               SS = int SectorSize;
               firstSector = divRoundDown position SS;
               lastSector = divRoundDown (i32 (position + n - 1)) SS;
               numSectors = 1 + lastSector - firstSector;
               firstAligned = (position = firstSector * SS);
               lastAligned = (i32 (position + n) = (lastSector + 1) * SS)
        in if numSectors < 0 then Inl BadIndex
           else let buf0 = fresh (nat (numSectors * SS)) sd in
           rbind (read_partial (\<not> firstAligned) firstSector buf0 0 f sd) (\<lambda>(buf1, sd1).
           rbind (read_partial (\<not> lastAligned \<and> (firstSector \<noteq> lastSector \<or> firstAligned)) lastSector
                    buf1 ((lastSector - firstSector) * SS) f sd1) (\<lambda>(buf2, sd2).
           rbind (buf_part from 0 n) (\<lambda>part.
           rbind (buf_copy part buf2 (position - firstSector * SS)) (\<lambda>buf3.
           rbind (write_loop [firstSector..lastSector] 0 buf3 (hdr f) sd2) (\<lambda>sd3. Inr (n, sd3)))))))"

definition File_Read :: "int \<Rightarrow> OpenFile \<Rightarrow> SynchDisk \<Rightarrow> (byte list \<times> OpenFile \<times> SynchDisk) res" where
  "File_Read n f sd = rbind (ReadAt n (seekPosition f) f sd) (\<lambda>(bs, sd1).
     Inr (bs, f\<lparr>seekPosition := i32 (seekPosition f + int (length bs))\<rparr>, sd1))"

definition File_Write :: "byte list \<Rightarrow> int \<Rightarrow> OpenFile \<Rightarrow> SynchDisk \<Rightarrow> (int \<times> OpenFile \<times> SynchDisk) res" where
  "File_Write from n f sd = rbind (WriteAt from n (seekPosition f) f sd) (\<lambda>(k, sd1).
     Inr (k, f\<lparr>seekPosition := i32 (seekPosition f + k)\<rparr>, sd1))"

section \<open>Segments of lists\<close>

lemma overwrite_append:
  "p + length a + length b \<le> length xs \<Longrightarrow> overwrite (p + length a) b (overwrite p a xs) = overwrite p (a @ b) xs"
  by (simp add: overwrite_def ac_simps)

lemma overwrite_Nil [simp]: "overwrite p [] xs = xs"
  by (simp add: overwrite_def)

lemma concat_list_update:
  assumes "\<And>x. x \<in> set xs \<Longrightarrow> length x = n" "j < length xs" "length bs = n"
  shows "concat (xs[j := bs]) = overwrite (j * n) bs (concat xs)"
  using assms
proof (induction xs arbitrary: j)
  case Nil then show ?case by simp
next
  case (Cons x xs)
  then show ?case by (cases j) (auto simp: overwrite_def ac_simps)
qed

lemma slot_split: "take (Suc k * n) (drop (j * n) xs) = slot n xs j @ take (k * n) (drop (Suc j * n) xs)"
  by (simp add: slot_def take_add drop_drop add.commute)

section \<open>The contents of a file\<close>

definition hdr_ok :: "FileHeader \<Rightarrow> bool" where
  "hdr_ok h \<longleftrightarrow> 0 \<le> numBytes h \<and> numBytes h \<le> numSectors h * int SectorSize \<and>
     numSectors h \<le> int NumDirect \<and> length (dataSectors h) = NumDirect \<and>
     distinct (take (nat (numSectors h)) (dataSectors h)) \<and>
     set (take (nat (numSectors h)) (dataSectors h)) \<subseteq> {0..<NumSectors}"

definition file_sectors :: "FileHeader \<Rightarrow> int list" where
  "file_sectors h = take (nat (numSectors h)) (dataSectors h)"

definition file_data :: "SynchDisk \<Rightarrow> FileHeader \<Rightarrow> byte list" where
  "file_data sd h = concat (map (sector sd) (file_sectors h))"

definition file_bytes :: "SynchDisk \<Rightarrow> FileHeader \<Rightarrow> byte list" where
  "file_bytes sd h = take (nat (numBytes h)) (file_data sd h)"

lemma file_sectors_facts:
  assumes "hdr_ok h"
  shows "length (file_sectors h) = nat (numSectors h)" "distinct (file_sectors h)"
    "set (file_sectors h) \<subseteq> {0..<NumSectors}" "0 \<le> numSectors h" "numBytes h \<le> 3840"
    "\<And>i. i < nat (numSectors h) \<Longrightarrow> dataSectors h ! i = file_sectors h ! i"
  using assms by (auto simp: hdr_ok_def file_sectors_def NumDirect_def SectorSize_def)

lemma sector_lengths:
  assumes "disk_ok sd" "hdr_ok h" "s \<in> set (file_sectors h)"
  shows "length (sector sd s) = SectorSize" "0 \<le> s" "s < NumSectors"
  using assms file_sectors_facts(3) [OF assms(2)] by auto

lemma length_file_data:
  "disk_ok sd \<Longrightarrow> hdr_ok h \<Longrightarrow> length (file_data sd h) = nat (numSectors h) * SectorSize"
  using length_concat_const [of "file_sectors h" "sector sd" SectorSize] sector_lengths
  by (simp add: file_data_def file_sectors_facts)

lemma numBytes_le: "hdr_ok h \<Longrightarrow> nat (numBytes h) \<le> nat (numSectors h) * SectorSize"
  using file_sectors_facts(4) [of h] by (simp add: hdr_ok_def nat_le_iff)

lemma length_file_bytes:
  assumes "disk_ok sd" "hdr_ok h" shows "length (file_bytes sd h) = nat (numBytes h)"
  using length_file_data [OF assms] numBytes_le [OF assms(2)] by (simp add: file_bytes_def)

lemma ByteToSector_ok:
  assumes "hdr_ok h" "j < nat (numSectors h)"
  shows "ByteToSector (int j * int SectorSize) h = Inr (file_sectors h ! j)"
proof -
  have "(int j * int SectorSize) sdiv int SectorSize = int j" by (simp add: sdiv_nonneg SectorSize_def)
  moreover have "j < NumDirect" using assms by (auto simp: hdr_ok_def)
  ultimately show ?thesis using assms file_sectors_facts(6) [OF assms(1)]
    by (simp add: ByteToSector_def array_get_def hdr_ok_def)
qed

lemma slot_file_data:
  assumes "disk_ok sd" "hdr_ok h" "j < nat (numSectors h)"
  shows "slot SectorSize (file_data sd h) j = sector sd (file_sectors h ! j)"
  using slot_concat_map [of "file_sectors h" "sector sd" SectorSize j "[]"] sector_lengths [OF assms(1,2)] assms(3)
  by (simp add: file_data_def file_sectors_facts [OF assms(2)])

lemma sector_cong: "sector sd' = sector sd \<Longrightarrow> file_data sd' h = file_data sd h \<and> file_bytes sd' h = file_bytes sd h"
  by (simp add: file_data_def file_bytes_def)

section \<open>Reading\<close>

lemma read_loop_ok:
  assumes "disk_ok sd" "hdr_ok h" "j + k \<le> nat (numSectors h)"
  shows "\<exists>sd'. read_loop [int j..int (j + k) - 1] h sd =
      Inr (take (k * SectorSize) (drop (j * SectorSize) (file_data sd h)), sd') \<and>
      disk_ok sd' \<and> sector sd' = sector sd"
  using assms
proof (induction k arbitrary: j sd)
  case 0 then show ?case by simp
next
  case (Suc k)
  then have j: "j < nat (numSectors h)" by simp
  have "file_sectors h ! j \<in> set (file_sectors h)" using j file_sectors_facts(1) [OF Suc.prems(2)] by simp
  note s = sector_lengths [OF Suc.prems(1,2) this]
  obtain sd1 where sd1: "ReadSector (file_sectors h ! j) sd = Inr (sector sd (file_sectors h ! j), sd1)"
    "disk_ok sd1" "sector sd1 = sector sd" using ReadSector_ok [OF Suc.prems(1) s(2,3)] by blast
  obtain sd2 where sd2: "read_loop [int (Suc j)..int (Suc j + k) - 1] h sd1 =
      Inr (take (k * SectorSize) (drop (Suc j * SectorSize) (file_data sd1 h)), sd2)" "disk_ok sd2" "sector sd2 = sector sd1"
    using Suc.IH [OF sd1(2) Suc.prems(2), of "Suc j"] Suc.prems(3) by auto
  have "[int j..int (j + Suc k) - 1] = int j # [int (Suc j)..int (Suc j + k) - 1]"
    by (subst upto_rec1) (simp_all add: add.commute)
  then show ?case
    using sd1 sd2 ByteToSector_ok [OF Suc.prems(2) j] slot_file_data [OF Suc.prems(1,2) j]
      sector_cong [OF sd1(3)] slot_split [of k SectorSize j "file_data sd h"]
    by simp
qed

text \<open>The sectors that a request of \<open>n\<close> bytes at \<open>p\<close> touches.\<close>

lemma request_range:
  fixes p n len ns :: nat
  assumes "0 < n" "p + n \<le> len" "len \<le> ns * SectorSize"
  defines "a \<equiv> p div SectorSize" and "b \<equiv> (p + n - 1) div SectorSize"
  shows "a \<le> b" "b < ns" "a * SectorSize \<le> p" "p < a * SectorSize + SectorSize"
    "b * SectorSize < p + n" "p + n \<le> Suc b * SectorSize"
    "a * SectorSize + (Suc b - a) * SectorSize = Suc b * SectorSize" "Suc b * SectorSize \<le> ns * SectorSize"
proof -
  show ab: "a \<le> b" unfolding a_def b_def using assms(1) by (intro div_le_mono) simp
  show "a * SectorSize + (Suc b - a) * SectorSize = Suc b * SectorSize"
    using ab by (simp flip: add_mult_distrib)
  have "p + n - 1 < ns * SectorSize" using assms by linarith
  then show b: "b < ns" unfolding b_def by (simp add: less_mult_imp_div_less)
  then show "Suc b * SectorSize \<le> ns * SectorSize" by (intro mult_le_mono1) simp
  show "a * SectorSize \<le> p" unfolding a_def by simp
  have near: "q < q div SectorSize * SectorSize + SectorSize" for q
    using div_mult_mod_eq [of q SectorSize] mod_less_divisor [of SectorSize q] by (simp add: SectorSize_def)
  show "p < a * SectorSize + SectorSize" unfolding a_def by (rule near)
  have "b * SectorSize \<le> p + n - 1" unfolding b_def by simp
  then show "b * SectorSize < p + n" using assms(1) by linarith
  show "p + n \<le> Suc b * SectorSize" unfolding b_def using near [of "p + n - 1"] assms(1) by simp
qed

lemma divRoundDown_nat: "divRoundDown (int p) (int SectorSize) = int (p div SectorSize)"
  by (simp add: divRoundDown_nonneg SectorSize_def zdiv_int)

lemma buf_part_segment:
  assumes "q \<le> p" "p + n \<le> q + w" "q + w \<le> length xs"
  shows "buf_part (take w (drop q xs)) (int p - int q) (int n) = Inr (take n (drop p xs))"
proof -
  have "take n (drop (p - q) (take w (drop q xs))) = take n (drop p xs)"
    using assms by (simp add: drop_take take_take min_def)
  moreover have "nat (int p - int q) = p - q" using assms(1) by simp
  ultimately show ?thesis using assms by (simp add: buf_part_def of_nat_diff)
qed

lemma ReadAt_in_range:
  assumes ok: "disk_ok sd" "hdr_ok (hdr f)"
    and n: "0 < n" "n \<le> n0" "n = min n0 (nat (numBytes (hdr f)) - p)" and p: "int p < numBytes (hdr f)"
    and i: "is_int32 (int p + int n0)"
  shows "\<exists>sd'. ReadAt (int n0) (int p) f sd = Inr (take n (drop p (file_data sd (hdr f))), sd') \<and>
    disk_ok sd' \<and> sector sd' = sector sd"
proof -
  let ?h = "hdr f" and ?len = "nat (numBytes (hdr f))"
  let ?a = "p div SectorSize" and ?b = "(p + n - 1) div SectorSize"
  note len = numBytes_le [OF ok(2)]
  have pn: "p + n \<le> ?len" using n p by linarith
  note r = request_range [OF n(1) pn len]
  have small: "numBytes ?h \<le> 3840" using file_sectors_facts(5) [OF ok(2)] .
  have "clip (int n0) (int p) (numBytes ?h) = int n"
    using i n p small by (auto simp: clip_def i32_id is_int32_def)
  moreover have "i32 (int p + int n - 1) = int (p + n - 1)"
    using n(1) pn small by (simp add: i32_id is_int32_def of_nat_diff)
  moreover obtain sd' where "read_loop [int ?a..int (?a + (Suc ?b - ?a)) - 1] ?h sd =
      Inr (take ((Suc ?b - ?a) * SectorSize) (drop (?a * SectorSize) (file_data sd ?h)), sd')"
      "disk_ok sd'" "sector sd' = sector sd"
    using read_loop_ok [OF ok, of ?a "Suc ?b - ?a"] r by auto
  moreover have "int (?a + (Suc ?b - ?a)) - 1 = int ?b" using r by simp
  moreover have "buf_part (take ((Suc ?b - ?a) * SectorSize) (drop (?a * SectorSize) (file_data sd ?h)))
      (int p - int (?a * SectorSize)) (int n) = Inr (take n (drop p (file_data sd ?h)))"
  proof (rule buf_part_segment [OF r(3)])
    show "p + n \<le> ?a * SectorSize + (Suc ?b - ?a) * SectorSize" unfolding r(7) by (rule r(6))
    show "?a * SectorSize + (Suc ?b - ?a) * SectorSize \<le> length (file_data sd ?h)"
      unfolding r(7) length_file_data [OF ok] by (rule r(8))
  qed
  moreover have "0 < n0" "\<not> 1 + int ?b - int ?a < 0" using n(1,2) r(1) by auto
  ultimately show ?thesis using p
    by (simp add: ReadAt_def Let_def FileLength_def divRoundDown_nat del: of_nat_diff)
qed

text \<open>
  \<open>ReadAt\<close> reads the requested segment of the file, cut at its end.  The hypothesis on
  \<open>p + n\<close> says that the addition in the code does not overflow.
\<close>

lemma ReadAt_correct:
  assumes ok: "disk_ok sd" "hdr_ok (hdr f)" and i: "is_int32 (int p + int n)"
  shows "\<exists>sd'. ReadAt (int n) (int p) f sd = Inr (take n (drop p (file_bytes sd (hdr f))), sd') \<and>
    disk_ok sd' \<and> sector sd' = sector sd"
proof (cases "n = 0 \<or> int p \<ge> numBytes (hdr f)")
  case True
  then have "take n (drop p (file_bytes sd (hdr f))) = []" using length_file_bytes [OF ok] by auto
  then show ?thesis using True ok by (auto simp: ReadAt_def FileLength_def Let_def)
next
  case False
  let ?n = "min n (nat (numBytes (hdr f)) - p)"
  have "\<exists>sd'. ReadAt (int n) (int p) f sd = Inr (take ?n (drop p (file_data sd (hdr f))), sd') \<and>
    disk_ok sd' \<and> sector sd' = sector sd"
    by (rule ReadAt_in_range [OF ok _ _ refl _ i]) (use False in auto)
  moreover have "take ?n (drop p (file_data sd (hdr f))) = take n (drop p (file_bytes sd (hdr f)))"
    by (simp add: file_bytes_def drop_take)
  ultimately show ?thesis by simp
qed

section \<open>Writing\<close>

lemma one_sector_written:
  assumes ok: "disk_ok sd" "hdr_ok h" "j < nat (numSectors h)" "length bs = SectorSize"
  shows "\<exists>sd'. WriteSector (file_sectors h ! j) bs sd = Inr sd' \<and> disk_ok sd' \<and>
    file_data sd' h = overwrite (j * SectorSize) bs (file_data sd h) \<and>
    (\<forall>t. 0 \<le> t \<and> t < NumSectors \<and> t \<notin> set (file_sectors h) \<longrightarrow> sector sd' t = sector sd t)"
proof -
  note fs = file_sectors_facts [OF ok(2)]
  have in_fs: "file_sectors h ! j \<in> set (file_sectors h)" using ok(3) fs(1) by simp
  obtain sd' where sd': "WriteSector (file_sectors h ! j) bs sd = Inr sd'" "disk_ok sd'"
    "sector sd' (file_sectors h ! j) = bs"
    "\<forall>t. 0 \<le> t \<and> t < NumSectors \<and> t \<noteq> file_sectors h ! j \<longrightarrow> sector sd' t = sector sd t"
    using WriteSector_ok [OF ok(1) sector_lengths(2,3) [OF ok(1,2) in_fs] ok(4)] by blast
  have "map (sector sd') (file_sectors h) = (map (sector sd) (file_sectors h))[j := bs]"
  proof (rule nth_equalityI)
    fix i assume i: "i < length (map (sector sd') (file_sectors h))"
    then have "file_sectors h ! i \<in> {0..<NumSectors}" using fs(3) nth_mem [of i "file_sectors h"] by (auto simp del: nth_mem)
    then show "map (sector sd') (file_sectors h) ! i = (map (sector sd) (file_sectors h))[j := bs] ! i"
      using i sd' ok(3) fs(1,2) by (cases "i = j") (auto simp: nth_eq_iff_index_eq)
  qed simp
  then have "file_data sd' h = overwrite (j * SectorSize) bs (file_data sd h)"
    unfolding file_data_def using concat_list_update [of "map (sector sd) (file_sectors h)" SectorSize j bs]
      sector_lengths(1) [OF ok(1,2)] ok(3,4) fs(1) by auto
  then show ?thesis using sd' in_fs by auto
qed

lemma write_loop_ok:
  assumes "disk_ok sd" "hdr_ok h" "j + k \<le> nat (numSectors h)" "(m + k) * SectorSize \<le> length buf"
  shows "\<exists>sd'. write_loop [int j..int (j + k) - 1] m buf h sd = Inr sd' \<and> disk_ok sd' \<and>
    file_data sd' h = overwrite (j * SectorSize) (take (k * SectorSize) (drop (m * SectorSize) buf)) (file_data sd h) \<and>
    (\<forall>t. 0 \<le> t \<and> t < NumSectors \<and> t \<notin> set (file_sectors h) \<longrightarrow> sector sd' t = sector sd t)"
  using assms
proof (induction k arbitrary: j m sd)
  case 0 then show ?case by simp
next
  case (Suc k)
  then have j: "j < nat (numSectors h)" by simp
  have lens: "length (slot SectorSize buf m) = SectorSize" "(Suc m + k) * SectorSize \<le> length buf"
    using Suc.prems(4) by (simp_all add: slot_def add_mult_distrib)
  obtain sd1 where sd1: "WriteSector (file_sectors h ! j) (slot SectorSize buf m) sd = Inr sd1" "disk_ok sd1"
    "file_data sd1 h = overwrite (j * SectorSize) (slot SectorSize buf m) (file_data sd h)"
    "\<forall>t. 0 \<le> t \<and> t < NumSectors \<and> t \<notin> set (file_sectors h) \<longrightarrow> sector sd1 t = sector sd t"
    using one_sector_written [OF Suc.prems(1,2) j lens(1)] by blast
  let ?rest = "take (k * SectorSize) (drop (Suc m * SectorSize) buf)"
  obtain sd2 where sd2: "write_loop [int (Suc j)..int (Suc j + k) - 1] (Suc m) buf h sd1 = Inr sd2" "disk_ok sd2"
    "file_data sd2 h = overwrite (Suc j * SectorSize) ?rest (file_data sd1 h)"
    "\<forall>t. 0 \<le> t \<and> t < NumSectors \<and> t \<notin> set (file_sectors h) \<longrightarrow> sector sd2 t = sector sd1 t"
    using Suc.IH [OF sd1(2) Suc.prems(2) _ lens(2), of "Suc j"] Suc.prems(3) by auto
  have "[int j..int (j + Suc k) - 1] = int j # [int (Suc j)..int (Suc j + k) - 1]"
    by (subst upto_rec1) (simp_all add: add.commute)
  then have w: "write_loop [int j..int (j + Suc k) - 1] m buf h sd = Inr sd2"
    using sd1(1) sd2(1) ByteToSector_ok [OF Suc.prems(2) j] by simp
  have "length (file_data sd h) = nat (numSectors h) * SectorSize"
    using length_file_data Suc.prems by blast
  moreover have "(j + Suc k) * SectorSize \<le> nat (numSectors h) * SectorSize"
    using Suc.prems(3) by (rule mult_le_mono1)
  ultimately have fit: "j * SectorSize + length (slot SectorSize buf m) + length ?rest \<le> length (file_data sd h)"
    using lens(1) by (simp add: algebra_simps)
  have "file_data sd2 h = overwrite (j * SectorSize) (slot SectorSize buf m @ ?rest) (file_data sd h)"
    using overwrite_append [OF fit] sd2(3) sd1(3) lens(1) by (simp add: add.commute)
  then show ?case using w sd2(2,4) sd1(4) slot_split [of k SectorSize m buf] by auto
qed

text \<open>
  One of the two partial reads of \<open>WriteAt\<close>: sector \<open>q\<close> of the file is read into slot \<open>m\<close> of the
  buffer when \<open>c\<close> holds.
\<close>

lemma load_part:
  assumes ok: "disk_ok sd" "hdr_ok (hdr f)" and m: "m * SectorSize + SectorSize \<le> length buf"
    and q: "q \<le> 30"
  shows "\<exists>buf' sd'. read_partial c (int q) buf (int m * int SectorSize) f sd = Inr (buf', sd') \<and> disk_ok sd' \<and> sector sd' = sector sd \<and>
     length buf' = length buf \<and> (\<forall>j < length buf. buf' ! j =
       (if c \<and> m * SectorSize \<le> j \<and> j < m * SectorSize + SectorSize \<and>
           q * SectorSize + (j - m * SectorSize) < nat (numBytes (hdr f))
        then file_bytes sd (hdr f) ! (q * SectorSize + (j - m * SectorSize)) else buf ! j))"
proof (cases c)
  case False then show ?thesis using ok by (simp add: read_partial_def)
next
  case True
  let ?bs = "take SectorSize (drop (q * SectorSize) (file_bytes sd (hdr f)))"
  have "is_int32 (int (q * SectorSize) + int SectorSize)" using q by (simp add: is_int32_def SectorSize_def)
  then obtain sd1 where sd1: "ReadAt (int SectorSize) (int (q * SectorSize)) f sd = Inr (?bs, sd1)"
    "disk_ok sd1" "sector sd1 = sector sd" using ReadAt_correct [OF ok] by blast
  let ?b = "overwrite (m * SectorSize) ?bs buf"
  have fit: "m * SectorSize + length ?bs \<le> length buf" using m by simp
  have "int (m * SectorSize) + int (length ?bs) \<le> int (length buf)" using fit by linarith
  then have cp: "buf_copy ?bs buf (int m * int SectorSize) = Inr ?b"
    by (simp add: buf_copy_def nat_mult_distrib)
  have "?b ! j = (if m * SectorSize \<le> j \<and> j < m * SectorSize + SectorSize \<and>
           q * SectorSize + (j - m * SectorSize) < nat (numBytes (hdr f))
        then file_bytes sd (hdr f) ! (q * SectorSize + (j - m * SectorSize)) else buf ! j)"
    if "j < length buf" for j
    using nth_overwrite [OF fit that] length_file_bytes [OF ok] by auto
  then show ?thesis using True sd1 cp fit by (simp add: read_partial_def)
qed

text \<open>The bytes of the buffer that the caller's data does not replace are those of the file.\<close>

lemma buffer_filled:
  fixes p n len a b :: nat
  assumes r: "a * SectorSize \<le> p" "p < a * SectorSize + SectorSize" "b * SectorSize < p + n"
      "p + n \<le> Suc b * SectorSize" "a \<le> b"
    and b1: "\<forall>j < L. buf1 ! j = (if p \<noteq> a * SectorSize \<and> 0 * SectorSize \<le> j \<and> j < 0 * SectorSize + SectorSize \<and>
        a * SectorSize + (j - 0 * SectorSize) < len then fb ! (a * SectorSize + (j - 0 * SectorSize)) else buf0 ! j)"
    and b2: "\<forall>j < L. buf2 ! j = (if (p + n \<noteq> Suc b * SectorSize \<and> (a \<noteq> b \<or> p = a * SectorSize)) \<and>
        (b - a) * SectorSize \<le> j \<and> j < (b - a) * SectorSize + SectorSize \<and>
        b * SectorSize + (j - (b - a) * SectorSize) < len
        then fb ! (b * SectorSize + (j - (b - a) * SectorSize)) else buf1 ! j)"
    and L: "L = (Suc b - a) * SectorSize"
    and k: "a * SectorSize \<le> k" "k < Suc b * SectorSize" "k < len" "k < p \<or> p + n \<le> k"
  shows "buf2 ! (k - a * SectorSize) = fb ! k"
proof -
  let ?j = "k - a * SectorSize"
  have ab: "b * SectorSize = a * SectorSize + (b - a) * SectorSize"
    using r(5) by (simp flip: add_mult_distrib)
  have L2: "L = (b - a) * SectorSize + SectorSize" using L r(5) by (simp add: Suc_diff_le)
  have j: "?j < L" using k(1,2) ab L2 by simp
  have eq: "(b - a) * SectorSize \<le> ?j \<Longrightarrow> b * SectorSize + (?j - (b - a) * SectorSize) = k"
    using k(1) ab by simp
  show ?thesis
  proof (cases "(p + n \<noteq> Suc b * SectorSize \<and> (a \<noteq> b \<or> p = a * SectorSize)) \<and> (b - a) * SectorSize \<le> ?j")
    case True
    then show ?thesis using b2 [rule_format, OF j] eq k(3) j L2 by simp
  next
    case False
    have b21: "buf2 ! ?j = buf1 ! ?j" using b2 [rule_format, OF j] False by auto
    have "p \<noteq> a * SectorSize \<and> ?j < SectorSize"
    proof (cases "k < p")
      case True then show ?thesis using k(1) r(2) by linarith
    next
      case ge: False
      then have "p + n \<le> k" using k(4) by simp
      then have "p + n \<noteq> Suc b * SectorSize" "(b - a) * SectorSize \<le> ?j"
        using k(2) r(3) ab by linarith+
      then have "a = b" "p \<noteq> a * SectorSize" using False by auto
      then show ?thesis using k(1,2) by simp
    qed
    then show ?thesis using b1 [rule_format, OF j] b21 k(1,3) by simp
  qed
qed

lemma segment_replaced:
  fixes p n len :: nat
  assumes d: "length xs = len" "p + n \<le> len" "length part = n" "a \<le> p" "p + n \<le> e" "e \<le> length ys"
      "len \<le> length ys" "take len ys = xs"
    and b: "length buf = e - a" "\<And>k. a \<le> k \<Longrightarrow> k < e \<Longrightarrow> k < len \<Longrightarrow> k < p \<or> p + n \<le> k \<Longrightarrow> buf ! (k - a) = xs ! k"
  shows "take len (overwrite a (overwrite (p - a) part buf) ys) = overwrite p part xs"
proof (rule nth_equalityI)
  have fit: "p - a + length part \<le> length buf" using d b(1) by simp
  have fit2: "a + length (overwrite (p - a) part buf) \<le> length ys" using d b(1) length_overwrite [OF fit] by simp
  show "length (take len (overwrite a (overwrite (p - a) part buf) ys)) = length (overwrite p part xs)"
    using d length_overwrite [OF fit2] by simp
  fix k assume "k < length (take len (overwrite a (overwrite (p - a) part buf) ys))"
  then have k: "k < len" using length_overwrite [OF fit2] by simp
  have xk: "ys ! k = xs ! k" using d(8) k by (metis nth_take)
  have "overwrite a (overwrite (p - a) part buf) ys ! k =
      (if a \<le> k \<and> k < e then overwrite (p - a) part buf ! (k - a) else ys ! k)"
    using nth_overwrite [OF fit2, of k] k d b(1) length_overwrite [OF fit] by auto
  moreover have "overwrite (p - a) part buf ! (k - a) = (if p \<le> k \<and> k < p + n then part ! (k - p) else xs ! k)"
    if "a \<le> k" "k < e"
    using nth_overwrite [OF fit, of "k - a"] that k d b by auto
  moreover have "overwrite p part xs ! k = (if p \<le> k \<and> k < p + n then part ! (k - p) else xs ! k)"
    using nth_overwrite [of p part xs k] d k by simp
  ultimately show "take len (overwrite a (overwrite (p - a) part buf) ys) ! k = overwrite p part xs ! k"
    using k d xk by auto
qed

text \<open>
  \<open>WriteAt\<close> up to the loop that writes the sectors back: the buffer holds the requested data
  and, around it, what the file held.
\<close>

lemma WriteAt_prepared:
  fixes n n0 p :: nat
  assumes ok: "disk_ok sd" "hdr_ok (hdr f)"
    and n: "0 < n" "n \<le> n0" "n = min n0 (nat (numBytes (hdr f)) - p)" and p: "int p < numBytes (hdr f)"
    and i: "is_int32 (int p + int n0)" and fr: "n0 \<le> length from"
  defines "a \<equiv> p div SectorSize" and "b \<equiv> (p + n - 1) div SectorSize"
  shows "\<exists>buf2 sd2. disk_ok sd2 \<and> sector sd2 = sector sd \<and> length buf2 = (Suc b - a) * SectorSize \<and>
    (\<forall>k. a * SectorSize \<le> k \<and> k < Suc b * SectorSize \<and> k < nat (numBytes (hdr f)) \<and> (k < p \<or> p + n \<le> k) \<longrightarrow>
       buf2 ! (k - a * SectorSize) = file_bytes sd (hdr f) ! k) \<and>
    WriteAt from (int n0) (int p) f sd =
      rbind (write_loop [int a..int b] 0 (overwrite (p - a * SectorSize) (take n from) buf2) (hdr f) sd2)
        (\<lambda>sd3. Inr (int n, sd3))"
proof -
  let ?h = "hdr f" and ?len = "nat (numBytes (hdr f))" and ?SS = "int SectorSize"
  let ?L = "(Suc b - a) * SectorSize"
  have pn: "p + n \<le> ?len" using n p by linarith
  note r = request_range [OF n(1) pn numBytes_le [OF ok(2)], folded a_def b_def]
  have small: "numBytes ?h \<le> 3840" using file_sectors_facts(5) [OF ok(2)] .
  have b30: "a \<le> 30" "b \<le> 30" using r(1,2) ok(2) by (auto simp: hdr_ok_def NumDirect_def SectorSize_def)
  have c: "clip (int n0) (int p) (numBytes ?h) = int n"
    using i n p small by (auto simp: clip_def i32_id is_int32_def)
  have e: "i32 (int p + int n - 1) = int (p + n - 1)" "i32 (int p + int n) = int (p + n)"
    using n(1) pn small by (simp_all add: i32_id is_int32_def of_nat_diff)
  let ?fa = "int p = int a * ?SS" and ?la = "int (p + n) = (int b + 1) * ?SS"
  have fa: "?fa \<longleftrightarrow> p = a * SectorSize" by (metis of_nat_eq_iff of_nat_mult)
  have la: "?la \<longleftrightarrow> p + n = Suc b * SectorSize" by (metis of_nat_Suc of_nat_eq_iff of_nat_mult add.commute)
  let ?buf0 = "fresh (nat ((1 + int b - int a) * ?SS)) sd"
  have L: "(1 + int b - int a) * ?SS = int ?L" using r(1) by (simp add: of_nat_diff)
  have l0: "length ?buf0 = ?L" unfolding L fresh_def nat_int by simp
  have LS: "0 * SectorSize + SectorSize \<le> ?L" "(b - a) * SectorSize + SectorSize \<le> ?L"
    using r(1) by (simp_all add: Suc_diff_le)
  obtain buf1 sd1 where 1: "read_partial (\<not> ?fa) (int a) ?buf0 (int 0 * ?SS) f sd = Inr (buf1, sd1)"
     "disk_ok sd1" "sector sd1 = sector sd" "length buf1 = ?L"
     "\<forall>j < ?L. buf1 ! j = (if \<not> ?fa \<and> 0 * SectorSize \<le> j \<and> j < 0 * SectorSize + SectorSize \<and>
           a * SectorSize + (j - 0 * SectorSize) < ?len
        then file_bytes sd ?h ! (a * SectorSize + (j - 0 * SectorSize)) else ?buf0 ! j)"
    using load_part [OF ok, of 0 ?buf0 a "\<not> ?fa"] LS(1) b30(1) unfolding l0 by blast
  let ?c2 = "\<not> ?la \<and> (int a \<noteq> int b \<or> ?fa)"
  obtain buf2 sd2 where 2: "read_partial ?c2 (int b) buf1 (int (b - a) * ?SS) f sd1 = Inr (buf2, sd2)"
     "disk_ok sd2" "sector sd2 = sector sd1" "length buf2 = ?L"
     "\<forall>j < ?L. buf2 ! j = (if ?c2 \<and> (b - a) * SectorSize \<le> j \<and> j < (b - a) * SectorSize + SectorSize \<and>
           b * SectorSize + (j - (b - a) * SectorSize) < ?len
        then file_bytes sd1 ?h ! (b * SectorSize + (j - (b - a) * SectorSize)) else buf1 ! j)"
    using load_part [OF 1(2) ok(2), of "b - a" buf1 b ?c2] LS(2) b30(2) unfolding 1(4) by blast
  have d: "file_bytes sd1 ?h = file_bytes sd ?h" using sector_cong 1(3) by metis
  have filled: "buf2 ! (k - a * SectorSize) = file_bytes sd ?h ! k"
    if "a * SectorSize \<le> k" "k < Suc b * SectorSize" "k < ?len" "k < p \<or> p + n \<le> k" for k
    by (rule buffer_filled [OF r(3,4,5,6,1) 1(5) [unfolded fa] 2(5) [unfolded fa la d of_nat_eq_iff] refl that])
  have lp: "length (take n from) = n" "buf_part from 0 (int n) = Inr (take n from)"
    using n(2) fr by (simp_all add: buf_part_def)
  have fit: "p - a * SectorSize + length (take n from) \<le> length buf2" using r(3,6,7) lp(1) 2(4) by linarith
  have off: "int p - int a * ?SS = int (p - a * SectorSize)" using r(3) by (simp only: of_nat_diff of_nat_mult)
  have cp: "buf_copy (take n from) buf2 (int p - int a * ?SS) = Inr (overwrite (p - a * SectorSize) (take n from) buf2)"
    unfolding off buf_copy_def nat_int of_nat_add [symmetric] of_nat_le_iff using fit
    by (simp only: of_nat_0_le_iff simp_thms if_True)
  have ba: "(int b - int a) * ?SS = int (b - a) * ?SS" using r(1) by (simp add: of_nat_diff)
  have "\<not> (int n0 \<le> 0 \<or> numBytes ?h \<le> int p)" "\<not> 1 + int b - int a < 0" using n(1,2) p r(1) by auto
  then have "WriteAt from (int n0) (int p) f sd =
      rbind (write_loop [int a..int b] 0 (overwrite (p - a * SectorSize) (take n from) buf2) ?h sd2)
        (\<lambda>sd3. Inr (int n, sd3))"
    by (simp only: WriteAt_def Let_def FileLength_def c e divRoundDown_nat a_def [symmetric] b_def [symmetric] ba
        if_False rbind_simps prod.case 1(1) [unfolded semiring_1_class.of_nat_0 mult_zero_left] 2(1) lp(2) cp)
  then show ?thesis using 1(3) 2(2,3,4) filled by (intro exI [of _ buf2] exI [of _ sd2]) auto
qed

lemma WriteAt_in_range:
  assumes ok: "disk_ok sd" "hdr_ok (hdr f)"
    and n: "0 < n" "n \<le> n0" "n = min n0 (nat (numBytes (hdr f)) - p)" and p: "int p < numBytes (hdr f)"
    and i: "is_int32 (int p + int n0)" and fr: "n0 \<le> length from"
  shows "\<exists>sd'. WriteAt from (int n0) (int p) f sd = Inr (int n, sd') \<and> disk_ok sd' \<and>
    file_bytes sd' (hdr f) = overwrite p (take n from) (file_bytes sd (hdr f)) \<and>
    (\<forall>t. 0 \<le> t \<and> t < NumSectors \<and> t \<notin> set (file_sectors (hdr f)) \<longrightarrow> sector sd' t = sector sd t)"
proof -
  let ?h = "hdr f" and ?len = "nat (numBytes (hdr f))"
  let ?a = "p div SectorSize" and ?b = "(p + n - 1) div SectorSize"
  have pn: "p + n \<le> ?len" using n p by linarith
  note r = request_range [OF n(1) pn numBytes_le [OF ok(2)]]
  obtain buf2 sd2 where 2: "disk_ok sd2" "sector sd2 = sector sd" "length buf2 = (Suc ?b - ?a) * SectorSize"
    "\<And>k. ?a * SectorSize \<le> k \<Longrightarrow> k < Suc ?b * SectorSize \<Longrightarrow> k < ?len \<Longrightarrow> k < p \<or> p + n \<le> k \<Longrightarrow>
       buf2 ! (k - ?a * SectorSize) = file_bytes sd ?h ! k"
    "WriteAt from (int n0) (int p) f sd =
      rbind (write_loop [int ?a..int ?b] 0 (overwrite (p - ?a * SectorSize) (take n from) buf2) ?h sd2)
        (\<lambda>sd3. Inr (int n, sd3))"
    using WriteAt_prepared [OF assms] by blast
  let ?buf3 = "overwrite (p - ?a * SectorSize) (take n from) buf2"
  have lp: "length (take n from) = n" using n(2) fr by simp
  have "p - ?a * SectorSize + length (take n from) \<le> length buf2" using r(3,6,7) lp 2(3) by linarith
  then have l3: "length ?buf3 = (Suc ?b - ?a) * SectorSize" using 2(3) by simp
  have ab: "int (?a + (Suc ?b - ?a)) - 1 = int ?b" using r(1) by simp
  obtain sd3 where 3: "write_loop [int ?a..int (?a + (Suc ?b - ?a)) - 1] 0 ?buf3 ?h sd2 = Inr sd3" "disk_ok sd3"
    "file_data sd3 ?h = overwrite (?a * SectorSize) (take ((Suc ?b - ?a) * SectorSize) (drop (0 * SectorSize) ?buf3)) (file_data sd2 ?h)"
    "\<forall>t. 0 \<le> t \<and> t < NumSectors \<and> t \<notin> set (file_sectors ?h) \<longrightarrow> sector sd3 t = sector sd2 t"
    using write_loop_ok [OF 2(1) ok(2), of ?a "Suc ?b - ?a" 0 ?buf3] r(1,2) l3 by auto
  have "file_data sd3 ?h = overwrite (?a * SectorSize) ?buf3 (file_data sd ?h)"
    using 3(3) l3 sector_cong [OF 2(2)] by simp
  moreover have "take ?len (overwrite (?a * SectorSize) ?buf3 (file_data sd ?h)) = overwrite p (take n from) (file_bytes sd ?h)"
  proof (rule segment_replaced [OF length_file_bytes [OF ok] pn lp r(3,6) _ _ _ _ 2(4)])
    show "Suc ?b * SectorSize \<le> length (file_data sd ?h)" using r(8) length_file_data [OF ok] by simp
    show "?len \<le> length (file_data sd ?h)" using numBytes_le [OF ok(2)] length_file_data [OF ok] by simp
    show "take ?len (file_data sd ?h) = file_bytes sd ?h" by (simp add: file_bytes_def)
    show "length buf2 = Suc ?b * SectorSize - ?a * SectorSize" using 2(3) by (simp add: diff_mult_distrib)
  qed
  ultimately have "file_bytes sd3 ?h = overwrite p (take n from) (file_bytes sd ?h)" by (simp add: file_bytes_def)
  then show ?thesis using 2(2,5) 3(1) [unfolded ab] 3(2,4) by auto
qed

text \<open>
  \<open>WriteAt\<close> overwrites the requested segment of the file, cut at its end, and touches no sector
  of another file; the number of bytes written is returned.
\<close>

lemma WriteAt_correct:
  assumes ok: "disk_ok sd" "hdr_ok (hdr f)" and i: "is_int32 (int p + int n)" and fr: "n \<le> length from"
  shows "\<exists>k sd'. WriteAt from (int n) (int p) f sd = Inr (int k, sd') \<and>
    k = min n (nat (numBytes (hdr f)) - p) \<and> disk_ok sd' \<and>
    file_bytes sd' (hdr f) = overwrite p (take k from) (file_bytes sd (hdr f)) \<and>
    (\<forall>t. 0 \<le> t \<and> t < NumSectors \<and> t \<notin> set (file_sectors (hdr f)) \<longrightarrow> sector sd' t = sector sd t)"
proof (cases "n = 0 \<or> int p \<ge> numBytes (hdr f)")
  case True
  then have "min n (nat (numBytes (hdr f)) - p) = 0" by auto
  then show ?thesis using True ok by (auto simp: WriteAt_def FileLength_def Let_def)
next
  case False
  show ?thesis
    using WriteAt_in_range [OF ok _ _ refl _ i fr] False by auto
qed

section \<open>Headers on disk\<close>

definition hdr_int32 :: "FileHeader \<Rightarrow> bool" where
  "hdr_int32 h \<longleftrightarrow> length (dataSectors h) = NumDirect \<and> is_int32 (numBytes h) \<and> is_int32 (numSectors h) \<and>
     (\<forall>s \<in> set (dataSectors h). is_int32 s)"

lemma length_hdr_bytes: "length (dataSectors h) = NumDirect \<Longrightarrow> length (hdr_bytes h) = SectorSize"
  unfolding hdr_bytes_def by (subst length_concat_const [where n = 4]) (auto simp: NumDirect_def SectorSize_def)

lemma hdr_roundtrip:
  assumes "hdr_int32 h" shows "hdr_of_bytes (hdr_bytes h) = h"
proof -
  let ?xs = "numBytes h # numSectors h # dataSectors h"
  have len: "length ?xs = NumDirect + 2" using assms by (simp add: hdr_int32_def)
  have nth: "bytes_to_int (slot 4 (hdr_bytes h) i) = ?xs ! i" if "i < NumDirect + 2" for i
  proof -
    have "slot 4 (hdr_bytes h) i = int_to_bytes (?xs ! i)"
      using slot_concat_map [of ?xs int_to_bytes 4 i "[]"] that len by (simp add: hdr_bytes_def)
    moreover have "?xs ! i \<in> set ?xs" using that len by (intro nth_mem) simp
    then have "is_int32 (?xs ! i)" using assms by (auto simp: hdr_int32_def)
    ultimately show ?thesis by simp
  qed
  have "map (\<lambda>i. bytes_to_int (slot 4 (hdr_bytes h) (i + 2))) [0..<NumDirect] = dataSectors h"
    by (rule nth_equalityI) (use nth assms in \<open>auto simp: hdr_int32_def\<close>)
  then show ?thesis using nth [of 0] nth [of 1] by (simp add: hdr_of_bytes_def)
qed

lemma Hdr_WriteBack_FetchFrom:
  assumes "disk_ok sd" "0 \<le> s" "s < NumSectors" "hdr_int32 h"
  shows "\<exists>sd1 sd2. Hdr_WriteBack s h sd = Inr sd1 \<and> Hdr_FetchFrom s sd1 = Inr (h, sd2)"
proof -
  have "length (hdr_bytes h) = SectorSize" using assms(4) by (simp add: hdr_int32_def length_hdr_bytes)
  from sd.wr_rd [OF assms(1-3) this] show ?thesis
    using hdr_roundtrip [OF assms(4)] by (auto simp: Hdr_WriteBack_def Hdr_FetchFrom_def)
qed

section \<open>Allocation\<close>

lemma alloc_loop_find_n:
  assumes "find_n Find n fm = Inr (ss, fm')" "i + n \<le> length (dataSectors h)"
  shows "alloc_loop [int i..int (i + n) - 1] h fm = Inr (h\<lparr>dataSectors := overwrite i ss (dataSectors h)\<rparr>, fm')"
  using assms
proof (induction n arbitrary: i h fm ss)
  case 0 then show ?case by simp
next
  case (Suc n)
  obtain s fm1 ss1 where 1: "Find fm = Inr (s, fm1)" "find_n Find n fm1 = Inr (ss1, fm')" "ss = s # ss1"
    using Suc.prems(1) by (auto simp: rbind_eq_Inr_iff)
  have upto: "[int i..int (i + Suc n) - 1] = int i # [int (Suc i)..int (Suc i + n) - 1]"
    by (subst upto_rec1) (simp_all add: add.commute)
  have "array_set (dataSectors h) (int i) s = Inr ((dataSectors h)[i := s])" using Suc.prems(2) by simp
  then have "alloc_loop [int i..int (i + Suc n) - 1] h fm =
      alloc_loop [int (Suc i)..int (Suc i + n) - 1] (h\<lparr>dataSectors := (dataSectors h)[i := s]\<rparr>) fm1"
    unfolding upto using 1(1) by simp
  also have "\<dots> = Inr (h\<lparr>dataSectors := overwrite (Suc i) ss1 ((dataSectors h)[i := s])\<rparr>, fm')"
    using Suc.IH [OF 1(2), of "Suc i" "h\<lparr>dataSectors := (dataSectors h)[i := s]\<rparr>"] Suc.prems(2) by simp
  also have "overwrite (Suc i) ss1 ((dataSectors h)[i := s]) = overwrite i ss (dataSectors h)"
    using Suc.prems(2) 1(3) by (simp add: overwrite_def take_Suc_conv_app_nth list_update_append)
  finally show ?case .
qed

lemma alloc_loop_append:
  "alloc_loop (is @ js) h fm = rbind (alloc_loop is h fm) (\<lambda>(h1, fm1). alloc_loop js h1 fm1)"
proof (induction "is" arbitrary: h fm)
  case Nil then show ?case by simp
next
  case (Cons i "is")
  then show ?case by (auto simp: rbind_def split: sum.split)
qed

definition sectors_needed :: "int \<Rightarrow> int" where
  "sectors_needed sz = divRoundUp sz (int SectorSize)"

definition free_sectors :: "BitMap \<Rightarrow> int" where
  "free_sectors fm = int (card ({0..<NumSectors} - used fm))"

lemma sectors_needed_bounds:
  "0 \<le> sz \<Longrightarrow> sz \<le> sectors_needed sz * int SectorSize \<and> 0 \<le> sectors_needed sz"
  unfolding sectors_needed_def using divRoundUp_bounds [of sz "int SectorSize"] by (simp add: SectorSize_def)

lemma Allocate_unfold:
  assumes "bitmap_ok fm" "numBits fm = NumSectors"
  shows "Allocate fm sz h = (let h1 = h\<lparr>numBytes := sz, numSectors := sectors_needed sz\<rparr> in
     if free_sectors fm < sectors_needed sz then Inr (False, h1, fm)
     else rbind (alloc_loop [0..sectors_needed sz - 1] h1 fm) (\<lambda>(h2, fm). Inr (True, h2, fm)))"
  using assms by (simp add: Allocate_def Let_def sectors_needed_def free_sectors_def bm.num_clear_law)

lemma find_sectors:
  assumes "bitmap_ok fm" "numBits fm = NumSectors" "int n \<le> free_sectors fm"
  shows "\<exists>ss fm'. find_n Find n fm = Inr (ss, fm') \<and> length ss = n \<and> distinct ss \<and>
      set ss \<subseteq> {0..<NumSectors} - used fm \<and> bitmap_ok fm' \<and> numBits fm' = NumSectors \<and> used fm' = used fm \<union> set ss"
  using bm.find_n_law [OF assms(1), of n] assms(2,3) by (simp add: free_sectors_def)

text \<open>There is room, and the header can hold the sector numbers: the file gets fresh sectors.\<close>

lemma Allocate_ok:
  assumes fm: "bitmap_ok fm" "numBits fm = NumSectors" and sz: "0 \<le> sz" and h: "length (dataSectors h) = NumDirect"
    and room: "sectors_needed sz \<le> free_sectors fm" "sectors_needed sz \<le> int NumDirect"
  shows "\<exists>h' fm'. Allocate fm sz h = Inr (True, h', fm') \<and>
       hdr_ok h' \<and> numBytes h' = sz \<and> set (dataSectors h') \<subseteq> set (dataSectors h) \<union> {0..<NumSectors} \<and>
       bitmap_ok fm' \<and> numBits fm' = NumSectors \<and>
       set (file_sectors h') \<inter> used fm = {} \<and> used fm' = used fm \<union> set (file_sectors h') \<and> numSectors h' = sectors_needed sz"
proof -
  let ?ns = "sectors_needed sz"
  note ns = sectors_needed_bounds [OF sz]
  obtain ss fm' where ss: "find_n Find (nat ?ns) fm = Inr (ss, fm')" "length ss = nat ?ns" "distinct ss"
    "set ss \<subseteq> {0..<NumSectors} - used fm" "bitmap_ok fm'" "numBits fm' = NumSectors" "used fm' = used fm \<union> set ss"
    using find_sectors [OF fm, of "nat ?ns"] ns room(1) by auto
  let ?h = "h\<lparr>numBytes := sz, numSectors := ?ns\<rparr>"
  let ?h' = "?h\<lparr>dataSectors := overwrite 0 ss (dataSectors h)\<rparr>"
  have "alloc_loop [0..?ns - 1] ?h fm = Inr (?h', fm')"
    using alloc_loop_find_n [OF ss(1), of 0 ?h] room(2) h ns by (simp add: nat_le_iff)
  then have "Allocate fm sz h = Inr (True, ?h', fm')" using Allocate_unfold [OF fm] room(1) by (simp add: Let_def)
  moreover have fs: "file_sectors ?h' = ss" using ss(2) by (simp add: file_sectors_def overwrite_def)
  moreover have "hdr_ok ?h'"
    using fs ss h room(2) sz ns by (auto simp: hdr_ok_def file_sectors_def overwrite_def nat_le_iff)
  moreover have "set (dataSectors ?h') \<subseteq> set (dataSectors h) \<union> {0..<NumSectors}"
    using ss(4) set_drop_subset [of "length ss" "dataSectors h"] by (auto simp: overwrite_def)
  ultimately show ?thesis using ss by (intro exI [of _ ?h'] exI [of _ fm']) auto
qed

text \<open>
  The code only compares with the free sectors: a file of more than \<open>NumDirect\<close> sectors
  makes the loop store outside the array.
\<close>

lemma Allocate_overrun:
  assumes fm: "bitmap_ok fm" "numBits fm = NumSectors" and h: "length (dataSectors h) = NumDirect"
    and room: "sectors_needed sz \<le> free_sectors fm" "int NumDirect < sectors_needed sz"
  shows "Allocate fm sz h = Inl BadIndex"
proof -
  let ?ns = "sectors_needed sz"
  obtain ss fm' where ss: "find_n Find NumDirect fm = Inr (ss, fm')" "length ss = NumDirect" "bitmap_ok fm'"
    using find_sectors [OF fm, of NumDirect] room by auto
  let ?h = "h\<lparr>numBytes := sz, numSectors := ?ns\<rparr>"
  let ?h' = "?h\<lparr>dataSectors := overwrite 0 ss (dataSectors h)\<rparr>"
  have "alloc_loop [0..int NumDirect - 1] ?h fm = Inr (?h', fm')"
    using alloc_loop_find_n [OF ss(1), of 0 ?h] h by simp
  moreover have "[0..?ns - 1] = [0..int NumDirect - 1] @ int NumDirect # [int NumDirect + 1..?ns - 1]"
    using room(2) by (subst upto_split2 [of 0 "int NumDirect"]) (auto simp: upto_rec2)
  moreover have "\<exists>s fm''. Find fm' = Inr (s, fm'')"
    using Find_correct [OF ss(3)] by (cases "used fm' = {0..<numBits fm'}") auto
  moreover have "array_set (dataSectors ?h') (int NumDirect) s = Inl BadIndex" for s
    using ss(2) h by (simp add: array_set_def overwrite_def)
  ultimately have "alloc_loop [0..?ns - 1] ?h fm = Inl BadIndex" by (auto simp: alloc_loop_append)
  then show ?thesis using Allocate_unfold [OF fm] room(1) by (simp add: Let_def)
qed

lemma dealloc_release:
  assumes "\<forall>i \<in> set is. 0 \<le> i \<and> i < int (length (dataSectors h))"
  shows "dealloc_loop is h fm = release_all Test Clear (map (\<lambda>i. dataSectors h ! nat i) is) fm"
  using assms by (induction "is" arbitrary: fm) (auto cong: rbind_cong)

lemma Deallocate_correct:
  assumes "hdr_ok h" "bitmap_ok fm" "set (file_sectors h) \<subseteq> used fm"
  shows "\<exists>fm'. Deallocate h fm = Inr fm' \<and> bitmap_ok fm' \<and> numBits fm' = numBits fm \<and>
    used fm' = used fm - set (file_sectors h)"
proof -
  note fs = file_sectors_facts [OF assms(1)]
  have "map (\<lambda>i. dataSectors h ! nat i) [0..numSectors h - 1] = file_sectors h"
    by (rule nth_equalityI) (use fs in auto)
  then have "Deallocate h fm = release_all Test Clear (file_sectors h) fm"
    unfolding Deallocate_def using assms(1) by (subst dealloc_release) (auto simp: hdr_ok_def)
  then show ?thesis using bm.release_all_law [OF assms(2,3) fs(2)] by simp
qed

end
