(* ===== verification/Nachos_Directory.thy ===== *)
theory Nachos_Directory
  imports Nachos_OpenFile
begin

text \<open>
  \<open>filesys/directory.cc\<close>: the table that maps file names to header sectors, with the C string
  functions it uses and the layout of its entries in the directory file.  A directory is shown to
  be a finite map from names (their first nine characters) to sectors; the interface its
  clients use is the locale \<open>name_table\<close>.
\<close>

section \<open>Names\<close>

definition FileNameMaxLen :: nat where "FileNameMaxLen = 9"

text \<open>
  \<open>!strncmp(a, b, n)\<close> on the memory at \<open>a\<close> and \<open>b\<close>; a name given by a caller is a C string, whose
  terminating zero is written out with \<open>cstr\<close>.
\<close>

fun strncmp_eq :: "nat \<Rightarrow> byte list \<Rightarrow> byte list \<Rightarrow> bool" where
  "strncmp_eq 0 as bs = True"
| "strncmp_eq (Suc n) (a # as) (b # bs) = (a = b \<and> (a = 0 \<or> strncmp_eq n as bs))"
| "strncmp_eq (Suc n) _ _ = False"

definition cstr :: "byte list \<Rightarrow> byte list" where
  "cstr nm = nm @ [0]"

text \<open>\<open>strncpy(dest, src, n)\<close>: at most \<open>n\<close> characters, padded with zeros to \<open>n\<close>; the rest of \<open>dest\<close> stays.\<close>

definition strncpy :: "byte list \<Rightarrow> byte list \<Rightarrow> nat \<Rightarrow> byte list" where
  "strncpy dest nm n = overwrite 0 (take n nm @ replicate (n - length nm) 0) dest"

section \<open>Entries and directories\<close>

text \<open>\<open>pad\<close> holds the five bytes of padding of the object representation (three after \<open>inUse\<close>, two at the end).\<close>

record DirectoryEntry =
  inUse :: bool
  sector_of :: int
  name :: "byte list"
  pad :: "byte list"

definition sizeof_entry :: nat where "sizeof_entry = 20"

definition entry_bytes :: "DirectoryEntry \<Rightarrow> byte list" where
  "entry_bytes e = [if inUse e then 1 else 0] @ take 3 (pad e) @ int_to_bytes (sector_of e) @ name e @ drop 3 (pad e)"

definition entry_of_bytes :: "byte list \<Rightarrow> DirectoryEntry" where
  "entry_of_bytes bs = \<lparr>inUse = (bs ! 0 \<noteq> 0), sector_of = bytes_to_int (take 4 (drop 4 bs)),
     name = take 10 (drop 8 bs), pad = take 3 (drop 1 bs) @ take 2 (drop 18 bs)\<rparr>"

record Directory =
  tableSize :: int
  table :: "DirectoryEntry list"

definition table_bytes :: "DirectoryEntry list \<Rightarrow> byte list" where
  "table_bytes t = concat (map entry_bytes t)"

definition table_of_bytes :: "nat \<Rightarrow> byte list \<Rightarrow> DirectoryEntry list" where
  "table_of_bytes n bs = map (\<lambda>i. entry_of_bytes (slot sizeof_entry bs i)) [0..<n]"

text \<open>\<open>Directory::Directory\<close>: the new table holds whatever was in memory, all entries unused.\<close>

definition Directory_new :: "int \<Rightarrow> SynchDisk \<Rightarrow> Directory" where
  "Directory_new n sd = \<lparr>tableSize = n,
     table = map (\<lambda>e. e\<lparr>inUse := False\<rparr>) (table_of_bytes (nat n) (fresh (nat n * sizeof_entry) sd))\<rparr>"

definition Dir_FetchFrom :: "OpenFile \<Rightarrow> Directory \<Rightarrow> SynchDisk \<Rightarrow> (Directory \<times> SynchDisk) res" where
  "Dir_FetchFrom f d sd = rbind (ReadAt (tableSize d * int sizeof_entry) 0 f sd) (\<lambda>(bs, sd1).
     Inr (d\<lparr>table := table_of_bytes (length (table d)) (overwrite 0 bs (table_bytes (table d)))\<rparr>, sd1))"

definition Dir_WriteBack :: "OpenFile \<Rightarrow> Directory \<Rightarrow> SynchDisk \<Rightarrow> SynchDisk res" where
  "Dir_WriteBack f d sd = rbind (WriteAt (table_bytes (table d)) (tableSize d * int sizeof_entry) 0 f sd)
     (\<lambda>(_, sd1). Inr sd1)"

fun find_index_loop :: "int list \<Rightarrow> byte list \<Rightarrow> Directory \<Rightarrow> int res" where
  "find_index_loop [] nm d = Inr (-1)"
| "find_index_loop (i # is) nm d = rbind (array_get (table d) i) (\<lambda>e.
     if inUse e \<and> strncmp_eq FileNameMaxLen (name e) (cstr nm) then Inr i else find_index_loop is nm d)"

definition FindIndex :: "byte list \<Rightarrow> Directory \<Rightarrow> int res" where
  "FindIndex nm d = find_index_loop [0..tableSize d - 1] nm d"

definition Dir_Find :: "byte list \<Rightarrow> Directory \<Rightarrow> int res" where
  "Dir_Find nm d = rbind (FindIndex nm d) (\<lambda>i.
     if i \<noteq> -1 then rbind (array_get (table d) i) (\<lambda>e. Inr (sector_of e)) else Inr (-1))"

fun add_loop :: "int list \<Rightarrow> byte list \<Rightarrow> int \<Rightarrow> Directory \<Rightarrow> (bool \<times> Directory) res" where
  "add_loop [] nm newSector d = Inr (False, d)"
| "add_loop (i # is) nm newSector d = rbind (array_get (table d) i) (\<lambda>e.
     if \<not> inUse e
     then rbind (array_set (table d) i
            (e\<lparr>inUse := True, name := strncpy (name e) nm FileNameMaxLen, sector_of := newSector\<rparr>))
            (\<lambda>t. Inr (True, d\<lparr>table := t\<rparr>))
     else add_loop is nm newSector d)"

definition Dir_Add :: "byte list \<Rightarrow> int \<Rightarrow> Directory \<Rightarrow> (bool \<times> Directory) res" where
  "Dir_Add nm newSector d = rbind (FindIndex nm d) (\<lambda>i.
     if i \<noteq> -1 then Inr (False, d) else add_loop [0..tableSize d - 1] nm newSector d)"

definition Dir_Remove :: "byte list \<Rightarrow> Directory \<Rightarrow> (bool \<times> Directory) res" where
  "Dir_Remove nm d = rbind (FindIndex nm d) (\<lambda>i.
     if i = -1 then Inr (False, d)
     else rbind (array_get (table d) i) (\<lambda>e.
          rbind (array_set (table d) i (e\<lparr>inUse := False\<rparr>)) (\<lambda>t. Inr (True, d\<lparr>table := t\<rparr>))))"

text \<open>
  \<open>Directory::List\<close> prints each name up to its zero byte; without one the output runs past the
  array.
\<close>

definition printed_name :: "byte list \<Rightarrow> byte list res" where
  "printed_name bs = (if 0 \<in> set bs then Inr (takeWhile (\<lambda>b. b \<noteq> 0) bs) else Inl BadIndex)"

fun list_loop :: "int list \<Rightarrow> Directory \<Rightarrow> byte list list res" where
  "list_loop [] d = Inr []"
| "list_loop (i # is) d = rbind (array_get (table d) i) (\<lambda>e.
     if inUse e then rbind (printed_name (name e)) (\<lambda>n. rbind (list_loop is d) (\<lambda>ns. Inr (n # ns)))
     else list_loop is d)"

definition Dir_List :: "Directory \<Rightarrow> byte list list res" where
  "Dir_List d = list_loop [0..tableSize d - 1] d"

section \<open>A directory is a map from names to sectors\<close>

text \<open>The part of a name that counts.\<close>

definition key_of :: "byte list \<Rightarrow> byte list" where
  "key_of nm = takeWhile (\<lambda>b. b \<noteq> 0) (take FileNameMaxLen nm)"

definition entry_ok :: "DirectoryEntry \<Rightarrow> bool" where
  "entry_ok e \<longleftrightarrow> length (name e) = 10 \<and> length (pad e) = 5 \<and> is_int32 (sector_of e)"

definition keys :: "DirectoryEntry list \<Rightarrow> byte list list" where
  "keys t = map (\<lambda>e. key_of (name e)) (filter inUse t)"

definition dir_ok :: "Directory \<Rightarrow> bool" where
  "dir_ok d \<longleftrightarrow> tableSize d = int (length (table d)) \<and> (\<forall>e \<in> set (table d). entry_ok e) \<and>
     distinct (keys (table d)) \<and> (\<forall>e \<in> set (table d). inUse e \<longrightarrow> 0 \<le> sector_of e)"

definition dir_view :: "Directory \<Rightarrow> byte list \<rightharpoonup> int" where
  "dir_view d = map_of (map (\<lambda>e. (key_of (name e), sector_of e)) (filter inUse (table d)))"

lemma strncmp_key:
  assumes "n \<le> length as" "0 \<notin> set nm"
  shows "strncmp_eq n as (nm @ [0]) \<longleftrightarrow>
    takeWhile (\<lambda>b. b \<noteq> 0) (take n as) = takeWhile (\<lambda>b. b \<noteq> 0) (take n nm)"
  using assms
proof (induction n arbitrary: as nm)
  case 0 then show ?case by simp
next
  case (Suc n)
  then obtain a as' where "as = a # as'" by (cases as) auto
  with Suc show ?case by (cases nm) auto
qed

lemma entry_matches:
  "entry_ok e \<Longrightarrow> 0 \<notin> set nm \<Longrightarrow> strncmp_eq FileNameMaxLen (name e) (cstr nm) \<longleftrightarrow> key_of (name e) = key_of nm"
  by (simp add: cstr_def key_of_def strncmp_key entry_ok_def FileNameMaxLen_def)

lemma key_of_strncpy:
  assumes "length dest = 10" "0 \<notin> set nm"
  shows "key_of (strncpy dest nm FileNameMaxLen) = key_of nm" "length (strncpy dest nm FileNameMaxLen) = 10"
proof -
  have "take 9 (strncpy dest nm 9) = take 9 nm @ replicate (9 - length nm) 0"
    by (simp add: strncpy_def overwrite_def)
  moreover have "takeWhile (\<lambda>b. b \<noteq> 0) (xs @ replicate k 0) = takeWhile (\<lambda>b. b \<noteq> 0) xs" for xs :: "byte list" and k
    by (induction xs) (auto intro: takeWhile_eq_Nil_iff [THEN iffD2] simp: hd_replicate)
  ultimately show "key_of (strncpy dest nm FileNameMaxLen) = key_of nm"
    by (simp add: key_of_def FileNameMaxLen_def)
  show "length (strncpy dest nm FileNameMaxLen) = 10"
    using assms by (simp add: strncpy_def overwrite_def FileNameMaxLen_def)
qed

lemma dir_view_iff:
  assumes "dir_ok d"
  shows "dir_view d k = Some s \<longleftrightarrow> (\<exists>e \<in> set (table d). inUse e \<and> key_of (name e) = k \<and> sector_of e = s)"
proof -
  have "distinct (map fst (map (\<lambda>e. (key_of (name e), sector_of e)) (filter inUse (table d))))"
    using assms by (simp add: dir_ok_def keys_def comp_def)
  from map_of_eq_Some_iff [OF this] show ?thesis unfolding dir_view_def by auto
qed

lemma dir_view_None:
  "dir_ok d \<Longrightarrow> dir_view d k = None \<longleftrightarrow> (\<forall>e \<in> set (table d). inUse e \<longrightarrow> key_of (name e) \<noteq> k)"
  using dir_view_iff [of d k] by (cases "dir_view d k") auto

lemma find_index_loop_find:
  assumes "dir_ok d" "0 \<notin> set nm" "\<forall>i \<in> set is. 0 \<le> i \<and> i < int (length (table d))"
  shows "find_index_loop is nm d = Inr (case find (\<lambda>i. inUse (table d ! nat i) \<and>
     key_of (name (table d ! nat i)) = key_of nm) is of None \<Rightarrow> -1 | Some i \<Rightarrow> i)"
  using assms(3)
proof (induction "is")
  case (Cons i "is")
  have "entry_ok (table d ! nat i)" using assms(1) Cons.prems by (auto simp: dir_ok_def)
  then show ?case using Cons entry_matches [OF _ assms(2)] by auto
qed simp

lemma FindIndex_cases:
  assumes "dir_ok d" "0 \<notin> set nm"
  obtains (absent) "FindIndex nm d = Inr (-1)" "dir_view d (key_of nm) = None"
  | (present) i where "FindIndex nm d = Inr (int i)" "i < length (table d)" "inUse (table d ! i)"
      "key_of (name (table d ! i)) = key_of nm"
proof -
  let ?P = "\<lambda>i. inUse (table d ! nat i) \<and> key_of (name (table d ! nat i)) = key_of nm"
  let ?is = "[0..tableSize d - 1]"
  have loop: "FindIndex nm d = Inr (case find ?P ?is of None \<Rightarrow> -1 | Some i \<Rightarrow> i)"
    unfolding FindIndex_def using assms by (intro find_index_loop_find) (auto simp: dir_ok_def)
  show ?thesis
  proof (cases "find ?P ?is")
    case None
    have "\<forall>e \<in> set (table d). inUse e \<longrightarrow> key_of (name e) \<noteq> key_of nm"
    proof
      fix e assume "e \<in> set (table d)"
      then obtain i where "i < length (table d)" "table d ! i = e" by (auto simp: in_set_conv_nth)
      then show "inUse e \<longrightarrow> key_of (name e) \<noteq> key_of nm"
        using None assms(1) unfolding find_None_iff by (auto simp: dir_ok_def dest: spec [of _ "int i"])
    qed
    then show ?thesis using loop None dir_view_None [OF assms(1)] by (intro absent) auto
  next
    case (Some i)
    then have "?P i" "i \<in> set ?is" unfolding find_Some_iff by (auto dest: nth_mem)
    then show ?thesis using loop Some assms(1) by (intro present [of "nat i"]) (auto simp: dir_ok_def)
  qed
qed

lemma Dir_Find_correct:
  assumes "dir_ok d" "0 \<notin> set nm"
  shows "Dir_Find nm d = Inr (case dir_view d (key_of nm) of None \<Rightarrow> -1 | Some s \<Rightarrow> s)"
proof (cases rule: FindIndex_cases [OF assms, case_names absent present])
  case absent then show ?thesis by (simp add: Dir_Find_def)
next
  case (present i)
  then have "dir_view d (key_of nm) = Some (sector_of (table d ! i))"
    unfolding dir_view_iff [OF assms(1)] by auto
  then show ?thesis using present by (simp add: Dir_Find_def)
qed

text \<open>Replacing one entry of the table.\<close>

lemma keys_update:
  assumes "i < length t"
  shows "keys (t[i := e]) = keys (take i t) @ (if inUse e then [key_of (name e)] else []) @ keys (drop (Suc i) t)"
    "keys t = keys (take i t) @ (if inUse (t ! i) then [key_of (name (t ! i))] else []) @ keys (drop (Suc i) t)"
proof -
  show "keys (t[i := e]) = keys (take i t) @ (if inUse e then [key_of (name e)] else []) @ keys (drop (Suc i) t)"
    using assms by (simp add: keys_def upd_conv_take_nth_drop)
  show "keys t = keys (take i t) @ (if inUse (t ! i) then [key_of (name (t ! i))] else []) @ keys (drop (Suc i) t)"
    by (subst id_take_nth_drop [OF assms]) (simp add: keys_def)
qed

lemma set_keys: "set (keys t) = {key_of (name e) |e. e \<in> set t \<and> inUse e}"
  by (auto simp: keys_def)

lemma dom_dir_view: "dir_ok d \<Longrightarrow> dom (dir_view d) = set (keys (table d))"
  by (auto simp: set_keys dir_view_iff dom_def)

lemma dir_insert:
  assumes ok: "dir_ok d" and i: "i < length (table d)" "\<not> inUse (table d ! i)"
    and e: "entry_ok e" "inUse e" "0 \<le> sector_of e" "key_of (name e) = k" and k: "k \<notin> dom (dir_view d)"
  shows "dir_ok (d\<lparr>table := (table d)[i := e]\<rparr>)"
    "dir_view (d\<lparr>table := (table d)[i := e]\<rparr>) = (dir_view d)(k \<mapsto> sector_of e)"
proof -
  let ?d = "d\<lparr>table := (table d)[i := e]\<rparr>"
  have "distinct (keys ((table d)[i := e]))"
    using ok i e(2,4) k keys_update(1) [OF i(1), of e] keys_update(2) [OF i(1)] unfolding dom_dir_view [OF ok] by (auto simp: dir_ok_def)
  then show ok': "dir_ok ?d"
    using ok e by (auto simp: dir_ok_def dest!: set_update_subset_insert [THEN subsetD])
  have other: "x \<in> set ((table d)[i := e]) \<and> inUse x \<longleftrightarrow> x = e \<or> x \<in> set (table d) \<and> inUse x" for x
    using i e(2) by (auto simp: in_set_conv_nth nth_list_update)
  show "dir_view ?d = (dir_view d)(k \<mapsto> sector_of e)"
  proof
    fix k'
    have "dir_view ?d k' = Some s \<longleftrightarrow> ((dir_view d)(k \<mapsto> sector_of e)) k' = Some s" for s
      using dir_view_iff [OF ok', of k' s] dir_view_iff [OF ok, of k' s] other e(2,4) k
      by (auto simp: domIff) (metis option.distinct(1))+
    then show "dir_view ?d k' = ((dir_view d)(k \<mapsto> sector_of e)) k'" by (metis option.exhaust)
  qed
qed

lemma dir_delete:
  assumes ok: "dir_ok d" and i: "i < length (table d)" "inUse (table d ! i)"
  shows "dir_ok (d\<lparr>table := (table d)[i := (table d ! i)\<lparr>inUse := False\<rparr>]\<rparr>)"
    "dir_view (d\<lparr>table := (table d)[i := (table d ! i)\<lparr>inUse := False\<rparr>]\<rparr>) = (dir_view d)(key_of (name (table d ! i)) := None)"
proof -
  let ?e = "(table d ! i)\<lparr>inUse := False\<rparr>"
  let ?d = "d\<lparr>table := (table d)[i := ?e]\<rparr>"
  have ke: "keys (table d) = keys (take i (table d)) @ key_of (name (table d ! i)) # keys (drop (Suc i) (table d))"
    "keys ((table d)[i := ?e]) = keys (take i (table d)) @ keys (drop (Suc i) (table d))"
    using keys_update(1) [OF i(1), of ?e] keys_update(2) [OF i(1)] i(2) by simp_all
  have eok: "entry_ok ?e" using ok i(1) by (simp add: dir_ok_def entry_ok_def)
  then show ok': "dir_ok ?d"
    using ok ke by (auto simp: dir_ok_def dest!: set_update_subset_insert [THEN subsetD])
  show "dir_view ?d = (dir_view d)(key_of (name (table d ! i)) := None)"
  proof
    fix k'
    have "key_of (name (table d ! i)) \<notin> dom (dir_view ?d)"
      using dom_dir_view [OF ok'] ke ok by (simp add: dir_ok_def)
    moreover have "dir_view ?d k' = Some s \<longleftrightarrow> dir_view d k' = Some s" if "k' \<noteq> key_of (name (table d ! i))" for s
    proof -
      have "x \<in> set ((table d)[i := ?e]) \<and> inUse x \<and> key_of (name x) = k' \<longleftrightarrow> x \<in> set (table d) \<and> inUse x \<and> key_of (name x) = k'" for x
        using i that by (auto simp: in_set_conv_nth nth_list_update)
      then show ?thesis using dir_view_iff [OF ok', of k' s] dir_view_iff [OF ok, of k' s] by auto
    qed
    ultimately show "dir_view ?d k' = ((dir_view d)(key_of (name (table d ! i)) := None)) k'"
      by (cases "k' = key_of (name (table d ! i))") (auto simp: domIff, metis option.exhaust)
  qed
qed

lemma add_loop_cases:
  assumes "dir_ok d" "\<forall>i \<in> set is. 0 \<le> i \<and> i < int (length (table d))"
  shows "(\<forall>i \<in> set is. inUse (table d ! nat i)) \<and> add_loop is nm s d = Inr (False, d) \<or>
    (\<exists>i. int i \<in> set is \<and> \<not> inUse (table d ! i) \<and> add_loop is nm s d = Inr (True, d\<lparr>table := (table d)[i :=
       (table d ! i)\<lparr>inUse := True, name := strncpy (name (table d ! i)) nm FileNameMaxLen, sector_of := s\<rparr>]\<rparr>))"
  using assms(2)
proof (induction "is")
  case (Cons i "is")
  show ?case
  proof (cases "inUse (table d ! nat i)")
    case True then show ?thesis using Cons by auto
  next
    case False
    then show ?thesis using Cons.prems by (intro disjI2 exI [of _ "nat i"]) auto
  qed
qed simp

definition dir_full :: "Directory \<Rightarrow> bool" where
  "dir_full d \<longleftrightarrow> (\<forall>e \<in> set (table d). inUse e)"

lemma Dir_Add_correct:
  assumes ok: "dir_ok d" and nm: "0 \<notin> set nm" and s: "0 \<le> s" "is_int32 s"
  shows "key_of nm \<in> dom (dir_view d) \<or> dir_full d \<Longrightarrow> Dir_Add nm s d = Inr (False, d)"
    "key_of nm \<notin> dom (dir_view d) \<Longrightarrow> \<not> dir_full d \<Longrightarrow> \<exists>d'. Dir_Add nm s d = Inr (True, d') \<and> dir_ok d' \<and>
       tableSize d' = tableSize d \<and> dir_view d' = (dir_view d)(key_of nm \<mapsto> s)"
proof -
  let ?is = "[0..tableSize d - 1]"
  have rng: "\<forall>i \<in> set ?is. 0 \<le> i \<and> i < int (length (table d))" using ok by (auto simp: dir_ok_def)
  note loop = add_loop_cases [OF ok rng, of nm s]
  have full: "(\<forall>i \<in> set ?is. inUse (table d ! nat i)) \<longleftrightarrow> dir_full d"
  proof -
    have "set ?is = {int 0..<int (length (table d))}" using ok by (auto simp: dir_ok_def)
    then have "set ?is = int ` {0..<length (table d)}" by (simp only: image_int_atLeastLessThan)
    then show ?thesis by (auto simp: dir_full_def all_set_conv_all_nth)
  qed
  have add: "Dir_Add nm s d = (if key_of nm \<in> dom (dir_view d) then Inr (False, d) else add_loop ?is nm s d)"
  proof (cases rule: FindIndex_cases [OF ok nm, case_names absent present])
    case absent then show ?thesis by (simp add: Dir_Add_def domIff)
  next
    case (present i)
    then have "dir_view d (key_of nm) = Some (sector_of (table d ! i))" unfolding dir_view_iff [OF ok] by auto
    then show ?thesis using present by (auto simp: Dir_Add_def)
  qed
  have "dir_full d \<Longrightarrow> add_loop ?is nm s d = Inr (False, d)" using loop full by (metis nat_int)
  then show "Dir_Add nm s d = Inr (False, d)" if "key_of nm \<in> dom (dir_view d) \<or> dir_full d"
    using that add by auto
  show "\<exists>d'. Dir_Add nm s d = Inr (True, d') \<and> dir_ok d' \<and>
       tableSize d' = tableSize d \<and> dir_view d' = (dir_view d)(key_of nm \<mapsto> s)"
    if new: "key_of nm \<notin> dom (dir_view d)" "\<not> dir_full d"
  proof -
    obtain i where i: "i < length (table d)" "\<not> inUse (table d ! i)" "add_loop ?is nm s d = Inr (True, d\<lparr>table := (table d)[i :=
       (table d ! i)\<lparr>inUse := True, name := strncpy (name (table d ! i)) nm FileNameMaxLen, sector_of := s\<rparr>]\<rparr>)"
      using loop full new(2) rng by fastforce
    have "entry_ok (table d ! i)" using ok i(1) by (simp add: dir_ok_def)
    then show ?thesis
      using dir_insert [OF ok i(1,2), of "(table d ! i)\<lparr>inUse := True, name := strncpy (name (table d ! i)) nm FileNameMaxLen, sector_of := s\<rparr>" "key_of nm"]
        key_of_strncpy nm s new(1) add i(3) by (simp add: entry_ok_def)
  qed
qed

lemma Dir_Remove_correct:
  assumes ok: "dir_ok d" and nm: "0 \<notin> set nm"
  shows "key_of nm \<notin> dom (dir_view d) \<Longrightarrow> Dir_Remove nm d = Inr (False, d)"
    "key_of nm \<in> dom (dir_view d) \<Longrightarrow> \<exists>d'. Dir_Remove nm d = Inr (True, d') \<and> dir_ok d' \<and>
       tableSize d' = tableSize d \<and> dir_view d' = (dir_view d)(key_of nm := None)"
proof -
  show "Dir_Remove nm d = Inr (False, d)" if "key_of nm \<notin> dom (dir_view d)"
  proof (cases rule: FindIndex_cases [OF ok nm, case_names absent present])
    case absent then show ?thesis by (simp add: Dir_Remove_def)
  next
    case (present i)
    then have "dir_view d (key_of nm) = Some (sector_of (table d ! i))" unfolding dir_view_iff [OF ok] by auto
    then show ?thesis using that by auto
  qed
  show "\<exists>d'. Dir_Remove nm d = Inr (True, d') \<and> dir_ok d' \<and>
       tableSize d' = tableSize d \<and> dir_view d' = (dir_view d)(key_of nm := None)"
    if "key_of nm \<in> dom (dir_view d)"
  proof (cases rule: FindIndex_cases [OF ok nm, case_names absent present])
    case absent then show ?thesis using that by auto
  next
    case (present i)
    then show ?thesis using dir_delete [OF ok present(2,3)] by (simp add: Dir_Remove_def)
  qed
qed

section \<open>The interface of a directory\<close>

locale name_table =
  fixes look :: "'n \<Rightarrow> 'd \<Rightarrow> int res"
    and add :: "'n \<Rightarrow> int \<Rightarrow> 'd \<Rightarrow> (bool \<times> 'd) res"
    and remove :: "'n \<Rightarrow> 'd \<Rightarrow> (bool \<times> 'd) res"
    and key :: "'n \<Rightarrow> 'k"
    and view :: "'d \<Rightarrow> 'k \<rightharpoonup> int"
    and ok :: "'d \<Rightarrow> bool"
    and full :: "'d \<Rightarrow> bool"
    and valid_name :: "'n \<Rightarrow> bool"
    and valid_sector :: "int \<Rightarrow> bool"
  assumes look_law: "ok d \<Longrightarrow> valid_name n \<Longrightarrow> look n d = Inr (case view d (key n) of None \<Rightarrow> -1 | Some s \<Rightarrow> s)"
    and add_refused: "ok d \<Longrightarrow> valid_name n \<Longrightarrow> valid_sector s \<Longrightarrow> key n \<in> dom (view d) \<or> full d \<Longrightarrow>
      add n s d = Inr (False, d)"
    and add_law: "ok d \<Longrightarrow> valid_name n \<Longrightarrow> valid_sector s \<Longrightarrow> key n \<notin> dom (view d) \<Longrightarrow> \<not> full d \<Longrightarrow>
      \<exists>d'. add n s d = Inr (True, d') \<and> ok d' \<and> view d' = (view d)(key n \<mapsto> s)"
    and remove_refused: "ok d \<Longrightarrow> valid_name n \<Longrightarrow> key n \<notin> dom (view d) \<Longrightarrow> remove n d = Inr (False, d)"
    and remove_law: "ok d \<Longrightarrow> valid_name n \<Longrightarrow> key n \<in> dom (view d) \<Longrightarrow>
      \<exists>d'. remove n d = Inr (True, d') \<and> ok d' \<and> view d' = (view d)(key n := None)"
begin

text \<open>A name that was added is found at its sector, every other name where it was.\<close>

lemma look_after_add:
  assumes "ok d" "valid_name n" "valid_sector s" "key n \<notin> dom (view d)" "\<not> full d"
  shows "\<exists>d'. add n s d = Inr (True, d') \<and> look n d' = Inr s \<and>
    (\<forall>m. valid_name m \<and> key m \<noteq> key n \<longrightarrow> look m d' = look m d)"
  using add_law [OF assms] assms(1,2) by (auto simp: look_law)

text \<open>Adding and removing a new name gives back the directory that was.\<close>

lemma add_remove:
  assumes "ok d" "valid_name n" "valid_sector s" "key n \<notin> dom (view d)" "\<not> full d"
  shows "\<exists>d1 d2. add n s d = Inr (True, d1) \<and> remove n d1 = Inr (True, d2) \<and> view d2 = view d \<and> look n d2 = Inr (-1)"
proof -
  obtain d1 where d1: "add n s d = Inr (True, d1)" "ok d1" "view d1 = (view d)(key n \<mapsto> s)"
    using add_law [OF assms] by blast
  obtain d2 where d2: "remove n d1 = Inr (True, d2)" "ok d2" "view d2 = (view d1)(key n := None)"
    using remove_law [OF d1(2) assms(2)] d1(3) by auto
  have "view d2 = view d" using d1(3) d2(3) assms(4) by (auto simp: domIff)
  then show ?thesis using d1 d2 assms(2,4) by (auto simp: look_law domIff)
qed

end

interpretation dir: name_table Dir_Find Dir_Add Dir_Remove key_of dir_view dir_ok dir_full
  "\<lambda>nm. 0 \<notin> set nm" "\<lambda>s. 0 \<le> s \<and> is_int32 s"
proof unfold_locales
  fix d :: Directory and nm :: "byte list" and s :: int
  assume ok: "dir_ok d" and nm: "0 \<notin> set nm"
  show "Dir_Find nm d = Inr (case dir_view d (key_of nm) of None \<Rightarrow> -1 | Some s \<Rightarrow> s)"
    by (rule Dir_Find_correct [OF ok nm])
  show "key_of nm \<notin> dom (dir_view d) \<Longrightarrow> Dir_Remove nm d = Inr (False, d)"
    by (rule Dir_Remove_correct(1) [OF ok nm])
  show "key_of nm \<in> dom (dir_view d) \<Longrightarrow>
      \<exists>d'. Dir_Remove nm d = Inr (True, d') \<and> dir_ok d' \<and> dir_view d' = (dir_view d)(key_of nm := None)"
    using Dir_Remove_correct(2) [OF ok nm] by blast
  assume s: "0 \<le> s \<and> is_int32 s"
  show "key_of nm \<in> dom (dir_view d) \<or> dir_full d \<Longrightarrow> Dir_Add nm s d = Inr (False, d)"
    using Dir_Add_correct(1) [OF ok nm] s by blast
  show "key_of nm \<notin> dom (dir_view d) \<Longrightarrow> \<not> dir_full d \<Longrightarrow>
      \<exists>d'. Dir_Add nm s d = Inr (True, d') \<and> dir_ok d' \<and> dir_view d' = (dir_view d)(key_of nm \<mapsto> s)"
    using Dir_Add_correct(2) [OF ok nm] s by blast
qed

section \<open>The directory file\<close>

lemma length_entry_bytes: "entry_ok e \<Longrightarrow> length (entry_bytes e) = sizeof_entry"
  by (simp add: entry_bytes_def entry_ok_def sizeof_entry_def)

lemma entry_roundtrip:
  assumes "entry_ok e" shows "entry_of_bytes (entry_bytes e) = e"
proof -
  have l: "length (take 3 (pad e)) = 3" "length (name e) = 10" "length (pad e) = 5" "is_int32 (sector_of e)"
    using assms by (simp_all add: entry_ok_def)
  obtain p1 p2 p3 p4 p5 where p: "pad e = [p1, p2, p3, p4, p5]"
    using l(3) by (auto simp: numeral_eq_Suc length_Suc_conv)
  have "drop 4 (entry_bytes e) = int_to_bytes (sector_of e) @ name e @ [p4, p5]"
    "drop 8 (entry_bytes e) = name e @ [p4, p5]" "drop 18 (entry_bytes e) = [p4, p5]"
    using l by (simp_all add: entry_bytes_def p)
  then show ?thesis using l by (simp add: entry_of_bytes_def p) (simp add: entry_bytes_def p)
qed

lemma entry_ok_of_bytes: "length bs = sizeof_entry \<Longrightarrow> entry_ok (entry_of_bytes bs)"
  by (simp add: entry_ok_def entry_of_bytes_def sizeof_entry_def)

lemma length_table_bytes: "\<forall>e \<in> set t. entry_ok e \<Longrightarrow> length (table_bytes t) = length t * sizeof_entry"
  unfolding table_bytes_def by (rule length_concat_const) (simp add: length_entry_bytes)

lemma table_roundtrip: "\<forall>e \<in> set t. entry_ok e \<Longrightarrow> table_of_bytes (length t) (table_bytes t) = t"
  unfolding table_of_bytes_def table_bytes_def
  using map_slot_concat [of t entry_bytes sizeof_entry entry_of_bytes "[]"]
  by (simp add: length_entry_bytes entry_roundtrip)

lemma table_of_bytes_ok: "n * sizeof_entry \<le> length bs \<Longrightarrow> \<forall>e \<in> set (table_of_bytes n bs). entry_ok e"
proof
  fix e assume len: "n * sizeof_entry \<le> length bs" and "e \<in> set (table_of_bytes n bs)"
  then obtain i where i: "i < n" "e = entry_of_bytes (slot sizeof_entry bs i)" by (auto simp: table_of_bytes_def)
  have "Suc i * sizeof_entry \<le> n * sizeof_entry" using i(1) by (intro mult_le_mono1) simp
  then show "entry_ok e" using len i(2) by (simp add: entry_ok_of_bytes slot_def)
qed

end
