(* ===== verification/Nachos_FileSys.thy ===== *)
theory Nachos_FileSys
  imports Nachos_Directory
begin

text \<open>
  \<open>filesys/filesys.cc\<close> and the file operations of \<open>userprog/bitmap.cc\<close>: formatting the disk,
  creating, opening and removing files.  The invariant \<open>fs_ok\<close> says that the bitmap on disk marks
  exactly the sectors that the system files and the named files own and that no two of them
  share a sector.  Each operation is shown to keep it and to act on the map from names to
  contents that the disk stands for.
\<close>

section \<open>The bitmap file\<close>

definition words_bytes :: "32 word list \<Rightarrow> byte list" where
  "words_bytes ws = concat (map word_to_bytes ws)"

definition words_of_bytes :: "nat \<Rightarrow> byte list \<Rightarrow> 32 word list" where
  "words_of_bytes n bs = map (\<lambda>i. bytes_to_word (slot 4 bs i)) [0..<n]"

definition BitMap_FetchFrom :: "OpenFile \<Rightarrow> BitMap \<Rightarrow> SynchDisk \<Rightarrow> (BitMap \<times> SynchDisk) res" where
  "BitMap_FetchFrom f bm sd = rbind (ReadAt (numWords bm * 4) 0 f sd) (\<lambda>(bs, sd1).
     Inr (bm\<lparr>bits := words_of_bytes (length (bits bm)) (overwrite 0 bs (words_bytes (bits bm)))\<rparr>, sd1))"

definition BitMap_WriteBack :: "OpenFile \<Rightarrow> BitMap \<Rightarrow> SynchDisk \<Rightarrow> SynchDisk res" where
  "BitMap_WriteBack f bm sd = rbind (WriteAt (words_bytes (bits bm)) (numWords bm * 4) 0 f sd)
     (\<lambda>(_, sd1). Inr sd1)"

section \<open>The file system\<close>

definition FreeMapSector :: int where "FreeMapSector = 0"
definition DirectorySector :: int where "DirectorySector = 1"
definition FreeMapFileSize :: int where "FreeMapFileSize = NumSectors sdiv 8"
definition NumDirEntries :: int where "NumDirEntries = 10"
definition DirectoryFileSize :: int where "DirectoryFileSize = int sizeof_entry * NumDirEntries"

lemmas fs_sizes = FreeMapSector_def DirectorySector_def FreeMapFileSize_def NumDirEntries_def
  DirectoryFileSize_def sizeof_entry_def

record FileSystem =
  freeMapFile :: OpenFile
  directoryFile :: OpenFile

text \<open>\<open>new BitMap(NumSectors)\<close> and \<open>new FileHeader\<close> on fresh memory.\<close>

definition new_bitmap :: "SynchDisk \<Rightarrow> BitMap res" where
  "new_bitmap sd = BitMap_new (words_of_bytes 32 (fresh 128 sd)) NumSectors"

definition new_header :: "SynchDisk \<Rightarrow> FileHeader" where
  "new_header sd = hdr_of_bytes (fresh SectorSize sd)"

text \<open>\<open>FileSystem::FileSystem\<close>; the debug listing is omitted.\<close>

definition FileSystem_open :: "SynchDisk \<Rightarrow> (FileSystem \<times> SynchDisk) res" where
  "FileSystem_open sd =
     rbind (OpenFile_new FreeMapSector sd) (\<lambda>(fmf, sd1).
     rbind (OpenFile_new DirectorySector sd1) (\<lambda>(df, sd2).
       Inr (\<lparr>freeMapFile = fmf, directoryFile = df\<rparr>, sd2)))"

definition FileSystem_new :: "bool \<Rightarrow> SynchDisk \<Rightarrow> (FileSystem \<times> SynchDisk) res" where
  "FileSystem_new fmt sd =
     (if fmt
      then rbind (new_bitmap sd) (\<lambda>fm0.
           let directory = Directory_new NumDirEntries sd in
           rbind (Mark FreeMapSector fm0) (\<lambda>fm1.
           rbind (Mark DirectorySector fm1) (\<lambda>fm2.
           rbind (Allocate fm2 FreeMapFileSize (new_header sd)) (\<lambda>(ok1, mapHdr, fm3).
           ASSERT ok1 (
           rbind (Allocate fm3 DirectoryFileSize (new_header sd)) (\<lambda>(ok2, dirHdr, fm4).
           ASSERT ok2 (
           rbind (Hdr_WriteBack FreeMapSector mapHdr sd) (\<lambda>sd1.
           rbind (Hdr_WriteBack DirectorySector dirHdr sd1) (\<lambda>sd2.
           rbind (FileSystem_open sd2) (\<lambda>(fs, sd3).
           rbind (BitMap_WriteBack (freeMapFile fs) fm4 sd3) (\<lambda>sd4.
           rbind (Dir_WriteBack (directoryFile fs) directory sd4) (\<lambda>sd5.
             Inr (fs, sd5)))))))))))))
      else FileSystem_open sd)"

definition Create :: "byte list \<Rightarrow> int \<Rightarrow> FileSystem \<Rightarrow> SynchDisk \<Rightarrow> (bool \<times> SynchDisk) res" where
  "Create nm initialSize fs sd =
     rbind (Dir_FetchFrom (directoryFile fs) (Directory_new NumDirEntries sd) sd) (\<lambda>(directory, sd1).
     rbind (Dir_Find nm directory) (\<lambda>s0.
     if s0 \<noteq> -1 then Inr (False, sd1)
     else rbind (new_bitmap sd1) (\<lambda>fm0.
          rbind (BitMap_FetchFrom (freeMapFile fs) fm0 sd1) (\<lambda>(fm, sd2).
          rbind (Find fm) (\<lambda>(s, fm1).
          if s = -1 then Inr (False, sd2)
          else rbind (Dir_Add nm s directory) (\<lambda>(added, directory1).
               if \<not> added then Inr (False, sd2)
               else rbind (Allocate fm1 initialSize (new_header sd2)) (\<lambda>(ok, h, fm2).
                    if \<not> ok then Inr (False, sd2)
                    else rbind (Hdr_WriteBack s h sd2) (\<lambda>sd3.
                         rbind (Dir_WriteBack (directoryFile fs) directory1 sd3) (\<lambda>sd4.
                         rbind (BitMap_WriteBack (freeMapFile fs) fm2 sd4) (\<lambda>sd5.
                           Inr (True, sd5)))))))))))"

definition Open :: "byte list \<Rightarrow> FileSystem \<Rightarrow> SynchDisk \<Rightarrow> (OpenFile option \<times> SynchDisk) res" where
  "Open nm fs sd =
     rbind (Dir_FetchFrom (directoryFile fs) (Directory_new NumDirEntries sd) sd) (\<lambda>(directory, sd1).
     rbind (Dir_Find nm directory) (\<lambda>s.
     if s \<ge> 0 then rbind (OpenFile_new s sd1) (\<lambda>(f, sd2). Inr (Some f, sd2)) else Inr (None, sd1)))"

definition FS_Remove :: "byte list \<Rightarrow> FileSystem \<Rightarrow> SynchDisk \<Rightarrow> (bool \<times> SynchDisk) res" where
  "FS_Remove nm fs sd =
     rbind (Dir_FetchFrom (directoryFile fs) (Directory_new NumDirEntries sd) sd) (\<lambda>(directory, sd1).
     rbind (Dir_Find nm directory) (\<lambda>s.
     if s = -1 then Inr (False, sd1)
     else rbind (Hdr_FetchFrom s sd1) (\<lambda>(fileHdr, sd2).
          rbind (new_bitmap sd2) (\<lambda>fm0.
          rbind (BitMap_FetchFrom (freeMapFile fs) fm0 sd2) (\<lambda>(fm, sd3).
          rbind (Deallocate fileHdr fm) (\<lambda>fm1.
          rbind (Clear s fm1) (\<lambda>fm2.
          rbind (Dir_Remove nm directory) (\<lambda>(_, directory1).
          rbind (BitMap_WriteBack (freeMapFile fs) fm2 sd3) (\<lambda>sd4.
          rbind (Dir_WriteBack (directoryFile fs) directory1 sd4) (\<lambda>sd5.
            Inr (True, sd5)))))))))))"

definition FS_List :: "FileSystem \<Rightarrow> SynchDisk \<Rightarrow> (byte list list \<times> SynchDisk) res" where
  "FS_List fs sd =
     rbind (Dir_FetchFrom (directoryFile fs) (Directory_new NumDirEntries sd) sd) (\<lambda>(directory, sd1).
     rbind (Dir_List directory) (\<lambda>ns. Inr (ns, sd1)))"

section \<open>The state on disk\<close>

definition disk_dir :: "FileSystem \<Rightarrow> SynchDisk \<Rightarrow> Directory" where
  "disk_dir fs sd = \<lparr>tableSize = NumDirEntries, table = table_of_bytes (nat NumDirEntries) (file_bytes sd (hdr (directoryFile fs)))\<rparr>"

definition disk_map :: "FileSystem \<Rightarrow> SynchDisk \<Rightarrow> BitMap" where
  "disk_map fs sd = \<lparr>numBits = NumSectors, numWords = 32, bits = words_of_bytes 32 (file_bytes sd (hdr (freeMapFile fs)))\<rparr>"

definition hdr_at :: "SynchDisk \<Rightarrow> int \<Rightarrow> FileHeader" where
  "hdr_at sd s = hdr_of_bytes (sector sd s)"

definition space :: "SynchDisk \<Rightarrow> int \<Rightarrow> int set" where
  "space sd s = insert s (set (file_sectors (hdr_at sd s)))"

definition system_space :: "FileSystem \<Rightarrow> int set" where
  "system_space fs = {FreeMapSector, DirectorySector} \<union> set (file_sectors (hdr (freeMapFile fs))) \<union>
     set (file_sectors (hdr (directoryFile fs)))"

definition layout_ok :: "FileSystem \<Rightarrow> SynchDisk \<Rightarrow> bool" where
  "layout_ok fs sd \<longleftrightarrow> disk_ok sd \<and>
     hdr_ok (hdr (freeMapFile fs)) \<and> numBytes (hdr (freeMapFile fs)) = FreeMapFileSize \<and>
     hdr_ok (hdr (directoryFile fs)) \<and> numBytes (hdr (directoryFile fs)) = DirectoryFileSize \<and>
     distinct ([FreeMapSector, DirectorySector] @ file_sectors (hdr (freeMapFile fs)) @ file_sectors (hdr (directoryFile fs))) \<and>
     hdr_at sd FreeMapSector = hdr (freeMapFile fs) \<and> hdr_at sd DirectorySector = hdr (directoryFile fs)"

definition system_ok :: "FileSystem \<Rightarrow> SynchDisk \<Rightarrow> bool" where
  "system_ok fs sd \<longleftrightarrow> layout_ok fs sd \<and> dir_ok (disk_dir fs sd)"

definition files_ok :: "int set \<Rightarrow> (byte list \<rightharpoonup> int) \<Rightarrow> SynchDisk \<Rightarrow> bool" where
  "files_ok base view sd \<longleftrightarrow>
     (\<forall>k s. view k = Some s \<longrightarrow> 0 \<le> s \<and> s < NumSectors \<and> hdr_ok (hdr_at sd s) \<and>
        s \<notin> set (file_sectors (hdr_at sd s)) \<and> space sd s \<inter> base = {}) \<and>
     (\<forall>k s k' s'. view k = Some s \<and> view k' = Some s' \<and> k \<noteq> k' \<longrightarrow> space sd s \<inter> space sd s' = {})"

definition owned :: "int set \<Rightarrow> (byte list \<rightharpoonup> int) \<Rightarrow> SynchDisk \<Rightarrow> int set" where
  "owned base view sd = base \<union> (\<Union>s \<in> ran view. space sd s)"

definition fs_ok :: "FileSystem \<Rightarrow> SynchDisk \<Rightarrow> bool" where
  "fs_ok fs sd \<longleftrightarrow> system_ok fs sd \<and> files_ok (system_space fs) (dir_view (disk_dir fs sd)) sd \<and>
     used (disk_map fs sd) = owned (system_space fs) (dir_view (disk_dir fs sd)) sd"

text \<open>The abstract file system: the contents of every named file.\<close>

definition fs_view :: "FileSystem \<Rightarrow> SynchDisk \<Rightarrow> byte list \<rightharpoonup> byte list" where
  "fs_view fs sd k = map_option (\<lambda>s. file_bytes sd (hdr_at sd s)) (dir_view (disk_dir fs sd) k)"

text \<open>The number of data sectors of every named file.\<close>

definition fs_blocks :: "FileSystem \<Rightarrow> SynchDisk \<Rightarrow> byte list \<rightharpoonup> int" where
  "fs_blocks fs sd k = map_option (\<lambda>s. numSectors (hdr_at sd s)) (dir_view (disk_dir fs sd) k)"

section \<open>Reading and writing the two system files\<close>

text \<open>\<open>same_data sd' sd\<close>: only the clock and the head of the disk have moved.\<close>

definition same_data :: "SynchDisk \<Rightarrow> SynchDisk \<Rightarrow> bool" where
  "same_data sd' sd \<longleftrightarrow> disk_ok sd' \<and> sector sd' = sector sd"

lemma same_data_refl: "disk_ok sd \<Longrightarrow> same_data sd sd"
  by (simp add: same_data_def)

lemma same_data_trans: "same_data sd2 sd1 \<Longrightarrow> same_data sd1 sd \<Longrightarrow> same_data sd2 sd"
  by (simp add: same_data_def)

lemma same_data_bytes: "same_data sd' sd \<Longrightarrow> file_bytes sd' h = file_bytes sd h"
  using sector_cong [of sd' sd h] by (simp add: same_data_def)

lemma same_data_fs:
  assumes "same_data sd' sd" "system_ok fs sd"
  shows "disk_dir fs sd' = disk_dir fs sd" "disk_map fs sd' = disk_map fs sd" "hdr_at sd' = hdr_at sd"
    "system_ok fs sd'" "fs_ok fs sd' = fs_ok fs sd" "fs_view fs sd' = fs_view fs sd"
proof -
  have "sector sd' = sector sd" using assms(1) by (simp add: same_data_def)
  note eq = same_data_bytes [OF assms(1)] this
  show "disk_dir fs sd' = disk_dir fs sd" "disk_map fs sd' = disk_map fs sd" "hdr_at sd' = hdr_at sd"
    using eq by (auto simp: disk_dir_def disk_map_def hdr_at_def fun_eq_iff)
  note this [simp]
  show "system_ok fs sd'" using assms by (simp add: system_ok_def layout_ok_def same_data_def)
  then show "fs_ok fs sd' = fs_ok fs sd" using assms(2) by (simp add: fs_ok_def files_ok_def owned_def space_def)
  show "fs_view fs sd' = fs_view fs sd" using eq by (simp add: fs_view_def fun_eq_iff)
qed

lemma overwrite_all: "length bs = length xs \<Longrightarrow> overwrite 0 bs xs = bs"
  by (simp add: overwrite_def)

lemma read_whole_file:
  assumes "disk_ok sd" "hdr_ok (hdr f)" "numBytes (hdr f) = int n"
  shows "\<exists>sd'. ReadAt (int n) 0 f sd = Inr (file_bytes sd (hdr f), sd') \<and> same_data sd' sd"
proof -
  have "is_int32 (int 0 + int n)" using file_sectors_facts(5) [OF assms(2)] assms(3) by (simp add: is_int32_def)
  from ReadAt_correct [OF assms(1,2) this] show ?thesis
    using length_file_bytes [OF assms(1,2)] assms(3) by (auto simp: same_data_def)
qed

lemma write_whole_file:
  assumes "disk_ok sd" "hdr_ok (hdr f)" "numBytes (hdr f) = int n" "length bs = n"
  shows "\<exists>sd'. WriteAt bs (int n) 0 f sd = Inr (int n, sd') \<and> disk_ok sd' \<and> file_bytes sd' (hdr f) = bs \<and>
    (\<forall>t. 0 \<le> t \<and> t < NumSectors \<and> t \<notin> set (file_sectors (hdr f)) \<longrightarrow> sector sd' t = sector sd t)"
proof -
  have "is_int32 (int 0 + int n)" using file_sectors_facts(5) [OF assms(2)] assms(3) by (simp add: is_int32_def)
  from WriteAt_correct [OF assms(1,2) this, of bs] show ?thesis
    using length_file_bytes [OF assms(1,2)] assms(3,4) by (auto simp: overwrite_all)
qed

lemma Directory_new_facts:
  "tableSize (Directory_new NumDirEntries sd) = 10" "length (table (Directory_new NumDirEntries sd)) = 10"
  "\<forall>e \<in> set (table (Directory_new NumDirEntries sd)). entry_ok e \<and> \<not> inUse e"
proof -
  have "\<forall>e \<in> set (table_of_bytes 10 (fresh (10 * sizeof_entry) sd)). entry_ok e"
    by (rule table_of_bytes_ok) (simp add: fresh_def)
  then show "\<forall>e \<in> set (table (Directory_new NumDirEntries sd)). entry_ok e \<and> \<not> inUse e"
    by (auto simp: Directory_new_def NumDirEntries_def entry_ok_def)
qed (simp_all add: Directory_new_def NumDirEntries_def table_of_bytes_def)

lemma Dir_FetchFrom_ok:
  assumes "system_ok fs sd"
  shows "\<exists>sd'. Dir_FetchFrom (directoryFile fs) (Directory_new NumDirEntries sd0) sd = Inr (disk_dir fs sd, sd') \<and>
    same_data sd' sd"
proof -
  note new = Directory_new_facts [of sd0]
  have ok: "disk_ok sd" "hdr_ok (hdr (directoryFile fs))" "numBytes (hdr (directoryFile fs)) = int 200"
    using assms by (simp_all add: system_ok_def layout_ok_def fs_sizes)
  have "length (table_bytes (table (Directory_new NumDirEntries sd0))) = 200"
    using length_table_bytes [of "table (Directory_new NumDirEntries sd0)"] new by (simp add: sizeof_entry_def)
  moreover have "length (file_bytes sd (hdr (directoryFile fs))) = 200" using length_file_bytes [OF ok(1,2)] ok(3) by simp
  moreover have "tableSize (Directory_new NumDirEntries sd0) * int sizeof_entry = int 200" using new by (simp add: sizeof_entry_def)
  moreover obtain sd' where "ReadAt (int 200) 0 (directoryFile fs) sd = Inr (file_bytes sd (hdr (directoryFile fs)), sd')"
    "same_data sd' sd" using read_whole_file [OF ok] by blast
  ultimately have "Dir_FetchFrom (directoryFile fs) (Directory_new NumDirEntries sd0) sd =
      Inr ((Directory_new NumDirEntries sd0)\<lparr>table := table_of_bytes 10 (file_bytes sd (hdr (directoryFile fs)))\<rparr>, sd')"
    unfolding Dir_FetchFrom_def by (simp only: rbind_simps prod.case new(2) overwrite_all)
  moreover have "(Directory_new NumDirEntries sd0)\<lparr>table := t\<rparr> = \<lparr>tableSize = 10, table = t\<rparr>" for t
    using new(1) by (intro Directory.equality) simp_all
  moreover have "nat NumDirEntries = 10" "NumDirEntries = 10" by (simp_all add: NumDirEntries_def)
  ultimately show ?thesis using \<open>same_data sd' sd\<close> unfolding disk_dir_def by auto
qed

lemma words_roundtrip: "words_of_bytes (length ws) (words_bytes ws) = ws"
  unfolding words_of_bytes_def words_bytes_def
  using map_slot_concat [of ws word_to_bytes 4 bytes_to_word "[]"] by simp

lemma length_words_bytes: "length (words_bytes ws) = length ws * 4"
  unfolding words_bytes_def by (rule length_concat_const) simp

lemma fs_bitmap_facts:
  assumes "bitmap_ok bm" "numBits bm = NumSectors"
  shows "numWords bm = 32" "length (bits bm) = 32"
  using assms by (simp_all add: bitmap_ok_def disk_sizes BitsInWord_def divRoundUp_def)

lemma new_bitmap_ok: "\<exists>bm. new_bitmap sd = Inr bm \<and> bitmap_ok bm \<and> numBits bm = NumSectors \<and> used bm = {}"
  unfolding new_bitmap_def
  by (rule BitMap_new_correct) (simp_all add: disk_sizes BitsInWord_def divRoundUp_def words_of_bytes_def)

lemma disk_map_ok: "bitmap_ok (disk_map fs sd)" "numBits (disk_map fs sd) = NumSectors"
  by (simp_all add: disk_map_def bitmap_ok_def disk_sizes BitsInWord_def divRoundUp_def words_of_bytes_def)

lemma BitMap_FetchFrom_ok:
  assumes "system_ok fs sd" "bitmap_ok bm" "numBits bm = NumSectors"
  shows "\<exists>sd'. BitMap_FetchFrom (freeMapFile fs) bm sd = Inr (disk_map fs sd, sd') \<and> same_data sd' sd"
proof -
  have ok: "disk_ok sd" "hdr_ok (hdr (freeMapFile fs))" "numBytes (hdr (freeMapFile fs)) = int 128"
    using assms(1) by (simp_all add: system_ok_def layout_ok_def fs_sizes disk_sizes)
  note bm = fs_bitmap_facts [OF assms(2,3)]
  have "length (file_bytes sd (hdr (freeMapFile fs))) = 128" using length_file_bytes [OF ok(1,2)] ok(3) by simp
  moreover have "numWords bm * 4 = int 128" using bm by simp
  ultimately show ?thesis using read_whole_file [OF ok] bm assms(3) length_words_bytes [of "bits bm"]
    by (auto simp: BitMap_FetchFrom_def disk_map_def overwrite_all)
qed

lemma Dir_WriteBack_ok:
  assumes "layout_ok fs sd" "dir_ok d" "tableSize d = NumDirEntries"
  shows "\<exists>sd'. Dir_WriteBack (directoryFile fs) d sd = Inr sd' \<and> disk_ok sd' \<and> disk_dir fs sd' = d \<and>
    (\<forall>t. 0 \<le> t \<and> t < NumSectors \<and> t \<notin> set (file_sectors (hdr (directoryFile fs))) \<longrightarrow> sector sd' t = sector sd t)"
proof -
  have ok: "disk_ok sd" "hdr_ok (hdr (directoryFile fs))" "numBytes (hdr (directoryFile fs)) = int 200"
    using assms(1) by (simp_all add: system_ok_def layout_ok_def fs_sizes)
  have t: "length (table d) = 10" "\<forall>e \<in> set (table d). entry_ok e"
    using assms(2,3) by (auto simp: dir_ok_def NumDirEntries_def)
  then have "length (table_bytes (table d)) = 200" by (simp add: length_table_bytes sizeof_entry_def)
  from write_whole_file [OF ok this] obtain sd' where sd':
    "WriteAt (table_bytes (table d)) (int 200) 0 (directoryFile fs) sd = Inr (int 200, sd')" "disk_ok sd'"
    "file_bytes sd' (hdr (directoryFile fs)) = table_bytes (table d)"
    "\<forall>t. 0 \<le> t \<and> t < NumSectors \<and> t \<notin> set (file_sectors (hdr (directoryFile fs))) \<longrightarrow> sector sd' t = sector sd t" by blast
  moreover have "tableSize d * int sizeof_entry = int 200" using assms(3) by (simp add: NumDirEntries_def sizeof_entry_def)
  moreover have "table_of_bytes 10 (table_bytes (table d)) = table d" using table_roundtrip [OF t(2)] t(1) by simp
  ultimately show ?thesis using assms(3)
    by (auto simp: Dir_WriteBack_def disk_dir_def NumDirEntries_def sizeof_entry_def intro!: Directory.equality)
qed

lemma BitMap_WriteBack_ok:
  assumes "layout_ok fs sd" "bitmap_ok bm" "numBits bm = NumSectors"
  shows "\<exists>sd'. BitMap_WriteBack (freeMapFile fs) bm sd = Inr sd' \<and> disk_ok sd' \<and> disk_map fs sd' = bm \<and>
    (\<forall>t. 0 \<le> t \<and> t < NumSectors \<and> t \<notin> set (file_sectors (hdr (freeMapFile fs))) \<longrightarrow> sector sd' t = sector sd t)"
proof -
  have ok: "disk_ok sd" "hdr_ok (hdr (freeMapFile fs))" "numBytes (hdr (freeMapFile fs)) = int 128"
    using assms(1) by (simp_all add: system_ok_def layout_ok_def fs_sizes disk_sizes)
  note bm = fs_bitmap_facts [OF assms(2,3)]
  have "length (words_bytes (bits bm)) = 128" using bm by (simp add: length_words_bytes)
  from write_whole_file [OF ok this] obtain sd' where sd':
    "WriteAt (words_bytes (bits bm)) (int 128) 0 (freeMapFile fs) sd = Inr (int 128, sd')" "disk_ok sd'"
    "file_bytes sd' (hdr (freeMapFile fs)) = words_bytes (bits bm)"
    "\<forall>t. 0 \<le> t \<and> t < NumSectors \<and> t \<notin> set (file_sectors (hdr (freeMapFile fs))) \<longrightarrow> sector sd' t = sector sd t" by blast
  moreover have "words_of_bytes 32 (words_bytes (bits bm)) = bits bm" using words_roundtrip [of "bits bm"] bm by simp
  ultimately show ?thesis using bm assms(3) by (simp add: BitMap_WriteBack_def disk_map_def)
qed

section \<open>Ownership of sectors\<close>

lemma file_bytes_frame:
  "(\<forall>s \<in> set (file_sectors h). sector sd' s = sector sd s) \<Longrightarrow> file_bytes sd' h = file_bytes sd h"
  by (simp add: file_bytes_def file_data_def cong: map_cong)

lemma owned_iff: "x \<in> owned base view sd \<longleftrightarrow> x \<in> base \<or> (\<exists>k s. view k = Some s \<and> x \<in> space sd s)"
  by (auto simp: owned_def ran_def)

lemma files_ok_cong:
  assumes "\<And>k s. view k = Some s \<Longrightarrow> hdr_at sd' s = hdr_at sd s" "files_ok base view sd"
  shows "files_ok base view sd'"
proof -
  have sp: "space sd' s = space sd s" if "view k = Some s" for k s using assms(1) [OF that] by (simp add: space_def)
  show ?thesis unfolding files_ok_def
  proof (intro conjI allI impI)
    fix k s assume k: "view k = Some s"
    show "0 \<le> s" "s < NumSectors" "hdr_ok (hdr_at sd' s)" "s \<notin> set (file_sectors (hdr_at sd' s))"
      "space sd' s \<inter> base = {}"
      using assms(2) k unfolding assms(1) [OF k] sp [OF k] files_ok_def by blast+
  next
    fix k s k' s' assume "view k = Some s \<and> view k' = Some s' \<and> k \<noteq> k'"
    then show "space sd' s \<inter> space sd' s' = {}" using assms(2) sp [of k s] sp [of k' s'] unfolding files_ok_def by auto
  qed
qed

lemma files_frame:
  assumes "\<forall>k s t. view k = Some s \<longrightarrow> t \<in> space sd s \<longrightarrow> sector sd' t = sector sd t"
  shows "files_ok base view sd \<Longrightarrow> files_ok base view sd'" "owned base view sd' = owned base view sd"
    "\<And>k s. view k = Some s \<Longrightarrow> hdr_at sd' s = hdr_at sd s"
    "\<And>k s. view k = Some s \<Longrightarrow> file_bytes sd' (hdr_at sd' s) = file_bytes sd (hdr_at sd s)"
proof -
  show h: "hdr_at sd' s = hdr_at sd s" if "view k = Some s" for k s
    using assms [rule_format, OF that, of s] by (simp add: hdr_at_def space_def)
  show "files_ok base view sd \<Longrightarrow> files_ok base view sd'" by (rule files_ok_cong [OF h])
  have "space sd' s = space sd s" if "view k = Some s" for k s using h [OF that] by (simp add: space_def)
  then show "owned base view sd' = owned base view sd" unfolding owned_iff [abs_def] set_eq_iff by metis
  fix k s assume k: "view k = Some s"
  have "\<forall>t \<in> set (file_sectors (hdr_at sd s)). sector sd' t = sector sd t"
    using assms [rule_format, OF k] by (auto simp: space_def)
  then show "file_bytes sd' (hdr_at sd' s) = file_bytes sd (hdr_at sd s)"
    unfolding h [OF k] by (rule file_bytes_frame)
qed

lemma files_ok_insert:
  assumes "files_ok base view sd" "view k = None" "0 \<le> s" "s < NumSectors" "hdr_ok (hdr_at sd s)"
    "s \<notin> set (file_sectors (hdr_at sd s))" "space sd s \<inter> owned base view sd = {}"
  shows "files_ok base (view(k \<mapsto> s)) sd" "owned base (view(k \<mapsto> s)) sd = owned base view sd \<union> space sd s"
proof -
  have dis: "space sd s \<inter> base = {}" "\<And>k' s'. view k' = Some s' \<Longrightarrow> space sd s \<inter> space sd s' = {}"
    using assms(7) by (auto simp: owned_def ran_def)
  show "files_ok base (view(k \<mapsto> s)) sd"
    using assms(1,3-6) dis unfolding files_ok_def by (auto split: if_splits)
  show "owned base (view(k \<mapsto> s)) sd = owned base view sd \<union> space sd s"
    using assms(2) by (auto simp: owned_def)
qed

lemma files_ok_delete:
  assumes "files_ok base view sd" "view k = Some s"
  shows "files_ok base (view(k := None)) sd" "owned base (view(k := None)) sd = owned base view sd - space sd s"
proof -
  show "files_ok base (view(k := None)) sd" using assms(1) unfolding files_ok_def by (auto split: if_splits)
  have "x \<in> space sd s' \<Longrightarrow> view k' = Some s' \<Longrightarrow> x \<in> space sd s \<Longrightarrow> k' = k" for x k' s'
    using assms unfolding files_ok_def by blast
  moreover have "x \<in> base \<Longrightarrow> x \<notin> space sd s" for x using assms unfolding files_ok_def by blast
  moreover have "(view(k := None)) k' = Some s' \<longleftrightarrow> k' \<noteq> k \<and> view k' = Some s'" for k' s' by simp
  ultimately show "owned base (view(k := None)) sd = owned base view sd - space sd s"
    using assms(2) unfolding set_eq_iff Diff_iff owned_iff by (metis option.inject)
qed

lemma system_sectors:
  assumes "layout_ok fs sd"
  shows "0 \<notin> set (file_sectors (hdr (freeMapFile fs)))" "1 \<notin> set (file_sectors (hdr (freeMapFile fs)))"
    "0 \<notin> set (file_sectors (hdr (directoryFile fs)))" "1 \<notin> set (file_sectors (hdr (directoryFile fs)))"
    "set (file_sectors (hdr (freeMapFile fs))) \<inter> set (file_sectors (hdr (directoryFile fs))) = {}"
    "set (file_sectors (hdr (freeMapFile fs))) \<subseteq> {0..<NumSectors}" "set (file_sectors (hdr (directoryFile fs))) \<subseteq> {0..<NumSectors}"
    "system_space fs \<subseteq> {0..<NumSectors}"
proof -
  have ok: "hdr_ok (hdr (freeMapFile fs))" "hdr_ok (hdr (directoryFile fs))" using assms by (simp_all add: system_ok_def layout_ok_def)
  note r = file_sectors_facts(3) [OF ok(1)] file_sectors_facts(3) [OF ok(2)]
  show "0 \<notin> set (file_sectors (hdr (freeMapFile fs)))" "1 \<notin> set (file_sectors (hdr (freeMapFile fs)))"
    "0 \<notin> set (file_sectors (hdr (directoryFile fs)))" "1 \<notin> set (file_sectors (hdr (directoryFile fs)))"
    "set (file_sectors (hdr (freeMapFile fs))) \<inter> set (file_sectors (hdr (directoryFile fs))) = {}"
    using assms by (auto simp: system_ok_def layout_ok_def fs_sizes)
  show "set (file_sectors (hdr (freeMapFile fs))) \<subseteq> {0..<NumSectors}" "set (file_sectors (hdr (directoryFile fs))) \<subseteq> {0..<NumSectors}"
    using r by auto
  then show "system_space fs \<subseteq> {0..<NumSectors}" by (auto simp: system_space_def fs_sizes disk_sizes)
qed

text \<open>The system files survive a change that leaves their headers alone and keeps the directory well formed.\<close>

lemma layout_frame:
  assumes "layout_ok fs sd" "disk_ok sd'" "sector sd' 0 = sector sd 0" "sector sd' 1 = sector sd 1"
  shows "layout_ok fs sd'"
  using assms by (simp add: layout_ok_def hdr_at_def fs_sizes)

lemma system_layout: "system_ok fs sd \<Longrightarrow> layout_ok fs sd"
  by (simp add: system_ok_def)

lemma system_ok_frame:
  assumes "system_ok fs sd" "disk_ok sd'" "sector sd' 0 = sector sd 0" "sector sd' 1 = sector sd 1" "dir_ok (disk_dir fs sd')"
  shows "system_ok fs sd'"
  using assms by (simp add: system_ok_def layout_ok_def hdr_at_def fs_sizes)

lemma disk_dir_frame:
  "(\<forall>s \<in> set (file_sectors (hdr (directoryFile fs))). sector sd' s = sector sd s) \<Longrightarrow> disk_dir fs sd' = disk_dir fs sd"
  unfolding disk_dir_def by (drule file_bytes_frame) simp

lemma disk_map_frame:
  "(\<forall>s \<in> set (file_sectors (hdr (freeMapFile fs))). sector sd' s = sector sd s) \<Longrightarrow> disk_map fs sd' = disk_map fs sd"
  unfolding disk_map_def by (drule file_bytes_frame) simp

text \<open>
  Writing both system files: the disk then stands for the directory \<open>d\<close> and the bitmap \<open>bm\<close>, and
  no sector outside the two files has changed.
\<close>

lemma flush_both:
  assumes "layout_ok fs sd" "dir_ok d" "tableSize d = NumDirEntries" "bitmap_ok bm" "numBits bm = NumSectors"
  shows "\<exists>sd1 sd2. Dir_WriteBack (directoryFile fs) d sd = Inr sd1 \<and> BitMap_WriteBack (freeMapFile fs) bm sd1 = Inr sd2 \<and>
      system_ok fs sd2 \<and> disk_dir fs sd2 = d \<and> disk_map fs sd2 = bm \<and>
      (\<forall>t. 0 \<le> t \<and> t < NumSectors \<and> t \<notin> system_space fs - {0, 1} \<longrightarrow> sector sd2 t = sector sd t)"
    "\<exists>sd1 sd2. BitMap_WriteBack (freeMapFile fs) bm sd = Inr sd1 \<and> Dir_WriteBack (directoryFile fs) d sd1 = Inr sd2 \<and>
      system_ok fs sd2 \<and> disk_dir fs sd2 = d \<and> disk_map fs sd2 = bm \<and>
      (\<forall>t. 0 \<le> t \<and> t < NumSectors \<and> t \<notin> system_space fs - {0, 1} \<longrightarrow> sector sd2 t = sector sd t)"
proof -
  note ss = system_sectors [OF assms(1)]
  let ?M = "set (file_sectors (hdr (freeMapFile fs)))" and ?D = "set (file_sectors (hdr (directoryFile fs)))"
  have N: "0 < NumSectors" "1 < NumSectors" by (simp_all add: disk_sizes)
  have sp: "system_space fs - {0, 1} = ?M \<union> ?D" using ss by (auto simp: system_space_def fs_sizes)
  have inM: "0 \<le> t \<and> t < NumSectors \<and> t \<notin> ?D" if "t \<in> ?M" for t using that ss(5,6) by auto
  have inD: "0 \<le> t \<and> t < NumSectors \<and> t \<notin> ?M" if "t \<in> ?D" for t using that ss(5,7) by auto
  obtain sd1 where 1: "Dir_WriteBack (directoryFile fs) d sd = Inr sd1" "disk_ok sd1" "disk_dir fs sd1 = d"
    "\<forall>t. 0 \<le> t \<and> t < NumSectors \<and> t \<notin> ?D \<longrightarrow> sector sd1 t = sector sd t"
    using Dir_WriteBack_ok [OF assms(1-3)] by blast
  have s1: "layout_ok fs sd1" using layout_frame [OF assms(1) 1(2)] 1(4) ss N by auto
  obtain sd2 where 2: "BitMap_WriteBack (freeMapFile fs) bm sd1 = Inr sd2" "disk_ok sd2" "disk_map fs sd2 = bm"
    "\<forall>t. 0 \<le> t \<and> t < NumSectors \<and> t \<notin> ?M \<longrightarrow> sector sd2 t = sector sd1 t"
    using BitMap_WriteBack_ok [OF s1 assms(4,5)] by blast
  have d2: "disk_dir fs sd2 = d" using disk_dir_frame [of fs sd2 sd1] 1(3) 2(4) inD by blast
  then have "system_ok fs sd2" using layout_frame [OF s1 2(2)] 2(4) ss N assms(2) by (auto simp: system_ok_def)
  then show "\<exists>sd1 sd2. Dir_WriteBack (directoryFile fs) d sd = Inr sd1 \<and> BitMap_WriteBack (freeMapFile fs) bm sd1 = Inr sd2 \<and>
      system_ok fs sd2 \<and> disk_dir fs sd2 = d \<and> disk_map fs sd2 = bm \<and>
      (\<forall>t. 0 \<le> t \<and> t < NumSectors \<and> t \<notin> system_space fs - {0, 1} \<longrightarrow> sector sd2 t = sector sd t)"
    using 1 2 d2 unfolding sp by (intro exI [of _ sd1] exI [of _ sd2]) auto
  obtain sd3 where 3: "BitMap_WriteBack (freeMapFile fs) bm sd = Inr sd3" "disk_ok sd3" "disk_map fs sd3 = bm"
    "\<forall>t. 0 \<le> t \<and> t < NumSectors \<and> t \<notin> ?M \<longrightarrow> sector sd3 t = sector sd t"
    using BitMap_WriteBack_ok [OF assms(1,4,5)] by blast
  have s3: "layout_ok fs sd3" using layout_frame [OF assms(1) 3(2)] 3(4) ss N by auto
  obtain sd4 where 4: "Dir_WriteBack (directoryFile fs) d sd3 = Inr sd4" "disk_ok sd4" "disk_dir fs sd4 = d"
    "\<forall>t. 0 \<le> t \<and> t < NumSectors \<and> t \<notin> ?D \<longrightarrow> sector sd4 t = sector sd3 t"
    using Dir_WriteBack_ok [OF s3 assms(2,3)] by blast
  have "disk_map fs sd4 = bm" using disk_map_frame [of fs sd4 sd3] 3(3) 4(4) inM by blast
  moreover have "system_ok fs sd4" using layout_frame [OF s3 4(2)] 4(3,4) ss N assms(2) by (auto simp: system_ok_def)
  ultimately show "\<exists>sd1 sd2. BitMap_WriteBack (freeMapFile fs) bm sd = Inr sd1 \<and> Dir_WriteBack (directoryFile fs) d sd1 = Inr sd2 \<and>
      system_ok fs sd2 \<and> disk_dir fs sd2 = d \<and> disk_map fs sd2 = bm \<and>
      (\<forall>t. 0 \<le> t \<and> t < NumSectors \<and> t \<notin> system_space fs - {0, 1} \<longrightarrow> sector sd2 t = sector sd t)"
    using 3 4 unfolding sp by (intro exI [of _ sd3] exI [of _ sd4]) auto
qed

section \<open>Creating a file\<close>

definition room_for :: "byte list \<Rightarrow> int \<Rightarrow> FileSystem \<Rightarrow> SynchDisk \<Rightarrow> bool" where
  "room_for nm sz fs sd \<longleftrightarrow> dir_view (disk_dir fs sd) (key_of nm) = None \<and> \<not> dir_full (disk_dir fs sd) \<and>
     1 + sectors_needed sz \<le> free_sectors (disk_map fs sd)"

lemma disk_dir_facts:
  assumes "system_ok fs sd"
  shows "dir_ok (disk_dir fs sd)" "tableSize (disk_dir fs sd) = NumDirEntries"
  using assms by (simp_all add: system_ok_def layout_ok_def disk_dir_def)

lemma dir_view_nonneg: "dir_ok d \<Longrightarrow> dir_view d k = Some s \<Longrightarrow> 0 \<le> s"
  by (auto simp: dir_view_iff dir_ok_def)

lemma free_sectors_full: "used fm \<subseteq> {0..<NumSectors} \<Longrightarrow> used fm = {0..<NumSectors} \<longleftrightarrow> free_sectors fm = 0"
  by (auto simp: free_sectors_def)

lemma free_sectors_insert:
  assumes "used fm1 = insert s (used fm)" "s \<notin> used fm" "0 \<le> s" "s < NumSectors"
  shows "free_sectors fm1 = free_sectors fm - 1"
proof -
  have "{0..<NumSectors} - used fm1 = ({0..<NumSectors} - used fm) - {s}" using assms(1) by auto
  moreover have "s \<in> {0..<NumSectors} - used fm" using assms by auto
  ultimately show ?thesis unfolding free_sectors_def
    by (metis card_Suc_Diff1 add_diff_cancel_left' finite_Diff finite_atLeastLessThan_int of_nat_Suc)
qed

lemma new_header_facts: "length (dataSectors (new_header sd)) = NumDirect" "\<forall>s \<in> set (dataSectors (new_header sd)). is_int32 s"
  by (auto simp: new_header_def hdr_of_bytes_def)

lemma sector_is_int32: "0 \<le> s \<Longrightarrow> s < NumSectors \<Longrightarrow> is_int32 s"
  by (simp add: is_int32_def disk_sizes)

text \<open>The part of \<open>Create\<close> that only looks: the directory and the bitmap are read, then the decision falls.\<close>

lemma Create_reads:
  assumes "system_ok fs sd" "0 \<notin> set nm"
  shows "\<exists>sd2. same_data sd2 sd \<and> Create nm sz fs sd =
    (if dir_view (disk_dir fs sd) (key_of nm) \<noteq> None then Inr (False, sd2)
     else rbind (Find (disk_map fs sd)) (\<lambda>(s, fm1).
          if s = -1 then Inr (False, sd2)
          else rbind (Dir_Add nm s (disk_dir fs sd)) (\<lambda>(added, directory1).
               if \<not> added then Inr (False, sd2)
               else rbind (Allocate fm1 sz (new_header sd2)) (\<lambda>(ok, h, fm2).
                    if \<not> ok then Inr (False, sd2)
                    else rbind (Hdr_WriteBack s h sd2) (\<lambda>sd3.
                         rbind (Dir_WriteBack (directoryFile fs) directory1 sd3) (\<lambda>sd4.
                         rbind (BitMap_WriteBack (freeMapFile fs) fm2 sd4) (\<lambda>sd5.
                           Inr (True, sd5))))))))"
proof -
  note d = disk_dir_facts [OF assms(1)]
  obtain sd1 where 1: "Dir_FetchFrom (directoryFile fs) (Directory_new NumDirEntries sd) sd = Inr (disk_dir fs sd, sd1)"
    "same_data sd1 sd" using Dir_FetchFrom_ok [OF assms(1)] by blast
  note s1 = same_data_fs [OF 1(2) assms(1)]
  obtain fm0 where fm0: "new_bitmap sd1 = Inr fm0" "bitmap_ok fm0" "numBits fm0 = NumSectors" using new_bitmap_ok by blast
  obtain sd2 where 2: "BitMap_FetchFrom (freeMapFile fs) fm0 sd1 = Inr (disk_map fs sd, sd2)" "same_data sd2 sd1"
    using BitMap_FetchFrom_ok [OF s1(4) fm0(2,3)] s1(2) by metis
  have look: "Dir_Find nm (disk_dir fs sd) = Inr (case dir_view (disk_dir fs sd) (key_of nm) of None \<Rightarrow> -1 | Some s \<Rightarrow> s)"
    by (rule dir.look_law [OF d(1) assms(2)])
  show ?thesis
  proof (cases "dir_view (disk_dir fs sd) (key_of nm)")
    case (Some s)
    then have "s \<noteq> -1" using dir_view_nonneg [OF d(1)] by force
    then show ?thesis using Some look 1 by (intro exI [of _ sd1]) (simp add: Create_def)
  next
    case None
    show ?thesis
      by (intro exI [of _ sd2] conjI same_data_trans [OF 2(2) 1(2)])
         (simp add: Create_def 1(1) look None fm0(1) 2(1))
  qed
qed

lemma Create_fails:
  assumes sys: "system_ok fs sd" and nm: "0 \<notin> set nm" and sz: "0 \<le> sz" and no: "\<not> room_for nm sz fs sd"
  shows "\<exists>sd'. Create nm sz fs sd = Inr (False, sd') \<and> same_data sd' sd"
proof -
  let ?d = "disk_dir fs sd" and ?fm = "disk_map fs sd"
  note d = disk_dir_facts [OF sys]
  obtain sd2 where sd2: "same_data sd2 sd" and C: "Create nm sz fs sd =
    (if dir_view ?d (key_of nm) \<noteq> None then Inr (False, sd2)
     else rbind (Find ?fm) (\<lambda>(s, fm1).
          if s = -1 then Inr (False, sd2)
          else rbind (Dir_Add nm s ?d) (\<lambda>(added, directory1).
               if \<not> added then Inr (False, sd2)
               else rbind (Allocate fm1 sz (new_header sd2)) (\<lambda>(ok, h, fm2).
                    if \<not> ok then Inr (False, sd2)
                    else rbind (Hdr_WriteBack s h sd2) (\<lambda>sd3.
                         rbind (Dir_WriteBack (directoryFile fs) directory1 sd3) (\<lambda>sd4.
                         rbind (BitMap_WriteBack (freeMapFile fs) fm2 sd4) (\<lambda>sd5.
                           Inr (True, sd5))))))))"
    using Create_reads [OF sys nm] by blast
  have "Create nm sz fs sd = Inr (False, sd2)"
  proof (cases "dir_view ?d (key_of nm) \<noteq> None \<or> used ?fm = {0..<numBits ?fm}")
    case True then show ?thesis using C bm.find_full [OF disk_map_ok(1)] by auto
  next
    case False
    obtain s fm1 where s: "Find ?fm = Inr (s, fm1)" "s \<notin> used ?fm" "0 \<le> s" "s < NumSectors" "bitmap_ok fm1"
      "numBits fm1 = NumSectors" "used fm1 = insert s (used ?fm)"
      using bm.find_law [OF disk_map_ok(1), of fs sd] False disk_map_ok(2) [of fs sd] by auto
    show ?thesis
    proof (cases "dir_full ?d")
      case True
      then have "Dir_Add nm s ?d = Inr (False, ?d)"
        using dir.add_refused [OF d(1) nm] s sector_is_int32 by blast
      then show ?thesis using C False s(1,3) by auto
    next
      case nf: False
      have "key_of nm \<notin> dom (dir_view ?d)" "0 \<le> s \<and> is_int32 s"
        using False s(3,4) sector_is_int32 by (simp_all add: domIff)
      then obtain d1 where d1: "Dir_Add nm s ?d = Inr (True, d1)"
        using dir.add_law [OF d(1) nm _ _ nf] by blast
      have "free_sectors fm1 < sectors_needed sz"
        using no nf False free_sectors_insert [OF s(7,2,3,4)] by (auto simp: room_for_def)
      then obtain h where "Allocate fm1 sz (new_header sd2) = Inr (False, h, fm1)"
        using Allocate_unfold [OF s(5,6)] by (auto simp: Let_def)
      then show ?thesis using C False s(1,3) d1 by auto
    qed
  qed
  then show ?thesis using sd2 by blast
qed

lemma Create_allocates:
  assumes sys: "system_ok fs sd" and nm: "0 \<notin> set nm" and sz: "0 \<le> sz" and room: "room_for nm sz fs sd"
  obtains s fm1 d1 sd2 where "s \<notin> used (disk_map fs sd)" "0 \<le> s" "s < NumSectors" "bitmap_ok fm1"
    "numBits fm1 = NumSectors" "used fm1 = insert s (used (disk_map fs sd))" "sectors_needed sz \<le> free_sectors fm1"
    "dir_ok d1" "tableSize d1 = NumDirEntries" "dir_view d1 = (dir_view (disk_dir fs sd))(key_of nm \<mapsto> s)"
    "same_data sd2 sd"
    "Create nm sz fs sd = rbind (Allocate fm1 sz (new_header sd2)) (\<lambda>(ok, h, fm2).
                    if \<not> ok then Inr (False, sd2)
                    else rbind (Hdr_WriteBack s h sd2) (\<lambda>sd3.
                         rbind (Dir_WriteBack (directoryFile fs) d1 sd3) (\<lambda>sd4.
                         rbind (BitMap_WriteBack (freeMapFile fs) fm2 sd4) (\<lambda>sd5.
                           Inr (True, sd5)))))"
proof -
  let ?d = "disk_dir fs sd" and ?fm = "disk_map fs sd"
  note d = disk_dir_facts [OF sys]
  have r: "dir_view ?d (key_of nm) = None" "\<not> dir_full ?d" "1 + sectors_needed sz \<le> free_sectors ?fm"
    using room by (simp_all add: room_for_def)
  have "free_sectors ?fm \<noteq> 0" using r(3) sectors_needed_bounds [OF sz] by linarith
  then have "used ?fm \<noteq> {0..<numBits ?fm}" unfolding disk_map_ok(2) by (auto simp: free_sectors_def)
  then obtain s fm1 where s: "Find ?fm = Inr (s, fm1)" "s \<notin> used ?fm" "0 \<le> s" "s < NumSectors" "bitmap_ok fm1"
      "numBits fm1 = NumSectors" "used fm1 = insert s (used ?fm)"
    using bm.find_law [OF disk_map_ok(1), of fs sd] disk_map_ok(2) [of fs sd] by auto
  obtain d1 where d1: "Dir_Add nm s ?d = Inr (True, d1)" "dir_ok d1" "tableSize d1 = NumDirEntries"
      "dir_view d1 = (dir_view ?d)(key_of nm \<mapsto> s)"
    using Dir_Add_correct(2) [OF d(1) nm s(3)] s(3,4) r(1,2) d(2) sector_is_int32 by (auto simp: domIff)
  obtain sd2 where sd2: "same_data sd2 sd" and C: "Create nm sz fs sd =
    (if dir_view ?d (key_of nm) \<noteq> None then Inr (False, sd2)
     else rbind (Find ?fm) (\<lambda>(s, fm1).
          if s = -1 then Inr (False, sd2)
          else rbind (Dir_Add nm s ?d) (\<lambda>(added, directory1).
               if \<not> added then Inr (False, sd2)
               else rbind (Allocate fm1 sz (new_header sd2)) (\<lambda>(ok, h, fm2).
                    if \<not> ok then Inr (False, sd2)
                    else rbind (Hdr_WriteBack s h sd2) (\<lambda>sd3.
                         rbind (Dir_WriteBack (directoryFile fs) directory1 sd3) (\<lambda>sd4.
                         rbind (BitMap_WriteBack (freeMapFile fs) fm2 sd4) (\<lambda>sd5.
                           Inr (True, sd5))))))))"
    using Create_reads [OF sys nm] by blast
  show ?thesis
    by (rule that [OF s(2-7) _ d1(2-4) sd2])
       (use r s free_sectors_insert [OF s(7,2,3,4)] in \<open>simp_all add: C d1(1)\<close>)
qed

text \<open>
  A file of more than \<open>NumDirect\<close> sectors for which the disk has room overruns the header.
\<close>

lemma Create_overrun:
  assumes "system_ok fs sd" "0 \<notin> set nm" "0 \<le> sz" "room_for nm sz fs sd" "int NumDirect < sectors_needed sz"
  shows "Create nm sz fs sd = Inl BadIndex"
  by (rule Create_allocates [OF assms(1-4)])
     (simp add: Allocate_overrun [OF _ _ new_header_facts(1) _ assms(5)])

text \<open>The three writes of a successful \<open>Create\<close>, and the invariant after them.\<close>

lemma Create_flush:
  assumes fs: "fs_ok fs sd" and s: "s \<notin> used (disk_map fs sd)" "0 \<le> s" "s < NumSectors"
    and h: "hdr_ok h" "hdr_int32 h" "set (file_sectors h) \<inter> insert s (used (disk_map fs sd)) = {}"
    and fm: "bitmap_ok fm" "numBits fm = NumSectors" "used fm = insert s (used (disk_map fs sd)) \<union> set (file_sectors h)"
    and d: "dir_ok d" "tableSize d = NumDirEntries" "dir_view d = (dir_view (disk_dir fs sd))(k \<mapsto> s)"
    and k: "dir_view (disk_dir fs sd) k = None"
  shows "\<exists>sd1 sd2 sd3. Hdr_WriteBack s h sd = Inr sd1 \<and> Dir_WriteBack (directoryFile fs) d sd1 = Inr sd2 \<and>
    BitMap_WriteBack (freeMapFile fs) fm sd2 = Inr sd3 \<and> fs_ok fs sd3 \<and>
    fs_view fs sd3 = (fs_view fs sd)(k \<mapsto> file_bytes sd3 h) \<and> fs_blocks fs sd3 = (fs_blocks fs sd)(k \<mapsto> numSectors h)"
proof -
  let ?view = "dir_view (disk_dir fs sd)" and ?base = "system_space fs"
  have sys: "system_ok fs sd" and fok: "files_ok ?base ?view sd" and us: "used (disk_map fs sd) = owned ?base ?view sd"
    using fs by (simp_all add: fs_ok_def)
  have sb: "s \<notin> ?base" using s(1) us by (auto simp: owned_def)
  obtain sd1 where 1: "Hdr_WriteBack s h sd = Inr sd1" "disk_ok sd1" "sector sd1 s = hdr_bytes h"
    "\<forall>t. 0 \<le> t \<and> t < NumSectors \<and> t \<noteq> s \<longrightarrow> sector sd1 t = sector sd t"
    using sd.wr_law [of sd s "hdr_bytes h"] sys s h(2)
    by (auto simp: Hdr_WriteBack_def system_ok_def layout_ok_def length_hdr_bytes hdr_int32_def)
  note ss = system_sectors [OF system_layout [OF sys]]
  have base: "sector sd1 t = sector sd t" if "t \<in> ?base" for t
  proof -
    have "0 \<le> t \<and> t < NumSectors \<and> t \<noteq> s" using that sb ss(8) by auto
    then show ?thesis using 1(4) by blast
  qed
  have dir1: "disk_dir fs sd1 = disk_dir fs sd"
    by (rule disk_dir_frame) (use base in \<open>auto simp: system_space_def\<close>)
  have sys1: "system_ok fs sd1"
    using system_ok_frame [OF sys 1(2)] base dir1 disk_dir_facts(1) [OF sys] by (simp add: system_space_def fs_sizes)
  obtain sd2 sd3 where 2: "Dir_WriteBack (directoryFile fs) d sd1 = Inr sd2" "BitMap_WriteBack (freeMapFile fs) fm sd2 = Inr sd3"
    "system_ok fs sd3" "disk_dir fs sd3 = d" "disk_map fs sd3 = fm"
    "\<forall>t. 0 \<le> t \<and> t < NumSectors \<and> t \<notin> ?base - {0, 1} \<longrightarrow> sector sd3 t = sector sd1 t"
    using flush_both(1) [OF system_layout [OF sys1] d(1,2) fm(1,2)] by blast
  have frame: "\<forall>k' s' t. ?view k' = Some s' \<longrightarrow> t \<in> space sd s' \<longrightarrow> sector sd3 t = sector sd t"
  proof (intro allI impI)
    fix k' s' t assume that: "?view k' = Some s'" "t \<in> space sd s'"
    have "t \<in> used (disk_map fs sd)" using that us by (auto simp: owned_iff)
    then have "t \<noteq> s" "0 \<le> t" "t < NumSectors" using s(1) used_subset [of "disk_map fs sd"] disk_map_ok(2) [of fs sd] by auto
    moreover have "t \<notin> ?base" using fok that unfolding files_ok_def by blast
    ultimately show "sector sd3 t = sector sd t" using 1(4) 2(6) by auto
  qed
  note ff = files_frame [OF frame]
  have hs: "hdr_at sd3 s = h"
    using 2(6) s sb 1(3) hdr_roundtrip [OF h(2)] by (simp add: hdr_at_def)
  have "space sd3 s \<inter> owned ?base ?view sd3 = {}" using h(3) s(1) us by (auto simp: space_def hs ff(2))
  note ins = files_ok_insert [OF ff(1) [OF fok] k s(2,3) _ _ this, unfolded hs, OF h(1)]
  have sn: "s \<notin> set (file_sectors h)" using h(3) by auto
  have "fs_ok fs sd3"
    using 2(3,4,5) ins [OF sn] fm(3) us by (auto simp: fs_ok_def d(3) ff(2) space_def hs)
  moreover have "fs_view fs sd3 = (fs_view fs sd)(k \<mapsto> file_bytes sd3 h)"
    using ff(4) hs by (auto simp: fs_view_def 2(4) d(3) fun_eq_iff map_option_case split: option.split)
  moreover have "fs_blocks fs sd3 = (fs_blocks fs sd)(k \<mapsto> numSectors h)"
    using ff(3) hs by (auto simp: fs_blocks_def 2(4) d(3) fun_eq_iff map_option_case split: option.split)
  ultimately show ?thesis using 1(1) 2(1,2) by blast
qed

lemma Create_ok:
  assumes fs: "fs_ok fs sd" and nm: "0 \<notin> set nm" and sz: "0 \<le> sz" "is_int32 sz"
    and room: "room_for nm sz fs sd" "sectors_needed sz \<le> int NumDirect"
  shows "\<exists>sd' bs. Create nm sz fs sd = Inr (True, sd') \<and> fs_ok fs sd' \<and>
    fs_view fs sd' = (fs_view fs sd)(key_of nm \<mapsto> bs) \<and> int (length bs) = sz \<and>
    fs_blocks fs sd' = (fs_blocks fs sd)(key_of nm \<mapsto> sectors_needed sz)"
proof -
  have sys: "system_ok fs sd" using fs by (simp add: fs_ok_def)
  show ?thesis
  proof (rule Create_allocates [OF sys nm sz(1) room(1)])
    fix s fm1 d1 sd2
    assume a: "s \<notin> used (disk_map fs sd)" "0 \<le> s" "s < NumSectors" "bitmap_ok fm1"
      "numBits fm1 = NumSectors" "used fm1 = insert s (used (disk_map fs sd))" "sectors_needed sz \<le> free_sectors fm1"
      "dir_ok d1" "tableSize d1 = NumDirEntries" "dir_view d1 = (dir_view (disk_dir fs sd))(key_of nm \<mapsto> s)"
      "same_data sd2 sd"
      and C: "Create nm sz fs sd = rbind (Allocate fm1 sz (new_header sd2)) (\<lambda>(ok, h, fm2).
                    if \<not> ok then Inr (False, sd2)
                    else rbind (Hdr_WriteBack s h sd2) (\<lambda>sd3.
                         rbind (Dir_WriteBack (directoryFile fs) d1 sd3) (\<lambda>sd4.
                         rbind (BitMap_WriteBack (freeMapFile fs) fm2 sd4) (\<lambda>sd5.
                           Inr (True, sd5)))))"
    note same = same_data_fs [OF a(11) sys]
    obtain h fm2 where h: "Allocate fm1 sz (new_header sd2) = Inr (True, h, fm2)" "hdr_ok h" "numBytes h = sz"
      "set (dataSectors h) \<subseteq> set (dataSectors (new_header sd2)) \<union> {0..<NumSectors}" "bitmap_ok fm2" "numBits fm2 = NumSectors"
      "set (file_sectors h) \<inter> used fm1 = {}" "used fm2 = used fm1 \<union> set (file_sectors h)" "numSectors h = sectors_needed sz"
      using Allocate_ok [OF a(4,5) sz(1) new_header_facts(1) a(7) room(2)] by blast
    have "numSectors h \<le> 30" "0 \<le> numSectors h" "length (dataSectors h) = NumDirect"
      using h(2) file_sectors_facts(4) [OF h(2)] by (auto simp: hdr_ok_def NumDirect_def SectorSize_def)
    then have "hdr_int32 h" using h(3,4) sz(2) new_header_facts(2) [of sd2] sector_is_int32
      by (auto simp: hdr_int32_def is_int32_def)
    then obtain sd3 sd4 sd5 where f: "Hdr_WriteBack s h sd2 = Inr sd3" "Dir_WriteBack (directoryFile fs) d1 sd3 = Inr sd4"
      "BitMap_WriteBack (freeMapFile fs) fm2 sd4 = Inr sd5" "fs_ok fs sd5"
      "fs_view fs sd5 = (fs_view fs sd2)(key_of nm \<mapsto> file_bytes sd5 h)" "fs_blocks fs sd5 = (fs_blocks fs sd2)(key_of nm \<mapsto> numSectors h)"
      using Create_flush [of fs sd2 s h fm2 d1 "key_of nm"] a h fs same room(1) by (auto simp: room_for_def)
    have "disk_ok sd5" using f(4) by (simp add: fs_ok_def system_ok_def layout_ok_def)
    then have "length (file_bytes sd5 h) = nat sz" using length_file_bytes [OF _ h(2)] h(3) by simp
    moreover have "fs_blocks fs sd2 = fs_blocks fs sd" using same(1,3) by (simp add: fs_blocks_def fun_eq_iff)
    ultimately show ?thesis using C h(1,9) f same(6) sz(1) by (intro exI [of _ sd5] exI [of _ "file_bytes sd5 h"]) auto
  qed
qed

section \<open>Opening, writing and removing a file\<close>

lemma Hdr_FetchFrom_ok:
  assumes "disk_ok sd" "0 \<le> s" "s < NumSectors"
  shows "\<exists>sd'. Hdr_FetchFrom s sd = Inr (hdr_at sd s, sd') \<and> same_data sd' sd"
  using sd.rd_law [OF assms] by (auto simp: Hdr_FetchFrom_def hdr_at_def same_data_def)

lemma OpenFile_new_ok:
  assumes "disk_ok sd" "0 \<le> s" "s < NumSectors"
  shows "\<exists>sd'. OpenFile_new s sd = Inr (\<lparr>hdr = hdr_at sd s, seekPosition = 0\<rparr>, sd') \<and> same_data sd' sd"
  using Hdr_FetchFrom_ok [OF assms] by (auto simp: OpenFile_new_def)

lemma Open_correct:
  assumes fs: "fs_ok fs sd" and nm: "0 \<notin> set nm"
  shows "\<exists>r sd'. Open nm fs sd = Inr (r, sd') \<and> same_data sd' sd \<and>
    r = map_option (\<lambda>s. \<lparr>hdr = hdr_at sd s, seekPosition = 0\<rparr>) (dir_view (disk_dir fs sd) (key_of nm))"
proof -
  have sys: "system_ok fs sd" using fs by (simp add: fs_ok_def)
  note d = disk_dir_facts [OF sys]
  obtain sd1 where 1: "Dir_FetchFrom (directoryFile fs) (Directory_new NumDirEntries sd) sd = Inr (disk_dir fs sd, sd1)"
    "same_data sd1 sd" using Dir_FetchFrom_ok [OF sys] by blast
  note look = dir.look_law [OF d(1) nm]
  show ?thesis
  proof (cases "dir_view (disk_dir fs sd) (key_of nm)")
    case None
    then show ?thesis using 1 look by (simp add: Open_def)
  next
    case (Some s)
    then have s: "0 \<le> s" "s < NumSectors" using fs unfolding fs_ok_def files_ok_def by blast+
    have "disk_ok sd1" "hdr_at sd1 = hdr_at sd" using 1(2) same_data_fs [OF 1(2) sys] by (simp_all add: same_data_def)
    then obtain sd2 where "OpenFile_new s sd1 = Inr (\<lparr>hdr = hdr_at sd s, seekPosition = 0\<rparr>, sd2)" "same_data sd2 sd1"
      using OpenFile_new_ok [OF _ s] by metis
    then show ?thesis using 1 look Some s(1) same_data_trans [of sd2 sd1 sd] by (simp add: Open_def)
  qed
qed

text \<open>Writing to an open file changes that file only, and the file stays open.\<close>

lemma write_named_file:
  assumes fs: "fs_ok fs sd" and k: "dir_view (disk_dir fs sd) k = Some s" and f: "hdr f = hdr_at sd s"
    and i: "is_int32 (int p + int n)" and fr: "n \<le> length from"
  shows "\<exists>m sd' old. WriteAt from (int n) (int p) f sd = Inr (int m, sd') \<and> fs_ok fs sd' \<and>
    fs_view fs sd k = Some old \<and> m = min n (length old - p) \<and>
    fs_view fs sd' = (fs_view fs sd)(k \<mapsto> overwrite p (take m from) old) \<and>
    dir_view (disk_dir fs sd') k = Some s \<and> hdr f = hdr_at sd' s \<and> fs_blocks fs sd' = fs_blocks fs sd"
proof -
  let ?view = "dir_view (disk_dir fs sd)" and ?base = "system_space fs"
  have sys: "system_ok fs sd" and fok: "files_ok ?base ?view sd" and us: "used (disk_map fs sd) = owned ?base ?view sd"
    using fs by (simp_all add: fs_ok_def)
  have ok: "disk_ok sd" "hdr_ok (hdr f)" "s \<notin> set (file_sectors (hdr f))" "space sd s \<inter> ?base = {}" "0 \<le> s" "s < NumSectors"
    using sys fok k f unfolding files_ok_def system_ok_def layout_ok_def by auto
  obtain m sd' where m: "WriteAt from (int n) (int p) f sd = Inr (int m, sd')" "m = min n (nat (numBytes (hdr f)) - p)"
    "disk_ok sd'" "file_bytes sd' (hdr f) = overwrite p (take m from) (file_bytes sd (hdr f))"
    "\<forall>t. 0 \<le> t \<and> t < NumSectors \<and> t \<notin> set (file_sectors (hdr f)) \<longrightarrow> sector sd' t = sector sd t"
    using WriteAt_correct [OF ok(1,2) i fr] by blast
  note ss = system_sectors [OF system_layout [OF sys]]
  have base: "sector sd' t = sector sd t" if "t \<in> ?base" for t
  proof -
    have "0 \<le> t \<and> t < NumSectors \<and> t \<notin> set (file_sectors (hdr f))" using that ok(4) ss(8) f by (auto simp: space_def)
    then show ?thesis using m(5) by blast
  qed
  have dir': "disk_dir fs sd' = disk_dir fs sd" by (rule disk_dir_frame) (use base in \<open>auto simp: system_space_def\<close>)
  have map': "disk_map fs sd' = disk_map fs sd" by (rule disk_map_frame) (use base in \<open>auto simp: system_space_def\<close>)
  have sys': "system_ok fs sd'"
    using system_ok_frame [OF sys m(3)] base dir' disk_dir_facts(1) [OF sys] by (simp add: system_space_def fs_sizes)
  have other: "sector sd' t = sector sd t" if "?view k' = Some s'" "t \<in> space sd s'" "k' \<noteq> k \<or> t = s" for k' s' t
  proof -
    have "t \<in> used (disk_map fs sd)" using that us by (auto simp: owned_iff)
    then have r: "0 \<le> t" "t < NumSectors" using used_subset [of "disk_map fs sd"] disk_map_ok(2) [of fs sd] by auto
    have "t \<notin> set (file_sectors (hdr f))"
    proof (cases "t = s")
      case True then show ?thesis using ok(3) by simp
    next
      case False
      then have "space sd s' \<inter> space sd s = {}" using fok that k unfolding files_ok_def by blast
      then show ?thesis using that(2) f by (auto simp: space_def)
    qed
    then show ?thesis using m(5) r by blast
  qed
  have h: "hdr_at sd' s' = hdr_at sd s'" if "?view k' = Some s'" for k' s'
  proof -
    have "sector sd' s' = sector sd s'" using other [OF that, of s'] that k by (cases "k' = k") (auto simp: space_def)
    then show ?thesis by (simp add: hdr_at_def)
  qed
  have "files_ok ?base ?view sd'" by (rule files_ok_cong [OF h fok])
  moreover have "owned ?base ?view sd' = owned ?base ?view sd"
    using h unfolding set_eq_iff owned_iff space_def by metis
  ultimately have "fs_ok fs sd'" using sys' us by (simp add: fs_ok_def dir' map')
  moreover have "fs_view fs sd' = (fs_view fs sd)(k \<mapsto> overwrite p (take m from) (file_bytes sd (hdr f)))"
  proof
    fix k'
    show "fs_view fs sd' k' = ((fs_view fs sd)(k \<mapsto> overwrite p (take m from) (file_bytes sd (hdr f)))) k'"
    proof (cases "?view k'")
      case None then show ?thesis using k by (auto simp: fs_view_def dir')
    next
      case (Some s')
      show ?thesis
      proof (cases "k' = k")
        case True then show ?thesis using k h [OF k] m(4) f by (simp add: fs_view_def dir')
      next
        case False
        have "\<forall>t \<in> set (file_sectors (hdr_at sd s')). sector sd' t = sector sd t"
          using other [OF Some] False by (simp add: space_def)
        then show ?thesis using Some False h [OF Some] file_bytes_frame [of "hdr_at sd s'" sd' sd]
          by (simp add: fs_view_def dir')
      qed
    qed
  qed
  moreover have "fs_view fs sd k = Some (file_bytes sd (hdr f))" using k f by (simp add: fs_view_def)
  moreover have "dir_view (disk_dir fs sd') k = Some s \<and> hdr f = hdr_at sd' s" using k f h [OF k] by (simp add: dir')
  moreover have "fs_blocks fs sd' = fs_blocks fs sd" using h by (auto simp: fs_blocks_def dir' fun_eq_iff map_option_case split: option.split)
  ultimately show ?thesis using m(1,2) length_file_bytes [OF ok(1,2)] by auto
qed

lemma Remove_correct:
  assumes fs: "fs_ok fs sd" and nm: "0 \<notin> set nm"
  shows "dir_view (disk_dir fs sd) (key_of nm) = None \<Longrightarrow> \<exists>sd'. FS_Remove nm fs sd = Inr (False, sd') \<and> same_data sd' sd"
    "dir_view (disk_dir fs sd) (key_of nm) \<noteq> None \<Longrightarrow> \<exists>sd'. FS_Remove nm fs sd = Inr (True, sd') \<and> fs_ok fs sd' \<and>
       fs_view fs sd' = (fs_view fs sd)(key_of nm := None) \<and> fs_blocks fs sd' = (fs_blocks fs sd)(key_of nm := None)"
proof -
  let ?view = "dir_view (disk_dir fs sd)" and ?base = "system_space fs"
  have sys: "system_ok fs sd" and fok: "files_ok ?base ?view sd" and us: "used (disk_map fs sd) = owned ?base ?view sd"
    using fs by (simp_all add: fs_ok_def)
  note d = disk_dir_facts [OF sys]
  obtain sd1 where 1: "Dir_FetchFrom (directoryFile fs) (Directory_new NumDirEntries sd) sd = Inr (disk_dir fs sd, sd1)"
    "same_data sd1 sd" using Dir_FetchFrom_ok [OF sys] by blast
  note look = dir.look_law [OF d(1) nm]
  show "\<exists>sd'. FS_Remove nm fs sd = Inr (False, sd') \<and> same_data sd' sd" if "?view (key_of nm) = None"
    using that 1 look by (simp add: FS_Remove_def)
  show "\<exists>sd'. FS_Remove nm fs sd = Inr (True, sd') \<and> fs_ok fs sd' \<and>
       fs_view fs sd' = (fs_view fs sd)(key_of nm := None) \<and> fs_blocks fs sd' = (fs_blocks fs sd)(key_of nm := None)" if ex: "?view (key_of nm) \<noteq> None"
  proof -
    obtain s where s: "?view (key_of nm) = Some s" using ex by auto
    have sf: "0 \<le> s" "s < NumSectors" "hdr_ok (hdr_at sd s)" "s \<notin> set (file_sectors (hdr_at sd s))"
      using fok s unfolding files_ok_def by blast+
    have look_s: "Dir_Find nm (disk_dir fs sd) = Inr s" using look s by simp
    note s1 = same_data_fs [OF 1(2) sys]
    have "disk_ok sd1" using 1(2) by (simp add: same_data_def)
    from Hdr_FetchFrom_ok [OF this sf(1,2)]
    obtain sd2 where 2: "Hdr_FetchFrom s sd1 = Inr (hdr_at sd s, sd2)" "same_data sd2 sd1" unfolding s1(3) by blast
    have sd2: "same_data sd2 sd" by (rule same_data_trans [OF 2(2) 1(2)])
    note s2 = same_data_fs [OF sd2 sys]
    obtain fm0 where fm0: "new_bitmap sd2 = Inr fm0" "bitmap_ok fm0" "numBits fm0 = NumSectors" using new_bitmap_ok by blast
    obtain sd3 where 3: "BitMap_FetchFrom (freeMapFile fs) fm0 sd2 = Inr (disk_map fs sd, sd3)" "same_data sd3 sd2"
      using BitMap_FetchFrom_ok [OF s2(4) fm0(2,3)] s2(2) by metis
    have sd3: "same_data sd3 sd" by (rule same_data_trans [OF 3(2) sd2])
    note s3 = same_data_fs [OF sd3 sys]
    have sub: "space sd s \<subseteq> used (disk_map fs sd)" unfolding us subset_iff owned_iff using s by blast
    then have "set (file_sectors (hdr_at sd s)) \<subseteq> used (disk_map fs sd)" unfolding space_def by blast
    from Deallocate_correct [OF sf(3) disk_map_ok(1) this, unfolded disk_map_ok(2)]
    obtain fm1 where fm1: "Deallocate (hdr_at sd s) (disk_map fs sd) = Inr fm1" "bitmap_ok fm1" "numBits fm1 = NumSectors"
      "used fm1 = used (disk_map fs sd) - set (file_sectors (hdr_at sd s))" by blast
    obtain fm2 where fm2: "Clear s fm1 = Inr fm2" "bitmap_ok fm2" "numBits fm2 = NumSectors" "used fm2 = used fm1 - {s}"
      using bm.clear_law [OF fm1(2), of s] sf fm1(3) by auto
    obtain d1 where d1: "Dir_Remove nm (disk_dir fs sd) = Inr (True, d1)" "dir_ok d1" "tableSize d1 = NumDirEntries"
      "dir_view d1 = ?view(key_of nm := None)" using Dir_Remove_correct(2) [OF d(1) nm] ex d(2) by auto
    obtain sd4 sd5 where 5: "BitMap_WriteBack (freeMapFile fs) fm2 sd3 = Inr sd4" "Dir_WriteBack (directoryFile fs) d1 sd4 = Inr sd5"
      "system_ok fs sd5" "disk_dir fs sd5 = d1" "disk_map fs sd5 = fm2"
      "\<forall>t. 0 \<le> t \<and> t < NumSectors \<and> t \<notin> ?base - {0, 1} \<longrightarrow> sector sd5 t = sector sd3 t"
      using flush_both(2) [OF system_layout [OF s3(4)] d1(2,3) fm2(2,3)] by blast
    have R: "FS_Remove nm fs sd = Inr (True, sd5)"
      using sf(1) by (simp add: FS_Remove_def 1(1) look_s 2(1) fm0(1) 3(1) fm1(1) fm2(1) d1(1) 5(1,2))
    have frame: "\<forall>k' s' t. ?view k' = Some s' \<longrightarrow> t \<in> space sd s' \<longrightarrow> sector sd5 t = sector sd t"
    proof (intro allI impI)
      fix k' s' t assume t: "?view k' = Some s'" "t \<in> space sd s'"
      have "t \<in> used (disk_map fs sd)" unfolding us owned_iff using t by blast
      moreover have "t \<notin> ?base" using fok t unfolding files_ok_def by blast
      ultimately have "0 \<le> t \<and> t < NumSectors \<and> t \<notin> ?base - {0, 1}"
        using used_subset [of "disk_map fs sd"] disk_map_ok(2) [of fs sd] by auto
      then show "sector sd5 t = sector sd t" using 5(6) sd3 by (auto simp: same_data_def)
    qed
    note ff = files_frame [OF frame]
    note del = files_ok_delete [OF ff(1) [OF fok] s]
    have "space sd5 s = space sd s" using ff(3) [OF s] by (simp add: space_def)
    then have "used fm2 = owned ?base ?view sd5 - space sd5 s" using fm1(4) fm2(4) us by (auto simp: ff(2) space_def)
    then have "fs_ok fs sd5" using 5(3,4,5) del by (simp add: fs_ok_def d1(4))
    moreover have "fs_view fs sd5 = (fs_view fs sd)(key_of nm := None)"
      using ff(4) by (auto simp: fs_view_def 5(4) d1(4) fun_eq_iff map_option_case split: option.split)
    moreover have "fs_blocks fs sd5 = (fs_blocks fs sd)(key_of nm := None)"
      using ff(3) by (auto simp: fs_blocks_def 5(4) d1(4) fun_eq_iff map_option_case split: option.split)
    ultimately show ?thesis using R by blast
  qed
qed

section \<open>Formatting and mounting the disk\<close>

lemma FileSystem_open_ok:
  assumes "disk_ok sd"
  shows "\<exists>sd'. FileSystem_open sd = Inr (\<lparr>freeMapFile = \<lparr>hdr = hdr_at sd 0, seekPosition = 0\<rparr>,
     directoryFile = \<lparr>hdr = hdr_at sd 1, seekPosition = 0\<rparr>\<rparr>, sd') \<and> same_data sd' sd"
proof -
  have N: "(0::int) \<le> 0" "0 < NumSectors" "(0::int) \<le> 1" "1 < NumSectors" by (simp_all add: disk_sizes)
  obtain sd1 where 1: "OpenFile_new 0 sd = Inr (\<lparr>hdr = hdr_at sd 0, seekPosition = 0\<rparr>, sd1)" "same_data sd1 sd"
    using OpenFile_new_ok [OF assms N(1,2)] by blast
  have ok: "disk_ok sd1" and h: "hdr_at sd1 1 = hdr_at sd 1" using 1(2) by (simp_all add: same_data_def hdr_at_def)
  obtain sd2 where 2: "OpenFile_new 1 sd1 = Inr (\<lparr>hdr = hdr_at sd 1, seekPosition = 0\<rparr>, sd2)" "same_data sd2 sd1"
    using OpenFile_new_ok [OF ok N(3,4)] unfolding h by blast
  show ?thesis
    by (rule exI [of _ sd2]) (simp add: FileSystem_open_def fs_sizes 1(1) 2(1) same_data_trans [OF 2(2) 1(2)])
qed

lemma mount_reopens:
  assumes "system_ok fs sd" "seekPosition (freeMapFile fs) = 0" "seekPosition (directoryFile fs) = 0"
  shows "\<exists>sd'. FileSystem_new False sd = Inr (fs, sd') \<and> same_data sd' sd"
proof -
  have "disk_ok sd" and h: "hdr_at sd 0 = hdr (freeMapFile fs)" "hdr_at sd 1 = hdr (directoryFile fs)"
    using assms(1) by (simp_all add: system_ok_def layout_ok_def fs_sizes)
  then obtain sd' where "FileSystem_open sd = Inr (\<lparr>freeMapFile = \<lparr>hdr = hdr (freeMapFile fs), seekPosition = 0\<rparr>,
     directoryFile = \<lparr>hdr = hdr (directoryFile fs), seekPosition = 0\<rparr>\<rparr>, sd')" "same_data sd' sd"
    using FileSystem_open_ok [of sd] unfolding h by blast
  moreover have "\<lparr>freeMapFile = \<lparr>hdr = hdr (freeMapFile fs), seekPosition = 0\<rparr>,
     directoryFile = \<lparr>hdr = hdr (directoryFile fs), seekPosition = 0\<rparr>\<rparr> = fs"
    using assms(2,3) by (auto intro!: FileSystem.equality OpenFile.equality)
  ultimately show ?thesis by (auto simp: FileSystem_new_def)
qed

text \<open>The two headers that the formatter makes fit the disk and do not overlap.\<close>

lemma Directory_new_ok:
  "dir_ok (Directory_new NumDirEntries sd)" "dir_view (Directory_new NumDirEntries sd) = Map.empty"
proof -
  note new = Directory_new_facts [of sd]
  then have e: "filter inUse (table (Directory_new NumDirEntries sd)) = []" by (simp add: filter_empty_conv)
  then show "dir_view (Directory_new NumDirEntries sd) = Map.empty" by (simp add: dir_view_def)
  show "dir_ok (Directory_new NumDirEntries sd)" using new e by (auto simp: dir_ok_def keys_def)
qed

lemma header_int32:
  assumes "hdr_ok h" "is_int32 (numBytes h)" "\<forall>s \<in> set (dataSectors h). is_int32 s"
  shows "hdr_int32 h"
proof -
  have "numSectors h \<le> 30" "0 \<le> numSectors h"
    using assms(1) file_sectors_facts(4) [OF assms(1)] by (auto simp: hdr_ok_def NumDirect_def SectorSize_def)
  then show ?thesis using assms by (simp add: hdr_int32_def hdr_ok_def is_int32_def)
qed

lemma format_allocates:
  obtains fm0 fm1 fm2 fm3 fm4 mh dh where
    "new_bitmap sd = Inr fm0" "Mark FreeMapSector fm0 = Inr fm1" "Mark DirectorySector fm1 = Inr fm2"
    "Allocate fm2 FreeMapFileSize (new_header sd) = Inr (True, mh, fm3)"
    "Allocate fm3 DirectoryFileSize (new_header sd) = Inr (True, dh, fm4)"
    "hdr_ok mh" "hdr_int32 mh" "numBytes mh = FreeMapFileSize" "hdr_ok dh" "hdr_int32 dh" "numBytes dh = DirectoryFileSize"
    "distinct ([FreeMapSector, DirectorySector] @ file_sectors mh @ file_sectors dh)"
    "bitmap_ok fm4" "numBits fm4 = NumSectors"
    "used fm4 = {FreeMapSector, DirectorySector} \<union> set (file_sectors mh) \<union> set (file_sectors dh)"
proof -
  have N: "(0::int) < NumSectors" "1 < NumSectors" by (simp_all add: disk_sizes)
  obtain fm0 where 0: "new_bitmap sd = Inr fm0" "bitmap_ok fm0" "numBits fm0 = NumSectors" "used fm0 = {}"
    using new_bitmap_ok by blast
  obtain fm1 where 1: "Mark 0 fm0 = Inr fm1" "bitmap_ok fm1" "numBits fm1 = NumSectors" "used fm1 = {0}"
    using bm.mark_law [OF 0(2), of 0] 0(3,4) N by auto
  obtain fm2 where 2: "Mark 1 fm1 = Inr fm2" "bitmap_ok fm2" "numBits fm2 = NumSectors" "used fm2 = {0, 1}"
    using bm.mark_law [OF 1(2), of 1] 1(3,4) N by (auto simp: insert_commute)
  have need: "sectors_needed 128 = 1" "sectors_needed 200 = 2" "sectors_needed 128 \<le> int NumDirect" "sectors_needed 200 \<le> int NumDirect"
    by (simp_all add: sectors_needed_def divRoundUp_def SectorSize_def NumDirect_def)
  have f2: "sectors_needed 128 \<le> free_sectors fm2" unfolding need free_sectors_def 2(4)
    by (subst card_Diff_subset) (simp_all add: disk_sizes)
  obtain mh fm3 where 3: "Allocate fm2 128 (new_header sd) = Inr (True, mh, fm3)" "hdr_ok mh" "numBytes mh = 128"
      "set (dataSectors mh) \<subseteq> set (dataSectors (new_header sd)) \<union> {0..<NumSectors}" "bitmap_ok fm3" "numBits fm3 = NumSectors"
      "set (file_sectors mh) \<inter> used fm2 = {}" "used fm3 = used fm2 \<union> set (file_sectors mh)"
    using Allocate_ok [OF 2(2,3) _ new_header_facts(1) f2 need(3), of sd] by auto
  have "length (file_sectors mh) \<le> 30" using 3(2) by (auto simp: file_sectors_def hdr_ok_def NumDirect_def SectorSize_def)
  then have "card (set (file_sectors mh)) \<le> 30" using card_length order_trans by blast
  then have "card (used fm3) \<le> 32" unfolding 3(8) 2(4) using card_Un_le [of "{0,1}" "set (file_sectors mh)"] by simp
  then have f3: "sectors_needed 200 \<le> free_sectors fm3" unfolding need free_sectors_def
    using diff_card_le_card_Diff [of "used fm3" "{0..<NumSectors}"] 3(8) 2(4) by (simp add: disk_sizes)
  obtain dh fm4 where 4: "Allocate fm3 200 (new_header sd) = Inr (True, dh, fm4)" "hdr_ok dh" "numBytes dh = 200"
      "set (dataSectors dh) \<subseteq> set (dataSectors (new_header sd)) \<union> {0..<NumSectors}" "bitmap_ok fm4" "numBits fm4 = NumSectors"
      "set (file_sectors dh) \<inter> used fm3 = {}" "used fm4 = used fm3 \<union> set (file_sectors dh)"
    using Allocate_ok [OF 3(5,6) _ new_header_facts(1) f3 need(4), of sd] by auto
  have i: "hdr_int32 mh" "hdr_int32 dh"
    by (rule header_int32; use 3(2-4) 4(2-4) new_header_facts(2) [of sd] sector_is_int32 in \<open>force simp: is_int32_def\<close>)+
  have sz: "FreeMapFileSize = 128" "DirectoryFileSize = 200" by (simp_all add: fs_sizes disk_sizes)
  show ?thesis
    by (rule that [of fm0 fm1 fm2 mh fm3 dh fm4])
       (use 0 1 2 3 4 i file_sectors_facts(2) [OF 3(2)] file_sectors_facts(2) [OF 4(2)] in
         \<open>auto simp: sz FreeMapSector_def DirectorySector_def\<close>)
qed

lemma Hdr_WriteBack_ok:
  assumes "disk_ok sd" "0 \<le> s" "s < NumSectors" "hdr_int32 h"
  shows "\<exists>sd'. Hdr_WriteBack s h sd = Inr sd' \<and> disk_ok sd' \<and> hdr_at sd' s = h \<and>
    (\<forall>t. 0 \<le> t \<and> t < NumSectors \<and> t \<noteq> s \<longrightarrow> sector sd' t = sector sd t)"
proof -
  have "length (hdr_bytes h) = SectorSize" using assms(4) by (simp add: hdr_int32_def length_hdr_bytes)
  from sd.wr_law [OF assms(1-3) this] show ?thesis
    using hdr_roundtrip [OF assms(4)] by (auto simp: Hdr_WriteBack_def hdr_at_def)
qed

lemma format_headers:
  assumes "disk_ok sd" "hdr_int32 mh" "hdr_int32 dh"
  shows "\<exists>sd1 sd2 sd3. Hdr_WriteBack FreeMapSector mh sd = Inr sd1 \<and> Hdr_WriteBack DirectorySector dh sd1 = Inr sd2 \<and>
    FileSystem_open sd2 = Inr (\<lparr>freeMapFile = \<lparr>hdr = mh, seekPosition = 0\<rparr>, directoryFile = \<lparr>hdr = dh, seekPosition = 0\<rparr>\<rparr>, sd3) \<and>
    disk_ok sd3 \<and> hdr_at sd3 0 = mh \<and> hdr_at sd3 1 = dh"
proof -
  have N: "(0::int) \<le> 0" "0 < NumSectors" "(0::int) \<le> 1" "1 < NumSectors" by (simp_all add: disk_sizes)
  obtain sd1 where 1: "Hdr_WriteBack 0 mh sd = Inr sd1" "disk_ok sd1" "hdr_at sd1 0 = mh"
    using Hdr_WriteBack_ok [OF assms(1) N(1,2) assms(2)] by blast
  obtain sd2 where 2: "Hdr_WriteBack 1 dh sd1 = Inr sd2" "disk_ok sd2" "hdr_at sd2 1 = dh"
    "\<forall>t. 0 \<le> t \<and> t < NumSectors \<and> t \<noteq> 1 \<longrightarrow> sector sd2 t = sector sd1 t"
    using Hdr_WriteBack_ok [OF 1(2) N(3,4) assms(3)] by blast
  have "sector sd2 0 = sector sd1 0" using 2(4) N(2) by simp
  then have h0: "hdr_at sd2 0 = mh" using 1(3) by (simp add: hdr_at_def)
  obtain sd3 where 3: "FileSystem_open sd2 = Inr (\<lparr>freeMapFile = \<lparr>hdr = mh, seekPosition = 0\<rparr>,
     directoryFile = \<lparr>hdr = dh, seekPosition = 0\<rparr>\<rparr>, sd3)" "same_data sd3 sd2"
    using FileSystem_open_ok [OF 2(2)] unfolding h0 2(3) by blast
  have "disk_ok sd3" "hdr_at sd3 0 = mh" "hdr_at sd3 1 = dh" using 3(2) h0 2(3) by (simp_all add: same_data_def hdr_at_def)
  then show ?thesis using 1(1) 2(1) 3(1) by (auto simp: fs_sizes)
qed

lemma format_ok:
  assumes "disk_ok sd"
  shows "\<exists>fs sd'. FileSystem_new True sd = Inr (fs, sd') \<and> fs_ok fs sd' \<and> fs_view fs sd' = Map.empty \<and>
    seekPosition (freeMapFile fs) = 0 \<and> seekPosition (directoryFile fs) = 0"
proof (rule format_allocates [of sd])
  fix fm0 fm1 fm2 fm3 fm4 mh dh
  assume a: "new_bitmap sd = Inr fm0" "Mark FreeMapSector fm0 = Inr fm1" "Mark DirectorySector fm1 = Inr fm2"
    "Allocate fm2 FreeMapFileSize (new_header sd) = Inr (True, mh, fm3)"
    "Allocate fm3 DirectoryFileSize (new_header sd) = Inr (True, dh, fm4)"
    and h: "hdr_ok mh" "hdr_int32 mh" "numBytes mh = FreeMapFileSize" "hdr_ok dh" "hdr_int32 dh" "numBytes dh = DirectoryFileSize"
    and d: "distinct ([FreeMapSector, DirectorySector] @ file_sectors mh @ file_sectors dh)"
    and fm: "bitmap_ok fm4" "numBits fm4 = NumSectors"
      "used fm4 = {FreeMapSector, DirectorySector} \<union> set (file_sectors mh) \<union> set (file_sectors dh)"
  let ?fs = "\<lparr>freeMapFile = \<lparr>hdr = mh, seekPosition = 0\<rparr>, directoryFile = \<lparr>hdr = dh, seekPosition = 0\<rparr>\<rparr>"
    and ?dir = "Directory_new NumDirEntries sd"
  obtain sd1 sd2 sd3 where w: "Hdr_WriteBack FreeMapSector mh sd = Inr sd1" "Hdr_WriteBack DirectorySector dh sd1 = Inr sd2"
    "FileSystem_open sd2 = Inr (?fs, sd3)" "disk_ok sd3" "hdr_at sd3 0 = mh" "hdr_at sd3 1 = dh"
    using format_headers [OF assms h(2,5)] by blast
  have lay: "layout_ok ?fs sd3" using w(4-6) h d by (simp add: layout_ok_def FreeMapSector_def DirectorySector_def)
  have ts: "tableSize ?dir = NumDirEntries" by (simp add: Directory_new_def)
  obtain sd4 sd5 where f: "BitMap_WriteBack (freeMapFile ?fs) fm4 sd3 = Inr sd4" "Dir_WriteBack (directoryFile ?fs) ?dir sd4 = Inr sd5"
    "system_ok ?fs sd5" "disk_dir ?fs sd5 = ?dir" "disk_map ?fs sd5 = fm4"
    using flush_both(2) [OF lay Directory_new_ok(1) ts fm(1,2)] by blast
  have "FileSystem_new True sd = Inr (?fs, sd5)"
    using f(1,2) by (simp add: FileSystem_new_def a w(1-3) Let_def ASSERT_def)
  moreover have "fs_ok ?fs sd5"
    using f(3) fm(3) by (simp add: fs_ok_def f(4,5) Directory_new_ok(2) files_ok_def owned_def system_space_def)
  moreover have "fs_view ?fs sd5 = Map.empty" by (simp add: fs_view_def f(4) Directory_new_ok(2) fun_eq_iff)
  ultimately show ?thesis by (intro exI [of _ ?fs] exI [of _ sd5]) simp
qed

section \<open>The room on the disk\<close>

text \<open>The sectors that are free are those that neither the system files nor the named files have.\<close>

lemma space_card:
  assumes "hdr_ok (hdr_at sd s)" "s \<notin> set (file_sectors (hdr_at sd s))"
  shows "finite (space sd s)" "int (card (space sd s)) = 1 + numSectors (hdr_at sd s)"
  using assms(2) file_sectors_facts(1,2,4) [OF assms(1)] by (simp_all add: space_def distinct_card)

lemma finite_dir_view [simp]: "finite (dom (dir_view d))"
  by (simp add: dir_view_def finite_dom_map_of)

lemma owned_card:
  assumes "files_ok base view sd" "finite (dom view)" "finite base"
  shows "int (card (owned base view sd)) = int (card base) + (\<Sum>k \<in> dom view. 1 + numSectors (hdr_at sd (the (view k))))"
proof -
  let ?sp = "\<lambda>k. space sd (the (view k))"
  have f: "hdr_ok (hdr_at sd (the (view k)))" "the (view k) \<notin> set (file_sectors (hdr_at sd (the (view k))))" "?sp k \<inter> base = {}" if "k \<in> dom view" for k
    using assms(1) that unfolding files_ok_def by (metis domD option.sel)+
  have d: "?sp k \<inter> ?sp k' = {}" if "k \<in> dom view" "k' \<in> dom view" "k \<noteq> k'" for k k'
    using assms(1) that unfolding files_ok_def by (metis domD option.sel)
  have o: "owned base view sd = base \<union> (\<Union>k \<in> dom view. ?sp k)"
    by (auto simp: owned_iff domI) (metis domI option.sel)
  have "card (\<Union>k \<in> dom view. ?sp k) = (\<Sum>k \<in> dom view. card (?sp k))"
    using assms(2) f space_card(1) d by (intro card_UN_disjoint) blast+
  also have "int \<dots> = (\<Sum>k \<in> dom view. 1 + numSectors (hdr_at sd (the (view k))))"
    using f space_card(2) by simp
  finally have u: "int (card (\<Union>k \<in> dom view. ?sp k)) = (\<Sum>k \<in> dom view. 1 + numSectors (hdr_at sd (the (view k))))" .
  have "card (owned base view sd) = card base + card (\<Union>k \<in> dom view. ?sp k)"
    unfolding o using assms(2,3) f(3) space_card(1) [OF f(1,2)] by (intro card_Un_disjoint) auto
  then show ?thesis using u by simp
qed

lemma free_sectors_count:
  assumes "fs_ok fs sd"
  shows "free_sectors (disk_map fs sd) = NumSectors - int (card (system_space fs)) - (\<Sum>k \<in> dom (fs_blocks fs sd). 1 + the (fs_blocks fs sd k))"
proof -
  let ?view = "dir_view (disk_dir fs sd)"
  have o: "used (disk_map fs sd) = owned (system_space fs) ?view sd" "files_ok (system_space fs) ?view sd" "layout_ok fs sd"
    using assms by (simp_all add: fs_ok_def system_ok_def)
  have fin: "finite (system_space fs)" by (rule finite_subset [OF system_sectors(8) [OF o(3)]]) simp
  have sub: "used (disk_map fs sd) \<subseteq> {0..<NumSectors}" using used_subset [of "disk_map fs sd"] disk_map_ok(2) [of fs sd] by simp
  have "card (used (disk_map fs sd)) \<le> card {0..<NumSectors}" using sub by (intro card_mono) simp_all
  then have "free_sectors (disk_map fs sd) = NumSectors - int (card (used (disk_map fs sd)))"
    unfolding free_sectors_def card_Diff_subset [OF finite_subset [OF sub finite_atLeastLessThan_int] sub] by (simp add: disk_sizes)
  moreover have "dom (fs_blocks fs sd) = dom ?view" by (auto simp: fs_blocks_def dom_def)
  moreover have "(\<Sum>k \<in> dom ?view. 1 + the (fs_blocks fs sd k)) = (\<Sum>k \<in> dom ?view. 1 + numSectors (hdr_at sd (the (?view k))))"
    by (rule sum.cong) (auto simp: fs_blocks_def)
  ultimately show ?thesis using owned_card [OF o(2) finite_dir_view fin] unfolding o(1) by simp
qed

lemma dir_full_card:
  assumes "dir_ok d"
  shows "dir_full d \<longleftrightarrow> tableSize d \<le> int (card (dom (dir_view d)))"
proof -
  have "dom (dir_view d) = set (keys (table d))" by (auto simp: dir_view_def keys_def dom_map_of_conv_image_fst image_image)
  then have c: "card (dom (dir_view d)) = length (filter inUse (table d))" "tableSize d = int (length (table d))"
    using assms distinct_card [of "keys (table d)"] by (simp_all add: dir_ok_def keys_def)
  have "dir_full d \<longleftrightarrow> filter inUse (table d) = table d" by (simp add: dir_full_def filter_id_conv)
  also have "\<dots> \<longleftrightarrow> length (table d) \<le> length (filter inUse (table d))"
    by (metis filter_True length_filter_less linorder_not_less order_refl filter_id_conv)
  finally show ?thesis using c by simp
qed

section \<open>A file system without files has room\<close>

lemma system_space_card: "layout_ok fs sd \<Longrightarrow> card (system_space fs) \<le> 2 + 2 * NumDirect"
proof -
  assume "layout_ok fs sd"
  then have "length (file_sectors (hdr (freeMapFile fs))) \<le> NumDirect" "length (file_sectors (hdr (directoryFile fs))) \<le> NumDirect"
    by (auto simp: layout_ok_def hdr_ok_def file_sectors_def)
  then have "card (set (file_sectors (hdr (freeMapFile fs)))) \<le> NumDirect" "card (set (file_sectors (hdr (directoryFile fs)))) \<le> NumDirect"
    using card_length order_trans by blast+
  moreover have "card {FreeMapSector, DirectorySector} \<le> 2" by (simp add: fs_sizes)
  ultimately show ?thesis unfolding system_space_def
    by (intro order_trans [OF card_Un_le]) (use card_Un_le [of "{FreeMapSector, DirectorySector}" "set (file_sectors (hdr (freeMapFile fs)))"] in linarith)
qed

lemma no_files_view: "fs_view fs sd = Map.empty \<Longrightarrow> dir_view (disk_dir fs sd) = Map.empty"
  unfolding fs_view_def by (rule ext) (metis map_option_is_None)

lemma no_files_room:
  assumes ok: "fs_ok fs sd" and none: "fs_view fs sd = Map.empty" and sz: "sectors_needed sz \<le> 900"
  shows "room_for nm sz fs sd"
proof -
  have view: "dir_view (disk_dir fs sd) = Map.empty" using none by (rule no_files_view)
  have sys: "layout_ok fs sd" "used (disk_map fs sd) = system_space fs"
    using ok view by (auto simp: fs_ok_def system_ok_def owned_def)
  have "filter inUse (table (disk_dir fs sd)) = []"
    using view by (auto simp: dir_view_def map_of_eq_None_iff fun_eq_iff filter_empty_conv image_iff)
  moreover have "length (table (disk_dir fs sd)) = 10" by (simp add: disk_dir_def table_of_bytes_def NumDirEntries_def)
  ultimately have "\<not> dir_full (disk_dir fs sd)"
    unfolding dir_full_def by (metis filter_True length_0_conv zero_neq_numeral)
  moreover have "card ({0..<NumSectors} - system_space fs) = card {0..<NumSectors} - card (system_space fs)"
    by (rule card_Diff_subset [OF finite_subset [OF system_sectors(8) [OF sys(1)]] system_sectors(8) [OF sys(1)]]) simp
  then have "901 \<le> free_sectors (disk_map fs sd)"
    using system_space_card [OF sys(1)] by (simp add: free_sectors_def sys(2) disk_sizes NumDirect_def)
  ultimately show ?thesis using view sz by (simp add: room_for_def)
qed

end
