(* ===== verification/Nachos_FileService.thy ===== *)
theory Nachos_FileService
  imports Nachos_FileSys
begin

text \<open>
  The file system as a service: sequences of file operations, each with the abstract specification of
  its reply and of its effect on the named files, and the refinement of that specification by
  \<open>Create\<close>, \<open>Open\<close>, \<open>Remove\<close>, \<open>ReadAt\<close> and \<open>WriteAt\<close>.
\<close>

section \<open>Sequences of file operations\<close>

text \<open>
  What a program does with the file system: create, remove, and open followed by a write or a read at
  a position.  A file that cannot be opened gives \<open>NoFile\<close>.
\<close>

datatype file_op = FCreate "byte list" int | FWrite "byte list" "byte list" nat | FRead "byte list" nat nat | FRemove "byte list"

datatype reply = Done bool | NoFile | Wrote nat | Got "byte list"

definition with_file :: "byte list \<Rightarrow> FileSystem \<Rightarrow> (OpenFile \<Rightarrow> SynchDisk \<Rightarrow> (reply \<times> SynchDisk) res) \<Rightarrow> SynchDisk \<Rightarrow> (reply \<times> SynchDisk) res" where
  "with_file nm fs f sd = rbind (Open nm fs sd) (\<lambda>(r, sd1). case r of None \<Rightarrow> Inr (NoFile, sd1) | Some h \<Rightarrow> f h sd1)"

fun do_op :: "FileSystem \<Rightarrow> file_op \<Rightarrow> SynchDisk \<Rightarrow> (reply \<times> SynchDisk) res" where
  "do_op fs (FCreate nm sz) sd = rbind (Create nm sz fs sd) (\<lambda>(b, sd1). Inr (Done b, sd1))"
| "do_op fs (FRemove nm) sd = rbind (FS_Remove nm fs sd) (\<lambda>(b, sd1). Inr (Done b, sd1))"
| "do_op fs (FWrite nm bs pos) sd = with_file nm fs (\<lambda>h sd1.
     rbind (WriteAt bs (int (length bs)) (int pos) h sd1) (\<lambda>(n, sd2). Inr (Wrote (nat n), sd2))) sd"
| "do_op fs (FRead nm n pos) sd = with_file nm fs (\<lambda>h sd1.
     rbind (ReadAt (int n) (int pos) h sd1) (\<lambda>(bs, sd2). Inr (Got bs, sd2))) sd"

fun run_ops :: "('op \<Rightarrow> 's \<Rightarrow> ('r \<times> 's) res) \<Rightarrow> 'op list \<Rightarrow> 's \<Rightarrow> ('r list \<times> 's) res" where
  "run_ops f [] s = Inr ([], s)"
| "run_ops f (x # xs) s = rbind (f x s) (\<lambda>(r, s1). rbind (run_ops f xs s1) (\<lambda>(rs, s2). Inr (r # rs, s2)))"

text \<open>
  The specification: files are byte strings of a fixed length under their names, with the number of data sectors that they
  take.  \<open>c\<close> is the number of sectors that the disk has for named files; a file takes one more for its header.
\<close>

type_synonym files = "byte list \<rightharpoonup> byte list \<times> int"

definition free_room :: "int \<Rightarrow> files \<Rightarrow> int" where
  "free_room c fm = c - (\<Sum>k \<in> dom fm. 1 + snd (the (fm k)))"

definition can_create :: "int \<Rightarrow> byte list \<Rightarrow> int \<Rightarrow> files \<Rightarrow> bool" where
  "can_create c k sz fm \<longleftrightarrow> fm k = None \<and> int (card (dom fm)) < NumDirEntries \<and> 1 + sectors_needed sz \<le> free_room c fm"

inductive spec_op :: "int \<Rightarrow> file_op \<Rightarrow> files \<Rightarrow> reply \<Rightarrow> files \<Rightarrow> bool" for c where
  created: "can_create c (key_of nm) sz fm \<Longrightarrow> int (length bs) = sz \<Longrightarrow>
    spec_op c (FCreate nm sz) fm (Done True) (fm(key_of nm \<mapsto> (bs, sectors_needed sz)))"
| refused: "\<not> can_create c (key_of nm) sz fm \<Longrightarrow> spec_op c (FCreate nm sz) fm (Done False) fm"
| written: "fm (key_of nm) = Some (old, b) \<Longrightarrow> n = min (length bs) (length old - pos) \<Longrightarrow>
    spec_op c (FWrite nm bs pos) fm (Wrote n) (fm(key_of nm \<mapsto> (overwrite pos (take n bs) old, b)))"
| not_written: "fm (key_of nm) = None \<Longrightarrow> spec_op c (FWrite nm bs pos) fm NoFile fm"
| obtained: "fm (key_of nm) = Some (old, b) \<Longrightarrow> spec_op c (FRead nm n pos) fm (Got (take n (drop pos old))) fm"
| not_read: "fm (key_of nm) = None \<Longrightarrow> spec_op c (FRead nm n pos) fm NoFile fm"
| removed: "fm (key_of nm) \<noteq> None \<Longrightarrow> spec_op c (FRemove nm) fm (Done True) (fm(key_of nm := None))"
| not_removed: "fm (key_of nm) = None \<Longrightarrow> spec_op c (FRemove nm) fm (Done False) fm"

text \<open>What the disk holds, seen as the state of the specification.\<close>

definition fs_files :: "FileSystem \<Rightarrow> SynchDisk \<Rightarrow> files" where
  "fs_files fs sd k = (case fs_view fs sd k of None \<Rightarrow> None | Some bs \<Rightarrow> map_option (Pair bs) (fs_blocks fs sd k))"

definition capacity :: "FileSystem \<Rightarrow> int" where
  "capacity fs = NumSectors - int (card (system_space fs))"

inductive spec_run :: "('op \<Rightarrow> 'a \<Rightarrow> 'r \<Rightarrow> 'a \<Rightarrow> bool) \<Rightarrow> 'op list \<Rightarrow> 'a \<Rightarrow> 'r list \<Rightarrow> 'a \<Rightarrow> bool" for R where
  spec_none: "spec_run R [] a [] a"
| spec_more: "R x a r b \<Longrightarrow> spec_run R xs b rs c \<Longrightarrow> spec_run R (x # xs) a (r # rs) c"

fun op_ok :: "file_op \<Rightarrow> bool" where
  "op_ok (FCreate nm sz) \<longleftrightarrow> 0 \<notin> set nm \<and> 0 \<le> sz \<and> sz \<le> int (NumDirect * SectorSize)"
| "op_ok (FWrite nm bs pos) \<longleftrightarrow> 0 \<notin> set nm \<and> is_int32 (int pos + int (length bs))"
| "op_ok (FRead nm n pos) \<longleftrightarrow> 0 \<notin> set nm \<and> is_int32 (int pos + int n)"
| "op_ok (FRemove nm) \<longleftrightarrow> 0 \<notin> set nm"

text \<open>An operation that answers and keeps the invariant, seen through an abstraction, does so in every sequence.\<close>

locale refined_service =
  fixes run :: "'op \<Rightarrow> 's \<Rightarrow> ('r \<times> 's) res"
    and ok :: "'s \<Rightarrow> bool"
    and view :: "'s \<Rightarrow> 'a"
    and valid :: "'op \<Rightarrow> bool"
    and spec :: "'op \<Rightarrow> 'a \<Rightarrow> 'r \<Rightarrow> 'a \<Rightarrow> bool"
  assumes one_op: "ok s \<Longrightarrow> valid x \<Longrightarrow> \<exists>r s'. run x s = Inr (r, s') \<and> ok s' \<and> spec x (view s) r (view s')"
begin

lemma all_ops:
  "ok s \<Longrightarrow> \<forall>x \<in> set xs. valid x \<Longrightarrow> \<exists>rs s'. run_ops run xs s = Inr (rs, s') \<and> ok s' \<and> spec_run spec xs (view s) rs (view s')"
proof (induction xs arbitrary: s)
  case Nil
  then show ?case by (auto intro: spec_none)
next
  case (Cons x xs)
  obtain r s1 where 1: "run x s = Inr (r, s1)" "ok s1" "spec x (view s) r (view s1)" using one_op [of s x] Cons.prems by auto
  moreover obtain rs s2 where "run_ops run xs s1 = Inr (rs, s2)" "ok s2" "spec_run spec xs (view s1) rs (view s2)"
    using Cons.IH [OF 1(2)] Cons.prems by auto
  ultimately show ?case by (auto intro: spec_more)
qed

end

lemma same_data_view: "fs_ok fs sd \<Longrightarrow> same_data sd' sd \<Longrightarrow> fs_ok fs sd' \<and> fs_view fs sd' = fs_view fs sd"
  using same_data_fs(5,6) [of sd' sd fs] by (auto simp: fs_ok_def)

lemma fs_files_None [simp]: "fs_files fs sd k = None \<longleftrightarrow> fs_view fs sd k = None"
  by (auto simp: fs_files_def fs_view_def fs_blocks_def split: option.splits)

lemma fs_files_Some: "fs_view fs sd k = Some bs \<Longrightarrow> \<exists>b. fs_files fs sd k = Some (bs, b) \<and> fs_blocks fs sd k = Some b"
  by (auto simp: fs_files_def fs_view_def fs_blocks_def)

lemma fs_files_upd:
  "fs_view fs sd' = (fs_view fs sd)(k \<mapsto> bs) \<Longrightarrow> fs_blocks fs sd' = (fs_blocks fs sd)(k \<mapsto> b) \<Longrightarrow> fs_files fs sd' = (fs_files fs sd)(k \<mapsto> (bs, b))"
  "fs_view fs sd' = (fs_view fs sd)(k := None) \<Longrightarrow> fs_blocks fs sd' = (fs_blocks fs sd)(k := None) \<Longrightarrow> fs_files fs sd' = (fs_files fs sd)(k := None)"
  by (auto simp: fs_files_def fun_eq_iff split: option.split)

lemma same_data_files: "fs_ok fs sd \<Longrightarrow> same_data sd' sd \<Longrightarrow> fs_ok fs sd' \<and> fs_files fs sd' = fs_files fs sd"
proof -
  assume a: "fs_ok fs sd" "same_data sd' sd"
  then have "system_ok fs sd" by (simp add: fs_ok_def)
  note s = same_data_fs [OF a(2) this]
  have "fs_blocks fs sd' = fs_blocks fs sd" using s(1,3) by (simp add: fs_blocks_def fun_eq_iff)
  then show ?thesis using s(5,6) a(1) by (simp add: fs_files_def fun_eq_iff split: option.split)
qed

lemma sectors_needed_mono: "0 \<le> sz \<Longrightarrow> sz \<le> int (NumDirect * SectorSize) \<Longrightarrow> sectors_needed sz \<le> int NumDirect"
  by (simp add: sectors_needed_def divRoundUp_def NumDirect_def SectorSize_def sdiv_nonneg smod_nonneg) presburger

text \<open>\<open>Create\<close> succeeds exactly when the specification says so: the directory and the free map are what the named files leave.\<close>

lemma room_for_files:
  assumes "fs_ok fs sd"
  shows "room_for nm sz fs sd \<longleftrightarrow> can_create (capacity fs) (key_of nm) sz (fs_files fs sd)"
proof -
  let ?view = "dir_view (disk_dir fs sd)"
  have dom: "dom (fs_files fs sd) = dom ?view" "dom (fs_blocks fs sd) = dom ?view"
    by (auto simp: fs_files_def fs_view_def fs_blocks_def dom_def split: option.splits)
  have "snd (the (fs_files fs sd k)) = the (fs_blocks fs sd k)" if "k \<in> dom ?view" for k
    using that by (auto simp: fs_files_def fs_view_def fs_blocks_def)
  then have free: "free_sectors (disk_map fs sd) = free_room (capacity fs) (fs_files fs sd)"
    unfolding free_sectors_count [OF assms] free_room_def dom capacity_def by simp
  note d = disk_dir_facts [of fs sd]
  have "dir_full (disk_dir fs sd) \<longleftrightarrow> \<not> int (card (dom (fs_files fs sd))) < NumDirEntries"
    using dir_full_card [OF d(1)] d(2) assms unfolding dom by (auto simp: fs_ok_def)
  moreover have "?view (key_of nm) = None \<longleftrightarrow> fs_files fs sd (key_of nm) = None" using dom(1) by (metis domIff)
  ultimately show ?thesis unfolding room_for_def can_create_def free by simp
qed

lemma create_op:
  assumes "fs_ok fs sd" "op_ok (FCreate nm sz)"
  shows "\<exists>r sd'. do_op fs (FCreate nm sz) sd = Inr (r, sd') \<and> fs_ok fs sd' \<and>
    spec_op (capacity fs) (FCreate nm sz) (fs_files fs sd) r (fs_files fs sd')"
proof (cases "room_for nm sz fs sd")
  case True
  have "sectors_needed sz \<le> int NumDirect" "is_int32 sz"
    using assms(2) sectors_needed_mono by (auto simp: is_int32_def NumDirect_def SectorSize_def)
  then obtain sd' bs where c: "Create nm sz fs sd = Inr (True, sd')" "fs_ok fs sd'"
    "fs_view fs sd' = (fs_view fs sd)(key_of nm \<mapsto> bs)" "int (length bs) = sz" "fs_blocks fs sd' = (fs_blocks fs sd)(key_of nm \<mapsto> sectors_needed sz)"
    using Create_ok [OF assms(1) _ _ _ True] assms(2) by auto
  moreover have "spec_op (capacity fs) (FCreate nm sz) (fs_files fs sd) (Done True) (fs_files fs sd')"
    unfolding fs_files_upd(1) [OF c(3,5)] using True room_for_files [OF assms(1)] c(4) by (intro created) auto
  ultimately show ?thesis by auto
next
  case False
  then obtain sd' where c: "Create nm sz fs sd = Inr (False, sd')" "same_data sd' sd"
    using Create_fails [of fs sd nm sz] assms by (auto simp: fs_ok_def)
  moreover have "spec_op (capacity fs) (FCreate nm sz) (fs_files fs sd) (Done False) (fs_files fs sd)"
    using False room_for_files [OF assms(1)] by (intro refused) auto
  ultimately show ?thesis using same_data_files [OF assms(1) c(2)] by auto
qed

lemma remove_op:
  assumes "fs_ok fs sd" "op_ok (FRemove nm)"
  shows "\<exists>r sd'. do_op fs (FRemove nm) sd = Inr (r, sd') \<and> fs_ok fs sd' \<and>
    spec_op (capacity fs) (FRemove nm) (fs_files fs sd) r (fs_files fs sd')"
proof (cases "fs_view fs sd (key_of nm) = None")
  case True
  then obtain sd' where "FS_Remove nm fs sd = Inr (False, sd')" "same_data sd' sd"
    using Remove_correct(1) [OF assms(1), of nm] assms(2) by (auto simp: fs_view_def)
  then show ?thesis using True same_data_files [OF assms(1)] by (auto intro: not_removed)
next
  case False
  then obtain sd' where r: "FS_Remove nm fs sd = Inr (True, sd')" "fs_ok fs sd'" "fs_view fs sd' = (fs_view fs sd)(key_of nm := None)"
    "fs_blocks fs sd' = (fs_blocks fs sd)(key_of nm := None)"
    using Remove_correct(2) [OF assms(1), of nm] assms(2) by (auto simp: fs_view_def)
  have "spec_op (capacity fs) (FRemove nm) (fs_files fs sd) (Done True) (fs_files fs sd')"
    unfolding fs_files_upd(2) [OF r(3,4)] using False by (intro removed) simp
  then show ?thesis using r(1,2) by auto
qed

text \<open>A file that is opened by name is the file of that name, and a missing one leaves everything as it was.\<close>

lemma with_file_cases:
  assumes ok: "fs_ok fs sd" and nm: "0 \<notin> set nm"
  obtains (missing) sd1 where "with_file nm fs f sd = Inr (NoFile, sd1)" "fs_view fs sd (key_of nm) = None" "fs_ok fs sd1" "fs_files fs sd1 = fs_files fs sd"
  | (found) h sd1 s where "with_file nm fs f sd = f h sd1" "dir_view (disk_dir fs sd1) (key_of nm) = Some s" "hdr h = hdr_at sd1 s"
      "fs_ok fs sd1" "fs_files fs sd1 = fs_files fs sd"
proof -
  obtain r sd1 where 1: "Open nm fs sd = Inr (r, sd1)" "same_data sd1 sd"
    "r = map_option (\<lambda>s. \<lparr>hdr = hdr_at sd s, seekPosition = 0\<rparr>) (dir_view (disk_dir fs sd) (key_of nm))"
    using Open_correct [OF assms] by blast
  note s = same_data_fs [OF 1(2), of fs] same_data_files [OF ok 1(2)]
  show ?thesis
  proof (cases "dir_view (disk_dir fs sd) (key_of nm)")
    case None
    then show ?thesis using 1(1,3) s(7) by (intro missing [of sd1]) (auto simp: with_file_def fs_view_def)
  next
    case (Some x)
    moreover have "system_ok fs sd" using ok by (simp add: fs_ok_def)
    ultimately show ?thesis using 1(1,3) s by (intro found [of "\<lparr>hdr = hdr_at sd x, seekPosition = 0\<rparr>" sd1 x]) (auto simp: with_file_def)
  qed
qed

lemma write_op:
  assumes ok: "fs_ok fs sd" and v: "op_ok (FWrite nm bs pos)"
  shows "\<exists>r sd'. do_op fs (FWrite nm bs pos) sd = Inr (r, sd') \<and> fs_ok fs sd' \<and>
    spec_op (capacity fs) (FWrite nm bs pos) (fs_files fs sd) r (fs_files fs sd')"
proof -
  let ?f = "\<lambda>h sd1. rbind (WriteAt bs (int (length bs)) (int pos) h sd1) (\<lambda>(n, sd2). Inr (Wrote (nat n), sd2))"
  have "0 \<notin> set nm" using v by simp
  from ok this show ?thesis
  proof (cases rule: with_file_cases [where f = ?f])
    case (missing sd1)
    then show ?thesis by (auto intro: not_written)
  next
    case (found h sd1 s)
    obtain m sd2 old where w: "WriteAt bs (int (length bs)) (int pos) h sd1 = Inr (int m, sd2)" "fs_ok fs sd2"
      "fs_view fs sd1 (key_of nm) = Some old" "m = min (length bs) (length old - pos)"
      "fs_view fs sd2 = (fs_view fs sd1)(key_of nm \<mapsto> overwrite pos (take m bs) old)" "fs_blocks fs sd2 = fs_blocks fs sd1"
      using write_named_file [OF found(4,2,3)] v by (metis op_ok.simps(2) order_refl)
    obtain b where b: "fs_files fs sd1 (key_of nm) = Some (old, b)" "fs_blocks fs sd1 (key_of nm) = Some b" using fs_files_Some [OF w(3)] by blast
    have "fs_blocks fs sd2 = (fs_blocks fs sd1)(key_of nm \<mapsto> b)" using w(6) b(2) by auto
    note f2 = fs_files_upd(1) [OF w(5) this]
    have "spec_op (capacity fs) (FWrite nm bs pos) (fs_files fs sd) (Wrote m) (fs_files fs sd2)"
      unfolding f2 using b(1) w(4) found(5) by (auto intro: written)
    then show ?thesis using found(1) w(1,2) by simp
  qed
qed

lemma read_op:
  assumes ok: "fs_ok fs sd" and v: "op_ok (FRead nm n pos)"
  shows "\<exists>r sd'. do_op fs (FRead nm n pos) sd = Inr (r, sd') \<and> fs_ok fs sd' \<and>
    spec_op (capacity fs) (FRead nm n pos) (fs_files fs sd) r (fs_files fs sd')"
proof -
  let ?f = "\<lambda>h sd1. rbind (ReadAt (int n) (int pos) h sd1) (\<lambda>(bs, sd2). Inr (Got bs, sd2))"
  have "0 \<notin> set nm" using v by simp
  from ok this show ?thesis
  proof (cases rule: with_file_cases [where f = ?f])
    case (missing sd1)
    then show ?thesis by (auto intro: not_read)
  next
    case (found h sd1 s)
    have hk: "disk_ok sd1" "hdr_ok (hdr h)"
      using found(2-4) by (auto simp: fs_ok_def system_ok_def layout_ok_def files_ok_def)
    obtain sd2 where r: "ReadAt (int n) (int pos) h sd1 = Inr (take n (drop pos (file_bytes sd1 (hdr h))), sd2)"
      "disk_ok sd2" "sector sd2 = sector sd1" using ReadAt_correct [OF hk] v by (metis op_ok.simps(3))
    have "same_data sd2 sd1" using r by (simp add: same_data_def)
    note s = same_data_files [OF found(4) this]
    have "fs_view fs sd1 (key_of nm) = Some (file_bytes sd1 (hdr h))" using found(2,3) by (simp add: fs_view_def)
    then obtain b where "fs_files fs sd (key_of nm) = Some (file_bytes sd1 (hdr h), b)" using fs_files_Some found(5) by metis
    then show ?thesis using found(1,5) r(1) s by (auto intro: obtained)
  qed
qed

interpretation file_service: refined_service "do_op fs" "fs_ok fs" "fs_files fs" op_ok "spec_op (capacity fs)"
proof
  fix sd x assume "fs_ok fs sd" "op_ok x"
  then show "\<exists>r sd'. do_op fs x sd = Inr (r, sd') \<and> fs_ok fs sd' \<and>
      spec_op (capacity fs) x (fs_files fs sd) r (fs_files fs sd')"
    by (cases x) (use create_op write_op read_op remove_op in blast)+
qed

end
