(* ===== verification/Nachos_FSTest.thy ===== *)
theory Nachos_FSTest
  imports Nachos_FileService
begin

text \<open>
  \<open>filesys/fstest.cc\<close>: the routines behind the flags -cp, -p and -t.  \<open>Copy\<close> brings a file of the host into the
  file system, \<open>Print\<close> shows a file, and \<open>PerformanceTest\<close> writes and reads a large one; all three use the file
  through its seek position.
\<close>

section \<open>The routines\<close>

text \<open>What they print, without the statistics.\<close>

datatype test_msg = M_copy_input "byte list" | M_copy_output "byte list" | M_print "byte list" | M_char byte
  | M_start | M_seq_write | M_cannot_create | M_cannot_open | M_cannot_write
  | M_seq_read | M_cannot_open_read | M_cannot_read | M_cannot_remove

definition TransferSize :: nat where "TransferSize = 10"

text \<open>\<open>rest\<close> is what \<open>fread\<close> has still to give.\<close>

function copy_loop :: "byte list \<Rightarrow> OpenFile \<Rightarrow> SynchDisk \<Rightarrow> (OpenFile \<times> SynchDisk) res" where
  "copy_loop rest f sd = (let buffer = take TransferSize rest in
     if buffer = [] then Inr (f, sd)
     else rbind (File_Write buffer (int (length buffer)) f sd) (\<lambda>(n, f1, sd1). copy_loop (drop TransferSize rest) f1 sd1))"
  by pat_completeness auto
termination by (relation "measure (\<lambda>(rest, f, sd). length rest)") (auto simp: TransferSize_def)

declare copy_loop.simps [simp del]

definition Copy :: "(byte list \<rightharpoonup> byte list) \<Rightarrow> byte list \<Rightarrow> byte list \<Rightarrow> FileSystem \<Rightarrow> SynchDisk \<Rightarrow> (test_msg list \<times> SynchDisk) res" where
  "Copy host from_name to_name fs sd = (case host from_name of None \<Rightarrow> Inr ([M_copy_input from_name], sd)
     | Some bs \<Rightarrow> rbind (Create to_name (i32 (int (length bs))) fs sd) (\<lambda>(created, sd1).
        if \<not> created then Inr ([M_copy_output to_name], sd1)
        else rbind (Open to_name fs sd1) (\<lambda>(r, sd2). case r of None \<Rightarrow> Inl Abort
          | Some f \<Rightarrow> rbind (copy_loop bs f sd2) (\<lambda>(f1, sd3). Inr ([], sd3)))))"

text \<open>The loop of \<open>Print\<close>; each round but the last moves the seek position.\<close>

fun cat_loop :: "nat \<Rightarrow> OpenFile \<Rightarrow> SynchDisk \<Rightarrow> (byte list \<times> SynchDisk) res" where
  "cat_loop 0 f sd = Inl Diverges"
| "cat_loop (Suc n) f sd = rbind (File_Read (int TransferSize) f sd) (\<lambda>(bs, f1, sd1).
     if bs = [] then Inr ([], sd1) else rbind (cat_loop n f1 sd1) (\<lambda>(rest, sd2). Inr (bs @ rest, sd2)))"

definition Print :: "byte list \<Rightarrow> FileSystem \<Rightarrow> SynchDisk \<Rightarrow> (test_msg list \<times> SynchDisk) res" where
  "Print nm fs sd = rbind (Open nm fs sd) (\<lambda>(r, sd1). case r of None \<Rightarrow> Inr ([M_print nm], sd1)
     | Some f \<Rightarrow> rbind (cat_loop (Suc (nat (File_Length f))) f sd1) (\<lambda>(bs, sd2). Inr (map M_char bs, sd2)))"

definition FileName :: "byte list" where "FileName = [84, 101, 115, 116, 70, 105, 108, 101]"
definition Contents :: "byte list" where "Contents = [49, 50, 51, 52, 53, 54, 55, 56, 57, 48]"

text \<open>\<open>FileSize\<close> is 5000 times the contents: the two loops have 5000 rounds.\<close>

definition NumRounds :: nat where "NumRounds = 5000"

fun write_rounds :: "nat \<Rightarrow> OpenFile \<Rightarrow> SynchDisk \<Rightarrow> (test_msg list \<times> SynchDisk) res" where
  "write_rounds 0 f sd = Inr ([], sd)"
| "write_rounds (Suc n) f sd = rbind (File_Write Contents (int (length Contents)) f sd) (\<lambda>(numBytes, f1, sd1).
     if numBytes < 10 then Inr ([M_cannot_write], sd1) else write_rounds n f1 sd1)"

definition FileWrite :: "FileSystem \<Rightarrow> SynchDisk \<Rightarrow> (test_msg list \<times> SynchDisk) res" where
  "FileWrite fs sd = rbind (Create FileName 0 fs sd) (\<lambda>(created, sd1).
     if \<not> created then Inr ([M_seq_write, M_cannot_create], sd1)
     else rbind (Open FileName fs sd1) (\<lambda>(r, sd2). case r of None \<Rightarrow> Inr ([M_seq_write, M_cannot_open], sd2)
       | Some f \<Rightarrow> rbind (write_rounds NumRounds f sd2) (\<lambda>(out, sd3). Inr (M_seq_write # out, sd3))))"

fun read_rounds :: "nat \<Rightarrow> OpenFile \<Rightarrow> SynchDisk \<Rightarrow> (test_msg list \<times> SynchDisk) res" where
  "read_rounds 0 f sd = Inr ([], sd)"
| "read_rounds (Suc n) f sd = rbind (File_Read (int (length Contents)) f sd) (\<lambda>(buffer, f1, sd1).
     if length buffer < 10 \<or> buffer \<noteq> Contents then Inr ([M_cannot_read], sd1) else read_rounds n f1 sd1)"

definition FileRead :: "FileSystem \<Rightarrow> SynchDisk \<Rightarrow> (test_msg list \<times> SynchDisk) res" where
  "FileRead fs sd = rbind (Open FileName fs sd) (\<lambda>(r, sd1). case r of None \<Rightarrow> Inr ([M_seq_read, M_cannot_open_read], sd1)
     | Some f \<Rightarrow> rbind (read_rounds NumRounds f sd1) (\<lambda>(out, sd2). Inr (M_seq_read # out, sd2)))"

definition PerformanceTest :: "FileSystem \<Rightarrow> SynchDisk \<Rightarrow> (test_msg list \<times> SynchDisk) res" where
  "PerformanceTest fs sd = rbind (FileWrite fs sd) (\<lambda>(w, sd1).
     rbind (FileRead fs sd1) (\<lambda>(r, sd2).
     rbind (FS_Remove FileName fs sd2) (\<lambda>(removed, sd3).
     Inr (M_start # w @ r @ (if removed then [] else [M_cannot_remove]), sd3))))"

section \<open>Open files\<close>

text \<open>\<open>f\<close> is open on the file with key \<open>k\<close>, whose contents are \<open>old\<close>, at position \<open>p\<close>.\<close>

definition open_at :: "FileSystem \<Rightarrow> SynchDisk \<Rightarrow> byte list \<Rightarrow> byte list \<Rightarrow> nat \<Rightarrow> OpenFile \<Rightarrow> bool" where
  "open_at fs sd k old p f \<longleftrightarrow> fs_ok fs sd \<and> fs_view fs sd k = Some old \<and> seekPosition f = int p \<and>
     (\<exists>s. dir_view (disk_dir fs sd) k = Some s \<and> hdr f = hdr_at sd s)"

lemma open_at_facts:
  assumes "open_at fs sd k old p f"
  shows "fs_ok fs sd" "disk_ok sd" "hdr_ok (hdr f)" "file_bytes sd (hdr f) = old" "File_Length f = int (length old)" "is_int32 (int (length old))"
proof -
  show 1: "fs_ok fs sd" "disk_ok sd" "hdr_ok (hdr f)" "file_bytes sd (hdr f) = old"
    using assms by (auto simp: open_at_def fs_ok_def system_ok_def layout_ok_def files_ok_def fs_view_def)
  then show "File_Length f = int (length old)" "is_int32 (int (length old))"
    using length_file_bytes [OF 1(2,3)] by (auto simp: File_Length_def FileLength_def hdr_ok_def is_int32_def NumDirect_def SectorSize_def)
qed

lemma Open_opens:
  assumes "fs_ok fs sd" "0 \<notin> set nm" "fs_view fs sd (key_of nm) = Some old"
  obtains f sd1 where "Open nm fs sd = Inr (Some f, sd1)" "open_at fs sd1 (key_of nm) old 0 f" "fs_view fs sd1 = fs_view fs sd"
proof -
  obtain r sd1 where 1: "Open nm fs sd = Inr (r, sd1)" "same_data sd1 sd"
    "r = map_option (\<lambda>s. \<lparr>hdr = hdr_at sd s, seekPosition = 0\<rparr>) (dir_view (disk_dir fs sd) (key_of nm))"
    using Open_correct [OF assms(1,2)] by blast
  have sys: "system_ok fs sd" using assms(1) by (simp add: fs_ok_def)
  obtain s where "dir_view (disk_dir fs sd) (key_of nm) = Some s" using assms(3) by (auto simp: fs_view_def)
  then show ?thesis using that [of "\<lparr>hdr = hdr_at sd s, seekPosition = 0\<rparr>" sd1] 1 assms(1,3) same_data_fs [OF 1(2) sys]
    by (simp add: open_at_def)
qed

lemma Open_missing:
  assumes "fs_ok fs sd" "0 \<notin> set nm" "fs_view fs sd (key_of nm) = None"
  obtains sd1 where "Open nm fs sd = Inr (None, sd1)" "fs_ok fs sd1" "fs_view fs sd1 = fs_view fs sd"
  using Open_correct [OF assms(1,2)] assms(3) same_data_view [OF assms(1)] by (auto simp: fs_view_def)

lemma File_Write_at:
  assumes o: "open_at fs sd k old p f" and "p \<le> length old" "is_int32 (int p + int (length bs))"
  obtains m f1 sd1 where "File_Write bs (int (length bs)) f sd = Inr (int m, f1, sd1)" "m = min (length bs) (length old - p)"
    "open_at fs sd1 k (overwrite p (take m bs) old) (p + m) f1" "fs_view fs sd1 = (fs_view fs sd)(k \<mapsto> overwrite p (take m bs) old)"
proof -
  obtain s where s: "dir_view (disk_dir fs sd) k = Some s" "hdr f = hdr_at sd s" "fs_view fs sd k = Some old" "seekPosition f = int p"
    using o by (auto simp: open_at_def)
  obtain m sd1 where w: "WriteAt bs (int (length bs)) (int p) f sd = Inr (int m, sd1)" "fs_ok fs sd1"
    "m = min (length bs) (length old - p)" "fs_view fs sd1 = (fs_view fs sd)(k \<mapsto> overwrite p (take m bs) old)"
    "dir_view (disk_dir fs sd1) k = Some s" "hdr f = hdr_at sd1 s"
    using write_named_file [OF open_at_facts(1) [OF o] s(1,2) assms(3) order_refl] s(3) by auto
  have "is_int32 (int p + int m)" using open_at_facts(6) [OF o] assms(2) w(3) by (auto simp: is_int32_def)
  then show ?thesis using that [of m "f\<lparr>seekPosition := int p + int m\<rparr>" sd1] w s(4)
    by (simp add: File_Write_def i32_id open_at_def)
qed

lemma File_Read_at:
  assumes o: "open_at fs sd k old p f" and "p \<le> length old" "is_int32 (int p + int n)"
  obtains f1 sd1 where "File_Read (int n) f sd = Inr (take n (drop p old), f1, sd1)"
    "open_at fs sd1 k old (p + length (take n (drop p old))) f1" "fs_view fs sd1 = fs_view fs sd"
proof -
  obtain s where s: "dir_view (disk_dir fs sd) k = Some s" "hdr f = hdr_at sd s" "fs_view fs sd k = Some old" "seekPosition f = int p"
    using o by (auto simp: open_at_def)
  note facts = open_at_facts [OF o]
  obtain sd1 where r: "ReadAt (int n) (int p) f sd = Inr (take n (drop p old), sd1)" "disk_ok sd1" "sector sd1 = sector sd"
    using ReadAt_correct [OF facts(2,3) assms(3)] facts(4) by auto
  then have same: "same_data sd1 sd" by (simp add: same_data_def)
  have "system_ok fs sd" using facts(1) by (simp add: fs_ok_def)
  note sd1 = same_data_fs [OF same this]
  have "is_int32 (int p + int (length (take n (drop p old))))" using facts(6) assms(2) by (auto simp: is_int32_def)
  then show ?thesis using that [of "f\<lparr>seekPosition := int p + int (length (take n (drop p old)))\<rparr>" sd1] r(1) s facts(1) sd1
    by (simp add: File_Read_def i32_id open_at_def)
qed

section \<open>Copy and Print\<close>

lemma copy_loop_ok:
  "open_at fs sd k old p f \<Longrightarrow> p + length rest = length old \<Longrightarrow>
    \<exists>f1 sd1. copy_loop rest f sd = Inr (f1, sd1) \<and> fs_ok fs sd1 \<and> fs_view fs sd1 = (fs_view fs sd)(k \<mapsto> overwrite p rest old)"
proof (induction rest f sd arbitrary: old p rule: copy_loop.induct)
  case (1 rest f sd)
  note o = 1(2) and len = 1(3)
  let ?b = "take TransferSize rest" and ?r = "drop TransferSize rest"
  show ?case
  proof (cases "?b = []")
    case True
    then have "rest = []" by (auto simp: TransferSize_def)
    moreover have "(fs_view fs sd)(k \<mapsto> old) = fs_view fs sd" using o by (auto simp: open_at_def)
    ultimately show ?thesis using open_at_facts(1) [OF o] by (auto simp: copy_loop.simps)
  next
    case False
    have fit: "p \<le> length old" "p + length ?b \<le> length old" "length ?b \<le> length old - p" using len by auto
    have "is_int32 (int p + int (length ?b))" using open_at_facts(6) [OF o] fit(2) by (auto simp: is_int32_def)
    from File_Write_at [OF o fit(1) this] obtain m f1 sd1 where w: "File_Write ?b (int (length ?b)) f sd = Inr (int m, f1, sd1)"
      "m = min (length ?b) (length old - p)" "open_at fs sd1 k (overwrite p (take m ?b) old) (p + m) f1"
      "fs_view fs sd1 = (fs_view fs sd)(k \<mapsto> overwrite p (take m ?b) old)" .
    have m: "m = length ?b" using w(2) fit(3) by simp
    have "p + length ?b + length ?r \<le> length old" using len by simp
    then have all: "overwrite (p + m) ?r (overwrite p ?b old) = overwrite p rest old"
      using overwrite_append [of p ?b ?r old] m by simp
    have "take m ?b = ?b" unfolding m by (rule take_all) (rule order_refl)
    with w(3,4) have o1: "open_at fs sd1 k (overwrite p ?b old) (p + m) f1" and v1: "fs_view fs sd1 = (fs_view fs sd)(k \<mapsto> overwrite p ?b old)"
      by (simp_all only:)
    have "p + m + length ?r = length (overwrite p ?b old)" using len fit(2) m by simp
    from 1(1) [OF refl False w(1) refl refl o1 this] obtain f2 sd2 where "copy_loop ?r f1 sd1 = Inr (f2, sd2)" "fs_ok fs sd2"
      "fs_view fs sd2 = (fs_view fs sd1)(k \<mapsto> overwrite (p + m) ?r (overwrite p ?b old))"
      by blast
    then show ?thesis using w(1) v1 all False by (simp add: copy_loop.simps [of rest] fun_eq_iff)
  qed
qed

lemma take_append_drop_length: "take n xs @ drop (length (take n xs)) xs = xs"
  by (cases "n \<le> length xs") simp_all

lemma cat_loop_ok:
  "open_at fs sd k old p f \<Longrightarrow> p \<le> length old \<Longrightarrow> length old - p < n \<Longrightarrow> is_int32 (int (length old) + int TransferSize) \<Longrightarrow>
    \<exists>sd1. cat_loop n f sd = Inr (drop p old, sd1) \<and> fs_ok fs sd1 \<and> fs_view fs sd1 = fs_view fs sd"
proof (induction n arbitrary: f sd p)
  case (Suc n)
  let ?b = "take TransferSize (drop p old)"
  have "is_int32 (int p + int TransferSize)" using Suc.prems(2,4) by (auto simp: is_int32_def)
  from File_Read_at [OF Suc.prems(1,2) this] obtain f1 sd1 where r: "File_Read (int TransferSize) f sd = Inr (?b, f1, sd1)"
    "open_at fs sd1 k old (p + length ?b) f1" "fs_view fs sd1 = fs_view fs sd" .
  show ?case
  proof (cases "?b = []")
    case True
    then show ?thesis using r open_at_facts(1) [OF r(2)] by (simp add: TransferSize_def)
  next
    case False
    then have b: "0 < length ?b" "p + length ?b \<le> length old" using Suc.prems(2) by auto
    then have "length old - (p + length ?b) < n" using Suc.prems(3) by linarith
    from Suc.IH [OF r(2) b(2) this Suc.prems(4)] obtain sd2 where
      "cat_loop n f1 sd1 = Inr (drop (p + length ?b) old, sd2)" "fs_ok fs sd2" "fs_view fs sd2 = fs_view fs sd1" by blast
    moreover have "?b @ drop (p + length ?b) old = drop p old"
      using take_append_drop_length [of TransferSize "drop p old"] by (simp add: add.commute)
    ultimately show ?thesis using r(1,3) False by simp
  qed
qed simp

text \<open>\<open>Copy\<close> brings the whole file in when there is room for it, and changes nothing when there is not.\<close>

lemma Copy_correct:
  assumes ok: "fs_ok fs sd" "0 \<notin> set nm" and h: "host src = Some bs" "length bs \<le> NumDirect * SectorSize"
  shows "\<exists>out sd1. Copy host src nm fs sd = Inr (out, sd1) \<and> fs_ok fs sd1 \<and>
    (if room_for nm (int (length bs)) fs sd then out = [] \<and> fs_view fs sd1 = (fs_view fs sd)(key_of nm \<mapsto> bs)
     else out = [M_copy_output nm] \<and> fs_view fs sd1 = fs_view fs sd)"
proof -
  have i: "is_int32 (int (length bs))" using h(2) by (simp add: is_int32_def NumDirect_def SectorSize_def)
  show ?thesis
  proof (cases "room_for nm (int (length bs)) fs sd")
    case True
    have "sectors_needed (int (length bs)) \<le> int NumDirect" using sectors_needed_mono [of "int (length bs)"] h(2) by (simp add: NumDirect_def SectorSize_def)
    then obtain sd1 old where 1: "Create nm (int (length bs)) fs sd = Inr (True, sd1)" "fs_ok fs sd1"
      "fs_view fs sd1 = (fs_view fs sd)(key_of nm \<mapsto> old)" "length old = length bs"
      using Create_ok [OF ok(1,2) _ i True] by auto
    have "fs_view fs sd1 (key_of nm) = Some old" using 1(3) by simp
    from Open_opens [OF 1(2) ok(2) this] obtain f sd2 where 2: "Open nm fs sd1 = Inr (Some f, sd2)"
      "open_at fs sd2 (key_of nm) old 0 f" "fs_view fs sd2 = fs_view fs sd1" .
    obtain f1 sd3 where "copy_loop bs f sd2 = Inr (f1, sd3)" "fs_ok fs sd3" "fs_view fs sd3 = (fs_view fs sd2)(key_of nm \<mapsto> overwrite 0 bs old)"
      using copy_loop_ok [OF 2(2), of bs] 1(4) by auto
    then show ?thesis using 1 2 h(1) True i32_id [OF i] by (simp add: Copy_def overwrite_def)
  next
    case False
    then obtain sd1 where "Create nm (int (length bs)) fs sd = Inr (False, sd1)" "same_data sd1 sd"
      using Create_fails [of fs sd nm "int (length bs)"] ok by (auto simp: fs_ok_def)
    then show ?thesis using same_data_view [OF ok(1)] False h(1) i32_id [OF i] by (auto simp: Copy_def)
  qed
qed

lemma Print_correct:
  assumes "fs_ok fs sd" "0 \<notin> set nm" "fs_view fs sd (key_of nm) = Some bs"
  shows "\<exists>sd1. Print nm fs sd = Inr (map M_char bs, sd1) \<and> fs_ok fs sd1 \<and> fs_view fs sd1 = fs_view fs sd"
proof -
  obtain f sd1 where 1: "Open nm fs sd = Inr (Some f, sd1)" "open_at fs sd1 (key_of nm) bs 0 f" "fs_view fs sd1 = fs_view fs sd"
    using Open_opens [OF assms] .
  note facts = open_at_facts [OF 1(2)]
  have "length bs \<le> NumDirect * SectorSize"
    using facts(3,5) by (simp add: File_Length_def FileLength_def hdr_ok_def NumDirect_def SectorSize_def)
  then have "is_int32 (int (length bs) + int TransferSize)" by (simp add: is_int32_def NumDirect_def SectorSize_def TransferSize_def)
  then show ?thesis using cat_loop_ok [OF 1(2), of "Suc (length bs)"] 1(1,3) facts(5) by (auto simp: Print_def)
qed

section \<open>The performance test\<close>

lemma FileName_chars: "0 \<notin> set FileName"
  by (simp add: FileName_def)

lemma empty_file_rounds:
  assumes o: "open_at fs sd k [] 0 f"
  shows "\<exists>sd1. write_rounds NumRounds f sd = Inr ([M_cannot_write], sd1) \<and> fs_ok fs sd1 \<and> fs_view fs sd1 = fs_view fs sd"
    "\<exists>sd1. read_rounds NumRounds f sd = Inr ([M_cannot_read], sd1) \<and> fs_ok fs sd1 \<and> fs_view fs sd1 = fs_view fs sd"
proof -
  obtain j where n: "NumRounds = Suc j" by (simp add: NumRounds_def numeral_eq_Suc)
  have i: "is_int32 (int 0 + int (length Contents))" by (simp add: Contents_def is_int32_def)
  have v: "(fs_view fs sd)(k \<mapsto> []) = fs_view fs sd" using o by (auto simp: open_at_def)
  from File_Write_at [OF o _ i] obtain m f1 sd1 where "File_Write Contents (int (length Contents)) f sd = Inr (int m, f1, sd1)"
    "m = 0" "open_at fs sd1 k [] 0 f1" "fs_view fs sd1 = fs_view fs sd" using v by (auto simp: overwrite_def)
  then show "\<exists>sd1. write_rounds NumRounds f sd = Inr ([M_cannot_write], sd1) \<and> fs_ok fs sd1 \<and> fs_view fs sd1 = fs_view fs sd"
    unfolding n using open_at_facts(1) by auto
  from File_Read_at [OF o _ i] obtain f1 sd1 where "File_Read (int (length Contents)) f sd = Inr ([], f1, sd1)"
    "open_at fs sd1 k [] 0 f1" "fs_view fs sd1 = fs_view fs sd" by auto
  then show "\<exists>sd1. read_rounds NumRounds f sd = Inr ([M_cannot_read], sd1) \<and> fs_ok fs sd1 \<and> fs_view fs sd1 = fs_view fs sd"
    unfolding n using open_at_facts(1) by auto
qed

text \<open>
  A file keeps the size it is created with.  \<open>FileWrite\<close> creates it with size 0, so that the first \<open>Write\<close> writes nothing: the
  test fails on every file system, and leaves no trace.
\<close>

lemma PerformanceTest_fails:
  assumes ok: "fs_ok fs sd" and new: "fs_view fs sd (key_of FileName) = None"
  shows "\<exists>out sd'. PerformanceTest fs sd = Inr (out, sd') \<and> fs_ok fs sd' \<and> fs_view fs sd' = fs_view fs sd \<and>
    out = (if room_for FileName 0 fs sd then [M_start, M_seq_write, M_cannot_write, M_seq_read, M_cannot_read]
           else [M_start, M_seq_write, M_cannot_create, M_seq_read, M_cannot_open_read, M_cannot_remove])"
proof (cases "room_for FileName 0 fs sd")
  case True
  have "sectors_needed 0 \<le> int NumDirect" using sectors_needed_mono [of 0] by simp
  then obtain sd1 where 1: "Create FileName 0 fs sd = Inr (True, sd1)" "fs_ok fs sd1" "fs_view fs sd1 = (fs_view fs sd)(key_of FileName \<mapsto> [])"
    using Create_ok [OF ok FileName_chars _ _ True] by (auto simp: is_int32_def)
  then have "fs_view fs sd1 (key_of FileName) = Some []" by simp
  from Open_opens [OF 1(2) FileName_chars this] obtain f sd2 where 2: "Open FileName fs sd1 = Inr (Some f, sd2)"
    "open_at fs sd2 (key_of FileName) [] 0 f" "fs_view fs sd2 = fs_view fs sd1" .
  obtain sd3 where 3: "write_rounds NumRounds f sd2 = Inr ([M_cannot_write], sd3)" "fs_ok fs sd3" "fs_view fs sd3 = fs_view fs sd2"
    using empty_file_rounds(1) [OF 2(2)] by blast
  then have "fs_view fs sd3 (key_of FileName) = Some []" using 1(3) 2(3) by simp
  from Open_opens [OF 3(2) FileName_chars this] obtain g sd4 where 4: "Open FileName fs sd3 = Inr (Some g, sd4)"
    "open_at fs sd4 (key_of FileName) [] 0 g" "fs_view fs sd4 = fs_view fs sd3" .
  obtain sd5 where 5: "read_rounds NumRounds g sd4 = Inr ([M_cannot_read], sd5)" "fs_ok fs sd5" "fs_view fs sd5 = fs_view fs sd4"
    using empty_file_rounds(2) [OF 4(2)] by blast
  have v5: "fs_view fs sd5 = (fs_view fs sd)(key_of FileName \<mapsto> [])" using 1(3) 2(3) 3(3) 4(3) 5(3) by simp
  then have "fs_view fs sd5 (key_of FileName) = Some []" by simp
  then have "dir_view (disk_dir fs sd5) (key_of FileName) \<noteq> None" by (auto simp: fs_view_def)
  then obtain sd6 where "FS_Remove FileName fs sd5 = Inr (True, sd6)" "fs_ok fs sd6" "fs_view fs sd6 = fs_view fs sd"
    using Remove_correct(2) [OF 5(2) FileName_chars] v5 new by (auto simp: fun_upd_idem)
  then show ?thesis using True 1(1) 2(1) 3(1) 4(1) 5(1) by (simp add: PerformanceTest_def FileWrite_def FileRead_def)
next
  case False
  then obtain sd1 where 1: "Create FileName 0 fs sd = Inr (False, sd1)" "same_data sd1 sd"
    using Create_fails [of fs sd FileName 0] ok FileName_chars by (auto simp: fs_ok_def)
  note v = same_data_view [OF ok 1(2)]
  from Open_missing [of fs sd1 FileName] obtain sd2 where 2: "Open FileName fs sd1 = Inr (None, sd2)" "fs_ok fs sd2" "fs_view fs sd2 = fs_view fs sd"
    using v new FileName_chars by auto
  then obtain sd3 where "FS_Remove FileName fs sd2 = Inr (False, sd3)" "same_data sd3 sd2"
    using Remove_correct(1) [OF 2(2) FileName_chars] new by (metis fs_view_def option.map_disc_iff)
  then show ?thesis using False 1(1) 2 same_data_view [OF 2(2)] by (simp add: PerformanceTest_def FileWrite_def FileRead_def)
qed

end
