(* ===== verification/Nachos_Kernel.thy ===== *)
theory Nachos_Kernel
  imports Nachos_List Nachos_Disk
begin

text \<open>
  \<open>threads/\<close>: the scheduler, thread control blocks, semaphores, locks, condition variables,
  synchronised lists and the dining philosophers, together with the interrupt simulation
  (\<open>machine/interrupt.cc\<close>, \<open>timer.cc\<close>, \<open>stats.cc\<close>) and \<open>filesys/synchdisk.cc\<close> as kernel code.

  Kernel threads are coroutines: the processor goes to another thread only inside
  \<open>Scheduler::Run\<close>, and a thread continues where its call of \<open>SWITCH\<close> returns.  The stack of a thread is
  a list of code points, the work that is left after the current call returns.  An operation is a
  function on the state of the kernel that pushes the code points after which it may lose the
  processor, and \<open>kernel_step\<close> executes the code point on top of the stack of the current thread.
\<close>

section \<open>Data of the interrupt simulation\<close>

datatype IntStatus = IntOff | IntOn

datatype MachineStatus = IdleMode | SystemMode | UserMode

datatype IntType = TimerInt | DiskInt | ConsoleWriteInt | ConsoleReadInt | NetworkSendInt | NetworkRecvInt

text \<open>The handlers that the simulated devices of this model schedule.\<close>

datatype handler = TimerHandler | DiskDone

record PendingInterrupt =
  handler :: handler
  "when" :: int
  int_type :: IntType

record Interrupt =
  level :: IntStatus
  pending :: "PendingInterrupt keyed"
  inHandler :: bool
  yieldOnReturn :: bool
  status :: MachineStatus

text \<open>
  The counters are of type \<open>int\<close>, and so are the clock and the value of a semaphore.  Their arithmetic is undefined when
  it overflows: such a step is the fault \<open>Undefined\<close> (after two billion ticks, for the clock).
\<close>

record Statistics =
  totalTicks :: int
  idleTicks :: int
  systemTicks :: int
  userTicks :: int
  numDiskReads :: int
  numDiskWrites :: int

definition UserTick :: int where "UserTick = 1"
definition SystemTick :: int where "SystemTick = 10"
definition TimerTicks :: int where "TimerTicks = 100"

definition Statistics_new :: Statistics where
  "Statistics_new = \<lparr>totalTicks = 0, idleTicks = 0, systemTicks = 0, userTicks = 0,
     numDiskReads = 0, numDiskWrites = 0\<rparr>"

definition Interrupt_new :: Interrupt where
  "Interrupt_new = \<lparr>level = IntOff, pending = [], inHandler = False, yieldOnReturn = False, status = SystemMode\<rparr>"

section \<open>Data of the kernel\<close>

text \<open>Threads, semaphores, locks, conditions and lists are named by their addresses.\<close>

type_synonym address = nat

datatype ThreadStatus = JUST_CREATED | RUNNING | READY | BLOCKED

datatype PhState = Thinking | Hungry | Eating

text \<open>
  The code points.  The first group is what remains of a routine of the kernel when a call in it
  returns, the second group is the calls that the code of a thread is made of.
\<close>

datatype code =
    Run_tail
  | Sleep_loop
  | P_loop address
  | Set_level IntStatus
  | Int_enable
  | Set_mode MachineStatus
  | Set_holder address
  | Delete_sem address
  | Broadcast_loop address address
  | List_append address int
  | Remove_loop address
  | Read_request int
  | Write_request int "byte list"
  | Pickup_test int
  | Pickup_wait int
  | Putdown_left int
  | Ph_test int
  | Call_P address
  | Call_V address
  | Call_Destroy address
  | Call_Acquire address
  | Call_Release address
  | Call_Wait address address
  | Call_Signal address address
  | Call_Broadcast address address
  | Call_Yield
  | Call_Fork "code list"
  | Call_Finish
  | Call_Append address int
  | Call_Remove address
  | Call_ReadSector int
  | Call_WriteSector int "byte list"
  | Call_pickup int
  | Call_putdown int

record Thread =
  thread_status :: ThreadStatus
  stack :: "int option"
  frames :: "code list"
  received :: "int list"
  buffer :: "byte list"

record Semaphore =
  "value" :: int
  queue :: "address list"

record Lock =
  lockHolder :: "address option"
  mutex :: address

record Condition =
  waitQueue :: "address list"

record SynchList =
  list_items :: "int list"
  list_lock :: address
  listEmpty :: address

record DinningPh =
  dp :: address
  self :: "address list"
  ph_state :: "PhState list"

record Kernel =
  stats :: Statistics
  interrupt :: Interrupt
  readyList :: "address list"
  currentThread :: address
  threadToBeDestroyed :: "address option"
  threads :: "address \<rightharpoonup> Thread"
  semaphores :: "address \<rightharpoonup> Semaphore"
  locks :: "address \<rightharpoonup> Lock"
  conditions :: "address \<rightharpoonup> Condition"
  synchLists :: "address \<rightharpoonup> SynchList"
  philosophers :: DinningPh
  kdisk :: Disk
  disk_semaphore :: address
  disk_lock :: address
  randomize :: bool
  random :: "nat \<Rightarrow> nat"
  draws :: nat
  next_address :: address
  halted :: bool

definition lookup :: "('a \<rightharpoonup> 'b) \<Rightarrow> 'a \<Rightarrow> 'b res" where
  "lookup m a = (case m a of None \<Rightarrow> Inl BadPointer | Some x \<Rightarrow> Inr x)"

abbreviation now :: "Kernel \<Rightarrow> int" where "now k \<equiv> totalTicks (stats k)"

definition map_interrupt :: "(Interrupt \<Rightarrow> Interrupt) \<Rightarrow> Kernel \<Rightarrow> Kernel" where
  "map_interrupt f k = k\<lparr>interrupt := f (interrupt k)\<rparr>"

definition set_thread :: "address \<Rightarrow> Thread \<Rightarrow> Kernel \<Rightarrow> Kernel" where
  "set_thread t th k = k\<lparr>threads := (threads k)(t \<mapsto> th)\<rparr>"

definition set_semaphore :: "address \<Rightarrow> Semaphore \<Rightarrow> Kernel \<Rightarrow> Kernel" where
  "set_semaphore s sem k = k\<lparr>semaphores := (semaphores k)(s \<mapsto> sem)\<rparr>"

text \<open>Pushing code points on the stack of the current thread.\<close>

definition push :: "code list \<Rightarrow> Kernel \<Rightarrow> Kernel res" where
  "push cs k = rbind (lookup (threads k) (currentThread k)) (\<lambda>th.
     Inr (set_thread (currentThread k) (th\<lparr>frames := cs @ frames th\<rparr>) k))"

section \<open>Scheduler and timer\<close>

definition setStatus :: "address \<Rightarrow> ThreadStatus \<Rightarrow> Kernel \<Rightarrow> Kernel res" where
  "setStatus t st k = rbind (lookup (threads k) t) (\<lambda>th. Inr (set_thread t (th\<lparr>thread_status := st\<rparr>) k))"

definition ReadyToRun :: "address \<Rightarrow> Kernel \<Rightarrow> Kernel res" where
  "ReadyToRun t k = rbind (setStatus t READY k) (\<lambda>k1. Inr (k1\<lparr>readyList := readyList k1 @ [t]\<rparr>))"

definition FindNextToRun :: "Kernel \<Rightarrow> address option \<times> Kernel" where
  "FindNextToRun k = (case readyList k of [] \<Rightarrow> (None, k) | t # ts \<Rightarrow> (Some t, k\<lparr>readyList := ts\<rparr>))"

definition Schedule :: "handler \<Rightarrow> int \<Rightarrow> IntType \<Rightarrow> Kernel \<Rightarrow> Kernel res" where
  "Schedule h fromNow ty k =
     (let t = now k + fromNow; toOccur = \<lparr>handler = h, when = t, int_type = ty\<rparr> in
      DEFINED (is_int32 t) (
      ASSERT (fromNow > 0) (Inr (map_interrupt (\<lambda>i. i\<lparr>pending := l_sorted_insert toOccur t (pending i)\<rparr>) k))))"

definition YieldOnReturn :: "Kernel \<Rightarrow> Kernel" where
  "YieldOnReturn k = map_interrupt (\<lambda>i. i\<lparr>yieldOnReturn := True\<rparr>) k"

definition TimeOfNextInterrupt :: "Kernel \<Rightarrow> int \<times> Kernel" where
  "TimeOfNextInterrupt k =
     (if randomize k then (1 + int (random k (draws k)) smod (TimerTicks * 2), k\<lparr>draws := Suc (draws k)\<rparr>)
      else (TimerTicks, k))"

definition TimerInterruptHandler :: "Kernel \<Rightarrow> Kernel" where
  "TimerInterruptHandler k = (if status (interrupt k) \<noteq> IdleMode then YieldOnReturn k else k)"

definition TimerExpired :: "Kernel \<Rightarrow> Kernel res" where
  "TimerExpired k = (let (d, k1) = TimeOfNextInterrupt k in
     rbind (Schedule TimerHandler d TimerInt k1) (\<lambda>k2. Inr (TimerInterruptHandler k2)))"

section \<open>Interrupts\<close>

definition ChangeLevel :: "IntStatus \<Rightarrow> Kernel \<Rightarrow> Kernel" where
  "ChangeLevel l k = map_interrupt (\<lambda>i. i\<lparr>level := l\<rparr>) k"

text \<open>
  \<open>Semaphore::V\<close> between its two calls of \<open>SetLevel\<close>.  An interrupt handler runs \<open>V\<close> with
  \<open>inHandler\<close> set and interrupts off: the first call of \<open>SetLevel\<close> changes nothing, and the second
  may only leave them off.
\<close>

definition V_body :: "address \<Rightarrow> Kernel \<Rightarrow> Kernel res" where
  "V_body s k = rbind (lookup (semaphores k) s) (\<lambda>sem.
     rbind (case queue sem of [] \<Rightarrow> Inr k | t # ts \<Rightarrow> ReadyToRun t k) (\<lambda>k1.
       DEFINED (is_int32 (value sem + 1)) (Inr (set_semaphore s \<lparr>value = value sem + 1, queue = tl (queue sem)\<rparr> k1))))"

definition V_in_handler :: "address \<Rightarrow> Kernel \<Rightarrow> Kernel res" where
  "V_in_handler s k = (let old = level (interrupt k) in
     rbind (V_body s (ChangeLevel IntOff k)) (\<lambda>k1. ASSERT (old = IntOff) (Inr (ChangeLevel old k1))))"

definition run_handler :: "handler \<Rightarrow> Kernel \<Rightarrow> Kernel res" where
  "run_handler h k = (case h of
       TimerHandler \<Rightarrow> TimerExpired k
     | DiskDone \<Rightarrow> V_in_handler (disk_semaphore k) (k\<lparr>kdisk := HandleInterrupt (kdisk k)\<rparr>))"

text \<open>\<open>(*(toOccur->handler))(toOccur->arg)\<close> and the bookkeeping around it.\<close>

definition fire :: "PendingInterrupt \<Rightarrow> Kernel \<Rightarrow> Kernel res" where
  "fire p k = (let old = status (interrupt k) in
     rbind (run_handler (handler p) (map_interrupt (\<lambda>i. i\<lparr>inHandler := True, status := SystemMode\<rparr>) k)) (\<lambda>k1.
       Inr (map_interrupt (\<lambda>i. i\<lparr>status := old, inHandler := False\<rparr>) k1)))"

definition CheckIfDue :: "bool \<Rightarrow> Kernel \<Rightarrow> (bool \<times> Kernel) res" where
  "CheckIfDue advanceClock k =
     ASSERT (level (interrupt k) = IntOff) (
     case pending (interrupt k) of
       [] \<Rightarrow> Inr (False, k)
     | (w, toOccur) # rest \<Rightarrow>
        if w > now k \<and> \<not> advanceClock then Inr (False, k\<lparr>interrupt := (interrupt k)\<lparr>pending := l_sorted_insert toOccur w rest\<rparr>\<rparr>)
        else
          let k1 = k\<lparr>interrupt := (interrupt k)\<lparr>pending := rest\<rparr>,
                    stats := (if w > now k
                      then (stats k)\<lparr>idleTicks := idleTicks (stats k) + (w - now k), totalTicks := w\<rparr>
                      else stats k)\<rparr>
          in DEFINED (w > now k \<longrightarrow> is_int32 (w - now k) \<and> is_int32 (idleTicks (stats k) + (w - now k))) (
             if status (interrupt k1) = IdleMode \<and> int_type toOccur = TimerInt \<and> rest = []
             then Inr (False, k1\<lparr>interrupt := (interrupt k1)\<lparr>pending := l_sorted_insert toOccur w rest\<rparr>\<rparr>)
             else rbind (fire toOccur k1) (\<lambda>k2. Inr (True, k2))))"

text \<open>The interrupts that are due; each handler puts new ones in the future only.\<close>

definition due :: "Kernel \<Rightarrow> nat" where
  "due k = length (filter (\<lambda>(w, p). w \<le> now k) (pending (interrupt k)))"

lemma due_insert: "now k < t \<Longrightarrow>
   length (filter (\<lambda>(w, p). w \<le> now k) (l_sorted_insert x t ps)) = length (filter (\<lambda>(w, p). w \<le> now k) ps)"
  by (induction x t ps rule: l_sorted_insert.induct) auto

lemma Schedule_Inr: "Schedule h d ty k = Inr k' \<longleftrightarrow> is_int32 (now k + d) \<and> 0 < d \<and> k' = map_interrupt (\<lambda>i. i\<lparr>pending :=
    l_sorted_insert \<lparr>handler = h, when = now k + d, int_type = ty\<rparr> (now k + d) (pending i)\<rparr>) k"
  by (auto simp: Schedule_def ASSERT_eq_Inr_iff Let_def)

text \<open>What a handler keeps: the clock, and the interrupts that are already due.\<close>

definition keeps_clock :: "Kernel \<Rightarrow> Kernel \<Rightarrow> bool" where
  "keeps_clock k k' \<longleftrightarrow> stats k' = stats k \<and> due k' = due k"

lemma keeps_clock_due:
  "stats k' = stats k \<Longrightarrow> pending (interrupt k') = pending (interrupt k) \<Longrightarrow> keeps_clock k k'"
  by (simp add: keeps_clock_def due_def)

lemma keeps_clock_trans: "keeps_clock k k1 \<Longrightarrow> keeps_clock k1 k2 \<Longrightarrow> keeps_clock k k2"
  by (simp add: keeps_clock_def)

lemma Schedule_keeps_clock: "Schedule h d ty k = Inr k' \<Longrightarrow> keeps_clock k k'"
  by (auto simp: Schedule_Inr keeps_clock_def due_def map_interrupt_def due_insert)

lemma ReadyToRun_Inr:
  "ReadyToRun t k = Inr k' \<longleftrightarrow> (\<exists>th. threads k t = Some th \<and>
     k' = (set_thread t (th\<lparr>thread_status := READY\<rparr>) k)\<lparr>readyList := readyList k @ [t]\<rparr>)"
  by (auto simp: ReadyToRun_def setStatus_def lookup_def rbind_eq_Inr_iff set_thread_def split: option.splits)

lemma V_bodyE:
  assumes "V_body s k = Inr k'"
  obtains (none) sem where "semaphores k s = Some sem" "queue sem = []"
      "k' = set_semaphore s \<lparr>value = value sem + 1, queue = []\<rparr> k"
  | (wake) sem t ts th where "semaphores k s = Some sem" "queue sem = t # ts" "threads k t = Some th"
      "k' = set_semaphore s \<lparr>value = value sem + 1, queue = ts\<rparr>
         ((set_thread t (th\<lparr>thread_status := READY\<rparr>) k)\<lparr>readyList := readyList k @ [t]\<rparr>)"
proof -
  obtain sem k1 where 1: "semaphores k s = Some sem" "(case queue sem of [] \<Rightarrow> Inr k | t # ts \<Rightarrow> ReadyToRun t k) = Inr k1"
    "k' = set_semaphore s \<lparr>value = value sem + 1, queue = tl (queue sem)\<rparr> k1"
    using assms by (auto simp: V_body_def lookup_def rbind_eq_Inr_iff split: option.splits)
  then show ?thesis by (cases "queue sem") (auto simp: ReadyToRun_Inr intro: none wake)
qed

lemma V_body_keeps_clock: "V_body s k = Inr k' \<Longrightarrow> keeps_clock k k'"
  by (erule V_bodyE) (simp_all add: set_semaphore_def set_thread_def keeps_clock_due)

lemma run_handler_keeps_clock: "run_handler h k = Inr k' \<Longrightarrow> keeps_clock k k'"
proof (cases h)
  case TimerHandler
  assume r: "run_handler h k = Inr k'"
  obtain d k1 where n: "TimeOfNextInterrupt k = (d, k1)" by fastforce
  then have 1: "keeps_clock k k1" by (auto simp: TimeOfNextInterrupt_def intro: keeps_clock_due split: if_splits)
  from r TimerHandler n obtain k2 where 2: "Schedule TimerHandler d TimerInt k1 = Inr k2" "k' = TimerInterruptHandler k2"
    by (auto simp: run_handler_def TimerExpired_def rbind_eq_Inr_iff)
  have "keeps_clock k2 k'" unfolding 2(2)
    by (rule keeps_clock_due) (auto simp: TimerInterruptHandler_def YieldOnReturn_def map_interrupt_def)
  then show ?thesis using keeps_clock_trans [OF keeps_clock_trans [OF 1 Schedule_keeps_clock [OF 2(1)]]] by simp
next
  case DiskDone
  assume r: "run_handler h k = Inr k'"
  let ?k0 = "ChangeLevel IntOff (k\<lparr>kdisk := HandleInterrupt (kdisk k)\<rparr>)"
  from r DiskDone obtain k1 where 1: "V_body (disk_semaphore k) ?k0 = Inr k1" "k' = ChangeLevel (level (interrupt k)) k1"
    by (auto simp: run_handler_def V_in_handler_def rbind_eq_Inr_iff ASSERT_eq_Inr_iff Let_def)
  have "keeps_clock k ?k0" "keeps_clock k1 k'" unfolding 1(2)
    by (auto simp: ChangeLevel_def map_interrupt_def intro!: keeps_clock_due)
  then show ?thesis using V_body_keeps_clock [OF 1(1)] by (blast intro: keeps_clock_trans)
qed

lemma fire_keeps_clock: "fire p k = Inr k' \<Longrightarrow> keeps_clock k k'"
proof -
  let ?k0 = "map_interrupt (\<lambda>i. i\<lparr>inHandler := True, status := SystemMode\<rparr>) k"
  assume "fire p k = Inr k'"
  then obtain k1 where 1: "run_handler (handler p) ?k0 = Inr k1"
    "k' = map_interrupt (\<lambda>i. i\<lparr>status := status (interrupt k), inHandler := False\<rparr>) k1"
    by (auto simp: fire_def Let_def rbind_eq_Inr_iff)
  have "keeps_clock k ?k0" "keeps_clock k1 k'" unfolding 1(2) by (auto simp: map_interrupt_def intro!: keeps_clock_due)
  then show ?thesis using run_handler_keeps_clock [OF 1(1)] by (blast intro: keeps_clock_trans)
qed

lemma CheckIfDue_decreases:
  assumes "CheckIfDue False k = Inr (True, k')"
  shows "due k' < due k" "stats k' = stats k"
proof -
  obtain w p rest where p: "pending (interrupt k) = (w, p) # rest" "w \<le> now k"
    and f: "fire p (k\<lparr>interrupt := (interrupt k)\<lparr>pending := rest\<rparr>, stats := stats k\<rparr>) = Inr k'"
    using assms by (auto simp: CheckIfDue_def ASSERT_eq_Inr_iff rbind_eq_Inr_iff Let_def split: list.splits if_splits)
  from fire_keeps_clock [OF f] show "due k' < due k" "stats k' = stats k"
    using p by (auto simp: keeps_clock_def due_def)
qed

text \<open>\<open>while (CheckIfDue(false)) ;\<close>\<close>

function check_loop :: "Kernel \<Rightarrow> Kernel res" where
  "check_loop k = rbind (CheckIfDue False k) (\<lambda>(fired, k'). if fired then check_loop k' else Inr k')"
  by pat_completeness auto
termination by (relation "measure due") (auto dest: CheckIfDue_decreases)

declare check_loop.simps [simp del]

section \<open>Threads\<close>

definition STACK_FENCEPOST :: int where "STACK_FENCEPOST = 0xdeadbeef"

definition Thread_new :: Thread where
  "Thread_new = \<lparr>thread_status = JUST_CREATED, stack = None, frames = [], received = [], buffer = []\<rparr>"

definition CheckOverflow :: "Thread \<Rightarrow> 'a res \<Rightarrow> 'a res" where
  "CheckOverflow th c = (case stack th of None \<Rightarrow> c | Some w \<Rightarrow> ASSERT (w = STACK_FENCEPOST) c)"

text \<open>
  \<open>Scheduler::Run\<close> up to \<open>SWITCH\<close>: the old thread will go on with \<open>Run_tail\<close>.  The blocks under \<open>USER_PROGRAM\<close> are in
  \<open>Nachos_Switch\<close>.
\<close>

definition Run :: "address \<Rightarrow> Kernel \<Rightarrow> Kernel res" where
  "Run nextThread k = rbind (lookup (threads k) (currentThread k)) (\<lambda>old.
     CheckOverflow old (
     rbind (push [Run_tail] k) (\<lambda>k1.
     rbind (setStatus nextThread RUNNING k1) (\<lambda>k2. Inr (k2\<lparr>currentThread := nextThread\<rparr>)))))"

definition Thread_delete :: "address \<Rightarrow> Kernel \<Rightarrow> Kernel res" where
  "Thread_delete t k = ASSERT (t \<noteq> currentThread k) (Inr (k\<lparr>threads := (threads k)(t := None)\<rparr>))"

definition run_tail :: "Kernel \<Rightarrow> Kernel res" where
  "run_tail k = (case threadToBeDestroyed k of
       None \<Rightarrow> Inr k
     | Some t \<Rightarrow> rbind (Thread_delete t k) (\<lambda>k1. Inr (k1\<lparr>threadToBeDestroyed := None\<rparr>)))"

text \<open>\<open>SetLevel(IntOff)\<close>, which never advances the clock, with the old level.\<close>

definition SetLevel_off :: "Kernel \<Rightarrow> IntStatus \<times> Kernel" where
  "SetLevel_off k = (level (interrupt k), ChangeLevel IntOff k)"

definition Yield :: "Kernel \<Rightarrow> Kernel res" where
  "Yield k = (let (oldLevel, k1) = SetLevel_off k; (nextThread, k2) = FindNextToRun k1 in
     rbind (push [Set_level oldLevel] k2) (\<lambda>k3.
     case nextThread of
       None \<Rightarrow> Inr k3
     | Some n \<Rightarrow> rbind (ReadyToRun (currentThread k3) k3) (\<lambda>k4. Run n k4)))"

text \<open>The counters that a tick adds to.\<close>

definition tick_stats :: "MachineStatus \<Rightarrow> Statistics \<Rightarrow> Statistics" where
  "tick_stats old st = (if old = SystemMode
     then st\<lparr>totalTicks := totalTicks st + SystemTick, systemTicks := systemTicks st + SystemTick\<rparr>
     else st\<lparr>totalTicks := totalTicks st + UserTick, userTicks := userTicks st + UserTick\<rparr>)"

definition tick_defined :: "MachineStatus \<Rightarrow> Statistics \<Rightarrow> bool" where
  "tick_defined old st \<longleftrightarrow> is_int32 (totalTicks (tick_stats old st)) \<and>
     is_int32 (if old = SystemMode then systemTicks (tick_stats old st) else userTicks (tick_stats old st))"

definition OneTick :: "Kernel \<Rightarrow> Kernel res" where
  "OneTick k = (let old = status (interrupt k); k1 = k\<lparr>stats := tick_stats old (stats k)\<rparr> in
     DEFINED (tick_defined old (stats k)) (
     rbind (check_loop (ChangeLevel IntOff k1)) (\<lambda>k2.
     let k3 = ChangeLevel IntOn k2 in
     if yieldOnReturn (interrupt k3)
     then rbind (push [Set_mode old] (map_interrupt (\<lambda>i. i\<lparr>yieldOnReturn := False, status := SystemMode\<rparr>) k3)) Yield
     else Inr k3)))"

definition SetLevel :: "IntStatus \<Rightarrow> Kernel \<Rightarrow> Kernel res" where
  "SetLevel l k = (let old = level (interrupt k) in
     ASSERT (l = IntOff \<or> \<not> inHandler (interrupt k)) (
     if l = IntOn \<and> old = IntOff then OneTick (ChangeLevel l k) else Inr (ChangeLevel l k)))"

definition Enable :: "Kernel \<Rightarrow> Kernel res" where "Enable k = SetLevel IntOn k"

definition Halt :: "Kernel \<Rightarrow> Kernel" where "Halt k = k\<lparr>halted := True\<rparr>"

definition Idle :: "Kernel \<Rightarrow> Kernel res" where
  "Idle k = rbind (CheckIfDue True (map_interrupt (\<lambda>i. i\<lparr>status := IdleMode\<rparr>) k)) (\<lambda>(fired, k1).
     if fired
     then rbind (check_loop k1) (\<lambda>k2. Inr (map_interrupt (\<lambda>i. i\<lparr>yieldOnReturn := False, status := SystemMode\<rparr>) k2))
     else Inr (Halt k1))"

definition Sleep :: "Kernel \<Rightarrow> Kernel res" where
  "Sleep k = ASSERT (level (interrupt k) = IntOff) (
     rbind (setStatus (currentThread k) BLOCKED k) (push [Sleep_loop]))"

definition sleep_loop :: "Kernel \<Rightarrow> Kernel res" where
  "sleep_loop k = (case FindNextToRun k of
       (None, k1) \<Rightarrow> rbind (push [Sleep_loop] k1) Idle
     | (Some n, k1) \<Rightarrow> Run n k1)"

definition Finish :: "Kernel \<Rightarrow> Kernel res" where
  "Finish k = (let (_, k1) = SetLevel_off k in Sleep (k1\<lparr>threadToBeDestroyed := Some (currentThread k1)\<rparr>))"

text \<open>\<open>new Thread\<close>, \<open>StackAllocate\<close> and \<open>Thread::Fork\<close>; \<open>ThreadRoot\<close> enables interrupts, runs the code and finishes.\<close>

definition StackAllocate :: "code list \<Rightarrow> Thread \<Rightarrow> Thread" where
  "StackAllocate func th = th\<lparr>stack := Some STACK_FENCEPOST, frames := Int_enable # func @ [Call_Finish]\<rparr>"

definition Fork :: "code list \<Rightarrow> Kernel \<Rightarrow> Kernel res" where
  "Fork func k = (let t = next_address k;
       (oldLevel, k1) = SetLevel_off (set_thread t (StackAllocate func Thread_new) (k\<lparr>next_address := Suc t\<rparr>)) in
     rbind (ReadyToRun t k1) (push [Set_level oldLevel]))"

section \<open>Semaphores, locks and conditions\<close>

definition P :: "address \<Rightarrow> Kernel \<Rightarrow> Kernel res" where
  "P s k = (let (oldLevel, k1) = SetLevel_off k in push [P_loop s, Set_level oldLevel] k1)"

definition p_loop :: "address \<Rightarrow> Kernel \<Rightarrow> Kernel res" where
  "p_loop s k = rbind (lookup (semaphores k) s) (\<lambda>sem.
     if value sem = 0
     then rbind (push [P_loop s] (set_semaphore s (sem\<lparr>queue := queue sem @ [currentThread k]\<rparr>) k)) Sleep
     else DEFINED (is_int32 (value sem - 1)) (Inr (set_semaphore s (sem\<lparr>value := value sem - 1\<rparr>) k)))"

definition V :: "address \<Rightarrow> Kernel \<Rightarrow> Kernel res" where
  "V s k = (let (oldLevel, k1) = SetLevel_off k in rbind (V_body s k1) (push [Set_level oldLevel]))"

fun sem_destroy_loop :: "address \<Rightarrow> address list \<Rightarrow> Kernel \<Rightarrow> Kernel res" where
  "sem_destroy_loop s [] k = Inr k"
| "sem_destroy_loop s (t # ts) k = rbind (lookup (semaphores k) s) (\<lambda>sem.
     rbind (ReadyToRun t (set_semaphore s (sem\<lparr>queue := ts\<rparr>) k)) (sem_destroy_loop s ts))"

definition Destroy :: "address \<Rightarrow> Kernel \<Rightarrow> Kernel res" where
  "Destroy s k = (let (oldLevel, k1) = SetLevel_off k in
     rbind (lookup (semaphores k1) s) (\<lambda>sem.
     rbind (sem_destroy_loop s (queue sem) k1) (push [Set_level oldLevel])))"

definition Acquire :: "address \<Rightarrow> Kernel \<Rightarrow> Kernel res" where
  "Acquire l k = rbind (lookup (locks k) l) (\<lambda>lk. rbind (push [Set_holder l] k) (P (mutex lk)))"

definition set_holder :: "address \<Rightarrow> Kernel \<Rightarrow> Kernel res" where
  "set_holder l k = rbind (lookup (locks k) l) (\<lambda>lk.
     Inr (k\<lparr>locks := (locks k)(l \<mapsto> lk\<lparr>lockHolder := Some (currentThread k)\<rparr>)\<rparr>))"

definition isHeldByCurrentThread :: "Lock \<Rightarrow> Kernel \<Rightarrow> bool" where
  "isHeldByCurrentThread lk k \<longleftrightarrow> lockHolder lk = Some (currentThread k)"

definition Release :: "address \<Rightarrow> Kernel \<Rightarrow> Kernel res" where
  "Release l k = rbind (lookup (locks k) l) (\<lambda>lk.
     ASSERT (isHeldByCurrentThread lk k) (V (mutex lk) (k\<lparr>locks := (locks k)(l \<mapsto> lk\<lparr>lockHolder := None\<rparr>)\<rparr>)))"

definition Wait :: "address \<Rightarrow> address \<Rightarrow> Kernel \<Rightarrow> Kernel res" where
  "Wait c l k = rbind (lookup (locks k) l) (\<lambda>lk. rbind (lookup (conditions k) c) (\<lambda>cond.
     ASSERT (isHeldByCurrentThread lk k) (
     let waiter = next_address k;
         k1 = set_semaphore waiter \<lparr>value = 0, queue = []\<rparr> (k\<lparr>next_address := Suc waiter,
                conditions := (conditions k)(c \<mapsto> \<lparr>waitQueue = waitQueue cond @ [waiter]\<rparr>)\<rparr>) in
     rbind (push [Call_P waiter, Call_Acquire l, Delete_sem waiter] k1) (Release l))))"

definition Signal :: "address \<Rightarrow> address \<Rightarrow> Kernel \<Rightarrow> Kernel res" where
  "Signal c l k = rbind (lookup (locks k) l) (\<lambda>lk. rbind (lookup (conditions k) c) (\<lambda>cond.
     ASSERT (isHeldByCurrentThread lk k) (
     case waitQueue cond of
       [] \<Rightarrow> Inr k
     | waiter # ws \<Rightarrow> V waiter (k\<lparr>conditions := (conditions k)(c \<mapsto> \<lparr>waitQueue = ws\<rparr>)\<rparr>))))"

definition broadcast_loop :: "address \<Rightarrow> address \<Rightarrow> Kernel \<Rightarrow> Kernel res" where
  "broadcast_loop c l k = rbind (lookup (conditions k) c) (\<lambda>cond.
     if waitQueue cond = [] then Inr k else rbind (push [Broadcast_loop c l] k) (Signal c l))"

section \<open>Synchronised lists, the dining philosophers and the synchronous disk\<close>

definition SL_Append :: "address \<Rightarrow> int \<Rightarrow> Kernel \<Rightarrow> Kernel res" where
  "SL_Append sl x k = rbind (lookup (synchLists k) sl) (\<lambda>s.
     rbind (push [List_append sl x, Call_Signal (listEmpty s) (list_lock s), Call_Release (list_lock s)] k)
       (Acquire (list_lock s)))"

definition list_append :: "address \<Rightarrow> int \<Rightarrow> Kernel \<Rightarrow> Kernel res" where
  "list_append sl x k = rbind (lookup (synchLists k) sl) (\<lambda>s.
     Inr (k\<lparr>synchLists := (synchLists k)(sl \<mapsto> s\<lparr>list_items := list_items s @ [x]\<rparr>)\<rparr>))"

definition SL_Remove :: "address \<Rightarrow> Kernel \<Rightarrow> Kernel res" where
  "SL_Remove sl k = rbind (lookup (synchLists k) sl) (\<lambda>s.
     rbind (push [Remove_loop sl] k) (Acquire (list_lock s)))"

definition remove_loop :: "address \<Rightarrow> Kernel \<Rightarrow> Kernel res" where
  "remove_loop sl k = rbind (lookup (synchLists k) sl) (\<lambda>s.
     case list_items s of
       [] \<Rightarrow> rbind (push [Remove_loop sl] k) (Wait (listEmpty s) (list_lock s))
     | x # rest \<Rightarrow>
        rbind (lookup (threads k) (currentThread k)) (\<lambda>th.
        Release (list_lock s) (set_thread (currentThread k) (th\<lparr>received := received th @ [x]\<rparr>)
          (k\<lparr>synchLists := (synchLists k)(sl \<mapsto> s\<lparr>list_items := rest\<rparr>)\<rparr>))))"

definition ph_get :: "int \<Rightarrow> Kernel \<Rightarrow> PhState res" where
  "ph_get i k = array_get (ph_state (philosophers k)) i"

definition ph_set :: "int \<Rightarrow> PhState \<Rightarrow> Kernel \<Rightarrow> Kernel res" where
  "ph_set i st k = rbind (array_set (ph_state (philosophers k)) i st) (\<lambda>ss.
     Inr (k\<lparr>philosophers := (philosophers k)\<lparr>ph_state := ss\<rparr>\<rparr>))"

definition ph_test :: "int \<Rightarrow> Kernel \<Rightarrow> Kernel res" where
  "ph_test i k =
     rbind (ph_get ((i + 4) smod 5) k) (\<lambda>left. rbind (ph_get i k) (\<lambda>own. rbind (ph_get ((i + 1) smod 5) k) (\<lambda>right.
     if left \<noteq> Eating \<and> own = Hungry \<and> right \<noteq> Eating
     then rbind (ph_set i Eating k) (\<lambda>k1. rbind (array_get (self (philosophers k)) i) (\<lambda>c.
          Signal c (dp (philosophers k)) k1))
     else Inr k)))"

definition pickup :: "int \<Rightarrow> Kernel \<Rightarrow> Kernel res" where
  "pickup who k = rbind (push [Pickup_test who] k) (Acquire (dp (philosophers k)))"

definition pickup_test :: "int \<Rightarrow> Kernel \<Rightarrow> Kernel res" where
  "pickup_test who k = rbind (ph_set who Hungry k) (\<lambda>k1. rbind (push [Pickup_wait who] k1) (ph_test who))"

definition pickup_wait :: "int \<Rightarrow> Kernel \<Rightarrow> Kernel res" where
  "pickup_wait who k = rbind (push [Call_Release (dp (philosophers k))] k) (\<lambda>k1.
     rbind (ph_get who k1) (\<lambda>st. if st = Hungry
       then rbind (array_get (self (philosophers k1)) who) (\<lambda>c. Wait c (dp (philosophers k1)) k1)
       else Inr k1))"

definition putdown :: "int \<Rightarrow> Kernel \<Rightarrow> Kernel res" where
  "putdown who k = rbind (push [Putdown_left who, Ph_test ((who + 1) smod 5), Call_Release (dp (philosophers k))] k)
     (Acquire (dp (philosophers k)))"

definition putdown_left :: "int \<Rightarrow> Kernel \<Rightarrow> Kernel res" where
  "putdown_left who k = rbind (ph_set who Thinking k) (ph_test ((who + 4) smod 5))"

definition k_ReadSector :: "int \<Rightarrow> Kernel \<Rightarrow> Kernel res" where
  "k_ReadSector s k = rbind (push [Read_request s, Call_P (disk_semaphore k), Call_Release (disk_lock k)] k)
     (Acquire (disk_lock k))"

definition k_WriteSector :: "int \<Rightarrow> byte list \<Rightarrow> Kernel \<Rightarrow> Kernel res" where
  "k_WriteSector s bs k = rbind (push [Write_request s bs, Call_P (disk_semaphore k), Call_Release (disk_lock k)] k)
     (Acquire (disk_lock k))"

definition read_request :: "int \<Rightarrow> Kernel \<Rightarrow> Kernel res" where
  "read_request s k = rbind (lookup (threads k) (currentThread k)) (\<lambda>th.
     rbind (ReadRequest (now k) s (kdisk k)) (\<lambda>(bs, ticks, d).
       DEFINED (is_int32 (numDiskReads (stats k) + 1)) (Schedule DiskDone ticks DiskInt (set_thread (currentThread k) (th\<lparr>buffer := bs\<rparr>)
         (k\<lparr>kdisk := d, stats := (stats k)\<lparr>numDiskReads := numDiskReads (stats k) + 1\<rparr>\<rparr>)))))"

definition write_request :: "int \<Rightarrow> byte list \<Rightarrow> Kernel \<Rightarrow> Kernel res" where
  "write_request s bs k = rbind (WriteRequest (now k) s bs (kdisk k)) (\<lambda>(ticks, d).
     DEFINED (is_int32 (numDiskWrites (stats k) + 1)) (Schedule DiskDone ticks DiskInt
       (k\<lparr>kdisk := d, stats := (stats k)\<lparr>numDiskWrites := numDiskWrites (stats k) + 1\<rparr>\<rparr>)))"

section \<open>Execution\<close>

fun exec_code :: "code \<Rightarrow> Kernel \<Rightarrow> Kernel res" where
  "exec_code Run_tail k = run_tail k"
| "exec_code Sleep_loop k = sleep_loop k"
| "exec_code (P_loop s) k = p_loop s k"
| "exec_code (Set_level l) k = SetLevel l k"
| "exec_code Int_enable k = Enable k"
| "exec_code (Set_mode m) k = Inr (map_interrupt (\<lambda>i. i\<lparr>status := m\<rparr>) k)"
| "exec_code (Set_holder l) k = set_holder l k"
| "exec_code (Delete_sem s) k = Inr (k\<lparr>semaphores := (semaphores k)(s := None)\<rparr>)"
| "exec_code (Broadcast_loop c l) k = broadcast_loop c l k"
| "exec_code (List_append sl x) k = list_append sl x k"
| "exec_code (Remove_loop sl) k = remove_loop sl k"
| "exec_code (Read_request s) k = read_request s k"
| "exec_code (Write_request s bs) k = write_request s bs k"
| "exec_code (Pickup_test i) k = pickup_test i k"
| "exec_code (Pickup_wait i) k = pickup_wait i k"
| "exec_code (Putdown_left i) k = putdown_left i k"
| "exec_code (Ph_test i) k = ph_test i k"
| "exec_code (Call_P s) k = P s k"
| "exec_code (Call_V s) k = V s k"
| "exec_code (Call_Destroy s) k = Destroy s k"
| "exec_code (Call_Acquire l) k = Acquire l k"
| "exec_code (Call_Release l) k = Release l k"
| "exec_code (Call_Wait c l) k = Wait c l k"
| "exec_code (Call_Signal c l) k = Signal c l k"
| "exec_code (Call_Broadcast c l) k = broadcast_loop c l k"
| "exec_code Call_Yield k = Yield k"
| "exec_code (Call_Fork func) k = Fork func k"
| "exec_code Call_Finish k = Finish k"
| "exec_code (Call_Append sl x) k = SL_Append sl x k"
| "exec_code (Call_Remove sl) k = SL_Remove sl k"
| "exec_code (Call_ReadSector s) k = k_ReadSector s k"
| "exec_code (Call_WriteSector s bs) k = k_WriteSector s bs k"
| "exec_code (Call_pickup i) k = pickup i k"
| "exec_code (Call_putdown i) k = putdown i k"

definition kernel_step :: "Kernel \<Rightarrow> Kernel res" where
  "kernel_step k = rbind (lookup (threads k) (currentThread k)) (\<lambda>th.
     case frames th of
       [] \<Rightarrow> Inl BadPointer
     | c # cs \<Rightarrow> exec_code c (set_thread (currentThread k) (th\<lparr>frames := cs\<rparr>) k))"

inductive steps :: "Kernel \<Rightarrow> Kernel \<Rightarrow> bool" where
  none: "steps k k"
| more: "steps k k1 \<Longrightarrow> \<not> halted k1 \<Longrightarrow> kernel_step k1 = Inr k2 \<Longrightarrow> steps k k2"

section \<open>Starting the kernel\<close>

text \<open>
  The objects that exist when the first thread starts: semaphores with their initial values, locks
  with the semaphores they are made of, conditions, lists with their lock and condition.
\<close>

record Globals =
  g_semaphores :: "(address \<times> int) list"
  g_locks :: "(address \<times> address) list"
  g_conditions :: "address list"
  g_lists :: "(address \<times> address \<times> address) list"
  g_philosophers :: DinningPh
  g_disk_semaphore :: address
  g_disk_lock :: address
  g_next :: address

definition new_semaphores :: "Globals \<Rightarrow> address \<rightharpoonup> Semaphore" where
  "new_semaphores g = map_of (map (\<lambda>(s, v). (s, \<lparr>value = v, queue = []\<rparr>)) (g_semaphores g) @
     map (\<lambda>(l, m). (m, \<lparr>value = 1, queue = []\<rparr>)) (g_locks g))"

text \<open>\<open>Initialize\<close> of \<open>system.cc\<close> for the flag \<open>-rs\<close> (a timer with random time slices) or without it; the
  main thread has no stack of its own, and it finishes after \<open>prog\<close>.\<close>

definition Initialize :: "bool \<Rightarrow> (nat \<Rightarrow> nat) \<Rightarrow> Disk \<Rightarrow> Globals \<Rightarrow> code list \<Rightarrow> Kernel res" where
  "Initialize randomYield rnd d g prog =
     (let main = Thread_new\<lparr>thread_status := RUNNING, frames := Int_enable # prog @ [Call_Finish]\<rparr>;
          k = \<lparr>stats = Statistics_new, interrupt = Interrupt_new, readyList = [], currentThread = 0,
            threadToBeDestroyed = None, threads = [0 \<mapsto> main], semaphores = new_semaphores g,
            locks = map_of (map (\<lambda>(l, m). (l, \<lparr>lockHolder = None, mutex = m\<rparr>)) (g_locks g)),
            conditions = map_of (map (\<lambda>c. (c, \<lparr>waitQueue = []\<rparr>)) (g_conditions g)),
            synchLists = map_of (map (\<lambda>(sl, l, c). (sl, \<lparr>list_items = [], list_lock = l, listEmpty = c\<rparr>)) (g_lists g)),
            philosophers = g_philosophers g, kdisk = d, disk_semaphore = g_disk_semaphore g, disk_lock = g_disk_lock g,
            randomize = randomYield, random = rnd, draws = 0, next_address = g_next g, halted = False\<rparr> in
      if randomYield
      then let (t, k1) = TimeOfNextInterrupt k in Schedule TimerHandler t TimerInt k1
      else Inr k)"

end
