(* ===== verification/Nachos_Sched.thy ===== *)
theory Nachos_Sched
  imports Nachos_Kernel
begin

text \<open>
  The scheduling invariant of the kernel of \<open>Nachos_Kernel\<close> and its preservation by every step: the
  ready list holds exactly the ready threads, each once; a blocked thread waits in the queue of the
  semaphore that its stack names, or has finished; the running thread is the current thread; every
  routine runs at the interrupt level it expects; and the thread that is to be destroyed is finished.
\<close>

section \<open>The scheduling invariant\<close>

text \<open>
  \<open>chain l cs\<close>: the code points \<open>cs\<close> of a running thread, entered at interrupt level \<open>l\<close>, run each
  routine of the kernel at the level it expects.
\<close>

fun call_ok :: "code \<Rightarrow> bool" where
  "call_ok (Call_Fork func) \<longleftrightarrow> list_all call_ok func"
| "call_ok Call_Finish \<longleftrightarrow> False"
| "call_ok Run_tail \<longleftrightarrow> False"
| "call_ok Sleep_loop \<longleftrightarrow> False"
| "call_ok (P_loop s) \<longleftrightarrow> False"
| "call_ok (Set_level l) \<longleftrightarrow> False"
| "call_ok Int_enable \<longleftrightarrow> False"
| "call_ok _ \<longleftrightarrow> True"

fun chain :: "IntStatus \<Rightarrow> code list \<Rightarrow> bool" where
  "chain l [] \<longleftrightarrow> False"
| "chain IntOff (Run_tail # cs) \<longleftrightarrow> chain IntOff cs"
| "chain IntOff (P_loop s # cs) \<longleftrightarrow> chain IntOff cs"
| "chain IntOff (Set_level l # cs) \<longleftrightarrow> l = IntOn \<and> chain IntOn cs"
| "chain IntOff (Int_enable # cs) \<longleftrightarrow> chain IntOn cs"
| "chain IntOff (_ # cs) \<longleftrightarrow> False"
| "chain IntOn (Call_Finish # cs) \<longleftrightarrow> cs = []"
| "chain IntOn (c # cs) \<longleftrightarrow> call_ok c \<and> chain IntOn cs"

lemma chain_calls: "list_all call_ok ds \<Longrightarrow> chain IntOn (ds @ cs) \<longleftrightarrow> chain IntOn cs"
proof (induction ds)
  case (Cons d ds)
  then show ?case by (cases d) auto
qed simp

text \<open>A suspended thread goes on at the end of \<open>Scheduler::Run\<close>, or starts, or waits for an interrupt in \<open>Sleep\<close>.\<close>

definition suspended :: "code list \<Rightarrow> bool" where
  "suspended cs \<longleftrightarrow> (\<exists>ds. (cs = Run_tail # ds \<or> cs = Sleep_loop # ds) \<and> (ds = [] \<or> chain IntOff ds)) \<or>
     (\<exists>ds. cs = Int_enable # ds \<and> chain IntOn ds)"

definition waits_on :: "address \<Rightarrow> code list \<Rightarrow> bool" where
  "waits_on s cs \<longleftrightarrow> (\<exists>ds. cs = Run_tail # P_loop s # ds \<or> cs = Sleep_loop # P_loop s # ds)"

definition finished :: "code list \<Rightarrow> bool" where
  "finished cs \<longleftrightarrow> cs = [Run_tail] \<or> cs = [Sleep_loop]"

definition stack_ok :: "Thread \<Rightarrow> bool" where
  "stack_ok th \<longleftrightarrow> stack th = None \<or> stack th = Some STACK_FENCEPOST"

definition thread_ok :: "Kernel \<Rightarrow> address \<Rightarrow> Thread \<Rightarrow> bool" where
  "thread_ok k t th \<longleftrightarrow> stack_ok th \<and> suspended (frames th) \<and>
     (thread_status th = READY \<and> t \<in> set (readyList k) \<and> \<not> finished (frames th) \<or>
      thread_status th = BLOCKED \<and> t \<notin> set (readyList k) \<and>
        (finished (frames th) \<or> (\<exists>s. waits_on s (frames th) \<and> s < next_address k \<and>
           (\<forall>sem. semaphores k s = Some sem \<longrightarrow> t \<in> set (queue sem)))))"

text \<open>\<open>inv_at X k\<close>: the scheduler's data are consistent, the threads in \<open>X\<close> aside.\<close>

definition queues_ok :: "address set \<Rightarrow> Kernel \<Rightarrow> bool" where
  "queues_ok X k \<longleftrightarrow> (\<forall>s sem. semaphores k s = Some sem \<longrightarrow> s < next_address k \<and> distinct (queue sem) \<and>
     (\<forall>t \<in> set (queue sem). t \<notin> X \<and> (\<exists>th. threads k t = Some th \<and> thread_status th = BLOCKED \<and> waits_on s (frames th))))"

definition threads_ok :: "address set \<Rightarrow> Kernel \<Rightarrow> bool" where
  "threads_ok X k \<longleftrightarrow> (\<forall>t th. threads k t = Some th \<longrightarrow> t < next_address k \<and> (t \<notin> X \<longrightarrow> thread_ok k t th))"

definition lists_ok :: "address set \<Rightarrow> Kernel \<Rightarrow> bool" where
  "lists_ok X k \<longleftrightarrow> distinct (readyList k) \<and> (\<forall>t \<in> set (readyList k). t \<notin> X \<and> threads k t \<noteq> None) \<and>
     (\<forall>t. threadToBeDestroyed k = Some t \<longrightarrow>
        t \<notin> X \<and> (\<exists>th. threads k t = Some th \<and> thread_status th = BLOCKED \<and> finished (frames th)))"

definition sleepers_ok :: "Kernel \<Rightarrow> bool" where
  "sleepers_ok k \<longleftrightarrow> (\<forall>t th ds. threads k t = Some th \<and> frames th = Sleep_loop # ds \<longrightarrow> t = currentThread k)"

definition inv_at :: "address set \<Rightarrow> Kernel \<Rightarrow> bool" where
  "inv_at X k \<longleftrightarrow> queues_ok X k \<and> threads_ok X k \<and> lists_ok X k \<and> sleepers_ok k"

definition running :: "code list \<Rightarrow> IntStatus \<Rightarrow> Kernel \<Rightarrow> bool" where
  "running cs l k \<longleftrightarrow> inv_at {currentThread k} k \<and> level (interrupt k) = l \<and> \<not> inHandler (interrupt k) \<and>
     (\<exists>th. threads k (currentThread k) = Some th \<and> thread_status th = RUNNING \<and> stack_ok th \<and> frames th = cs)"

definition sleeping :: "code list \<Rightarrow> Kernel \<Rightarrow> bool" where
  "sleeping cs k \<longleftrightarrow> inv_at {} k \<and> level (interrupt k) = IntOff \<and> \<not> inHandler (interrupt k) \<and>
     (\<exists>th. threads k (currentThread k) = Some th \<and> frames th = Sleep_loop # cs)"

definition kernel_ok :: "Kernel \<Rightarrow> bool" where
  "kernel_ok k \<longleftrightarrow> (\<exists>cs l. running cs l k \<and> chain l cs) \<or> (\<exists>cs. sleeping cs k)"

lemmas inv_defs = inv_at_def queues_ok_def threads_ok_def thread_ok_def lists_ok_def sleepers_ok_def

lemma queuesD:
  assumes "inv_at X k" "semaphores k s = Some sem"
  shows "s < next_address k" "distinct (queue sem)" "t \<in> set (queue sem) \<Longrightarrow> t \<notin> X"
    "t \<in> set (queue sem) \<Longrightarrow> threads k t = Some th \<Longrightarrow> thread_status th = BLOCKED \<and> waits_on s (frames th)"
    "t \<in> set (queue sem) \<Longrightarrow> \<exists>th. threads k t = Some th \<and> thread_status th = BLOCKED \<and> waits_on s (frames th)"
  using assms unfolding inv_at_def queues_ok_def by fastforce+

lemma threadsD:
  assumes "inv_at X k" "threads k t = Some th"
  shows "t < next_address k" "t \<notin> X \<Longrightarrow> thread_ok k t th"
  using assms unfolding inv_at_def threads_ok_def by blast+

text \<open>Parts of the state that the invariant does not speak of.\<close>

definition same_sched :: "Kernel \<Rightarrow> Kernel \<Rightarrow> bool" where
  "same_sched k k' \<longleftrightarrow> readyList k' = readyList k \<and> currentThread k' = currentThread k \<and>
     threadToBeDestroyed k' = threadToBeDestroyed k \<and> threads k' = threads k \<and> semaphores k' = semaphores k \<and>
     next_address k' = next_address k"

lemma inv_at_same: "same_sched k k' \<Longrightarrow> inv_at X k' = inv_at X k"
  by (simp add: same_sched_def inv_defs)

lemma running_same:
  "same_sched k k' \<Longrightarrow> level (interrupt k') = level (interrupt k) \<Longrightarrow> inHandler (interrupt k') = inHandler (interrupt k) \<Longrightarrow>
   running cs l k' = running cs l k"
  using inv_at_same [of k k'] by (simp add: running_def same_sched_def)

lemma thread_ok_cong:
  assumes "thread_ok k t th" "t \<in> set (readyList k') \<longleftrightarrow> t \<in> set (readyList k)" "next_address k \<le> next_address k'"
    "\<And>s sem'. semaphores k' s = Some sem' \<Longrightarrow> waits_on s (frames th) \<Longrightarrow> s < next_address k \<Longrightarrow>
       \<exists>sem. semaphores k s = Some sem \<and> (t \<in> set (queue sem) \<longrightarrow> t \<in> set (queue sem'))"
  shows "thread_ok k' t th"
  using assms unfolding thread_ok_def by (meson dual_order.strict_trans1)

section \<open>The routines keep it\<close>

text \<open>What an interrupt handler keeps when the threads in \<open>X\<close> are not suspended.\<close>

definition keeps :: "address set \<Rightarrow> Kernel \<Rightarrow> Kernel \<Rightarrow> bool" where
  "keeps X k k' \<longleftrightarrow> (inv_at X k \<longrightarrow> inv_at X k') \<and> currentThread k' = currentThread k \<and> next_address k' = next_address k \<and>
     (inv_at X k \<longrightarrow> (\<forall>t \<in> X. threads k' t = threads k t)) \<and>
     (\<forall>t. map_option frames (threads k' t) = map_option frames (threads k t)) \<and>
     level (interrupt k') = level (interrupt k) \<and> inHandler (interrupt k') = inHandler (interrupt k)"

lemma keeps_trans: "keeps X k k1 \<Longrightarrow> keeps X k1 k2 \<Longrightarrow> keeps X k k2"
  by (auto simp: keeps_def)

lemma keeps_same:
  "same_sched k k' \<Longrightarrow> level (interrupt k') = level (interrupt k) \<Longrightarrow> inHandler (interrupt k') = inHandler (interrupt k) \<Longrightarrow>
   keeps X k k'"
  using inv_at_same [of k k' X] by (simp add: keeps_def same_sched_def)

text \<open>The first thread of a semaphore's queue is made ready.\<close>

lemma wake_keeps:
  assumes wake: "semaphores k s = Some sem" "queue sem = t # ts" "threads k t = Some th"
    and sem': "queue sem' = ts"
    and k': "k' = k\<lparr>threads := (threads k)(t \<mapsto> th\<lparr>thread_status := READY\<rparr>), readyList := readyList k @ [t],
      semaphores := (semaphores k)(s \<mapsto> sem')\<rparr>"
  shows "keeps X k k'"
proof -
  have "inv_at X k' \<and> t \<notin> X" if i: "inv_at X k"
  proof -
    have q: "t \<notin> X" "distinct (t # ts)" "thread_status th = BLOCKED" "waits_on s (frames th)" "thread_ok k t th"
      using queuesD [OF i wake(1)] threadsD [OF i wake(3)] wake(2,3) by auto
    have nf: "\<not> finished (frames th)" and nr: "t \<notin> set (readyList k)"
      using q(3-5) by (auto simp: waits_on_def finished_def thread_ok_def)
    have once: "t \<notin> set (queue sem')" if "semaphores k s' = Some sem'" "s' \<noteq> s" for s' sem'
      using queuesD(4) [OF i that(1), of t th] that(2) q(4) wake(3) by (auto simp: waits_on_def)
    have "queues_ok X k'"
      using i wake(1-3) sem' q once unfolding k' inv_at_def queues_ok_def by (auto split: if_splits)
    moreover have "thread_ok k' u uh" if "threads k' u = Some uh" "u \<notin> X" for u uh
    proof (cases "u = t")
      case True
      then show ?thesis using that q nf by (auto simp: k' thread_ok_def stack_ok_def)
    next
      case False
      then have "thread_ok k u uh" using i that by (auto simp: k' inv_at_def threads_ok_def)
      then show ?thesis by (rule thread_ok_cong) (use False wake(1,2) sem' in \<open>auto simp: k' split: if_splits\<close>)
    qed
    then have "threads_ok X k'" using i wake(3) by (auto simp: k' inv_at_def threads_ok_def)
    moreover have "lists_ok X k'" using i q nr nf wake(3) unfolding k' inv_at_def lists_ok_def by auto
    moreover have "sleepers_ok k'" using i wake(3) by (auto simp: k' inv_at_def sleepers_ok_def)
    ultimately show ?thesis using q(1) by (simp add: inv_at_def)
  qed
  then show ?thesis using wake(3) by (auto simp: keeps_def k')
qed

lemma V_body_keeps:
  assumes "V_body s k = Inr k'" shows "keeps X k k'"
  using assms
proof (cases rule: V_bodyE)
  case (none sem)
  have k': "k' = k\<lparr>semaphores := (semaphores k)(s \<mapsto> \<lparr>value = value sem + 1, queue = []\<rparr>)\<rparr>"
    using none by (simp add: set_semaphore_def)
  have "thread_ok k' t th" if "thread_ok k t th" for t th
    by (rule thread_ok_cong [OF that]) (use none(1,2) in \<open>auto simp: k' split: if_splits\<close>)
  then have "inv_at X k'" if "inv_at X k"
    using that none(1,2) unfolding k' inv_at_def queues_ok_def lists_ok_def threads_ok_def sleepers_ok_def by auto
  then show ?thesis by (simp add: keeps_def k')
next
  case (wake sem t ts th)
  show ?thesis
    by (rule wake_keeps [OF wake(1-3), of "\<lparr>value = value sem + 1, queue = ts\<rparr>"])
       (simp_all add: wake(4) set_semaphore_def set_thread_def)
qed

lemma same_sched_simps:
  "same_sched k (map_interrupt f k)" "same_sched k (k\<lparr>stats := x\<rparr>)" "same_sched k (k\<lparr>kdisk := d\<rparr>)" "same_sched k (k\<lparr>draws := n\<rparr>)"
  "same_sched k (k\<lparr>interrupt := i\<rparr>)" "same_sched k (ChangeLevel l k)" "same_sched k (k\<lparr>interrupt := i, stats := x\<rparr>)"
  by (simp_all add: same_sched_def map_interrupt_def ChangeLevel_def)

lemma run_handler_keeps: "run_handler h k = Inr k' \<Longrightarrow> keeps X k k'"
proof (cases h)
  case TimerHandler
  assume r: "run_handler h k = Inr k'"
  obtain d k1 where n: "TimeOfNextInterrupt k = (d, k1)" by fastforce
  then have 1: "keeps X k k1" by (auto simp: TimeOfNextInterrupt_def same_sched_def intro: keeps_same split: if_splits)
  from r TimerHandler n obtain k2 where 2: "Schedule TimerHandler d TimerInt k1 = Inr k2" "k' = TimerInterruptHandler k2"
    by (auto simp: run_handler_def TimerExpired_def rbind_eq_Inr_iff)
  have "keeps X k1 k2" using 2(1) by (auto simp: Schedule_Inr map_interrupt_def intro!: keeps_same same_sched_simps)
  moreover have "keeps X k2 k'" unfolding 2(2)
    by (rule keeps_same) (auto simp: TimerInterruptHandler_def YieldOnReturn_def map_interrupt_def same_sched_def)
  ultimately show ?thesis using 1 by (blast intro: keeps_trans)
next
  case DiskDone
  assume r: "run_handler h k = Inr k'"
  let ?k0 = "ChangeLevel IntOff (k\<lparr>kdisk := HandleInterrupt (kdisk k)\<rparr>)"
  from r DiskDone obtain k1 where 1: "V_body (disk_semaphore k) ?k0 = Inr k1" "k' = ChangeLevel IntOff k1" "level (interrupt k) = IntOff"
    by (auto simp: run_handler_def V_in_handler_def rbind_eq_Inr_iff ASSERT_eq_Inr_iff Let_def)
  have "keeps X k ?k0" using 1(3) by (auto simp: ChangeLevel_def map_interrupt_def same_sched_def intro!: keeps_same)
  moreover have "keeps X ?k0 k1" by (rule V_body_keeps [OF 1(1)])
  moreover have "level (interrupt k1) = IntOff"
    using V_body_keeps [OF 1(1), of X] by (simp add: keeps_def ChangeLevel_def map_interrupt_def)
  then have "keeps X k1 k'" unfolding 1(2)
    by (intro keeps_same same_sched_simps) (simp_all add: ChangeLevel_def map_interrupt_def)
  ultimately show ?thesis by (blast intro: keeps_trans)
qed

lemma fire_keeps:
  assumes "fire p k = Inr k'" "\<not> inHandler (interrupt k)" shows "keeps X k k'"
proof -
  let ?k0 = "map_interrupt (\<lambda>i. i\<lparr>inHandler := True, status := SystemMode\<rparr>) k"
  obtain k1 where 1: "run_handler (handler p) ?k0 = Inr k1"
    "k' = map_interrupt (\<lambda>i. i\<lparr>status := status (interrupt k), inHandler := False\<rparr>) k1"
    using assms(1) by (auto simp: fire_def Let_def rbind_eq_Inr_iff)
  have "inv_at X ?k0 = inv_at X k" "inv_at X k' = inv_at X k1" unfolding 1(2) by (simp_all add: inv_at_same same_sched_simps)
  then show ?thesis using run_handler_keeps [OF 1(1), of X] assms(2) 1(2)
    by (simp add: keeps_def map_interrupt_def)
qed

lemma CheckIfDueE:
  assumes "CheckIfDue adv k = Inr (b, k')"
  obtains (empty) "pending (interrupt k) = []" "\<not> b" "k' = k"
  | (later) w p rest i st where "pending (interrupt k) = (w, p) # rest" "\<not> b" "k' = k\<lparr>interrupt := i, stats := st\<rparr>"
      "i = (interrupt k)\<lparr>pending := l_sorted_insert p w rest\<rparr>" "now k \<le> totalTicks st"
      "\<not> adv \<and> now k < w \<and> st = stats k \<or> status (interrupt k) = IdleMode \<and> int_type p = TimerInt \<and> rest = []"
  | (fired) w p rest i st where "pending (interrupt k) = (w, p) # rest" b "fire p (k\<lparr>interrupt := i, stats := st\<rparr>) = Inr k'"
      "i = (interrupt k)\<lparr>pending := rest\<rparr>" "totalTicks st = max w (now k)" "adv \<or> w \<le> now k"
proof (cases "pending (interrupt k)")
  case Nil
  then have "\<not> b" "k' = k" using assms by (auto simp: CheckIfDue_def ASSERT_eq_Inr_iff)
  with Nil show ?thesis by (rule empty)
next
  case (Cons wp rest)
  obtain w p where wp: "wp = (w, p)" by fastforce
  note pend = Cons [unfolded wp]
  let ?i = "(interrupt k)\<lparr>pending := l_sorted_insert p w rest\<rparr>"
  show ?thesis
  proof (cases "w > now k \<and> \<not> adv")
    case True
    then have "\<not> b" "k' = k\<lparr>interrupt := ?i, stats := stats k\<rparr>"
      using assms pend by (auto simp: CheckIfDue_def ASSERT_eq_Inr_iff)
    then show ?thesis using later [OF pend _ _ refl, of "stats k"] True by simp
  next
    case False
    let ?st = "if w > now k then (stats k)\<lparr>idleTicks := idleTicks (stats k) + (w - now k), totalTicks := w\<rparr> else stats k"
    have r: "(if status (interrupt k) = IdleMode \<and> int_type p = TimerInt \<and> rest = []
        then Inr (False, k\<lparr>interrupt := ?i, stats := ?st\<rparr>)
        else rbind (fire p (k\<lparr>interrupt := (interrupt k)\<lparr>pending := rest\<rparr>, stats := ?st\<rparr>)) (\<lambda>k2. Inr (True, k2))) = Inr (b, k')"
      using False assms pend by (auto simp: CheckIfDue_def ASSERT_eq_Inr_iff Let_def split: if_splits)
    have t: "totalTicks ?st = max w (now k)" by simp
    show ?thesis
    proof (cases "status (interrupt k) = IdleMode \<and> int_type p = TimerInt \<and> rest = []")
      case True
      then have "\<not> b" "k' = k\<lparr>interrupt := ?i, stats := ?st\<rparr>" using r by auto
      then show ?thesis using later [OF pend _ _ refl, of ?st] True t by simp
    next
      case nt: False
      then have "b" "fire p (k\<lparr>interrupt := (interrupt k)\<lparr>pending := rest\<rparr>, stats := ?st\<rparr>) = Inr k'"
        using r by (auto simp: rbind_eq_Inr_iff split: if_splits)
      moreover have "adv \<or> w \<le> now k" using False by auto
      ultimately show ?thesis using fired [OF pend _ _ refl, of ?st] t by simp
    qed
  qed
qed

lemma CheckIfDue_keeps:
  assumes "CheckIfDue adv k = Inr (b, k')" "\<not> inHandler (interrupt k)" shows "keeps X k k'"
  using assms(1)
proof (cases rule: CheckIfDueE)
  case (fired w p rest i st)
  have "keeps X k (k\<lparr>interrupt := i, stats := st\<rparr>)" using fired(4) by (auto simp: same_sched_def intro!: keeps_same)
  then show ?thesis using fire_keeps [OF fired(3), of X] assms(2) fired(4) by (auto intro: keeps_trans)
qed (auto simp: same_sched_def intro!: keeps_same)

lemma check_loop_keeps: "check_loop k = Inr k' \<Longrightarrow> \<not> inHandler (interrupt k) \<Longrightarrow> keeps X k k'"
proof (induction k rule: check_loop.induct)
  case (1 k)
  from 1(2) obtain b k1 where c: "CheckIfDue False k = Inr (b, k1)" "(if b then check_loop k1 else Inr k1) = Inr k'"
    by (subst (asm) check_loop.simps) (auto simp: rbind_eq_Inr_iff)
  have k1: "keeps X k k1" by (rule CheckIfDue_keeps [OF c(1) 1(3)])
  show ?case
  proof (cases b)
    case True
    then have "keeps X k1 k'" using 1(1) [OF c(1) refl True] c k1 1(3) by (auto simp: keeps_def)
    with k1 show ?thesis by (rule keeps_trans)
  next
    case False
    then show ?thesis using c k1 by simp
  qed
qed

lemma runningD:
  assumes "running cs l k"
  obtains th where "threads k (currentThread k) = Some th" "thread_status th = RUNNING" "stack_ok th" "frames th = cs"
    "inv_at {currentThread k} k" "level (interrupt k) = l" "\<not> inHandler (interrupt k)" "currentThread k < next_address k"
  using assms threadsD(1) [of "{currentThread k}" k "currentThread k"] unfolding running_def by blast

lemma runningI:
  assumes "threads k (currentThread k) = Some th" "thread_status th = RUNNING" "stack_ok th" "frames th = cs"
    "inv_at {currentThread k} k" "level (interrupt k) = l" "\<not> inHandler (interrupt k)"
  shows "running cs l k"
  using assms by (simp add: running_def)

lemma inv_at_current_frames:
  assumes "inv_at {currentThread k} k" "currentThread k < next_address k"
  shows "inv_at {currentThread k} (set_thread (currentThread k) th k)"
proof -
  have "thread_ok (set_thread (currentThread k) th k) u uh = thread_ok k u uh" for u uh by (simp add: thread_ok_def set_thread_def)
  then show ?thesis using assms
    unfolding inv_at_def queues_ok_def threads_ok_def lists_ok_def sleepers_ok_def by (auto simp: set_thread_def)
qed

lemma push_running:
  assumes "running cs l k"
  obtains th where "push ds k = Inr (set_thread (currentThread k) th k)" "running (ds @ cs) l (set_thread (currentThread k) th k)"
proof (rule runningD [OF assms])
  fix th assume th: "threads k (currentThread k) = Some th" "thread_status th = RUNNING" "stack_ok th" "frames th = cs"
    "inv_at {currentThread k} k" "level (interrupt k) = l" "\<not> inHandler (interrupt k)" "currentThread k < next_address k"
  let ?th = "th\<lparr>frames := ds @ frames th\<rparr>"
  have "running (ds @ cs) l (set_thread (currentThread k) ?th k)"
    by (rule runningI [where th = ?th])
       (use th inv_at_current_frames [OF th(5,8), of ?th] in \<open>auto simp: set_thread_def stack_ok_def\<close>)
  then show thesis using th(1) by (intro that [of ?th]) (auto simp: push_def lookup_def)
qed

lemma push_keeps_running: "push ds k = Inr k' \<Longrightarrow> running cs l k \<Longrightarrow> running (ds @ cs) l k'"
  by (erule push_running [of cs l k ds]) simp

text \<open>A context switch: the old thread has been put away at \<open>c\<close> and the new one was on the ready list.\<close>

lemma dispatch:
  assumes inv: "inv_at {} k" and n: "readyList k = n # ts" and nh: "level (interrupt k) = IntOff" "\<not> inHandler (interrupt k)"
    and none: "\<forall>t th ds. threads k t = Some th \<and> frames th = Sleep_loop # ds \<longrightarrow> False"
    and nth: "threads k n = Some nh"
  shows "\<exists>cs. running cs IntOff (set_thread n (nh\<lparr>thread_status := RUNNING\<rparr>) (k\<lparr>readyList := ts, currentThread := n\<rparr>)) \<and> chain IntOff cs"
proof -
  let ?k = "set_thread n (nh\<lparr>thread_status := RUNNING\<rparr>) (k\<lparr>readyList := ts, currentThread := n\<rparr>)"
  have ok: "thread_ok k n nh" and lt: "n < next_address k" using threadsD [OF inv nth] by auto
  have dist: "n \<notin> set ts" "distinct ts" using inv n by (auto simp: inv_at_def lists_ok_def)
  have r: "thread_status nh = READY" "\<not> finished (frames nh)" "stack_ok nh" "suspended (frames nh)"
    using ok n by (auto simp: thread_ok_def)
  have ch: "chain IntOff (frames nh)" using r(2,4) none nth by (auto simp: suspended_def finished_def)
  have nq: "n \<notin> set (queue sem)" if "semaphores k s = Some sem" for s sem
    using queuesD(4) [OF inv that, of n nh] nth r(1) by auto
  have "thread_ok ?k u uh" if "threads k u = Some uh" "u \<noteq> n" for u uh
    by (rule thread_ok_cong [of k]) (use that threadsD(2) [OF inv that(1)] n in \<open>auto simp: set_thread_def\<close>)
  then have "threads_ok {n} ?k" using inv lt by (auto simp: inv_at_def threads_ok_def set_thread_def)
  moreover have "queues_ok {n} ?k" using inv nq by (auto simp: inv_at_def queues_ok_def set_thread_def) 
  moreover have "lists_ok {n} ?k" using inv n dist r(1) nth by (auto simp: inv_at_def lists_ok_def set_thread_def)
  moreover have "sleepers_ok ?k" using none by (auto simp: sleepers_ok_def set_thread_def)
  ultimately have "running (frames nh) IntOff ?k"
    by (intro runningI [where th = "nh\<lparr>thread_status := RUNNING\<rparr>"])
       (use nh r(3) in \<open>auto simp: set_thread_def inv_at_def stack_ok_def\<close>)
  then show ?thesis using ch by blast
qed

lemma kernel_ok_running: "running cs l k \<Longrightarrow> chain l cs \<Longrightarrow> kernel_ok k"
  and kernel_ok_sleeping: "sleeping cs k \<Longrightarrow> kernel_ok k"
  by (auto simp: kernel_ok_def)

text \<open>Putting the running thread away: it is ready again, or it waits for a semaphore, or it has finished.\<close>

lemma park:
  assumes run: "running cs l k" and k': "readyList k' = ready" "threads k' = (threads k)(currentThread k \<mapsto> th')" "semaphores k' = sems"
      "threadToBeDestroyed k' = dying" "next_address k' = next_address k" "currentThread k' = currentThread k"
    and th': "stack_ok th'" "suspended (frames th')"
    and case3: "ready = readyList k @ [currentThread k] \<and> sems = semaphores k \<and> dying = threadToBeDestroyed k \<and>
        thread_status th' = READY \<and> \<not> finished (frames th') \<or>
      ready = readyList k \<and> thread_status th' = BLOCKED \<and> dying = threadToBeDestroyed k \<and>
        (\<exists>s sem. semaphores k s = Some sem \<and> sems = (semaphores k)(s \<mapsto> sem\<lparr>queue := queue sem @ [currentThread k]\<rparr>) \<and> waits_on s (frames th')) \<or>
      ready = readyList k \<and> thread_status th' = BLOCKED \<and> sems = semaphores k \<and> finished (frames th') \<and> dying = Some (currentThread k)"
  shows "inv_at {} k'"
proof (rule runningD [OF run])
  let ?c = "currentThread k"
  fix th assume th: "threads k ?c = Some th" "inv_at {?c} k" "?c < next_address k"
  have nr: "?c \<notin> set (readyList k)" using th(2) by (auto simp: inv_at_def lists_ok_def)
  have nq: "?c \<notin> set (queue sem)" if "semaphores k s = Some sem" for s sem using queuesD(3) [OF th(2) that] by auto
  have other: "thread_ok k' u uh" if "threads k u = Some uh" "u \<noteq> ?c" for u uh
    by (rule thread_ok_cong [of k]) (use that threadsD(2) [OF th(2) that(1)] case3 k' in \<open>auto split: if_splits\<close>)
  have own: "thread_ok k' ?c th'"
    using case3
  proof (elim disjE)
    assume "ready = readyList k \<and> thread_status th' = BLOCKED \<and> dying = threadToBeDestroyed k \<and>
        (\<exists>s sem. semaphores k s = Some sem \<and> sems = (semaphores k)(s \<mapsto> sem\<lparr>queue := queue sem @ [?c]\<rparr>) \<and> waits_on s (frames th'))"
    then obtain s sem where s: "ready = readyList k" "thread_status th' = BLOCKED" "semaphores k s = Some sem"
      "sems = (semaphores k)(s \<mapsto> sem\<lparr>queue := queue sem @ [?c]\<rparr>)" "waits_on s (frames th')" by blast
    then have "\<exists>s. waits_on s (frames th') \<and> s < next_address k' \<and> (\<forall>sem. semaphores k' s = Some sem \<longrightarrow> ?c \<in> set (queue sem))"
      using queuesD(1) [OF th(2) s(3)] k' by (intro exI [of _ s]) auto
    then show ?thesis using s th' k' nr by (simp add: thread_ok_def)
  qed (use th' k' nr in \<open>auto simp: thread_ok_def\<close>)
  have "threads_ok {} k'" using th(2,3) other own k' by (auto simp: inv_at_def threads_ok_def)
  moreover have "queues_ok {} k'"
    unfolding queues_ok_def
  proof (intro allI impI)
    fix s sem assume s: "semaphores k' s = Some sem"
    show "s < next_address k' \<and> distinct (queue sem) \<and> (\<forall>t\<in>set (queue sem). t \<notin> {} \<and>
        (\<exists>th. threads k' t = Some th \<and> thread_status th = BLOCKED \<and> waits_on s (frames th)))"
    proof (cases "semaphores k s = Some sem")
      case True
      then show ?thesis using queuesD [OF th(2) True] k' by auto
    next
      case False
      then obtain sem0 where "semaphores k s = Some sem0" "sem = sem0\<lparr>queue := queue sem0 @ [?c]\<rparr>" "waits_on s (frames th')"
        "thread_status th' = BLOCKED" using case3 s k'(3) by (auto split: if_splits)
      then show ?thesis using queuesD [OF th(2), of s sem0] nq [of s sem0] k' by auto
    qed
  qed
  moreover have "lists_ok {} k'"
  proof -
    have nd: "threadToBeDestroyed k \<noteq> Some ?c" using th(2) by (auto simp: inv_at_def lists_ok_def)
    show ?thesis using th(2) k' nr nd nd [symmetric] case3 unfolding inv_at_def lists_ok_def by auto
  qed
  moreover have "sleepers_ok k'" using th(2) k' by (auto simp: inv_at_def sleepers_ok_def)
  ultimately show ?thesis by (simp add: inv_at_def)
qed

lemma no_sleeper:
  assumes "running cs l k" "\<nexists>ds. frames th' = Sleep_loop # ds" "threads k' = (threads k)(currentThread k \<mapsto> th')"
  shows "\<forall>t th ds. threads k' t = Some th \<and> frames th = Sleep_loop # ds \<longrightarrow> False"
  using assms unfolding running_def inv_at_def sleepers_ok_def by auto

lemma Yield_ok:
  assumes "running cs l k" "chain IntOn cs" "l = IntOn" "Yield k = Inr k'"
  shows "kernel_ok k'"
proof -
  let ?k1 = "ChangeLevel IntOff k" and ?c = "currentThread k"
  have r1: "running cs IntOff ?k1" using assms(1) inv_at_same [of k ?k1] same_sched_simps(6) [of k IntOff]
    by (auto simp: running_def ChangeLevel_def map_interrupt_def)
  show ?thesis
  proof (cases "readyList k")
    case Nil
    then have "push [Set_level IntOn] ?k1 = Inr k'"
      using assms(1,3,4) by (auto simp: Yield_def SetLevel_off_def FindNextToRun_def ChangeLevel_def map_interrupt_def running_def rbind_eq_Inr_iff)
    from push_keeps_running [OF this r1] show ?thesis by (rule kernel_ok_running) (use assms(2) in simp)
  next
    case (Cons n ts)
    obtain th where th: "threads k ?c = Some th" "thread_status th = RUNNING" "stack_ok th" "frames th = cs" "inv_at {?c} k"
      using runningD [OF assms(1)] by metis
    have n: "n \<noteq> ?c" "threads k n \<noteq> None" "n \<notin> set ts" using th(5) Cons by (auto simp: inv_at_def lists_ok_def)
    then obtain nth where nth: "threads k n = Some nth" by auto
    let ?th = "th\<lparr>thread_status := READY, frames := Run_tail # Set_level IntOn # cs\<rparr>"
    let ?kp = "?k1\<lparr>threads := (threads k)(?c \<mapsto> ?th), readyList := readyList k @ [?c]\<rparr>"
    have p: "inv_at {} ?kp"
      by (rule park [OF r1, where th' = ?th])
         (use th(3) assms(2) in \<open>auto simp: ChangeLevel_def map_interrupt_def stack_ok_def suspended_def finished_def\<close>)
    have "\<exists>cs'. running cs' IntOff (set_thread n (nth\<lparr>thread_status := RUNNING\<rparr>) (?kp\<lparr>readyList := ts @ [?c], currentThread := n\<rparr>)) \<and> chain IntOff cs'"
    proof (rule dispatch [OF p])
      show "readyList ?kp = n # ts @ [?c]" using Cons by simp
      show "level (interrupt ?kp) = IntOff" "\<not> inHandler (interrupt ?kp)" using r1 by (simp_all add: running_def)
      show "\<forall>t th ds. threads ?kp t = Some th \<and> frames th = Sleep_loop # ds \<longrightarrow> False"
        by (rule no_sleeper [OF r1, of ?th]) (simp_all add: ChangeLevel_def map_interrupt_def)
      show "threads ?kp n = Some nth" using nth n(1) by simp
    qed
    moreover have "k' = set_thread n (nth\<lparr>thread_status := RUNNING\<rparr>) (?kp\<lparr>readyList := ts @ [?c], currentThread := n\<rparr>)"
      using assms(1,3,4) Cons th n nth
      by (auto simp: Yield_def SetLevel_off_def FindNextToRun_def running_def rbind_eq_Inr_iff push_def lookup_def
        ReadyToRun_def setStatus_def Run_def CheckOverflow_def stack_ok_def set_thread_def ChangeLevel_def map_interrupt_def fun_upd_twist)
    ultimately show ?thesis by (blast intro: kernel_ok_running)
  qed
qed

lemma running_keeps: "keeps {currentThread k} k k' \<Longrightarrow> running cs l k \<Longrightarrow> running cs l k'"
  by (auto simp: keeps_def running_def)

lemma running_ChangeLevel: "running cs l k \<Longrightarrow> running cs l' (ChangeLevel l' k)"
  using inv_at_same [OF same_sched_simps(6)] by (auto simp: running_def ChangeLevel_def map_interrupt_def)

lemma OneTick_ok:
  assumes "running cs IntOn k" "chain IntOn cs" "OneTick k = Inr k'"
  shows "kernel_ok k'"
proof -
  define st where "st = tick_stats (status (interrupt k)) (stats k)"
  obtain k2 where 2: "check_loop (ChangeLevel IntOff (k\<lparr>stats := st\<rparr>)) = Inr k2"
    "(if yieldOnReturn (interrupt (ChangeLevel IntOn k2))
      then rbind (push [Set_mode (status (interrupt k))]
        (map_interrupt (\<lambda>i. i\<lparr>yieldOnReturn := False, status := SystemMode\<rparr>) (ChangeLevel IntOn k2))) Yield
      else Inr (ChangeLevel IntOn k2)) = Inr k'"
    using assms(3) unfolding OneTick_def Let_def st_def rbind_eq_Inr_iff DEFINED_eq_Inr_iff by blast
  have "running cs IntOn (k\<lparr>stats := st\<rparr>)"
    using assms(1) running_same [of k "k\<lparr>stats := st\<rparr>"] same_sched_simps by simp
  then have "running cs IntOff (ChangeLevel IntOff (k\<lparr>stats := st\<rparr>))" by (rule running_ChangeLevel)
  moreover from this have "\<not> inHandler (interrupt (ChangeLevel IntOff (k\<lparr>stats := st\<rparr>)))" by (simp add: running_def)
  ultimately have "running cs IntOff k2" using running_keeps check_loop_keeps [OF 2(1)] by blast
  then have 3: "running cs IntOn (ChangeLevel IntOn k2)" by (rule running_ChangeLevel)
  show ?thesis
  proof (cases "yieldOnReturn (interrupt (ChangeLevel IntOn k2))")
    case True
    let ?k3 = "map_interrupt (\<lambda>i. i\<lparr>yieldOnReturn := False, status := SystemMode\<rparr>) (ChangeLevel IntOn k2)"
    have "running cs IntOn ?k3 = running cs IntOn (ChangeLevel IntOn k2)"
      by (rule running_same [OF same_sched_simps(1)]) (simp_all add: map_interrupt_def)
    with 3 have "running cs IntOn ?k3" by simp
    then obtain th where p: "push [Set_mode (status (interrupt k))] ?k3 = Inr (set_thread (currentThread ?k3) th ?k3)"
      "running ([Set_mode (status (interrupt k))] @ cs) IntOn (set_thread (currentThread ?k3) th ?k3)" by (rule push_running)
    then have "Yield (set_thread (currentThread ?k3) th ?k3) = Inr k'" using 2(2) True by simp
    from Yield_ok [OF p(2) _ refl this] show ?thesis using assms(2) by simp
  next
    case False
    then show ?thesis using 2(2) 3 assms(2) kernel_ok_running by auto
  qed
qed

lemma SetLevel_ok:
  assumes "running cs IntOff k" "chain IntOn cs" "SetLevel IntOn k = Inr k'"
  shows "kernel_ok k'"
proof -
  have "OneTick (ChangeLevel IntOn k) = Inr k'"
    using assms(1,3) by (simp add: SetLevel_def running_def Let_def)
  then show ?thesis by (rule OneTick_ok [OF running_ChangeLevel [OF assms(1)] assms(2)])
qed

text \<open>Sleeping: the thread has put itself on a queue, or has finished.\<close>

lemma Sleep_ok:
  assumes run: "running cs IntOff k"
    and sems: "\<exists>s sem ds. semaphores k s = Some sem \<and> cs = P_loop s # ds \<and> chain IntOff cs \<and>
       sems = (semaphores k)(s \<mapsto> sem\<lparr>queue := queue sem @ [currentThread k]\<rparr>) \<and> dying = threadToBeDestroyed k \<or>
       cs = [] \<and> sems = semaphores k \<and> dying = Some (currentThread k)"
    and res: "Sleep (k\<lparr>semaphores := sems, threadToBeDestroyed := dying\<rparr>) = Inr k'"
  shows "sleeping cs k'"
proof (rule runningD [OF run])
  fix th assume th: "threads k (currentThread k) = Some th" "thread_status th = RUNNING" "stack_ok th" "frames th = cs"
    "inv_at {currentThread k} k" "level (interrupt k) = IntOff" "\<not> inHandler (interrupt k)"
  let ?th = "th\<lparr>thread_status := BLOCKED, frames := Sleep_loop # cs\<rparr>"
  have k': "k' = k\<lparr>semaphores := sems, threadToBeDestroyed := dying, threads := (threads k)(currentThread k \<mapsto> ?th)\<rparr>"
    using res th by (auto simp: Sleep_def setStatus_def push_def lookup_def set_thread_def)
  have "inv_at {} k'"
    by (rule park [OF run, where th' = ?th and ready = "readyList k" and sems = sems and dying = dying])
       (use th(3) sems k' in \<open>auto simp: stack_ok_def suspended_def finished_def waits_on_def\<close>)
  then show ?thesis using th(6,7) by (simp add: sleeping_def k')
qed

lemma push_sem:
  assumes "push ds k = Inr (set_thread (currentThread k) th k)"
  shows "push ds (set_semaphore s sem k) = Inr ((set_thread (currentThread k) th k)\<lparr>semaphores := (semaphores k)(s \<mapsto> sem)\<rparr>)"
proof -
  obtain th0 where t0: "threads k (currentThread k) = Some th0" using assms by (auto simp: push_def lookup_def split: option.splits)
  with assms have "set_thread (currentThread k) (th0\<lparr>frames := ds @ frames th0\<rparr>) k = set_thread (currentThread k) th k"
    by (simp add: push_def lookup_def)
  then have "threads (set_thread (currentThread k) (th0\<lparr>frames := ds @ frames th0\<rparr>) k) (currentThread k) =
     threads (set_thread (currentThread k) th k) (currentThread k)" by simp
  then have "th = th0\<lparr>frames := ds @ frames th0\<rparr>" by (simp add: set_thread_def)
  then show ?thesis using t0 by (simp add: push_def lookup_def set_semaphore_def set_thread_def)
qed

lemma p_loop_ok:
  assumes "running cs IntOff k" "chain IntOff cs" "p_loop s k = Inr k'"
  shows "kernel_ok k'"
proof -
  obtain sem where sem: "semaphores k s = Some sem"
    using assms(3) by (auto simp: p_loop_def lookup_def split: option.splits)
  show ?thesis
  proof (cases "value sem = 0")
    case True
    obtain th where p: "push [P_loop s] k = Inr (set_thread (currentThread k) th k)"
      "running ([P_loop s] @ cs) IntOff (set_thread (currentThread k) th k)" using push_running [OF assms(1)] by blast
    let ?kp = "set_thread (currentThread k) th k"
    let ?sems = "(semaphores k)(s \<mapsto> sem\<lparr>queue := queue sem @ [currentThread k]\<rparr>)"
    have "Sleep (?kp\<lparr>semaphores := ?sems, threadToBeDestroyed := threadToBeDestroyed ?kp\<rparr>) = Inr k'"
      using assms(3) sem True push_sem [OF p(1), of s] by (simp add: p_loop_def lookup_def)
    then have "sleeping ([P_loop s] @ cs) k'"
      by (intro Sleep_ok [OF p(2)]) (use sem assms(2) in \<open>auto simp: set_thread_def\<close>)
    then show ?thesis by (rule kernel_ok_sleeping)
  next
    case False
    then have k': "k' = set_semaphore s (sem\<lparr>value := value sem - 1\<rparr>) k"
      using assms(3) sem by (simp add: p_loop_def lookup_def)
    have "thread_ok k' t th" if "thread_ok k t th" for t th
      by (rule thread_ok_cong [OF that]) (use sem in \<open>auto simp: k' set_semaphore_def split: if_splits\<close>)
    then have "inv_at {currentThread k} k'"
      using assms(1) sem unfolding running_def inv_at_def queues_ok_def threads_ok_def lists_ok_def sleepers_ok_def
      by (auto simp: k' set_semaphore_def)
    then have "running cs IntOff k'" using assms(1) by (auto simp: running_def k' set_semaphore_def)
    then show ?thesis by (rule kernel_ok_running [OF _ assms(2)])
  qed
qed

lemma Finish_ok:
  assumes "running [] l k" "Finish k = Inr k'"
  shows "kernel_ok k'"
proof -
  let ?k1 = "ChangeLevel IntOff k"
  have "Sleep (?k1\<lparr>semaphores := semaphores ?k1, threadToBeDestroyed := Some (currentThread ?k1)\<rparr>) = Inr k'"
    using assms(2) by (simp add: Finish_def SetLevel_off_def)
  then have "sleeping [] k'" by (intro Sleep_ok [OF running_ChangeLevel [OF assms(1)]]) auto
  then show ?thesis by (rule kernel_ok_sleeping)
qed

lemma sleeping_keeps: "keeps {} k k' \<Longrightarrow> sleeping cs k \<Longrightarrow> sleeping cs k'"
proof -
  assume k: "keeps {} k k'" and s: "sleeping cs k"
  then obtain th where "threads k (currentThread k) = Some th" "frames th = Sleep_loop # cs" by (auto simp: sleeping_def)
  then have "map_option frames (threads k' (currentThread k)) = Some (Sleep_loop # cs)" using k by (simp add: keeps_def)
  then show ?thesis using k s by (auto simp: keeps_def sleeping_def)
qed

lemma sleeping_same:
  "same_sched k k' \<Longrightarrow> level (interrupt k') = level (interrupt k) \<Longrightarrow> inHandler (interrupt k') = inHandler (interrupt k) \<Longrightarrow>
   sleeping cs k' = sleeping cs k"
  using inv_at_same [of k k'] by (simp add: sleeping_def same_sched_def)

lemma Idle_ok:
  assumes "sleeping cs k" "Idle k = Inr k'"
  shows "sleeping cs k'"
proof -
  let ?k0 = "map_interrupt (\<lambda>i. i\<lparr>status := IdleMode\<rparr>) k"
  have s0: "sleeping cs ?k0" using assms(1) by (subst sleeping_same [OF same_sched_simps(1)]) (simp_all add: map_interrupt_def)
  then have h0: "\<not> inHandler (interrupt ?k0)" by (simp add: sleeping_def)
  obtain b k1 where 1: "CheckIfDue True ?k0 = Inr (b, k1)"
    "(if b then rbind (check_loop k1) (\<lambda>k2. Inr (map_interrupt (\<lambda>i. i\<lparr>yieldOnReturn := False, status := SystemMode\<rparr>) k2))
      else Inr (Halt k1)) = Inr k'" using assms(2) by (auto simp: Idle_def rbind_eq_Inr_iff)
  have s1: "sleeping cs k1" by (rule sleeping_keeps [OF CheckIfDue_keeps [OF 1(1) h0] s0])
  show ?thesis
  proof (cases b)
    case True
    then obtain k2 where 2: "check_loop k1 = Inr k2" "k' = map_interrupt (\<lambda>i. i\<lparr>yieldOnReturn := False, status := SystemMode\<rparr>) k2"
      using 1(2) by (auto simp: rbind_eq_Inr_iff)
    have "sleeping cs k2" by (rule sleeping_keeps [OF check_loop_keeps [OF 2(1)] s1]) (use s1 in \<open>simp add: sleeping_def\<close>)
    then show ?thesis unfolding 2(2) by (subst sleeping_same [OF same_sched_simps(1)]) (simp_all add: map_interrupt_def)
  next
    case False
    then have "k' = Halt k1" using 1(2) by simp
    moreover have "sleeping cs (Halt k1) = sleeping cs k1" by (rule sleeping_same) (simp_all add: Halt_def same_sched_def)
    ultimately show ?thesis using s1 by simp
  qed
qed

lemma sleep_loop_ok:
  assumes sl: "sleeping cs k" and th: "threads k (currentThread k) = Some th"
    and res: "sleep_loop (set_thread (currentThread k) (th\<lparr>frames := cs\<rparr>) k) = Inr k'"
  shows "kernel_ok k'"
proof (cases "readyList k")
  case Nil
  have "frames th = Sleep_loop # cs" using sl th by (auto simp: sleeping_def)
  then have eq: "set_thread (currentThread k) (th\<lparr>frames := Sleep_loop # cs\<rparr>) (set_thread (currentThread k) (th\<lparr>frames := cs\<rparr>) k) = k"
    using th by (auto simp: set_thread_def fun_upd_idem intro!: Kernel.equality Thread.equality)
  have "push [Sleep_loop] (set_thread (currentThread k) (th\<lparr>frames := cs\<rparr>) k) =
     Inr (set_thread (currentThread k) (th\<lparr>frames := Sleep_loop # cs\<rparr>) (set_thread (currentThread k) (th\<lparr>frames := cs\<rparr>) k))"
    by (simp add: push_def lookup_def set_thread_def)
  then have "Idle k = Inr k'" using res Nil unfolding eq by (simp add: sleep_loop_def FindNextToRun_def set_thread_def)
  then show ?thesis using Idle_ok [OF sl] by (blast intro: kernel_ok_sleeping)
next
  case (Cons n ts)
  let ?c = "currentThread k" and ?th = "th\<lparr>frames := Run_tail # cs\<rparr>"
  let ?kp = "k\<lparr>threads := (threads k)(?c \<mapsto> ?th)\<rparr>"
  have f: "frames th = Sleep_loop # cs" and inv: "inv_at {} k" using sl th by (auto simp: sleeping_def)
  have own: "thread_ok k ?c th" using threadsD(2) [OF inv th] by simp
  have fr: "suspended (Run_tail # cs)" "finished (Run_tail # cs) = finished (frames th)" "waits_on s (Run_tail # cs) = waits_on s (frames th)" for s
    using own f by (auto simp: thread_ok_def suspended_def finished_def waits_on_def)
  have ok: "thread_ok ?kp ?c ?th" using own fr by (auto simp: thread_ok_def stack_ok_def)
  have "thread_ok ?kp u uh = thread_ok k u uh" for u uh by (simp add: thread_ok_def)
  then have "threads_ok {} ?kp" using inv ok th by (auto simp: inv_at_def threads_ok_def)
  moreover have "queues_ok {} ?kp" using inv fr(3) th unfolding inv_at_def queues_ok_def by fastforce
  moreover have "lists_ok {} ?kp" using inv fr(2) th unfolding inv_at_def lists_ok_def by fastforce
  moreover have ns: "\<forall>t th ds. threads ?kp t = Some th \<and> frames th = Sleep_loop # ds \<longrightarrow> False"
    using inv by (auto simp: inv_at_def sleepers_ok_def)
  ultimately have inv': "inv_at {} ?kp" unfolding inv_at_def sleepers_ok_def by blast
  obtain nth where nth: "threads ?kp n = Some nth" using inv Cons by (force simp: inv_at_def lists_ok_def)
  have st: "stack_ok th" using own by (simp add: thread_ok_def)
  have "k' = set_thread n (nth\<lparr>thread_status := RUNNING\<rparr>) (?kp\<lparr>readyList := ts, currentThread := n\<rparr>)"
    using res Cons nth th st
    by (auto simp: sleep_loop_def FindNextToRun_def Run_def CheckOverflow_def stack_ok_def lookup_def push_def setStatus_def set_thread_def split: if_splits)
  then show ?thesis using dispatch [OF inv', of n ts nth] Cons nth ns sl
    by (auto simp: sleeping_def intro: kernel_ok_running)
qed

lemma run_tail_ok:
  assumes "running cs IntOff k" "chain IntOff cs" "run_tail k = Inr k'"
  shows "kernel_ok k'"
proof (cases "threadToBeDestroyed k")
  case None
  then show ?thesis using assms kernel_ok_running by (auto simp: run_tail_def)
next
  case (Some t)
  have inv: "inv_at {currentThread k} k" using assms(1) by (simp add: running_def)
  obtain th where t: "t \<noteq> currentThread k" "threads k t = Some th" "thread_status th = BLOCKED" "finished (frames th)"
    using inv Some unfolding inv_at_def lists_ok_def by auto
  have k': "k' = k\<lparr>threads := (threads k)(t := None), threadToBeDestroyed := None\<rparr>"
    using assms(3) Some by (auto simp: run_tail_def Thread_delete_def ASSERT_def split: if_splits)
  have nr: "t \<notin> set (readyList k)" using threadsD(2) [OF inv t(2)] t(1,3) by (auto simp: thread_ok_def)
  have nq: "t \<notin> set (queue sem)" if "semaphores k s = Some sem" for s sem
    using queuesD(4) [OF inv that, of t th] t by (auto simp: waits_on_def finished_def)
  have "thread_ok k' u uh = thread_ok k u uh" for u uh by (simp add: thread_ok_def k')
  then have "threads_ok {currentThread k} k'" using inv by (auto simp: inv_at_def threads_ok_def k')
  moreover have "queues_ok {currentThread k} k'" using inv nq unfolding inv_at_def queues_ok_def k' by force
  moreover have "lists_ok {currentThread k} k'" using inv nr unfolding inv_at_def lists_ok_def k' by auto
  moreover have "sleepers_ok k'" using inv unfolding inv_at_def sleepers_ok_def k' by auto
  ultimately have "running cs IntOff k'" using assms(1) t(1) by (auto simp: running_def inv_at_def k')
  then show ?thesis by (rule kernel_ok_running [OF _ assms(2)])
qed

lemma V_ok:
  assumes "running cs IntOn k" "chain IntOn cs" "V s k = Inr k'"
  shows "kernel_ok k'"
proof -
  have r: "running cs IntOff (ChangeLevel IntOff k)" by (rule running_ChangeLevel [OF assms(1)])
  obtain k1 where 1: "V_body s (ChangeLevel IntOff k) = Inr k1" "push [Set_level IntOn] k1 = Inr k'"
    using assms(1,3) by (auto simp: V_def SetLevel_off_def running_def rbind_eq_Inr_iff)
  have "running cs IntOff k1" using running_keeps [OF V_body_keeps [OF 1(1)] r] .
  from push_keeps_running [OF 1(2) this] show ?thesis by (rule kernel_ok_running) (use assms(2) in simp)
qed

text \<open>
  \<open>good f\<close>: called by the running thread with interrupts on, \<open>f\<close> leaves a consistent kernel.  The rules
  follow the structure of the routines.
\<close>

definition good :: "(Kernel \<Rightarrow> Kernel res) \<Rightarrow> bool" where
  "good f \<longleftrightarrow> (\<forall>k cs k'. running cs IntOn k \<and> chain IntOn cs \<and> f k = Inr k' \<longrightarrow> kernel_ok k')"

lemma goodI: "(\<And>k cs k'. running cs IntOn k \<Longrightarrow> chain IntOn cs \<Longrightarrow> f k = Inr k' \<Longrightarrow> kernel_ok k') \<Longrightarrow> good f"
  by (auto simp: good_def)

lemma goodD: "good f \<Longrightarrow> running cs IntOn k \<Longrightarrow> chain IntOn cs \<Longrightarrow> f k = Inr k' \<Longrightarrow> kernel_ok k'"
  by (auto simp: good_def)

lemma good_Inr: "good Inr" by (auto simp: good_def intro: kernel_ok_running)

lemma good_Inl: "good (\<lambda>k. Inl e)" by (simp add: good_def)

lemma good_bind: "(\<And>x. good (g x)) \<Longrightarrow> good (\<lambda>k. rbind (r k) (\<lambda>x. g x k))"
  unfolding good_def by (auto simp: rbind_eq_Inr_iff)

lemma good_ASSERT: "good g \<Longrightarrow> good (\<lambda>k. ASSERT (c k) (g k))"
  unfolding good_def by (auto simp: ASSERT_eq_Inr_iff)

lemma good_if: "good f \<Longrightarrow> good g \<Longrightarrow> good (\<lambda>k. if c k then f k else g k)"
  unfolding good_def by auto

lemma good_upd: "(\<And>k cs. running cs IntOn k \<Longrightarrow> running cs IntOn (u k)) \<Longrightarrow> good f \<Longrightarrow> good (\<lambda>k. f (u k))"
  unfolding good_def by blast

lemma good_push_upd:
  assumes "\<And>k. list_all call_ok (ds k)" "\<And>k cs. running cs IntOn k \<Longrightarrow> running cs IntOn (u k)" "good f"
  shows "good (\<lambda>k. rbind (push (ds k) (u k)) f)"
proof (rule goodI)
  fix k cs k' assume a: "running cs IntOn k" "chain IntOn cs" "rbind (push (ds k) (u k)) f = Inr k'"
  then obtain k1 where 1: "push (ds k) (u k) = Inr k1" "f k1 = Inr k'" by (auto simp: rbind_eq_Inr_iff)
  have "chain IntOn (ds k @ cs)" using a(2) chain_calls [OF assms(1)] by simp
  then show "kernel_ok k'" using goodD [OF assms(3) push_keeps_running [OF 1(1) assms(2) [OF a(1)]] _ 1(2)] by blast
qed

lemmas good_push = good_push_upd [where u = "\<lambda>k. k", OF _ _]

lemma running_upd: "same_sched k k' \<Longrightarrow> interrupt k' = interrupt k \<Longrightarrow> running cs l k \<Longrightarrow> running cs l k'"
  using running_same [of k k'] by simp

lemma running_upds [simp]:
  "running cs l (k\<lparr>locks := x1\<rparr>) = running cs l k" "running cs l (k\<lparr>conditions := x2\<rparr>) = running cs l k"
  "running cs l (k\<lparr>synchLists := x3\<rparr>) = running cs l k" "running cs l (k\<lparr>philosophers := x4\<rparr>) = running cs l k"
  "running cs l (k\<lparr>kdisk := x5, stats := x6\<rparr>) = running cs l k"
  by (rule running_same; simp add: same_sched_def)+

lemma good_V: "good (V s)" by (rule goodI) (rule V_ok)

lemma good_P: "good (P s)"
proof (rule goodI)
  fix k cs k' assume a: "running cs IntOn k" "chain IntOn cs" "P s k = Inr k'"
  then have "push [P_loop s, Set_level IntOn] (ChangeLevel IntOff k) = Inr k'" by (simp add: P_def SetLevel_off_def running_def)
  from push_keeps_running [OF this running_ChangeLevel [OF a(1)]] show "kernel_ok k'"
    by (rule kernel_ok_running) (use a(2) in simp)
qed

lemma good_Acquire: "good (Acquire l)"
  unfolding Acquire_def [abs_def] by (intro good_bind good_push good_P) simp_all

lemma good_set_holder: "good (set_holder l)"
  unfolding set_holder_def [abs_def] by (intro good_bind good_upd [OF _ good_Inr]) simp

lemma good_Release: "good (Release l)"
  unfolding Release_def [abs_def] by (intro good_bind good_ASSERT good_upd [OF _ good_V]) simp

lemma running_new_semaphore:
  assumes "running cs l k" "s = next_address k"
  shows "running cs l (set_semaphore s \<lparr>value = v, queue = []\<rparr> (k\<lparr>next_address := Suc s, conditions := x\<rparr>))" (is "running cs l ?k")
proof -
  have inv: "inv_at {currentThread k} k" using assms(1) by (simp add: running_def)
  have fresh: "thread_ok ?k u uh" if "thread_ok k u uh" for u uh
    by (rule thread_ok_cong [OF that]) (use assms(2) in \<open>auto simp: set_semaphore_def split: if_splits\<close>)
  have "threads_ok {currentThread k} ?k" using inv fresh assms(2)
    by (auto simp: inv_at_def threads_ok_def set_semaphore_def less_Suc_eq)
  moreover have "queues_ok {currentThread k} ?k" using inv assms(2)
    by (auto simp: inv_at_def queues_ok_def set_semaphore_def less_Suc_eq)
  moreover have "lists_ok {currentThread k} ?k" "sleepers_ok ?k" using inv
    by (auto simp: inv_at_def lists_ok_def sleepers_ok_def set_semaphore_def)
  ultimately show ?thesis using assms(1) by (auto simp: running_def inv_at_def set_semaphore_def)
qed

lemma good_Wait: "good (Wait c l)"
  unfolding Wait_def [abs_def] Let_def
  by (intro good_bind good_ASSERT good_push_upd good_Release running_new_semaphore) simp_all

lemma good_case_list: "good f \<Longrightarrow> (\<And>x xs. good (g x xs)) \<Longrightarrow> good (\<lambda>k. case ys k of [] \<Rightarrow> f k | x # xs \<Rightarrow> g x xs k)"
  unfolding good_def by (auto split: list.splits)

lemma good_Signal: "good (Signal c l)"
  unfolding Signal_def [abs_def]
  by (intro good_bind good_ASSERT good_case_list good_Inr good_upd [OF _ good_V]) simp

lemma good_broadcast_loop: "good (broadcast_loop c l)"
  unfolding broadcast_loop_def [abs_def] by (intro good_bind good_if good_Inr good_push good_Signal) simp_all

lemma good_SL_Append: "good (SL_Append sl x)"
  unfolding SL_Append_def [abs_def] by (intro good_bind good_push good_Acquire) simp_all

lemma good_list_append: "good (list_append sl x)"
  unfolding list_append_def [abs_def] by (intro good_bind good_upd [OF _ good_Inr]) simp

lemma good_SL_Remove: "good (SL_Remove sl)"
  unfolding SL_Remove_def [abs_def] by (intro good_bind good_push good_Acquire) simp_all

text \<open>Fields of the thread control block that the scheduler does not use.\<close>

lemma running_received:
  assumes "threads k (currentThread k) = Some th" "running cs l k" "frames th' = frames th" "thread_status th' = thread_status th" "stack th' = stack th"
  shows "running cs l (set_thread (currentThread k) th' k)"
  using assms(2)
proof (rule runningD)
  fix th0 assume th: "threads k (currentThread k) = Some th0" "thread_status th0 = RUNNING" "stack_ok th0" "frames th0 = cs"
    "inv_at {currentThread k} k" "level (interrupt k) = l" "\<not> inHandler (interrupt k)" "currentThread k < next_address k"
  show ?thesis
    by (rule runningI [where th = th']) (use th assms inv_at_current_frames [OF th(5,8), of th'] in \<open>auto simp: set_thread_def stack_ok_def\<close>)
qed

lemma good_remove_loop: "good (remove_loop sl)"
proof (rule goodI)
  fix k cs k' assume a: "running cs IntOn k" "chain IntOn cs" "remove_loop sl k = Inr k'"
  then obtain s th where s: "synchLists k sl = Some s" "threads k (currentThread k) = Some th"
    by (auto simp: remove_loop_def lookup_def running_def split: option.splits)
  show "kernel_ok k'"
  proof (cases "list_items s")
    case Nil
    have "good (\<lambda>k. rbind (push [Remove_loop sl] k) (Wait (listEmpty s) (list_lock s)))" by (intro good_push good_Wait) simp_all
    then show ?thesis using goodD [OF _ a(1,2)] a(3) s Nil by (simp add: remove_loop_def lookup_def)
  next
    case (Cons x rest)
    let ?k = "k\<lparr>synchLists := (synchLists k)(sl \<mapsto> s\<lparr>list_items := rest\<rparr>)\<rparr>"
    have "running cs IntOn (set_thread (currentThread ?k) (th\<lparr>received := received th @ [x]\<rparr>) ?k)"
      by (rule running_received [where th = th]) (use s a(1) in simp_all)
    then show ?thesis using goodD [OF good_Release _ a(2)] a(3) s Cons by (simp add: remove_loop_def lookup_def)
  qed
qed

lemma good_ph_test: "good (ph_test i)"
proof -
  have "good (\<lambda>k. rbind (ph_set i Eating k) (\<lambda>k1. rbind (array_get (self (philosophers k)) i) (\<lambda>c. Signal c (dp (philosophers k)) k1)))"
  proof (rule goodI)
    fix k cs k' assume a: "running cs IntOn k" "chain IntOn cs"
      "rbind (ph_set i Eating k) (\<lambda>k1. rbind (array_get (self (philosophers k)) i) (\<lambda>c. Signal c (dp (philosophers k)) k1)) = Inr k'"
    then obtain c ss where "Signal c (dp (philosophers k)) (k\<lparr>philosophers := (philosophers k)\<lparr>ph_state := ss\<rparr>\<rparr>) = Inr k'"
      by (auto simp: ph_set_def rbind_eq_Inr_iff)
    from goodD [OF good_Signal _ a(2) this] a(1) show "kernel_ok k'" by simp
  qed
  from good_if [OF this good_Inr] show ?thesis unfolding ph_test_def [abs_def] by (intro good_bind) simp
qed

lemma good_ph_set:
  assumes "good f" shows "good (\<lambda>k. rbind (ph_set i st k) f)"
proof (rule goodI)
  fix k cs k' assume a: "running cs IntOn k" "chain IntOn cs" "rbind (ph_set i st k) f = Inr k'"
  then obtain ss where "f (k\<lparr>philosophers := (philosophers k)\<lparr>ph_state := ss\<rparr>\<rparr>) = Inr k'"
    by (auto simp: ph_set_def rbind_eq_Inr_iff)
  from goodD [OF assms _ a(2) this] a(1) show "kernel_ok k'" by simp
qed

text \<open>A routine that reads some of the state first.\<close>

lemma good_read: "(\<And>x. good (g x)) \<Longrightarrow> good (\<lambda>k. g (r k) k)"
  unfolding good_def by blast

lemma good_pickup: "good (pickup i)"
proof -
  have "good (\<lambda>k. rbind (push [Pickup_test i] k) (Acquire l))" for l by (intro good_push good_Acquire) simp_all
  from good_read [OF this, of "\<lambda>k. dp (philosophers k)"] show ?thesis by (simp add: pickup_def [abs_def])
qed

lemma good_pickup_test: "good (pickup_test i)"
  unfolding pickup_test_def [abs_def] by (intro good_ph_set good_push good_ph_test) simp_all

lemma good_pickup_wait: "good (pickup_wait i)"
proof -
  have w: "good (\<lambda>k. rbind (ph_get i k) (\<lambda>st. if st = Hungry
       then rbind (array_get (self (philosophers k)) i) (\<lambda>c. Wait c (dp (philosophers k)) k) else Inr k))"
    using good_read [OF good_Wait, where r = "\<lambda>k. dp (philosophers k)"] by (intro good_bind good_if good_Inr) simp
  have "good (\<lambda>k. rbind (push [Call_Release (dp (philosophers k))] k) (\<lambda>k. rbind (ph_get i k) (\<lambda>st. if st = Hungry
       then rbind (array_get (self (philosophers k)) i) (\<lambda>c. Wait c (dp (philosophers k)) k) else Inr k)))"
    by (rule good_push [OF _ _ w]) simp_all
  then show ?thesis by (simp add: pickup_wait_def [abs_def])
qed

lemma good_putdown: "good (putdown i)"
proof -
  have "good (\<lambda>k. rbind (push [Putdown_left i, Ph_test ((i + 1) smod 5), Call_Release l] k) (Acquire l))" for l
    by (intro good_push good_Acquire) simp_all
  from good_read [OF this, of "\<lambda>k. dp (philosophers k)"] show ?thesis by (simp add: putdown_def [abs_def])
qed

lemma good_putdown_left: "good (putdown_left i)"
  unfolding putdown_left_def [abs_def] by (intro good_ph_set good_ph_test)

lemma good_sector: "good (k_ReadSector s)" "good (k_WriteSector s bs)"
proof -
  have g: "good (\<lambda>k. rbind (push [c, Call_P (disk_semaphore k), Call_Release (disk_lock k)] k) (Acquire (disk_lock k)))"
    if "call_ok c" for c
  proof -
    have "good (\<lambda>k. rbind (push [c, Call_P (disk_semaphore k), Call_Release l] k) (Acquire l))" for l
      using that by (intro good_push good_Acquire) simp_all
    from good_read [OF this, of "disk_lock"] show ?thesis .
  qed
  show "good (k_ReadSector s)" "good (k_WriteSector s bs)"
    unfolding k_ReadSector_def [abs_def] k_WriteSector_def [abs_def] by (rule g, simp)+
qed

lemma good_Schedule:
  assumes "running cs IntOn k" "chain IntOn cs" "Schedule h d ty k = Inr k'" shows "kernel_ok k'"
proof -
  have "same_sched k k'" "level (interrupt k') = level (interrupt k)" "inHandler (interrupt k') = inHandler (interrupt k)"
    using assms(3) by (auto simp: Schedule_Inr map_interrupt_def same_sched_def)
  then have "running cs IntOn k'" using running_same assms(1) by blast
  then show ?thesis by (rule kernel_ok_running [OF _ assms(2)])
qed

lemma good_write_request: "good (write_request s bs)"
proof (rule goodI)
  fix k cs k' assume a: "running cs IntOn k" "chain IntOn cs" "write_request s bs k = Inr k'"
  then obtain ticks d st where "Schedule DiskDone ticks DiskInt (k\<lparr>kdisk := d, stats := st\<rparr>) = Inr k'"
    by (auto simp: write_request_def rbind_eq_Inr_iff)
  from good_Schedule [OF _ a(2) this] a(1) show "kernel_ok k'" by simp
qed

lemma good_read_request: "good (read_request s)"
proof (rule goodI)
  fix k cs k' assume a: "running cs IntOn k" "chain IntOn cs" "read_request s k = Inr k'"
  then obtain th bs ticks d st where r: "threads k (currentThread k) = Some th"
    "Schedule DiskDone ticks DiskInt (set_thread (currentThread k) (th\<lparr>buffer := bs\<rparr>) (k\<lparr>kdisk := d, stats := st\<rparr>)) = Inr k'"
    by (auto simp: read_request_def rbind_eq_Inr_iff lookup_def split: option.splits)
  let ?k = "k\<lparr>kdisk := d, stats := st\<rparr>"
  have "running cs IntOn (set_thread (currentThread ?k) (th\<lparr>buffer := bs\<rparr>) ?k)"
    by (rule running_received [where th = th]) (use a(1) r(1) in simp_all)
  then show "kernel_ok k'" using good_Schedule [OF _ a(2) r(2)] by simp
qed

lemma destroy_loop_keeps:
  "sem_destroy_loop s ts k = Inr k' \<Longrightarrow> semaphores k s = Some sem \<Longrightarrow> queue sem = ts \<Longrightarrow> keeps X k k'"
proof (induction s ts k arbitrary: sem rule: sem_destroy_loop.induct)
  case (1 s k)
  then show ?case by (simp add: keeps_def)
next
  case (2 s t ts k)
  let ?k1 = "set_semaphore s (sem\<lparr>queue := ts\<rparr>) k"
  obtain k2 where 2: "ReadyToRun t ?k1 = Inr k2" "sem_destroy_loop s ts k2 = Inr k'"
    using "2.prems" by (auto simp: lookup_def rbind_eq_Inr_iff)
  then obtain th where th: "threads k t = Some th"
    "k2 = k\<lparr>threads := (threads k)(t \<mapsto> th\<lparr>thread_status := READY\<rparr>), readyList := readyList k @ [t],
      semaphores := (semaphores k)(s \<mapsto> sem\<lparr>queue := ts\<rparr>)\<rparr>"
    by (auto simp: ReadyToRun_Inr set_semaphore_def set_thread_def)
  have "keeps X k k2" by (rule wake_keeps [OF "2.prems"(2,3) th(1) _ th(2)]) simp
  moreover have "keeps X k2 k'" using "2.IH" [of sem k2 "sem\<lparr>queue := ts\<rparr>"] 2 "2.prems"(2) th(2)
    by (simp add: lookup_def)
  ultimately show ?case by (rule keeps_trans)
qed

lemma good_Destroy: "good (Destroy s)"
proof (rule goodI)
  fix k cs k' assume a: "running cs IntOn k" "chain IntOn cs" "Destroy s k = Inr k'"
  let ?k1 = "ChangeLevel IntOff k"
  from a(1,3) obtain sem k2 where 2: "semaphores ?k1 s = Some sem" "sem_destroy_loop s (queue sem) ?k1 = Inr k2" "push [Set_level IntOn] k2 = Inr k'"
    by (auto simp: Destroy_def SetLevel_off_def running_def lookup_def rbind_eq_Inr_iff split: option.splits)
  have "running cs IntOff k2"
    by (rule running_keeps [OF destroy_loop_keeps [OF 2(2,1) refl] running_ChangeLevel [OF a(1)]])
  from push_keeps_running [OF 2(3) this] show "kernel_ok k'" by (rule kernel_ok_running) (use a(2) in simp)
qed

lemma good_Delete_sem: "good (\<lambda>k. Inr (k\<lparr>semaphores := (semaphores k)(s := None)\<rparr>))"
proof (rule goodI)
  fix k cs k' assume a: "running cs IntOn k" "chain IntOn cs" "Inr (k\<lparr>semaphores := (semaphores k)(s := None)\<rparr>) = (Inr k' :: Kernel res)"
  then have k': "k' = k\<lparr>semaphores := (semaphores k)(s := None)\<rparr>" by simp
  have "thread_ok k' t th" if "thread_ok k t th" for t th
    by (rule thread_ok_cong [OF that]) (auto simp: k' split: if_splits)
  then have "inv_at {currentThread k} k'"
    using a(1) unfolding running_def inv_at_def queues_ok_def threads_ok_def lists_ok_def sleepers_ok_def by (auto simp: k')
  then have "running cs IntOn k'" using a(1) by (simp add: running_def k')
  then show "kernel_ok k'" by (rule kernel_ok_running [OF _ a(2)])
qed

lemma good_Fork:
  assumes "list_all call_ok func" shows "good (Fork func)"
proof (rule goodI)
  fix k cs k' assume a: "running cs IntOn k" "chain IntOn cs" "Fork func k = Inr k'"
  let ?t = "next_address k" and ?c = "currentThread k"
  let ?th = "(StackAllocate func Thread_new)\<lparr>thread_status := READY\<rparr>"
  let ?k1 = "ChangeLevel IntOff (set_thread ?t (StackAllocate func Thread_new) (k\<lparr>next_address := Suc ?t\<rparr>))"
  let ?k2 = "(set_thread ?t ?th ?k1)\<lparr>readyList := readyList k @ [?t]\<rparr>"
  have lv: "level (interrupt k) = IntOn" and inv: "inv_at {?c} k" using a(1) by (simp_all add: running_def)
  have "ReadyToRun ?t ?k1 = Inr ?k2"
    by (simp add: ReadyToRun_def setStatus_def lookup_def set_thread_def ChangeLevel_def map_interrupt_def)
  then have p: "push [Set_level IntOn] ?k2 = Inr k'"
    using a(3) lv by (simp add: Fork_def SetLevel_off_def Let_def set_thread_def ChangeLevel_def map_interrupt_def)
  have new: "threads k ?t = None" "?t \<notin> set (readyList k)" "?c \<noteq> ?t"
    using inv a(1) threadsD(1) [OF inv] unfolding inv_at_def lists_ok_def running_def by fastforce+
  have k2: "threads ?k2 = (threads k)(?t \<mapsto> ?th)" "readyList ?k2 = readyList k @ [?t]" "semaphores ?k2 = semaphores k"
    "threadToBeDestroyed ?k2 = threadToBeDestroyed k" "currentThread ?k2 = ?c" "next_address ?k2 = Suc ?t"
    by (simp_all add: set_thread_def ChangeLevel_def map_interrupt_def)
  have old: "thread_ok ?k2 u uh" if "threads k u = Some uh" "thread_ok k u uh" for u uh
    by (rule thread_ok_cong [OF that(2)]) (use that(1) new k2 in auto)
  have "thread_ok ?k2 ?t ?th"
    using chain_calls [OF assms, of "[Call_Finish]"] k2
    by (simp add: thread_ok_def stack_ok_def suspended_def finished_def StackAllocate_def)
  then have "threads_ok {?c} ?k2" using inv old k2 by (auto simp: inv_at_def threads_ok_def less_Suc_eq)
  moreover have "queues_ok {?c} ?k2" using inv k2 new(1) unfolding inv_at_def queues_ok_def by (fastforce simp: less_Suc_eq)
  moreover have "lists_ok {?c} ?k2" using inv k2 new unfolding inv_at_def lists_ok_def by auto
  moreover have "sleepers_ok ?k2" using inv k2 by (auto simp: inv_at_def sleepers_ok_def StackAllocate_def)
  ultimately have "running cs IntOff ?k2" using a(1) new(3) k2
    by (auto simp: running_def inv_at_def ChangeLevel_def map_interrupt_def set_thread_def)
  from push_keeps_running [OF p this] show "kernel_ok k'" by (rule kernel_ok_running) (use a(2) in simp)
qed

lemma good_Yield: "good Yield"
  by (rule goodI) (rule Yield_ok [OF _ _ refl])

lemma good_Set_mode: "good (\<lambda>k. Inr (map_interrupt (\<lambda>i. i\<lparr>status := m\<rparr>) k))"
proof (rule goodI)
  fix k cs k' assume a: "running cs IntOn k" "chain IntOn cs" "Inr (map_interrupt (\<lambda>i. i\<lparr>status := m\<rparr>) k) = (Inr k' :: Kernel res)"
  have "running cs IntOn (map_interrupt (\<lambda>i. i\<lparr>status := m\<rparr>) k) = running cs IntOn k"
    by (rule running_same [OF same_sched_simps(1)]) (simp_all add: map_interrupt_def)
  then show "kernel_ok k'" using a kernel_ok_running by auto
qed

lemmas good_rules = good_set_holder good_Delete_sem good_broadcast_loop good_list_append good_remove_loop good_read_request
  good_write_request good_pickup_test good_pickup_wait good_putdown_left good_ph_test good_P good_V good_Destroy good_Acquire
  good_Release good_Wait good_Signal good_Yield good_SL_Append good_SL_Remove good_sector good_pickup good_putdown good_Set_mode

lemma exec_code_on_ok:
  assumes "call_ok c" "running cs IntOn k" "chain IntOn cs" "exec_code c k = Inr k'"
  shows "kernel_ok k'"
proof -
  have "good (exec_code c)"
    using assms(1) by (cases c) (simp_all add: good_rules good_Fork fun_eq_iff [symmetric] exec_code.simps [abs_def])
  from goodD [OF this assms(2-4)] show ?thesis .
qed

theorem kernel_step_ok:
  assumes ok: "kernel_ok k" and st: "kernel_step k = Inr k'"
  shows "kernel_ok k'"
  using ok [unfolded kernel_ok_def]
proof (elim disjE exE conjE)
  fix cs l assume r: "running cs l k" and ch: "chain l cs"
  obtain th where th: "threads k (currentThread k) = Some th" "frames th = cs" "thread_status th = RUNNING" "stack_ok th"
    using runningD [OF r] by metis
  obtain c ds where cs: "cs = c # ds" using ch by (cases cs) auto
  let ?k = "set_thread (currentThread k) (th\<lparr>frames := ds\<rparr>) k"
  have ex: "exec_code c ?k = Inr k'" using st th cs by (simp add: kernel_step_def lookup_def)
  have "running ds l ?k"
    by (rule runningI [where th = "th\<lparr>frames := ds\<rparr>"])
       (use r th inv_at_current_frames [of k "th\<lparr>frames := ds\<rparr>"] threadsD(1) [of "{currentThread k}" k "currentThread k" th] in
         \<open>auto simp: set_thread_def running_def stack_ok_def\<close>)
  note r' = this
  show ?thesis
  proof (cases l)
    case IntOn
    show ?thesis
    proof (cases "c = Call_Finish")
      case True
      then show ?thesis using Finish_ok [of l ?k k'] r' ex ch cs IntOn by simp
    next
      case False
      then have "call_ok c" "chain IntOn ds" using ch cs IntOn by (cases c; simp)+
      then show ?thesis using exec_code_on_ok r' ex IntOn by blast
    qed
  next
    case IntOff
    then consider "c = Run_tail" "chain IntOff ds" | s where "c = P_loop s" "chain IntOff ds"
      | "c = Set_level IntOn \<or> c = Int_enable" "chain IntOn ds"
      using ch cs by (cases c) auto
    then show ?thesis
      by cases (use r' ex IntOff run_tail_ok p_loop_ok SetLevel_ok in \<open>auto simp: Enable_def\<close>)
  qed
next
  fix cs assume s: "sleeping cs k"
  then obtain th where th: "threads k (currentThread k) = Some th" "frames th = Sleep_loop # cs" by (auto simp: sleeping_def)
  then have "sleep_loop (set_thread (currentThread k) (th\<lparr>frames := cs\<rparr>) k) = Inr k'"
    using st by (simp add: kernel_step_def lookup_def)
  then show ?thesis by (rule sleep_loop_ok [OF s th(1)])
qed

lemma steps_ok: "steps k k' \<Longrightarrow> kernel_ok k \<Longrightarrow> kernel_ok k'"
  by (induction rule: steps.induct) (auto intro: kernel_step_ok)

section \<open>The first state, and what the invariant says\<close>

lemma new_semaphores_facts:
  assumes "\<forall>(s, v) \<in> set (g_semaphores g). s < g_next g" "\<forall>(l, m) \<in> set (g_locks g). m < g_next g" "new_semaphores g s = Some sem"
  shows "s < g_next g" "queue sem = []"
  using assms unfolding new_semaphores_def by (auto dest!: map_of_SomeD)

lemma Initialize_ok:
  assumes "list_all call_ok prog" "0 < g_next g"
    "\<forall>(s, v) \<in> set (g_semaphores g). s < g_next g" "\<forall>(l, m) \<in> set (g_locks g). m < g_next g"
  shows "\<exists>k. Initialize randomYield rnd d g prog = Inr k \<and> kernel_ok k"
proof -
  define k where "k = \<lparr>stats = Statistics_new, interrupt = Interrupt_new, readyList = [], currentThread = 0,
     threadToBeDestroyed = None,
     threads = [0 \<mapsto> Thread_new\<lparr>thread_status := RUNNING, frames := Int_enable # prog @ [Call_Finish]\<rparr>], semaphores = new_semaphores g,
     locks = map_of (map (\<lambda>(l, m). (l, \<lparr>lockHolder = None, mutex = m\<rparr>)) (g_locks g)),
     conditions = map_of (map (\<lambda>c. (c, \<lparr>waitQueue = []\<rparr>)) (g_conditions g)),
     synchLists = map_of (map (\<lambda>(sl, l, c). (sl, \<lparr>list_items = [], list_lock = l, listEmpty = c\<rparr>)) (g_lists g)),
     philosophers = g_philosophers g, kdisk = d, disk_semaphore = g_disk_semaphore g, disk_lock = g_disk_lock g,
     randomize = randomYield, random = rnd, draws = 0, next_address = g_next g, halted = False\<rparr>"
  have I: "Initialize randomYield rnd d g prog = (if randomYield then let (t, k1) = TimeOfNextInterrupt k in Schedule TimerHandler t TimerInt k1 else Inr k)"
    by (simp add: Initialize_def k_def)
  have "inv_at {0} k" using assms(2) new_semaphores_facts [OF assms(3,4)]
    by (auto simp: k_def inv_at_def queues_ok_def threads_ok_def lists_ok_def sleepers_ok_def)
  then have run: "running (Int_enable # prog @ [Call_Finish]) IntOff k"
    by (simp add: running_def k_def Interrupt_new_def Thread_new_def stack_ok_def)
  have ch: "chain IntOff (Int_enable # prog @ [Call_Finish])" using chain_calls [OF assms(1)] by simp
  show ?thesis
  proof (cases randomYield)
    case True
    let ?k1 = "k\<lparr>draws := Suc (draws k)\<rparr>"
    obtain t where t: "TimeOfNextInterrupt k = (t, ?k1)" "0 < t"
      "is_int32 t"
      using True by (auto simp: TimeOfNextInterrupt_def k_def smod_nonneg TimerTicks_def is_int32_def)
    moreover have "now k = 0" by (simp add: k_def Statistics_new_def)
    ultimately obtain k2 where k2: "Schedule TimerHandler t TimerInt ?k1 = Inr k2" by (auto simp: Schedule_def Let_def)
    have "running (Int_enable # prog @ [Call_Finish]) IntOff k2 = running (Int_enable # prog @ [Call_Finish]) IntOff k"
      by (rule running_same) (use k2 in \<open>auto simp: Schedule_Inr map_interrupt_def same_sched_def\<close>)
    then show ?thesis using run ch k2 t(1) True I kernel_ok_running by auto
  next
    case False
    then show ?thesis using run ch I kernel_ok_running by auto
  qed
qed

lemma thread_places:
  assumes "kernel_ok k" "threads k t = Some th"
  shows "thread_status th = RUNNING \<Longrightarrow> t = currentThread k"
    "thread_status th = READY \<longleftrightarrow> t \<in> set (readyList k)"
    "thread_status th = BLOCKED \<Longrightarrow> finished (frames th) \<or> (\<exists>s. waits_on s (frames th) \<and>
       (\<forall>sem. semaphores k s = Some sem \<longrightarrow> t \<in> set (queue sem)))"
    "thread_status th \<noteq> JUST_CREATED"
proof -
  have "thread_ok k t th \<or> t = currentThread k \<and> thread_status th = RUNNING \<and> t \<notin> set (readyList k)"
    using assms(1) unfolding kernel_ok_def
  proof (elim disjE exE conjE)
    fix cs l assume "running cs l k"
    then have "inv_at {currentThread k} k" "t = currentThread k \<Longrightarrow> thread_status th = RUNNING"
      using assms(2) by (auto simp: running_def)
    then show ?thesis using threadsD(2) [OF _ assms(2)] by (auto simp: inv_at_def lists_ok_def)
  next
    fix cs assume "sleeping cs k"
    then show ?thesis using threadsD(2) [OF _ assms(2)] by (auto simp: sleeping_def)
  qed
  then show "thread_status th = RUNNING \<Longrightarrow> t = currentThread k" "thread_status th = READY \<longleftrightarrow> t \<in> set (readyList k)"
    "thread_status th = BLOCKED \<Longrightarrow> finished (frames th) \<or> (\<exists>s. waits_on s (frames th) \<and>
       (\<forall>sem. semaphores k s = Some sem \<longrightarrow> t \<in> set (queue sem)))" "thread_status th \<noteq> JUST_CREATED"
    by (auto simp: thread_ok_def)
qed

lemma ready_distinct: "kernel_ok k \<Longrightarrow> distinct (readyList k) \<and> set (readyList k) \<subseteq> dom (threads k)"
  unfolding kernel_ok_def running_def sleeping_def inv_at_def lists_ok_def by auto

lemma queue_members:
  assumes "kernel_ok k" "semaphores k s = Some sem" "t \<in> set (queue sem)"
  shows "\<exists>th. threads k t = Some th \<and> thread_status th = BLOCKED \<and> waits_on s (frames th)"
  using assms queuesD(5) unfolding kernel_ok_def running_def sleeping_def by blast

end
