(* ===== verification/Nachos_Steps.thy ===== *)
theory Nachos_Steps
  imports Nachos_Sched
begin

text \<open>
  What every step of the kernel does, whatever the threads run: the locale \<open>step_relation\<close> collects
  the laws of a reflexive and transitive relation that the primitive updates of the kernel satisfy,
  and shows that then every routine, every step and every run satisfies it.  It is interpreted for
  the order of simulated time, for the invariant of the dining philosophers, and for the addresses
  that never change.
\<close>

section \<open>Relations that every step of the kernel satisfies\<close>

text \<open>How a routine may change the philosophers: one of them stops eating, or starts between two that do not eat.\<close>

definition ph_change :: "DinningPh \<Rightarrow> DinningPh \<Rightarrow> bool" where
  "ph_change p p' \<longleftrightarrow> (\<exists>i st. 0 \<le> i \<and> i < int (length (ph_state p)) \<and> p' = p\<lparr>ph_state := (ph_state p)[nat i := st]\<rparr> \<and>
     (st = Eating \<longrightarrow> array_get (ph_state p) ((i + 4) smod 5) \<noteq> Inr Eating \<and> array_get (ph_state p) ((i + 1) smod 5) \<noteq> Inr Eating))"

lemma kernel_stepE:
  assumes "kernel_step k = Inr k'"
  obtains th c cs where "threads k (currentThread k) = Some th" "frames th = c # cs"
    "exec_code c (set_thread (currentThread k) (th\<lparr>frames := cs\<rparr>) k) = Inr k'"
proof -
  obtain th where th: "threads k (currentThread k) = Some th"
    using assms by (auto simp: kernel_step_def lookup_def split: option.splits)
  then show ?thesis using assms that by (cases "frames th") (auto simp: kernel_step_def lookup_def)
qed

text \<open>The stacks of the threads, and the part of the state that interrupts and the scheduler leave alone.\<close>

type_synonym stacks = "address \<rightharpoonup> code list"

definition stacks :: "Kernel \<Rightarrow> stacks" where
  "stacks k t = map_option frames (threads k t)"

lemma stacks_simps [simp]:
  "stacks (k\<lparr>readyList := r\<rparr>) = stacks k" "stacks (k\<lparr>interrupt := i\<rparr>) = stacks k" "stacks (k\<lparr>stats := st\<rparr>) = stacks k"
  "stacks (k\<lparr>currentThread := c\<rparr>) = stacks k" "stacks (k\<lparr>threadToBeDestroyed := d\<rparr>) = stacks k" "stacks (k\<lparr>semaphores := s\<rparr>) = stacks k"
  "stacks (k\<lparr>locks := l\<rparr>) = stacks k" "stacks (k\<lparr>conditions := cs\<rparr>) = stacks k" "stacks (k\<lparr>synchLists := sl\<rparr>) = stacks k"
  "stacks (k\<lparr>philosophers := p\<rparr>) = stacks k" "stacks (k\<lparr>kdisk := dk\<rparr>) = stacks k" "stacks (k\<lparr>draws := n\<rparr>) = stacks k"
  "stacks (k\<lparr>next_address := n\<rparr>) = stacks k" "stacks (k\<lparr>halted := h\<rparr>) = stacks k"
  by (simp_all add: stacks_def fun_eq_iff)

lemma stacks_set_thread: "stacks (set_thread t th k) = (stacks k)(t \<mapsto> frames th)"
  by (auto simp: stacks_def set_thread_def)

lemma stacks_same_frames: "threads k t = Some th \<Longrightarrow> frames th' = frames th \<Longrightarrow> stacks (set_thread t th' k) = stacks k"
  by (auto simp: stacks_def set_thread_def fun_eq_iff)

lemma stacks_Some: "threads k t = Some th \<Longrightarrow> stacks k t = Some (frames th)"
  by (simp add: stacks_def)

lemma dom_stacks: "dom (stacks k) = dom (threads k)"
  by (auto simp: stacks_def)

definition same_sync :: "Kernel \<Rightarrow> Kernel \<Rightarrow> bool" where
  "same_sync k k' \<longleftrightarrow> stacks k' = stacks k \<and> semaphores k' = semaphores k \<and> locks k' = locks k \<and>
     conditions k' = conditions k \<and> disk_semaphore k' = disk_semaphore k \<and> next_address k' = next_address k"

lemma set_thread_sel: "semaphores (set_thread t th k) = semaphores k" "locks (set_thread t th k) = locks k"
  "conditions (set_thread t th k) = conditions k" "disk_semaphore (set_thread t th k) = disk_semaphore k"
  "next_address (set_thread t th k) = next_address k" "philosophers (set_thread t th k) = philosophers k"
  "disk_lock (set_thread t th k) = disk_lock k" "stats (set_thread t th k) = stats k" "currentThread (set_thread t th k) = currentThread k"
  by (simp_all add: set_thread_def)

definition same_tick :: "Kernel \<Rightarrow> Kernel \<Rightarrow> bool" where
  "same_tick k k' \<longleftrightarrow> same_sync k k' \<and> philosophers k' = philosophers k \<and> disk_lock k' = disk_lock k \<and> now k \<le> now k'"

text \<open>
  Code points that an interrupt may leave on the stack above the one that the thread goes on with:
  the ends of \<open>SetLevel\<close>, \<open>OneTick\<close>, \<open>Sleep\<close> and \<open>Scheduler::Run\<close>.
\<close>

fun transparent :: "code \<Rightarrow> bool" where
  "transparent Run_tail = True"
| "transparent Sleep_loop = True"
| "transparent (Set_level l) = True"
| "transparent (Set_mode m) = True"
| "transparent _ = False"

text \<open>
  Relations that the interrupt simulation and the scheduler satisfy: they change the stacks only by
  pushing the ends of their own routines, and a semaphore only by the \<open>V\<close> of the disk's handler.
\<close>

locale tick_relation =
  fixes R :: "Kernel \<Rightarrow> Kernel \<Rightarrow> bool"
  assumes R_refl: "R k k"
    and R_trans: "R k k1 \<Longrightarrow> R k1 k2 \<Longrightarrow> R k k2"
    and T_same: "same_tick k k' \<Longrightarrow> R k k'"
    and T_push: "push [c] k = Inr k' \<Longrightarrow> transparent c \<Longrightarrow> R k k'"
    and T_V: "V_body (disk_semaphore k) k = Inr k' \<Longrightarrow> R k k'"
begin

definition rel :: "(Kernel \<Rightarrow> Kernel res) \<Rightarrow> bool" where
  "rel f \<longleftrightarrow> (\<forall>k k'. f k = Inr k' \<longrightarrow> R k k')"

lemma relI: "(\<And>k k'. f k = Inr k' \<Longrightarrow> R k k') \<Longrightarrow> rel f" by (simp add: rel_def)

lemma relD: "rel f \<Longrightarrow> f k = Inr k' \<Longrightarrow> R k k'" by (simp add: rel_def)

lemma T_helpers [simp]: "R k (map_interrupt f k)" "R k (ChangeLevel l k)" "R k (k\<lparr>readyList := r\<rparr>)" "R k (k\<lparr>currentThread := c\<rparr>)"
  "R k (k\<lparr>threadToBeDestroyed := t\<rparr>)" "R k (Halt k)" "R k (k\<lparr>kdisk := dk\<rparr>)" "R k (k\<lparr>draws := n\<rparr>)"
  by (rule T_same; simp add: same_tick_def same_sync_def map_interrupt_def ChangeLevel_def Halt_def)+

lemma T_clock: "now k \<le> totalTicks st \<Longrightarrow> R k (k\<lparr>stats := st\<rparr>)" "now k \<le> totalTicks st \<Longrightarrow> R k (k\<lparr>interrupt := i, stats := st\<rparr>)"
  by (rule T_same; simp add: same_tick_def same_sync_def)+

lemma rel_Inr: "rel Inr" by (simp add: rel_def R_refl)

lemma rel_bind: "(\<And>x. rel (g x)) \<Longrightarrow> rel (\<lambda>k. rbind (r k) (\<lambda>x. g x k))"
  unfolding rel_def by (auto simp: rbind_eq_Inr_iff)

lemma rel_seq: "rel f \<Longrightarrow> rel g \<Longrightarrow> rel (\<lambda>k. rbind (f k) g)"
  unfolding rel_def rbind_eq_Inr_iff by (blast intro: R_trans)

lemma rel_upd: "(\<And>k. R k (u k)) \<Longrightarrow> rel f \<Longrightarrow> rel (\<lambda>k. f (u k))"
  unfolding rel_def by (blast intro: R_trans)

lemma rel_ASSERT: "rel f \<Longrightarrow> rel (\<lambda>k. ASSERT (c k) (f k))"
  unfolding rel_def by (auto simp: ASSERT_eq_Inr_iff)

lemma rel_if: "rel f \<Longrightarrow> rel g \<Longrightarrow> rel (\<lambda>k. if c k then f k else g k)"
  unfolding rel_def by auto

lemma rel_read: "(\<And>x. rel (g x)) \<Longrightarrow> rel (\<lambda>k. g (r k) k)"
  unfolding rel_def by blast

lemma rel_case_list: "rel f \<Longrightarrow> (\<And>x xs. rel (g x xs)) \<Longrightarrow> rel (\<lambda>k. case ys k of [] \<Rightarrow> f k | x # xs \<Rightarrow> g x xs k)"
  unfolding rel_def by (auto split: list.splits)

lemma rel_push_transparent: "transparent c \<Longrightarrow> rel (push [c])"
  by (rule relI) (rule T_push)

lemma rel_setStatus: "rel (setStatus t st)"
  by (rule relI, rule T_same)
    (auto simp: setStatus_def rbind_eq_Inr_iff lookup_def same_tick_def same_sync_def stacks_same_frames set_thread_sel split: option.splits)

lemma rel_ReadyToRun: "rel (ReadyToRun t)"
  by (rule relI, rule T_same) (auto simp: ReadyToRun_Inr same_tick_def same_sync_def stacks_same_frames set_thread_sel)

lemma rel_Schedule: "rel (Schedule h d ty)"
  by (rule relI) (auto simp: Schedule_Inr)

lemma rel_run_handler: "rel (run_handler h)"
proof (cases h)
  case TimerHandler
  have "R k k'" if r: "TimerExpired k = Inr k'" for k k'
  proof -
    obtain d k1 where n: "TimeOfNextInterrupt k = (d, k1)" by fastforce
    then obtain k2 where "Schedule TimerHandler d TimerInt k1 = Inr k2" "k' = TimerInterruptHandler k2"
      using r by (auto simp: TimerExpired_def Let_def rbind_eq_Inr_iff)
    moreover have "R k k1" using n by (auto simp: TimeOfNextInterrupt_def R_refl split: if_splits)
    moreover have "R k2 (TimerInterruptHandler k2)" by (simp add: TimerInterruptHandler_def YieldOnReturn_def R_refl)
    ultimately show ?thesis using relD [OF rel_Schedule] R_trans by blast
  qed
  then show ?thesis using TimerHandler by (simp add: rel_def run_handler_def)
next
  case DiskDone
  have "R k k'" if r: "run_handler DiskDone k = Inr k'" for k k'
  proof -
    let ?k0 = "k\<lparr>kdisk := HandleInterrupt (kdisk k)\<rparr>"
    obtain k1 l where "V_body (disk_semaphore k) (ChangeLevel IntOff ?k0) = Inr k1" "k' = ChangeLevel l k1"
      using r by (auto simp: run_handler_def V_in_handler_def rbind_eq_Inr_iff ASSERT_eq_Inr_iff Let_def)
    moreover from this have "R (ChangeLevel IntOff ?k0) k1" by (intro T_V) (simp add: ChangeLevel_def map_interrupt_def)
    ultimately show ?thesis using R_trans [OF T_helpers(7) R_trans [OF T_helpers(2)]] R_trans T_helpers(2) by metis
  qed
  then show ?thesis using DiskDone by (simp add: rel_def)
qed

lemma rel_fire: "rel (fire p)"
  unfolding fire_def [abs_def] Let_def
  by (rule relI) (auto simp: rbind_eq_Inr_iff intro: R_trans [OF T_helpers(1) R_trans [OF relD [OF rel_run_handler] T_helpers(1)]])

lemma rel_CheckIfDue:
  assumes "CheckIfDue adv k = Inr (b, k')" shows "R k k'"
  using assms
proof (cases rule: CheckIfDueE)
  case (fired w p rest i st)
  then show ?thesis using R_trans [OF T_clock(2) relD [OF rel_fire fired(3)]] by simp
qed (auto simp: R_refl T_clock)

lemma rel_check_loop: "check_loop k = Inr k' \<Longrightarrow> R k k'"
proof (induction k rule: check_loop.induct)
  case (1 k)
  from 1(2) obtain b k1 where c: "CheckIfDue False k = Inr (b, k1)" "(if b then check_loop k1 else Inr k1) = Inr k'"
    by (subst (asm) check_loop.simps) (auto simp: rbind_eq_Inr_iff)
  show ?case using rel_CheckIfDue [OF c(1)] 1(1) [OF c(1) refl] c(2) by (cases b) (auto intro: R_trans)
qed

lemma rel_Run: "rel (Run n)"
proof (rule relI)
  fix k k' assume "Run n k = Inr k'"
  then obtain k1 k2 where "push [Run_tail] k = Inr k1" "setStatus n RUNNING k1 = Inr k2" "k' = k2\<lparr>currentThread := n\<rparr>"
    by (auto simp: Run_def rbind_eq_Inr_iff CheckOverflow_def ASSERT_eq_Inr_iff split: option.splits)
  moreover from this have "R k2 k'" by simp
  ultimately show "R k k'" using relD [OF rel_push_transparent] relD [OF rel_setStatus] R_trans transparent.simps(1) by metis
qed

lemma rel_Yield: "rel Yield"
proof (rule relI)
  fix k k' assume y: "Yield k = Inr k'"
  obtain n k2 where f: "FindNextToRun (ChangeLevel IntOff k) = (n, k2)" by fastforce
  have 2: "R k k2" using f R_trans [OF T_helpers(2) T_helpers(3)] by (auto simp: FindNextToRun_def split: list.splits)
  obtain k3 where 3: "push [Set_level (level (interrupt k))] k2 = Inr k3"
    "(case n of None \<Rightarrow> Inr k3 | Some n \<Rightarrow> rbind (ReadyToRun (currentThread k3) k3) (Run n)) = Inr k'"
    using y f by (auto simp: Yield_def SetLevel_off_def Let_def rbind_eq_Inr_iff)
  have "rel (\<lambda>k. rbind (ReadyToRun (currentThread k) k) (Run m))" for m
    by (intro rel_seq rel_Run rel_read [OF rel_ReadyToRun])
  then have "R k3 k'" using 3(2) by (cases n) (auto simp: R_refl dest: relD)
  then show "R k k'" using 2 T_push [OF 3(1)] R_trans by (metis transparent.simps(3))
qed

lemma rel_OneTick: "rel OneTick"
proof (rule relI)
  fix k k' assume t: "OneTick k = Inr k'"
  define st where "st = tick_stats (status (interrupt k)) (stats k)"
  obtain k2 where 2: "check_loop (ChangeLevel IntOff (k\<lparr>stats := st\<rparr>)) = Inr k2"
    "(if yieldOnReturn (interrupt (ChangeLevel IntOn k2))
      then rbind (push [Set_mode (status (interrupt k))]
        (map_interrupt (\<lambda>i. i\<lparr>yieldOnReturn := False, status := SystemMode\<rparr>) (ChangeLevel IntOn k2))) Yield
      else Inr (ChangeLevel IntOn k2)) = Inr k'"
    using t unfolding OneTick_def Let_def st_def rbind_eq_Inr_iff DEFINED_eq_Inr_iff by blast
  have "now k \<le> totalTicks st" by (simp add: st_def tick_stats_def SystemTick_def UserTick_def)
  then have "R k (ChangeLevel IntOff (k\<lparr>stats := st\<rparr>))" using R_trans [OF T_clock(1) T_helpers(2)] by blast
  then have 3: "R k k2" using rel_check_loop [OF 2(1)] R_trans by blast
  have "rel (\<lambda>k. if yieldOnReturn (interrupt (ChangeLevel IntOn k))
      then rbind (push [Set_mode m] (map_interrupt (\<lambda>i. i\<lparr>yieldOnReturn := False, status := SystemMode\<rparr>) (ChangeLevel IntOn k))) Yield
      else Inr (ChangeLevel IntOn k))" for m
    by (intro rel_if rel_seq rel_Yield rel_upd [OF _ rel_upd [OF _ rel_push_transparent]] rel_upd [OF _ rel_Inr]) simp_all
  from R_trans [OF 3 relD [OF this 2(2)]] show "R k k'" .
qed

lemma rel_SetLevel: "rel (SetLevel l)"
  unfolding SetLevel_def [abs_def] Let_def
  by (intro rel_ASSERT rel_if rel_upd [OF _ rel_OneTick] rel_upd [OF _ rel_Inr]) simp_all

lemma rel_Sleep: "rel Sleep"
  unfolding Sleep_def [abs_def] by (intro rel_ASSERT rel_seq rel_push_transparent rel_read [OF rel_setStatus]) simp

lemma rel_Idle: "rel Idle"
proof (rule relI)
  fix k k' assume "Idle k = Inr k'"
  then obtain b k1 where 1: "CheckIfDue True (map_interrupt (\<lambda>i. i\<lparr>status := IdleMode\<rparr>) k) = Inr (b, k1)"
    "(if b then rbind (check_loop k1) (\<lambda>k2. Inr (map_interrupt (\<lambda>i. i\<lparr>yieldOnReturn := False, status := SystemMode\<rparr>) k2))
      else Inr (Halt k1)) = Inr k'" by (auto simp: Idle_def rbind_eq_Inr_iff)
  have "R k1 (Halt k1)" by simp
  moreover have "R k1 (map_interrupt f k2)" if "check_loop k1 = Inr k2" for f k2
    by (rule R_trans [OF rel_check_loop [OF that] T_helpers(1)])
  ultimately have "R k1 k'" using 1(2) by (auto simp: rbind_eq_Inr_iff split: if_splits)
  then show "R k k'" using R_trans [OF T_helpers(1) R_trans [OF rel_CheckIfDue [OF 1(1)]]] by blast
qed

lemma rel_sleep_loop: "rel sleep_loop"
proof (rule relI)
  fix k k' assume "sleep_loop k = Inr k'"
  moreover have "rel (\<lambda>k. rbind (push [Sleep_loop] k) Idle)" by (intro rel_seq rel_Idle rel_push_transparent) simp
  ultimately show "R k k'" using relD [OF rel_Run] relD [OF \<open>rel (\<lambda>k. rbind (push [Sleep_loop] k) Idle)\<close>] R_trans [OF T_helpers(3)]
    by (auto simp: sleep_loop_def FindNextToRun_def split: list.splits) blast
qed

lemma rel_Finish: "rel Finish"
  unfolding Finish_def [abs_def] SetLevel_off_def Let_def prod.case
  by (intro rel_upd [OF _ rel_upd [OF _ rel_Sleep]]) simp_all

end

locale step_relation =
  fixes R :: "Kernel \<Rightarrow> Kernel \<Rightarrow> bool"
  assumes S_refl: "R k k"
    and S_trans: "R k k1 \<Longrightarrow> R k1 k2 \<Longrightarrow> R k k2"
    and R_frame: "stats k' = stats k \<Longrightarrow> locks k' = locks k \<Longrightarrow> philosophers k' = philosophers k \<Longrightarrow> kdisk k' = kdisk k \<Longrightarrow>
      disk_semaphore k' = disk_semaphore k \<Longrightarrow> disk_lock k' = disk_lock k \<Longrightarrow> R k k'"
    and R_locks: "locks k l = Some lk \<Longrightarrow> R k (k\<lparr>locks := (locks k)(l \<mapsto> lk\<lparr>lockHolder := o'\<rparr>)\<rparr>)"
    and R_stats: "now k \<le> totalTicks s \<Longrightarrow> R k (k\<lparr>stats := s\<rparr>)"
    and R_disk: "R k (k\<lparr>kdisk := dk\<rparr>)"
    and R_ph: "ph_change (philosophers k) p \<Longrightarrow> R k (k\<lparr>philosophers := p\<rparr>)"

sublocale step_relation \<subseteq> tick_relation R
proof
  fix k k' assume s: "same_tick k k'"
  have "R k (k\<lparr>stats := stats k', kdisk := kdisk k'\<rparr>)"
    using s S_trans [OF R_stats R_disk, of k "stats k'" "kdisk k'"] by (simp add: same_tick_def)
  moreover have "R (k\<lparr>stats := stats k', kdisk := kdisk k'\<rparr>) k'"
    by (rule R_frame) (use s in \<open>auto simp: same_tick_def same_sync_def\<close>)
  ultimately show "R k k'" by (rule S_trans)
next
  fix k k' c assume "push [c] k = Inr k'"
  then show "R k k'" by (auto simp: push_def rbind_eq_Inr_iff set_thread_def intro: R_frame)
next
  fix k k' assume "V_body (disk_semaphore k) k = Inr k'"
  then show "R k k'" by (rule V_bodyE) (rule R_frame; simp add: set_semaphore_def set_thread_def)+
qed (rule S_refl, rule S_trans)

context step_relation
begin

lemma R_helpers [simp]: "R k (set_thread t th k)" "R k (set_semaphore s sem k)" "R k (map_interrupt f k)" "R k (ChangeLevel l k)"
  by (rule R_frame; simp add: set_thread_def set_semaphore_def map_interrupt_def ChangeLevel_def)+

lemma rel_push: "rel (push ds)"
  by (rule relI) (auto simp: push_def rbind_eq_Inr_iff)

lemma rel_V_body: "rel (V_body s)"
  by (rule relI, erule V_bodyE) (rule R_frame; simp add: set_semaphore_def set_thread_def)+

lemma rel_run_tail: "rel run_tail"
  by (rule relI) (auto simp: run_tail_def Thread_delete_def rbind_eq_Inr_iff ASSERT_eq_Inr_iff R_refl intro!: R_frame split: option.splits)

lemma rel_Fork: "rel (Fork func)"
proof (rule relI)
  fix k k'
  let ?k1 = "ChangeLevel IntOff (set_thread (next_address k) (StackAllocate func Thread_new) (k\<lparr>next_address := Suc (next_address k)\<rparr>))"
  assume "Fork func k = Inr k'"
  then obtain k2 l where "ReadyToRun (next_address k) ?k1 = Inr k2" "push [Set_level l] k2 = Inr k'"
    unfolding Fork_def SetLevel_off_def Let_def prod.case rbind_eq_Inr_iff by blast
  moreover have "R k ?k1" by (rule R_frame; simp add: ChangeLevel_def map_interrupt_def set_thread_def)
  ultimately show "R k k'" using relD [OF rel_ReadyToRun] relD [OF rel_push] R_trans by blast
qed
lemma rel_P: "rel (P s)"
  unfolding P_def [abs_def] SetLevel_off_def Let_def prod.case
  by (rule relI) (auto intro: R_trans [OF R_helpers(4) relD [OF rel_push]])

lemma rel_p_loop: "rel (p_loop s)"
proof -
  have "rel (\<lambda>k. rbind (push [P_loop s] (set_semaphore s (sem\<lparr>queue := queue sem @ [currentThread k]\<rparr>) k)) Sleep)" for sem
    by (intro rel_seq rel_Sleep rel_upd [OF _ rel_push]) simp
  moreover have "rel (\<lambda>k. DEFINED c (Inr (set_semaphore s sem k)))" for sem c by (rule relI) auto
  ultimately have "rel (\<lambda>k. if value sem = 0 then rbind (push [P_loop s] (set_semaphore s (sem\<lparr>queue := queue sem @ [currentThread k]\<rparr>) k)) Sleep
     else DEFINED (is_int32 (value sem - 1)) (Inr (set_semaphore s (sem\<lparr>value := value sem - 1\<rparr>) k)))" for sem by (intro rel_if)
  then show ?thesis unfolding p_loop_def [abs_def] by (rule rel_bind)
qed

lemma rel_V: "rel (V s)"
proof (rule relI)
  fix k k' assume "V s k = Inr k'"
  then obtain k1 l where "V_body s (ChangeLevel IntOff k) = Inr k1" "push [Set_level l] k1 = Inr k'"
    by (auto simp: V_def SetLevel_off_def rbind_eq_Inr_iff)
  then show "R k k'" using R_trans [OF R_helpers(4) R_trans [OF relD [OF rel_V_body] relD [OF rel_push]]] by blast
qed

lemma rel_sem_destroy_loop: "sem_destroy_loop s ts k = Inr k' \<Longrightarrow> R k k'"
proof (induction s ts k rule: sem_destroy_loop.induct)
  case (2 s t ts k)
  then obtain sem k1 where "ReadyToRun t (set_semaphore s (sem\<lparr>queue := ts\<rparr>) k) = Inr k1" "R k1 k'"
    by (auto simp: rbind_eq_Inr_iff)
  then show ?case using relD [OF rel_ReadyToRun] R_helpers(2) R_trans by blast
qed (simp add: R_refl)

lemma rel_Destroy: "rel (Destroy s)"
proof (rule relI)
  fix k k' assume "Destroy s k = Inr k'"
  then obtain ts k1 l where "sem_destroy_loop s ts (ChangeLevel IntOff k) = Inr k1" "push [Set_level l] k1 = Inr k'"
    by (auto simp: Destroy_def SetLevel_off_def rbind_eq_Inr_iff)
  then show "R k k'" using R_trans [OF R_helpers(4) R_trans [OF rel_sem_destroy_loop relD [OF rel_push]]] by blast
qed

lemma rel_Acquire: "rel (Acquire l)"
  unfolding Acquire_def [abs_def] by (intro rel_bind rel_seq rel_push rel_P)

lemma rel_set_holder: "rel (set_holder l)"
  by (rule relI) (auto simp: set_holder_def lookup_def rbind_eq_Inr_iff intro: R_locks split: option.splits)

lemma rel_Release: "rel (Release l)"
proof (rule relI)
  fix k k' assume "Release l k = Inr k'"
  then obtain lk where "locks k l = Some lk" "V (mutex lk) (k\<lparr>locks := (locks k)(l \<mapsto> lk\<lparr>lockHolder := None\<rparr>)\<rparr>) = Inr k'"
    by (auto simp: Release_def lookup_def rbind_eq_Inr_iff ASSERT_eq_Inr_iff split: option.splits)
  then show "R k k'" using R_trans [OF R_locks relD [OF rel_V]] by blast
qed

lemma rel_Wait: "rel (Wait c l)"
proof (rule relI)
  fix k k' assume "Wait c l k = Inr k'"
  then obtain cs x k2 where 2: "push cs (set_semaphore (next_address k) \<lparr>value = 0, queue = []\<rparr>
      (k\<lparr>next_address := Suc (next_address k), conditions := x\<rparr>)) = Inr k2" "Release l k2 = Inr k'"
    by (auto simp: Wait_def Let_def rbind_eq_Inr_iff ASSERT_eq_Inr_iff)
  have "R k (set_semaphore (next_address k) \<lparr>value = 0, queue = []\<rparr> (k\<lparr>next_address := Suc (next_address k), conditions := x\<rparr>))"
    by (rule R_frame; simp add: set_semaphore_def)
  from R_trans [OF R_trans [OF this relD [OF rel_push 2(1)]] relD [OF rel_Release 2(2)]] show "R k k'" .
qed

lemma rel_Signal: "rel (Signal c l)"
proof -
  have "rel (\<lambda>k. V w (k\<lparr>conditions := (conditions k)(c \<mapsto> \<lparr>waitQueue = ws\<rparr>)\<rparr>))" for w ws
    by (rule rel_upd [OF _ rel_V]) (rule R_frame; simp)
  then show ?thesis unfolding Signal_def [abs_def] by (intro rel_bind rel_ASSERT rel_case_list rel_Inr)
qed

lemma rel_broadcast_loop: "rel (broadcast_loop c l)"
  unfolding broadcast_loop_def [abs_def] by (intro rel_bind rel_if rel_Inr rel_seq rel_push rel_Signal)

lemma rel_SL: "rel (SL_Append sl x)" "rel (list_append sl x)" "rel (SL_Remove sl)"
proof -
  show "rel (SL_Append sl x)" "rel (SL_Remove sl)" unfolding SL_Append_def [abs_def] SL_Remove_def [abs_def]
    by (intro rel_bind rel_seq rel_push rel_Acquire)+
  show "rel (list_append sl x)" by (rule relI) (auto simp: list_append_def rbind_eq_Inr_iff intro: R_frame)
qed

lemma rel_remove_loop: "rel (remove_loop sl)"
proof -
  have "rel (\<lambda>k. Release l (set_thread (currentThread k) th (k\<lparr>synchLists := f (synchLists k)\<rparr>)))" for l th f
    by (rule rel_upd [OF _ rel_Release]) (rule R_frame; simp add: set_thread_def)
  then show ?thesis unfolding remove_loop_def [abs_def]
    by (intro rel_bind rel_case_list rel_seq [OF rel_push rel_Wait])
qed

lemma rel_ph_set: "st \<noteq> Eating \<Longrightarrow> rel (ph_set i st)"
  by (rule relI) (auto simp: ph_set_def rbind_eq_Inr_iff array_set_def ph_change_def intro!: R_ph exI [of _ i] exI [of _ st] split: if_splits)

lemma rel_ph_test: "rel (ph_test i)"
proof (rule relI)
  fix k k' assume r: "ph_test i k = Inr k'"
  let ?ss = "ph_state (philosophers k)"
  obtain a b c where g: "array_get ?ss ((i + 4) smod 5) = Inr a" "array_get ?ss i = Inr b" "array_get ?ss ((i + 1) smod 5) = Inr c"
    using r by (auto simp: ph_test_def ph_get_def rbind_eq_Inr_iff)
  show "R k k'"
  proof (cases "a \<noteq> Eating \<and> b = Hungry \<and> c \<noteq> Eating")
    case True
    then obtain d k1 where s: "ph_set i Eating k = Inr k1" "Signal d (dp (philosophers k)) k1 = Inr k'"
      using r g by (auto simp: ph_test_def ph_get_def rbind_eq_Inr_iff)
    then have "R k k1" using True g
      by (auto simp: ph_set_def rbind_eq_Inr_iff array_set_def ph_change_def intro!: R_ph exI [of _ i] exI [of _ Eating] split: if_splits)
    then show ?thesis using relD [OF rel_Signal s(2)] by (rule R_trans)
  next
    case False
    then show ?thesis using r g by (auto simp: ph_test_def ph_get_def R_refl)
  qed
qed

lemma rel_pickup: "rel (pickup i)" "rel (pickup_test i)" "rel (pickup_wait i)"
proof -
  show "rel (pickup i)" unfolding pickup_def [abs_def]
    by (rule relI) (auto simp: rbind_eq_Inr_iff intro: R_trans [OF relD [OF rel_push] relD [OF rel_Acquire]])
  show "rel (pickup_test i)" unfolding pickup_test_def [abs_def] by (intro rel_seq rel_push rel_ph_test rel_ph_set) simp
  have "rel (\<lambda>k1. rbind (ph_get i k1) (\<lambda>st. if st = Hungry
       then rbind (array_get (self (philosophers k1)) i) (\<lambda>c. Wait c (dp (philosophers k1)) k1) else Inr k1))"
    by (intro rel_bind rel_if rel_Inr rel_read [OF rel_Wait])
  from rel_seq [OF rel_read [OF rel_push, of "\<lambda>k. [Call_Release (dp (philosophers k))]"] this]
  show "rel (pickup_wait i)" unfolding pickup_wait_def [abs_def] .
qed

lemma rel_putdown: "rel (putdown i)" "rel (putdown_left i)"
proof -
  show "rel (putdown i)" unfolding putdown_def [abs_def]
    by (rule relI) (auto simp: rbind_eq_Inr_iff intro: R_trans [OF relD [OF rel_push] relD [OF rel_Acquire]])
  show "rel (putdown_left i)" unfolding putdown_left_def [abs_def] by (intro rel_seq rel_ph_test rel_ph_set) simp
qed

lemma rel_sector: "rel (k_ReadSector s)" "rel (k_WriteSector s bs)"
  unfolding k_ReadSector_def [abs_def] k_WriteSector_def [abs_def]
  by (rule relI, auto simp: rbind_eq_Inr_iff intro: R_trans [OF relD [OF rel_push] relD [OF rel_Acquire]])+

lemma R_disk_stats: "now k \<le> totalTicks st \<Longrightarrow> R k (k\<lparr>kdisk := d, stats := st\<rparr>)"
  using R_trans [OF R_disk R_stats [of "k\<lparr>kdisk := d\<rparr>" st]] by simp

lemma rel_requests: "rel (read_request s)" "rel (write_request s bs)"
proof -
  show "rel (write_request s bs)"
  proof (rule relI)
    fix k k' assume "write_request s bs k = Inr k'"
    then obtain ticks d st where "Schedule DiskDone ticks DiskInt (k\<lparr>kdisk := d, stats := st\<rparr>) = Inr k'" "now k \<le> totalTicks st"
      by (auto simp: write_request_def rbind_eq_Inr_iff)
    then show "R k k'" using R_trans [OF R_disk_stats relD [OF rel_Schedule]] by blast
  qed
  show "rel (read_request s)"
  proof (rule relI)
    fix k k' assume "read_request s k = Inr k'"
    then obtain ticks d st t th where "Schedule DiskDone ticks DiskInt (set_thread t th (k\<lparr>kdisk := d, stats := st\<rparr>)) = Inr k'" "now k \<le> totalTicks st"
      by (auto simp: read_request_def rbind_eq_Inr_iff)
    then show "R k k'" using R_trans [OF R_trans [OF R_disk_stats R_helpers(1)] relD [OF rel_Schedule]] by blast
  qed
qed

lemmas rel_rules = rel_run_tail rel_sleep_loop rel_p_loop rel_SetLevel rel_set_holder rel_broadcast_loop rel_SL rel_remove_loop
  rel_requests rel_pickup rel_ph_test rel_putdown rel_P rel_V rel_Destroy rel_Acquire rel_Release rel_Wait rel_Signal rel_Yield
  rel_Fork rel_Finish rel_sector

lemma exec_code_rel: "exec_code c k = Inr k' \<Longrightarrow> R k k'"
  by (cases c) (auto simp: Enable_def dest: rel_rules [THEN relD] intro: R_frame)

lemma kernel_step_rel: "kernel_step k = Inr k' \<Longrightarrow> R k k'"
  by (erule kernel_stepE) (rule R_trans [OF R_helpers(1) exec_code_rel])

lemma steps_rel: "steps k k' \<Longrightarrow> R k k'"
  by (induction rule: steps.induct) (auto intro: R_refl R_trans kernel_step_rel)
end

text \<open>Simulated time never goes back.\<close>

interpretation clock: step_relation "\<lambda>k k'. now k \<le> now k'"
  by unfold_locales auto

text \<open>No two neighbours eat at the same time.\<close>

definition ph_ok :: "DinningPh \<Rightarrow> bool" where
  "ph_ok p \<longleftrightarrow> length (ph_state p) = 5 \<and> (\<forall>i < 5. \<not> (ph_state p ! i = Eating \<and> ph_state p ! ((i + 1) mod 5) = Eating))"

lemma ph_ok_list: "ph_ok p \<longleftrightarrow> (\<exists>a b c d e. ph_state p = [a, b, c, d, e] \<and> \<not> (a = Eating \<and> b = Eating) \<and>
   \<not> (b = Eating \<and> c = Eating) \<and> \<not> (c = Eating \<and> d = Eating) \<and> \<not> (d = Eating \<and> e = Eating) \<and> \<not> (e = Eating \<and> a = Eating))"
proof -
  have five: "(\<forall>i < 5. Q i) \<longleftrightarrow> Q 0 \<and> Q (Suc 0) \<and> Q 2 \<and> Q 3 \<and> Q 4" for Q :: "nat \<Rightarrow> bool"
    by (auto simp: numeral_eq_Suc less_Suc_eq)
  have len: "length (ph_state p) = 5 \<longleftrightarrow> (\<exists>a b c d e. ph_state p = [a, b, c, d, e])"
    by (simp add: length_Suc_conv numeral_eq_Suc) blast
  show ?thesis
    unfolding ph_ok_def five len by (intro iffI; elim conjE exE; simp)
qed

lemma ph_change_ok:
  assumes "ph_change p p'" "ph_ok p" shows "ph_ok p'"
proof -
  obtain a b c d e where s: "ph_state p = [a, b, c, d, e]" using assms(2) unfolding ph_ok_list by blast
  obtain i st where i: "0 \<le> i" "i < 5" "p' = p\<lparr>ph_state := (ph_state p)[nat i := st]\<rparr>"
    and st: "st = Eating \<longrightarrow> array_get (ph_state p) ((i + 4) smod 5) \<noteq> Inr Eating \<and> array_get (ph_state p) ((i + 1) smod 5) \<noteq> Inr Eating"
    using assms(1) s unfolding ph_change_def by auto
  have "i = 0 \<or> i = 1 \<or> i = 2 \<or> i = 3 \<or> i = 4" using i(1,2) by auto
  then show ?thesis using assms(2) st i(3) s
    by (elim disjE) (simp_all add: ph_ok_list array_get_def smod_nonneg, blast+)
qed

interpretation phil: step_relation "\<lambda>k k'. ph_ok (philosophers k) \<longrightarrow> ph_ok (philosophers k')"
  by unfold_locales (auto intro: ph_change_ok)

text \<open>Locks keep their semaphores, and the disk its lock and its semaphore.\<close>

definition same_mutexes :: "Kernel \<Rightarrow> Kernel \<Rightarrow> bool" where
  "same_mutexes k k' \<longleftrightarrow> (\<forall>l. map_option mutex (locks k' l) = map_option mutex (locks k l)) \<and>
     disk_lock k' = disk_lock k \<and> disk_semaphore k' = disk_semaphore k"

interpretation mutexes: step_relation same_mutexes
  by unfold_locales (auto simp: same_mutexes_def)
section \<open>Interrupts fire when they are due\<close>

definition timely :: "Kernel \<Rightarrow> bool" where
  "timely k \<longleftrightarrow> sorted (map fst (pending (interrupt k)))"

lemma sorted_insert_keys: "sorted (map fst ps) \<Longrightarrow> sorted (map fst (l_sorted_insert x t ps))"
  and insert_keys: "set (map fst (l_sorted_insert x t ps)) = insert t (set (map fst ps))"
proof -
  show s: "set (map fst (l_sorted_insert x t ps)) = insert t (set (map fst ps))" for ps :: "'a keyed"
    by (induction x t ps rule: l_sorted_insert.induct) auto
  show "sorted (map fst ps) \<Longrightarrow> sorted (map fst (l_sorted_insert x t ps))"
    using s by (induction x t ps rule: l_sorted_insert.induct) (auto simp: image_iff) 
qed

text \<open>A handler keeps the list sorted, the mode of the machine, and the clock.\<close>

definition handler_ok :: "Kernel \<Rightarrow> Kernel \<Rightarrow> bool" where
  "handler_ok k k' \<longleftrightarrow> (timely k \<longrightarrow> timely k') \<and> status (interrupt k') = status (interrupt k) \<and> now k' = now k"

lemma handler_ok_trans: "handler_ok k k1 \<Longrightarrow> handler_ok k1 k2 \<Longrightarrow> handler_ok k k2"
  by (auto simp: handler_ok_def)

lemma handler_ok_Schedule: "Schedule h d ty k = Inr k' \<Longrightarrow> handler_ok k k'"
  by (auto simp: handler_ok_def timely_def Schedule_Inr map_interrupt_def sorted_insert_keys)

lemma handler_ok_same: "interrupt k' = interrupt k \<Longrightarrow> now k' = now k \<Longrightarrow> handler_ok k k'"
  by (simp add: handler_ok_def timely_def)

lemma handler_ok_V_body: "V_body s k = Inr k' \<Longrightarrow> handler_ok k k'"
  by (erule V_bodyE) (simp_all add: set_semaphore_def set_thread_def handler_ok_same)

lemma handler_ok_run_handler: "run_handler h k = Inr k' \<Longrightarrow> handler_ok k k'"
proof (cases h)
  assume r: "run_handler h k = Inr k'"
  case TimerHandler
  obtain d k1 where n: "TimeOfNextInterrupt k = (d, k1)" by fastforce
  then obtain k2 where 2: "Schedule TimerHandler d TimerInt k1 = Inr k2" "k' = TimerInterruptHandler k2"
    using r TimerHandler by (auto simp: run_handler_def TimerExpired_def rbind_eq_Inr_iff)
  have "handler_ok k k1" using n by (auto simp: TimeOfNextInterrupt_def intro!: handler_ok_same split: if_splits)
  moreover have "handler_ok k2 k'" unfolding 2(2)
    by (auto simp: TimerInterruptHandler_def YieldOnReturn_def map_interrupt_def handler_ok_def timely_def)
  ultimately show ?thesis using handler_ok_Schedule [OF 2(1)] handler_ok_trans by blast
next
  assume r: "run_handler h k = Inr k'"
  case DiskDone
  obtain k1 l where 1: "V_body (disk_semaphore k) (ChangeLevel IntOff (k\<lparr>kdisk := HandleInterrupt (kdisk k)\<rparr>)) = Inr k1" "k' = ChangeLevel l k1"
    using r DiskDone by (auto simp: run_handler_def V_in_handler_def rbind_eq_Inr_iff ASSERT_eq_Inr_iff Let_def)
  have "handler_ok k (ChangeLevel IntOff (k\<lparr>kdisk := HandleInterrupt (kdisk k)\<rparr>))" "handler_ok k1 k'"
    unfolding 1(2) by (auto simp: handler_ok_def timely_def ChangeLevel_def map_interrupt_def)
  then show ?thesis using handler_ok_V_body [OF 1(1)] handler_ok_trans by blast
qed

lemma fire_timely:
  assumes "fire p k = Inr k'" shows "handler_ok k k'"
proof -
  obtain k1 where 1: "run_handler (handler p) (map_interrupt (\<lambda>i. i\<lparr>inHandler := True, status := SystemMode\<rparr>) k) = Inr k1"
    "k' = map_interrupt (\<lambda>i. i\<lparr>status := status (interrupt k), inHandler := False\<rparr>) k1"
    using assms by (auto simp: fire_def Let_def rbind_eq_Inr_iff)
  from handler_ok_run_handler [OF 1(1)] show ?thesis unfolding 1(2) by (auto simp: handler_ok_def timely_def map_interrupt_def)
qed

lemma check_loop_fires:
  "check_loop k = Inr k' \<Longrightarrow> timely k \<Longrightarrow> status (interrupt k) \<noteq> IdleMode \<Longrightarrow>
   now k' = now k \<and> timely k' \<and> (\<forall>(w, p) \<in> set (pending (interrupt k')). now k < w)"
proof (induction k rule: check_loop.induct)
  case (1 k)
  from 1(2) obtain b k1 where c: "CheckIfDue False k = Inr (b, k1)" "(if b then check_loop k1 else Inr k1) = Inr k'"
    by (subst (asm) check_loop.simps) (auto simp: rbind_eq_Inr_iff)
  from c(1) show ?case
  proof (cases rule: CheckIfDueE)
    case empty
    then show ?thesis using c(2) 1(3) by auto
  next
    case (later w p rest i st)
    have k1: "k1 = k'" "i = (interrupt k)\<lparr>pending := l_sorted_insert p w rest\<rparr>" "st = stats k" "now k < w"
      using later 1(4) c(2) by auto
    have srt: "sorted (map fst ((w, p) # rest))" using 1(3) later(1) by (simp add: timely_def)
    have "fst ` set (l_sorted_insert p w rest) = insert w (fst ` set rest)" using insert_keys [of p w rest] by simp
    moreover have "\<forall>x \<in> fst ` set rest. w \<le> x" using srt by auto
    ultimately have "\<forall>x \<in> fst ` set (l_sorted_insert p w rest). now k < x" using k1(4) by fastforce
    then have "\<forall>(w, p) \<in> set (pending (interrupt k')). now k < w" using later(3) k1 by auto
    then show ?thesis using later(3) k1 sorted_insert_keys [of rest p w] srt by (auto simp: timely_def)
  next
    case (fired w p rest i st)
    have t: "totalTicks st = now k" using fired(5,6) by simp
    have "timely (k\<lparr>interrupt := i, stats := st\<rparr>)" using 1(3) fired(1,4) by (simp add: timely_def)
    then have "timely k1" "status (interrupt k1) = status (interrupt k)" "now k1 = now k"
      using fire_timely [OF fired(3)] fired(4) t by (auto simp: handler_ok_def)
    then show ?thesis using 1(1) [OF c(1) refl fired(2)] c(2) fired(2) 1(4) by auto
  qed
qed

section \<open>Kernels that have booted\<close>

definition boot_ok :: "Globals \<Rightarrow> code list \<Rightarrow> bool" where
  "boot_ok g prog \<longleftrightarrow> list_all call_ok prog \<and> 0 < g_next g \<and> list_all (\<lambda>(s, v). s < g_next g) (g_semaphores g) \<and>
     list_all (\<lambda>(l, m). m < g_next g) (g_locks g)"

definition booted :: "Kernel \<Rightarrow> bool" where
  "booted k \<longleftrightarrow> (\<exists>randomYield rnd d g prog. boot_ok g prog \<and> ph_ok (g_philosophers g) \<and>
     Initialize randomYield rnd d g prog = Inr k)"

lemma Initialize_result:
  assumes "Initialize ry rnd d g prog = Inr k"
  shows "philosophers k = g_philosophers g" "now k = 0" "timely k" "status (interrupt k) = SystemMode" "\<not> halted k"
  using assms by (auto simp: Initialize_def Let_def TimeOfNextInterrupt_def Schedule_Inr Statistics_new_def Interrupt_new_def
      map_interrupt_def timely_def split: if_splits)

lemma booted_kernel_ok: "booted k \<Longrightarrow> kernel_ok k"
  unfolding booted_def boot_ok_def
  by (metis (mono_tags, lifting) Initialize_ok Inr_inject list_all_iff)

lemma reachable_ok: "booted k0 \<Longrightarrow> steps k0 k \<Longrightarrow> kernel_ok k"
  using booted_kernel_ok steps_ok by blast

lemma reachable_ph_ok: "booted k0 \<Longrightarrow> steps k0 k \<Longrightarrow> ph_ok (philosophers k)"
  using phil.steps_rel [of k0 k] by (auto simp: booted_def Initialize_result(1))

fun run_kernel :: "nat \<Rightarrow> Kernel \<Rightarrow> Kernel res" where
  "run_kernel 0 k = Inr k"
| "run_kernel (Suc n) k = (if halted k then Inr k else rbind (kernel_step k) (run_kernel n))"

lemma steps_step: "kernel_step k = Inr k1 \<Longrightarrow> \<not> halted k \<Longrightarrow> steps k1 k2 \<Longrightarrow> steps k k2"
  by (rotate_tac 2, induction rule: steps.induct) (blast intro: steps.intros)+

lemma run_kernel_steps: "run_kernel n k = Inr k' \<Longrightarrow> steps k k'"
  by (induction n k rule: run_kernel.induct) (auto simp: rbind_eq_Inr_iff intro: steps.none steps_step split: if_splits)

lemma queue_distinct: "kernel_ok k \<Longrightarrow> semaphores k s = Some sem \<Longrightarrow> distinct (queue sem)"
  using queuesD(2) unfolding kernel_ok_def running_def sleeping_def by blast

end
