(* ===== verification/Nachos_Ticks.thy ===== *)
theory Nachos_Ticks
  imports Nachos_Steps
begin

text \<open>
  What \<open>Interrupt::OneTick\<close> does: the clock moves, every interrupt that is due calls its handler, and a due timer makes the
  current thread yield.  The effect is stated through what the handlers change: the disk's semaphore and the
  threads that wait in its queue, the timer's next interrupt, the ready list.
\<close>

section \<open>One handler\<close>

definition TimerPending :: "int \<Rightarrow> PendingInterrupt" where
  "TimerPending t = \<lparr>handler = TimerHandler, when = t, int_type = TimerInt\<rparr>"

lemma insert_behind: "\<forall>(w, p) \<in> set ps. w \<le> t \<Longrightarrow> l_sorted_insert x t (ps @ qs) = ps @ l_sorted_insert x t qs"
  by (induction ps) auto

lemma next_interrupt: "\<exists>d n. TimeOfNextInterrupt k = (d, k\<lparr>draws := n\<rparr>) \<and> 0 < d \<and> d \<le> 200"
proof (cases "randomize k")
  case True
  have "int (random k (draws k)) mod 200 < 200" by simp
  then have "1 + int (random k (draws k)) mod 200 \<le> 200" by linarith
  then show ?thesis using True by (auto simp: TimeOfNextInterrupt_def TimerTicks_def smod_nonneg)
next
  case False
  then have "TimeOfNextInterrupt k = (100, k\<lparr>draws := draws k\<rparr>)" by (simp add: TimeOfNextInterrupt_def TimerTicks_def)
  then show ?thesis by (intro exI [of _ 100] exI [of _ "draws k"]) simp
qed

text \<open>The timer schedules its next interrupt and asks for a context switch.\<close>

lemma fire_timer:
  assumes "handler p = TimerHandler" "is_int32 (now k)" "is_int32 (now k + 200)"
  shows "\<exists>d n. 0 < d \<and> d \<le> 200 \<and> fire p k = Inr (k\<lparr>draws := n, interrupt := (interrupt k)\<lparr>
    pending := l_sorted_insert (TimerPending (now k + d)) (now k + d) (pending (interrupt k)), yieldOnReturn := True, inHandler := False\<rparr>\<rparr>)"
proof -
  let ?k0 = "map_interrupt (\<lambda>i. i\<lparr>inHandler := True, status := SystemMode\<rparr>) k"
  obtain d k1 n where d: "TimeOfNextInterrupt ?k0 = (d, k1)" "0 < d" "d \<le> 200" "k1 = ?k0\<lparr>draws := n\<rparr>"
    using next_interrupt [of ?k0] by blast
  have "is_int32 (now k + d)" using assms(2,3) d(2,3) by (simp add: is_int32_def)
  then have "fire p k = Inr (k\<lparr>draws := n, interrupt := (interrupt k)\<lparr>
    pending := l_sorted_insert (TimerPending (now k + d)) (now k + d) (pending (interrupt k)), yieldOnReturn := True, inHandler := False\<rparr>\<rparr>)"
    using d assms(1) by (simp add: fire_def run_handler_def TimerExpired_def Schedule_def TimerInterruptHandler_def YieldOnReturn_def
        map_interrupt_def TimerPending_def Let_def)
  then show ?thesis using d(2,3) by blast
qed

text \<open>The disk is idle again, and its semaphore is signalled.\<close>

definition wake :: "address list \<Rightarrow> Kernel \<Rightarrow> Kernel" where
  "wake ts k = k\<lparr>readyList := readyList k @ ts,
     threads := (\<lambda>t. if t \<in> set ts then map_option (\<lambda>th. th\<lparr>thread_status := READY\<rparr>) (threads k t) else threads k t)\<rparr>"

lemma fire_disk:
  assumes "handler p = DiskDone" "semaphores k (disk_semaphore k) = Some sem" "set (queue sem) \<subseteq> dom (threads k)"
    "is_int32 (value sem + 1)" "level (interrupt k) = IntOff"
  shows "fire p k = Inr ((wake (take 1 (queue sem)) k)\<lparr>kdisk := HandleInterrupt (kdisk k),
    semaphores := (semaphores k)(disk_semaphore k \<mapsto> \<lparr>value = value sem + 1, queue = drop 1 (queue sem)\<rparr>),
    interrupt := (interrupt k)\<lparr>inHandler := False\<rparr>\<rparr>)"
proof (cases "queue sem")
  case Nil
  then show ?thesis using assms
    by (simp add: fire_def run_handler_def V_in_handler_def V_body_def lookup_def ChangeLevel_def map_interrupt_def set_semaphore_def wake_def
        fun_eq_iff)
next
  case (Cons t ts)
  then obtain th where th: "threads k t = Some th" using assms(3) by auto
  have "(threads k)(t \<mapsto> th\<lparr>thread_status := READY\<rparr>) = (\<lambda>u. if u = t then map_option (\<lambda>th. th\<lparr>thread_status := READY\<rparr>) (threads k u) else threads k u)"
    using th by auto
  then show ?thesis using assms Cons th
    by (simp add: fire_def run_handler_def V_in_handler_def V_body_def lookup_def ChangeLevel_def map_interrupt_def set_semaphore_def wake_def
        ReadyToRun_def setStatus_def set_thread_def)
qed

section \<open>All handlers\<close>

text \<open>The number of interrupts of a kind that are due at time \<open>t\<close>.\<close>

definition due_at :: "handler \<Rightarrow> int \<Rightarrow> PendingInterrupt keyed \<Rightarrow> nat" where
  "due_at h t ps = length (filter (\<lambda>(w, p). w \<le> t \<and> handler p = h) ps)"

definition later :: "int \<Rightarrow> PendingInterrupt keyed \<Rightarrow> PendingInterrupt keyed" where
  "later t ps = filter (\<lambda>(w, p). t < w) ps"

text \<open>\<open>nt\<close> interrupts of the timer and \<open>nd\<close> of the disk have been handled; \<open>sem\<close> was the semaphore of the disk.\<close>

definition handled :: "nat \<Rightarrow> nat \<Rightarrow> PendingInterrupt keyed \<Rightarrow> Semaphore \<Rightarrow> Kernel \<Rightarrow> Kernel \<Rightarrow> bool" where
  "handled nt nd late sem k k' \<longleftrightarrow>
     stats k' = stats k \<and> currentThread k' = currentThread k \<and> disk_semaphore k' = disk_semaphore k \<and>
     level (interrupt k') = level (interrupt k) \<and> status (interrupt k') = status (interrupt k) \<and>
     (\<exists>new. mset (pending (interrupt k')) = mset late + mset new \<and> length new = nt \<and>
        (\<forall>(w, p) \<in> set new. now k < w \<and> w \<le> now k + 200 \<and> p = TimerPending w)) \<and>
     yieldOnReturn (interrupt k') = (yieldOnReturn (interrupt k) \<or> 0 < nt) \<and>
     (0 < nd \<longrightarrow> \<not> active (kdisk k')) \<and> (nd = 0 \<longrightarrow> kdisk k' = kdisk k) \<and>
     semaphores k' = (semaphores k)(disk_semaphore k \<mapsto> \<lparr>value = value sem + int nd, queue = drop nd (queue sem)\<rparr>) \<and>
     readyList k' = readyList k @ take nd (queue sem) \<and>
     (\<forall>t. threads k' t = (if t \<in> set (take nd (queue sem)) then map_option (\<lambda>th. th\<lparr>thread_status := READY\<rparr>) (threads k t) else threads k t))"

lemma mset_l_insert: "mset (l_sorted_insert x t ps) = add_mset (t, x) (mset ps)"
  by (induction x t ps rule: l_sorted_insert.induct) auto

lemma check_first:
  assumes "pending (interrupt k) = (w, p) # rest" "w \<le> now k" "level (interrupt k) = IntOff" "status (interrupt k) \<noteq> IdleMode"
  shows "check_loop k = rbind (fire p (k\<lparr>interrupt := (interrupt k)\<lparr>pending := rest\<rparr>\<rparr>)) check_loop"
  using assms by (subst check_loop.simps) (auto simp: CheckIfDue_def rbind_def split: sum.splits)

lemma check_none:
  assumes "\<forall>(w, p) \<in> set (pending (interrupt k)). now k < w" "level (interrupt k) = IntOff"
  shows "\<exists>ps. check_loop k = Inr (k\<lparr>interrupt := (interrupt k)\<lparr>pending := ps\<rparr>\<rparr>) \<and> mset ps = mset (pending (interrupt k))"
proof (cases "pending (interrupt k)")
  case Nil
  then have "check_loop k = Inr (k\<lparr>interrupt := (interrupt k)\<lparr>pending := []\<rparr>\<rparr>)"
    using assms(2) by (subst check_loop.simps) (simp add: CheckIfDue_def)
  then show ?thesis using Nil by auto
next
  case (Cons x rest)
  obtain w p where x: "x = (w, p)" by fastforce
  have "check_loop k = Inr (k\<lparr>interrupt := (interrupt k)\<lparr>pending := l_sorted_insert p w rest\<rparr>\<rparr>)"
    using assms Cons x by (subst check_loop.simps) (simp add: CheckIfDue_def)
  then show ?thesis using Cons x by (auto simp: mset_l_insert)
qed

lemma check_loop_effect:
  assumes "pending (interrupt k) = ds @ late" "\<forall>(w, p) \<in> set ds. w \<le> now k" "\<forall>(w, p) \<in> set late. now k < w"
    "level (interrupt k) = IntOff" "status (interrupt k) \<noteq> IdleMode" "is_int32 (now k)" "is_int32 (now k + 200)"
    "semaphores k (disk_semaphore k) = Some sem" "set (queue sem) \<subseteq> dom (threads k)"
    "is_int32 (value sem)" "is_int32 (value sem + int (due_at DiskDone (now k) ds))"
  shows "\<exists>k'. check_loop k = Inr k' \<and> handled (due_at TimerHandler (now k) ds) (due_at DiskDone (now k) ds) late sem k k'"
  using assms
proof (induction ds arbitrary: k late sem)
  case Nil
  then obtain ps where "check_loop k = Inr (k\<lparr>interrupt := (interrupt k)\<lparr>pending := ps\<rparr>\<rparr>)" "mset ps = mset late"
    using check_none [of k] by auto
  moreover have "\<lparr>value = value sem, queue = queue sem\<rparr> = sem" by simp
  ultimately show ?case using Nil.prems(8) by (auto simp: handled_def due_at_def map_upd_triv intro!: exI [of _ "[]"])
next
  case (Cons x ds)
  obtain w p where x: "x = (w, p)" by fastforce
  let ?k = "k\<lparr>interrupt := (interrupt k)\<lparr>pending := ds @ late\<rparr>\<rparr>"
  have first: "check_loop k = rbind (fire p ?k) check_loop" using Cons.prems x by (intro check_first) auto
  show ?case
  proof (cases "handler p")
    case TimerHandler
    then obtain d n where d: "0 < d" "d \<le> 200" and f: "fire p ?k = Inr (?k\<lparr>draws := n, interrupt := (interrupt ?k)\<lparr>
        pending := l_sorted_insert (TimerPending (now k + d)) (now k + d) (ds @ late), yieldOnReturn := True, inHandler := False\<rparr>\<rparr>)"
      using fire_timer [of p ?k] Cons.prems(6,7) by auto
    let ?late = "l_sorted_insert (TimerPending (now k + d)) (now k + d) late"
    let ?k1 = "?k\<lparr>draws := n, interrupt := (interrupt ?k)\<lparr>pending := ds @ ?late, yieldOnReturn := True, inHandler := False\<rparr>\<rparr>"
    have "l_sorted_insert (TimerPending (now k + d)) (now k + d) (ds @ late) = ds @ ?late"
      using Cons.prems(2) d by (intro insert_behind) fastforce
    then have f1: "fire p ?k = Inr ?k1" using f by simp
    have n: "due_at TimerHandler (now k) (x # ds) = Suc (due_at TimerHandler (now k) ds)"
      "due_at DiskDone (now k) (x # ds) = due_at DiskDone (now k) ds"
      using Cons.prems(2) x TimerHandler by (simp_all add: due_at_def)
    have l: "set ?late = insert (now k + d, TimerPending (now k + d)) (set late)"
      using mset_l_insert [of "TimerPending (now k + d)" "now k + d" late] by (metis set_mset_add_mset_insert set_mset_mset)
    have "\<exists>k'. check_loop ?k1 = Inr k' \<and> handled (due_at TimerHandler (now ?k1) ds) (due_at DiskDone (now ?k1) ds) ?late sem ?k1 k'"
      by (rule Cons.IH) (use Cons.prems d n l in auto)
    then obtain k' where k': "check_loop ?k1 = Inr k'" and h: "handled (due_at TimerHandler (now k) ds) (due_at DiskDone (now k) ds) ?late sem ?k1 k'"
      by auto
    from h obtain new where new: "mset (pending (interrupt k')) = mset ?late + mset new" "length new = due_at TimerHandler (now k) ds"
      "\<forall>(w, p) \<in> set new. now k < w \<and> w \<le> now k + 200 \<and> p = TimerPending w" by (auto simp: handled_def)
    have "handled (due_at TimerHandler (now k) (x # ds)) (due_at DiskDone (now k) (x # ds)) late sem k k'"
      unfolding n handled_def using h new d
      by (intro conjI exI [of _ "(now k + d, TimerPending (now k + d)) # new"]) (auto simp: handled_def mset_l_insert)
    then show ?thesis using first f1 k' by simp
  next
    case DiskDone
    let ?n = "due_at DiskDone (now k) ds"
    have n: "due_at TimerHandler (now k) (x # ds) = due_at TimerHandler (now k) ds" "due_at DiskDone (now k) (x # ds) = Suc ?n"
      using Cons.prems(2) x DiskDone by (simp_all add: due_at_def)
    let ?sem = "\<lparr>value = value sem + 1, queue = drop 1 (queue sem)\<rparr>"
    let ?k1 = "(wake (take 1 (queue sem)) ?k)\<lparr>kdisk := HandleInterrupt (kdisk k), semaphores := (semaphores k)(disk_semaphore k \<mapsto> ?sem),
      interrupt := (interrupt ?k)\<lparr>inHandler := False\<rparr>\<rparr>"
    have i: "is_int32 (value sem + 1)" using Cons.prems(10,11) n by (auto simp: is_int32_def)
    have f: "fire p ?k = Inr ?k1" using fire_disk [OF DiskDone, of ?k sem] Cons.prems(4,8,9) i by simp
    have "\<exists>k'. check_loop ?k1 = Inr k' \<and> handled (due_at TimerHandler (now ?k1) ds) (due_at DiskDone (now ?k1) ds) late ?sem ?k1 k'"
    proof (rule Cons.IH)
      show "set (queue ?sem) \<subseteq> dom (threads ?k1)" using Cons.prems(9) set_drop_subset [of 1 "queue sem"] by (auto simp: wake_def dom_def split: if_splits)
      show "is_int32 (value ?sem + int (due_at DiskDone (now ?k1) ds))" using Cons.prems(11) n by (simp add: wake_def add.assoc)
    qed (use Cons.prems i in \<open>auto simp: wake_def\<close>)
    then obtain k' where k': "check_loop ?k1 = Inr k'" and h: "handled (due_at TimerHandler (now k) ds) ?n late ?sem ?k1 k'"
      by (auto simp: wake_def)
    have t: "take 1 (queue sem) @ take ?n (drop 1 (queue sem)) = take (Suc ?n) (queue sem)" "drop ?n (drop 1 (queue sem)) = drop (Suc ?n) (queue sem)"
      by (cases "queue sem"; simp)+
    have s: "set (take (Suc ?n) (queue sem)) = set (take 1 (queue sem)) \<union> set (take ?n (drop 1 (queue sem)))" unfolding t(1) [symmetric] by simp
    have "handled (due_at TimerHandler (now k) (x # ds)) (due_at DiskDone (now k) (x # ds)) late sem k k'"
      unfolding n handled_def t(1) [symmetric] using h t(2)
      by (auto simp: handled_def wake_def HandleInterrupt_def add.assoc option.map_comp comp_def)
    then show ?thesis using first f k' by simp
  qed
qed

section \<open>A tick\<close>

text \<open>\<open>Thread::Yield\<close> gives the processor to the first thread of the ready list, if there is one.\<close>

lemma Yield_effect:
  assumes "threads k (currentThread k) = Some th" "stack_ok th" "set (readyList k) \<subseteq> dom (threads k)"
  shows "\<exists>k'. Yield k = Inr k' \<and> stats k' = stats k \<and> pending (interrupt k') = pending (interrupt k) \<and> semaphores k' = semaphores k \<and>
    kdisk k' = kdisk k \<and> (case readyList k of [] \<Rightarrow> currentThread k' = currentThread k \<and> readyList k' = []
      | n # ns \<Rightarrow> currentThread k' = n \<and> readyList k' = ns @ [currentThread k])"
proof (cases "readyList k")
  case Nil
  then show ?thesis using assms(1)
    by (simp add: Yield_def SetLevel_off_def FindNextToRun_def ChangeLevel_def map_interrupt_def push_def lookup_def set_thread_def)
next
  case (Cons n ns)
  then obtain u where "threads k n = Some u" using assms(3) by auto
  then show ?thesis using assms(1,2) Cons
    by (auto simp: Yield_def SetLevel_off_def FindNextToRun_def ChangeLevel_def map_interrupt_def push_def lookup_def set_thread_def
        ReadyToRun_def setStatus_def Run_def CheckOverflow_def stack_ok_def)
qed

lemma split_due:
  assumes "sorted (map fst ps)"
  shows "ps = filter (\<lambda>(w, p). w \<le> t) ps @ later t ps"
  using assms
proof (induction ps)
  case (Cons x ps)
  obtain w p where x: "x = (w, p)" by fastforce
  show ?case
  proof (cases "w \<le> t")
    case True
    then show ?thesis using Cons x by (simp add: later_def)
  next
    case False
    then have "\<forall>(v, q) \<in> set ps. t < v" using Cons.prems x by fastforce
    then have "filter (\<lambda>(w, p). w \<le> t) ps = []" "later t ps = ps" by (auto simp: later_def filter_empty_conv filter_id_conv)
    then show ?thesis using False x by (simp add: later_def)
  qed
qed (simp add: later_def)

lemma due_at_filter: "due_at h t (filter (\<lambda>(w, p). w \<le> t) ps) = due_at h t ps"
  by (simp add: due_at_def case_prod_unfold conj_ac)

text \<open>What is stated of a tick at the end of which it is \<open>t\<close> o'clock.\<close>

definition ticked :: "int \<Rightarrow> Semaphore \<Rightarrow> Kernel \<Rightarrow> Kernel \<Rightarrow> bool" where
  "ticked t sem k k' \<longleftrightarrow> (let ps = pending (interrupt k); nt = due_at TimerHandler t ps; nd = due_at DiskDone t ps;
       ready = readyList k @ take nd (queue sem) in
     now k' = t \<and> timely k' \<and>
     (\<exists>new. mset (pending (interrupt k')) = mset (later t ps) + mset new \<and> length new = nt \<and>
        (\<forall>(w, p) \<in> set new. t < w \<and> w \<le> t + 200 \<and> p = TimerPending w)) \<and>
     semaphores k' = (semaphores k)(disk_semaphore k \<mapsto> \<lparr>value = value sem + int nd, queue = drop nd (queue sem)\<rparr>) \<and>
     (if nd = 0 then kdisk k' = kdisk k else \<not> active (kdisk k')) \<and>
     (if (yieldOnReturn (interrupt k) \<or> 0 < nt) \<and> ready \<noteq> []
      then currentThread k' = hd ready \<and> readyList k' = tl ready @ [currentThread k]
      else currentThread k' = currentThread k \<and> readyList k' = ready))"

lemma OneTick_effect:
  assumes run: "running cs IntOn k" "timely k" "status (interrupt k) \<noteq> IdleMode"
    and t: "t = totalTicks (tick_stats (status (interrupt k)) (stats k))" "tick_defined (status (interrupt k)) (stats k)" "is_int32 (t + 200)"
    and sem: "semaphores k (disk_semaphore k) = Some sem" "is_int32 (value sem)"
      "is_int32 (value sem + int (due_at DiskDone t (pending (interrupt k))))"
  shows "\<exists>k'. OneTick k = Inr k' \<and> ticked t sem k k'"
proof -
  let ?ps = "pending (interrupt k)"
  let ?ds = "filter (\<lambda>(w, p). w \<le> t) ?ps" and ?st = "tick_stats (status (interrupt k)) (stats k)"
  let ?k1 = "ChangeLevel IntOff (k\<lparr>stats := ?st\<rparr>)"
  have inv: "inv_at {currentThread k} k" using run(1) by (simp add: running_def)
  obtain th where th: "threads k (currentThread k) = Some th" "stack_ok th" using run(1) by (auto simp: running_def)
  have q: "set (queue sem) \<subseteq> dom (threads k)" using queuesD(5) [OF inv sem(1)] by blast
  have cq: "currentThread k \<notin> set (queue sem)" using queuesD(3) [OF inv sem(1)] by blast
  have rd: "set (readyList k) \<subseteq> dom (threads k)" using inv by (auto simp: inv_at_def lists_ok_def)
  have "\<exists>k2. check_loop ?k1 = Inr k2 \<and> handled (due_at TimerHandler (now ?k1) ?ds) (due_at DiskDone (now ?k1) ?ds) (later t ?ps) sem ?k1 k2"
  proof (rule check_loop_effect)
    show "pending (interrupt ?k1) = ?ds @ later t ?ps"
      using split_due [of ?ps t] run(2) by (simp add: timely_def ChangeLevel_def map_interrupt_def)
  qed (use run sem t q in \<open>auto simp: ChangeLevel_def map_interrupt_def later_def due_at_filter tick_defined_def\<close>)
  then obtain k2 where k2: "check_loop ?k1 = Inr k2" and
    h: "handled (due_at TimerHandler t ?ps) (due_at DiskDone t ?ps) (later t ?ps) sem ?k1 k2"
    using t(1) by (auto simp: due_at_filter ChangeLevel_def map_interrupt_def)
  let ?k3 = "ChangeLevel IntOn k2"
  have tick: "OneTick k = (if yieldOnReturn (interrupt ?k3)
     then rbind (push [Set_mode (status (interrupt k))] (map_interrupt (\<lambda>i. i\<lparr>yieldOnReturn := False, status := SystemMode\<rparr>) ?k3)) Yield else Inr ?k3)"
    using t(2) k2 by (simp add: OneTick_def Let_def)
  let ?ready = "readyList k @ take (due_at DiskDone t ?ps) (queue sem)"
  have k2s: "stats k2 = ?st" "currentThread k2 = currentThread k" "readyList k2 = ?ready" "threads k2 (currentThread k) = Some th"
    "yieldOnReturn (interrupt k2) = (yieldOnReturn (interrupt k) \<or> 0 < due_at TimerHandler t ?ps)"
    using h th cq by (auto simp: handled_def ChangeLevel_def map_interrupt_def dest: in_set_takeD)
  have tm: "timely k2"
    using check_loop_fires [OF k2] run(2,3) by (simp add: timely_def ChangeLevel_def map_interrupt_def)
  have "dom (threads k2) = dom (threads k)" using h by (auto simp: handled_def ChangeLevel_def map_interrupt_def dom_def split: if_splits)
  then have rd2: "set (readyList k2) \<subseteq> dom (threads k2)" using rd q unfolding k2s by (auto dest: in_set_takeD)
  show ?thesis
  proof (cases "yieldOnReturn (interrupt k2)")
    case False
    then have "OneTick k = Inr ?k3" unfolding tick by (simp add: ChangeLevel_def map_interrupt_def)
    moreover have "ticked t sem k ?k3"
      using h False k2s t(1) tm unfolding ticked_def Let_def by (auto simp: handled_def timely_def ChangeLevel_def map_interrupt_def)
    ultimately show ?thesis by blast
  next
    case True
    let ?k4 = "map_interrupt (\<lambda>i. i\<lparr>yieldOnReturn := False, status := SystemMode\<rparr>) ?k3"
    let ?k5 = "set_thread (currentThread k) (th\<lparr>frames := Set_mode (status (interrupt k)) # frames th\<rparr>) ?k4"
    have "push [Set_mode (status (interrupt k))] ?k4 = Inr ?k5"
      using k2s by (simp add: push_def lookup_def ChangeLevel_def map_interrupt_def)
    then have y: "OneTick k = Yield ?k5" using True unfolding tick by (simp add: ChangeLevel_def map_interrupt_def)
    obtain k' where k': "Yield ?k5 = Inr k'" "stats k' = stats ?k5" "pending (interrupt k') = pending (interrupt ?k5)"
      "semaphores k' = semaphores ?k5" "kdisk k' = kdisk ?k5"
      "case readyList ?k5 of [] \<Rightarrow> currentThread k' = currentThread ?k5 \<and> readyList k' = []
        | n # ns \<Rightarrow> currentThread k' = n \<and> readyList k' = ns @ [currentThread ?k5]"
      using Yield_effect [of ?k5 "th\<lparr>frames := Set_mode (status (interrupt k)) # frames th\<rparr>"] th(2) rd2 k2s
      by (auto simp: set_thread_def ChangeLevel_def map_interrupt_def stack_ok_def)
    have sel: "stats ?k5 = ?st" "pending (interrupt ?k5) = pending (interrupt k2)" "semaphores ?k5 = semaphores k2" "kdisk ?k5 = kdisk k2"
      "readyList ?k5 = ?ready" "currentThread ?k5 = currentThread k"
      using k2s by (simp_all add: set_thread_def ChangeLevel_def map_interrupt_def)
    have "ticked t sem k k'"
      using h k'(2-6) True t(1) tm unfolding ticked_def Let_def sel k2s(5)
      by (auto simp: handled_def timely_def ChangeLevel_def map_interrupt_def split: list.splits)
    then show ?thesis using y k'(1) by simp
  qed
qed

end
