(* ===== verification/Nachos_Locks.thy ===== *)
theory Nachos_Locks
  imports Nachos_Steps
begin

text \<open>
  Mutual exclusion and wake-ups.  Every lock has one token: it is in the value of the mutex, with the
  holder, or with a thread that has taken it and is about to become the holder.  A semaphore whose value
  is positive while threads wait in its queue has threads on their way to take it.
\<close>

section \<open>Where a thread is in \<open>Acquire\<close> and \<open>P\<close>\<close>

text \<open>The thread has passed \<open>mutex->P()\<close> in \<open>Acquire\<close> of lock \<open>l\<close> and is about to store itself as the holder.\<close>

fun entering :: "address \<Rightarrow> code list \<Rightarrow> bool" where
  "entering l [] = False"
| "entering l (Set_holder l' # cs) \<longleftrightarrow> l' = l"
| "entering l (c # cs) \<longleftrightarrow> transparent c \<and> entering l cs"

text \<open>The thread is about to test the value of semaphore \<open>s\<close> in \<open>P\<close>.\<close>

fun heading :: "address \<Rightarrow> code list \<Rightarrow> bool" where
  "heading s [] = False"
| "heading s (P_loop s' # cs) \<longleftrightarrow> s' = s"
| "heading s (c # cs) \<longleftrightarrow> transparent c \<and> heading s cs"

text \<open>
  \<open>mx\<close> gives every lock its mutex.  The code of a thread uses a mutex through its lock only.
\<close>

fun call_safe :: "(address \<rightharpoonup> address) \<Rightarrow> code \<Rightarrow> bool" where
  "call_safe mx (Call_P s) \<longleftrightarrow> s \<notin> ran mx"
| "call_safe mx (Call_V s) \<longleftrightarrow> s \<notin> ran mx"
| "call_safe mx (Call_Destroy s) \<longleftrightarrow> s \<notin> ran mx"
| "call_safe mx (Delete_sem s) \<longleftrightarrow> s \<notin> ran mx"
| "call_safe mx (Call_Fork func) \<longleftrightarrow> list_all (call_safe mx) func"
| "call_safe mx Run_tail \<longleftrightarrow> False"
| "call_safe mx Sleep_loop \<longleftrightarrow> False"
| "call_safe mx (Set_level l) \<longleftrightarrow> False"
| "call_safe mx (Set_mode m) \<longleftrightarrow> False"
| "call_safe mx (P_loop s) \<longleftrightarrow> False"
| "call_safe mx (Set_holder l) \<longleftrightarrow> False"
| "call_safe mx Int_enable \<longleftrightarrow> False"
| "call_safe mx _ \<longleftrightarrow> True"

abbreviation calls :: "(address \<rightharpoonup> address) \<Rightarrow> code list \<Rightarrow> bool" where
  "calls mx \<equiv> list_all (call_safe mx)"

fun shape :: "(address \<rightharpoonup> address) \<Rightarrow> code list \<Rightarrow> bool" where
  "shape mx [] \<longleftrightarrow> True"
| "shape mx (P_loop s # cs) \<longleftrightarrow> (\<exists>l ds. cs = Set_level l # ds \<and>
     (s \<notin> ran mx \<and> calls mx ds \<or> (\<exists>x es. ds = Set_holder x # es \<and> mx x = Some s \<and> calls mx es)))"
| "shape mx (Set_holder l # cs) \<longleftrightarrow> calls mx cs"
| "shape mx (Int_enable # cs) \<longleftrightarrow> calls mx cs"
| "shape mx (c # cs) \<longleftrightarrow> (if transparent c then shape mx cs else calls mx (c # cs))"

lemma shape_transparent: "transparent c \<Longrightarrow> shape mx (c # cs) \<longleftrightarrow> shape mx cs"
  by (cases c) auto

lemma entering_transparent: "transparent c \<Longrightarrow> entering l (c # cs) \<longleftrightarrow> entering l cs"
  by (cases c) auto

lemma heading_transparent: "transparent c \<Longrightarrow> heading s (c # cs) \<longleftrightarrow> heading s cs"
  by (cases c) auto

lemma call_safe_simps:
  assumes "call_safe mx c"
  shows "shape mx (c # cs) \<longleftrightarrow> calls mx (c # cs)" "\<not> entering l (c # cs)" "\<not> heading s (c # cs)" "\<not> transparent c"
  using assms by (cases c; simp)+

lemma calls_shape: "calls mx cs \<Longrightarrow> shape mx cs"
  by (cases cs) (auto simp: call_safe_simps)

lemma calls_quiet:
  assumes "calls mx cs" shows "\<not> entering l cs" "\<not> heading s cs"
  using assms call_safe_simps(2,3) by (cases cs; fastforce)+

lemma heading_unique: "heading s fr \<Longrightarrow> heading s' fr \<Longrightarrow> s' = s"
  by (induction s fr rule: heading.induct) auto

lemma entering_not_heading: "entering l fr \<Longrightarrow> \<not> heading s fr"
  by (induction l fr rule: entering.induct) auto

lemma waits_heading: "waits_on s cs \<Longrightarrow> heading s cs"
  by (auto simp: waits_on_def)

lemma finished_quiet: "finished cs \<Longrightarrow> \<not> entering l cs \<and> \<not> heading s cs"
  by (auto simp: finished_def)

section \<open>Counting\<close>

definition having :: "(code list \<Rightarrow> bool) \<Rightarrow> stacks \<Rightarrow> address set" where
  "having q F = {t. \<exists>fr. F t = Some fr \<and> q fr}"

lemma having_upd: "having q (F(a \<mapsto> fr)) = (if q fr then insert a (having q F) else having q F - {a})"
  by (auto simp: having_def)

lemma having_del: "having q (F(a := None)) = having q F - {a}"
  by (auto simp: having_def)

lemma finite_having: "finite (dom F) \<Longrightarrow> finite (having q F)"
  by (rule finite_subset [of _ "dom F"]) (auto simp: having_def)

lemma having_same: "F a = Some old \<Longrightarrow> q new = q old \<Longrightarrow> having q (F(a \<mapsto> new)) = having q F"
  by (auto simp: having_def)

lemma having_fresh: "F a = None \<Longrightarrow> \<not> q new \<Longrightarrow> having q (F(a \<mapsto> new)) = having q F"
  by (auto simp: having_def)

section \<open>The invariant of locks and semaphores\<close>

text \<open>
  \<open>tokens\<close>: the value of the mutex, the holder, and the threads that are about to become the holder
  are one in all.  \<open>no_lost_wakeup\<close>: while threads wait in the queue of a semaphore, each unit of its value
  belongs to a thread outside the queue that is about to take it.
\<close>

definition tokens :: "stacks \<Rightarrow> (address \<rightharpoonup> Semaphore) \<Rightarrow> address \<Rightarrow> Lock \<Rightarrow> bool" where
  "tokens F S l lk \<longleftrightarrow> (\<exists>sem. S (mutex lk) = Some sem \<and> 0 \<le> value sem \<and>
     value sem + (if lockHolder lk = None then 0 else 1) + int (card (having (entering l) F)) = 1)"

definition no_lost_wakeup :: "stacks \<Rightarrow> address \<Rightarrow> Semaphore \<Rightarrow> bool" where
  "no_lost_wakeup F s sem \<longleftrightarrow> (queue sem = [] \<or> value sem \<le> int (card (having (heading s) F - set (queue sem)))) \<and>
     distinct (queue sem) \<and> set (queue sem) \<subseteq> having (heading s) F"

definition sync_core :: "(address \<rightharpoonup> address) \<Rightarrow> stacks \<Rightarrow> (address \<rightharpoonup> Semaphore) \<Rightarrow> (address \<rightharpoonup> Lock) \<Rightarrow> bool" where
  "sync_core mx F S L \<longleftrightarrow> finite (dom F) \<and> (\<forall>t fr. F t = Some fr \<longrightarrow> shape mx fr) \<and>
     (\<forall>l lk. L l = Some lk \<longrightarrow> tokens F S l lk) \<and> (\<forall>s sem. S s = Some sem \<longrightarrow> no_lost_wakeup F s sem)"

definition sync_static :: "(address \<rightharpoonup> address) \<Rightarrow> Kernel \<Rightarrow> bool" where
  "sync_static mx k \<longleftrightarrow> (\<forall>l. map_option mutex (locks k l) = mx l) \<and> inj_on mx (dom mx) \<and> disk_semaphore k \<notin> ran mx \<and>
     (\<forall>c cond. conditions k c = Some cond \<longrightarrow> set (waitQueue cond) \<inter> ran mx = {}) \<and> (\<forall>m \<in> ran mx. m < next_address k) \<and>
     (\<forall>t \<in> dom (threads k). t < next_address k)"

definition sync_ok :: "(address \<rightharpoonup> address) \<Rightarrow> Kernel \<Rightarrow> bool" where
  "sync_ok mx k \<longleftrightarrow> sync_static mx k \<and> sync_core mx (stacks k) (semaphores k) (locks k)"

text \<open>The effect of the elementary changes on the counts.\<close>

lemma core_stack:
  assumes "sync_core mx F S L" "F a = Some old" "shape mx new" "\<And>l. entering l new = entering l old" "\<And>s. heading s old \<Longrightarrow> heading s new"
  shows "sync_core mx (F(a \<mapsto> new)) S L"
proof -
  have e: "having (entering l) (F(a \<mapsto> new)) = having (entering l) F" for l using having_same [of F a old "entering l" new] assms(2,4) by blast
  have h: "having (heading s) F \<subseteq> having (heading s) (F(a \<mapsto> new))" for s using assms(2,5) by (auto simp: having_def)
  have fin: "finite (dom F)" using assms(1) by (simp add: sync_core_def)
  have "no_lost_wakeup (F(a \<mapsto> new)) s sem" if "no_lost_wakeup F s sem" for s sem
  proof -
    have "card (having (heading s) F - set (queue sem)) \<le> card (having (heading s) (F(a \<mapsto> new)) - set (queue sem))"
      by (rule card_mono) (use h fin finite_having [of "F(a \<mapsto> new)"] in auto)
    then show ?thesis using that h unfolding no_lost_wakeup_def by force
  qed
  moreover have "tokens (F(a \<mapsto> new)) S l lk = tokens F S l lk" for l lk by (simp only: tokens_def e)
  ultimately show ?thesis using assms(1,3) fin by (simp add: sync_core_def)
qed

lemma core_wake:
  assumes core: "sync_core mx F S L" and s: "S s = Some sem" and out: "\<And>l lk. L l = Some lk \<Longrightarrow> mutex lk \<noteq> s"
  shows "sync_core mx F (S(s \<mapsto> \<lparr>value = value sem + 1, queue = tl (queue sem)\<rparr>)) L"
proof -
  have nl: "no_lost_wakeup F s sem" using core s by (simp add: sync_core_def)
  have fin: "finite (having (heading s) F)" using core finite_having by (auto simp: sync_core_def)
  have "no_lost_wakeup F s \<lparr>value = value sem + 1, queue = tl (queue sem)\<rparr>"
  proof (cases "queue sem")
    case Nil
    then show ?thesis by (simp add: no_lost_wakeup_def)
  next
    case (Cons t ts)
    have q: "value sem \<le> int (card (having (heading s) F - set (queue sem)))" "distinct (t # ts)" "set (t # ts) \<subseteq> having (heading s) F"
      using nl unfolding no_lost_wakeup_def Cons by (blast, blast, blast)
    have eq: "having (heading s) F - set ts = insert t (having (heading s) F - set (queue sem))"
      using q(2,3) Cons by auto
    have "t \<notin> having (heading s) F - set (queue sem)" using Cons by simp
    then have "card (having (heading s) F - set ts) = Suc (card (having (heading s) F - set (queue sem)))"
      unfolding eq using fin by (intro card_insert_disjoint) simp_all
    then show ?thesis using q Cons by (simp add: no_lost_wakeup_def)
  qed
  moreover have "tokens F (S(s \<mapsto> sem')) l lk" if "L l = Some lk" for l lk sem'
    using core out [OF that] that by (simp add: sync_core_def tokens_def)
  ultimately show ?thesis using core by (simp add: sync_core_def)
qed

section \<open>Elementary changes of the kernel\<close>

lemma sync_ok_same: "same_sync k k' \<Longrightarrow> sync_ok mx k' = sync_ok mx k"
proof -
  assume s: "same_sync k k'"
  then have "dom (threads k') = dom (threads k)" using dom_stacks by (metis same_sync_def)
  then show ?thesis using s by (simp add: sync_ok_def sync_static_def same_sync_def)
qed

lemma sync_ok_push:
  assumes ok: "sync_ok mx k" and p: "push ds k = Inr k'" and fr: "stacks k (currentThread k) = Some fr"
    and sh: "shape mx (ds @ fr)" "\<And>l. entering l (ds @ fr) = entering l fr" "\<And>s. heading s fr \<Longrightarrow> heading s (ds @ fr)"
  shows "sync_ok mx k'" "stacks k' (currentThread k') = Some (ds @ fr)" "currentThread k' = currentThread k"
    "semaphores k' = semaphores k" "locks k' = locks k" "conditions k' = conditions k" "next_address k' = next_address k" "disk_semaphore k' = disk_semaphore k"
proof -
  obtain th where th: "threads k (currentThread k) = Some th" "frames th = fr"
    "k' = set_thread (currentThread k) (th\<lparr>frames := ds @ fr\<rparr>) k"
    using p fr by (auto simp: push_def lookup_def rbind_eq_Inr_iff stacks_def split: option.splits)
  have st: "stacks k' = (stacks k)(currentThread k \<mapsto> ds @ fr)" using th(3) by (simp add: stacks_set_thread)
  have "dom (threads k') = dom (threads k)" using th by (auto simp: set_thread_def)
  then have "sync_static mx k'" using ok th(3) by (simp add: sync_ok_def sync_static_def set_thread_def)
  moreover have "sync_core mx (stacks k') (semaphores k') (locks k')"
    using core_stack [where F = "stacks k" and a = "currentThread k" and new = "ds @ fr", OF _ fr sh] ok th(3) st
    by (simp add: sync_ok_def set_thread_def)
  ultimately show "sync_ok mx k'" by (simp add: sync_ok_def)
  show "stacks k' (currentThread k') = Some (ds @ fr)" using st th(3) by (simp add: set_thread_def)
qed (use p in \<open>auto simp: push_def rbind_eq_Inr_iff set_thread_def\<close>)

lemma stacks_current: "push ds k = Inr k' \<Longrightarrow> \<exists>fr. stacks k (currentThread k) = Some fr"
  by (auto simp: push_def lookup_def rbind_eq_Inr_iff stacks_def split: option.splits)

lemma shape_frames: "sync_ok mx k \<Longrightarrow> stacks k t = Some fr \<Longrightarrow> shape mx fr"
  by (simp add: sync_ok_def sync_core_def)

lemma push_transparent:
  assumes "sync_ok mx k" "push [c] k = Inr k'" "transparent c"
  shows "sync_ok mx k'"
proof -
  obtain fr where fr: "stacks k (currentThread k) = Some fr" using stacks_current [OF assms(2)] by blast
  show ?thesis
    by (rule sync_ok_push(1) [OF assms(1,2) fr])
      (use shape_frames [OF assms(1) fr] assms(3) in \<open>simp_all add: shape_transparent entering_transparent heading_transparent\<close>)
qed

text \<open>Waking a thread with \<open>V\<close> on a semaphore that is no mutex.\<close>

lemma not_mutex: "sync_static mx k \<Longrightarrow> locks k l = Some lk \<Longrightarrow> s \<notin> ran mx \<Longrightarrow> mutex lk \<noteq> s"
  unfolding sync_static_def by (metis option.simps(9) ranI)

lemma ReadyToRun_same: "ReadyToRun t k = Inr k' \<Longrightarrow> same_sync k k' \<and> currentThread k' = currentThread k"
  by (auto simp: ReadyToRun_Inr same_sync_def stacks_same_frames set_thread_def [symmetric]) (auto simp: set_thread_def)

lemma V_body_effect:
  assumes "V_body s k = Inr k'"
  obtains sem where "semaphores k s = Some sem"
    "semaphores k' = (semaphores k)(s \<mapsto> \<lparr>value = value sem + 1, queue = tl (queue sem)\<rparr>)" "stacks k' = stacks k" "locks k' = locks k"
    "conditions k' = conditions k" "disk_semaphore k' = disk_semaphore k" "next_address k' = next_address k" "currentThread k' = currentThread k"
  using assms
proof (cases rule: V_bodyE)
  case (none sem)
  then show ?thesis by (intro that [of sem]) (simp_all add: set_semaphore_def)
next
  case (wake sem t ts th)
  then show ?thesis
    by (intro that [of sem]) (simp_all add: set_semaphore_def stacks_same_frames, simp_all add: set_thread_def)
qed

lemma sync_ok_V_body:
  assumes ok: "sync_ok mx k" and v: "V_body s k = Inr k'" and s: "s \<notin> ran mx"
  shows "sync_ok mx k'" "stacks k' = stacks k" "currentThread k' = currentThread k"
proof -
  from v obtain sem where e: "semaphores k s = Some sem"
    "semaphores k' = (semaphores k)(s \<mapsto> \<lparr>value = value sem + 1, queue = tl (queue sem)\<rparr>)" "stacks k' = stacks k" "locks k' = locks k"
    "conditions k' = conditions k" "disk_semaphore k' = disk_semaphore k" "next_address k' = next_address k" "currentThread k' = currentThread k"
    by (rule V_body_effect)
  have st: "sync_static mx k" "sync_core mx (stacks k) (semaphores k) (locks k)" using ok by (simp_all add: sync_ok_def)
  have "dom (threads k') = dom (threads k)" using e(3) dom_stacks by metis
  then have "sync_static mx k'" using st(1) e by (simp add: sync_static_def)
  moreover have "sync_core mx (stacks k') (semaphores k') (locks k')"
    using core_wake [OF st(2) e(1)] not_mutex [OF st(1) _ s] unfolding e by blast
  ultimately show "sync_ok mx k'" by (simp add: sync_ok_def)
qed (use v in \<open>auto elim: V_body_effect\<close>)

section \<open>The routines keep the invariant\<close>

interpretation sync: tick_relation "\<lambda>k k'. sync_ok mx k \<longrightarrow> sync_ok mx k'"
proof
  fix k k' assume "same_tick k k'"
  then show "sync_ok mx k \<longrightarrow> sync_ok mx k'" using sync_ok_same by (auto simp: same_tick_def)
next
  fix k k' c assume "push [c] k = Inr k'" "transparent c"
  then show "sync_ok mx k \<longrightarrow> sync_ok mx k'" using push_transparent by blast
next
  fix k k' assume v: "V_body (disk_semaphore k) k = Inr k'"
  show "sync_ok mx k \<longrightarrow> sync_ok mx k'"
  proof
    assume ok: "sync_ok mx k"
    then have "disk_semaphore k \<notin> ran mx" by (simp add: sync_ok_def sync_static_def)
    with sync_ok_V_body(1) [OF ok v] show "sync_ok mx k'" .
  qed
qed simp_all

text \<open>The current thread is about to run code that its program or a routine of the kernel calls.\<close>

definition calm :: "(address \<rightharpoonup> address) \<Rightarrow> Kernel \<Rightarrow> bool" where
  "calm mx k \<longleftrightarrow> (\<exists>fr. stacks k (currentThread k) = Some fr \<and> calls mx fr)"

definition callable :: "(address \<rightharpoonup> address) \<Rightarrow> (Kernel \<Rightarrow> Kernel res) \<Rightarrow> bool" where
  "callable mx f \<longleftrightarrow> (\<forall>k k'. sync_ok mx k \<longrightarrow> calm mx k \<longrightarrow> f k = Inr k' \<longrightarrow> sync_ok mx k')"

lemma callableI: "(\<And>k k'. sync_ok mx k \<Longrightarrow> calm mx k \<Longrightarrow> f k = Inr k' \<Longrightarrow> sync_ok mx k') \<Longrightarrow> callable mx f"
  by (simp add: callable_def)

lemma callableD: "callable mx f \<Longrightarrow> sync_ok mx k \<Longrightarrow> calm mx k \<Longrightarrow> f k = Inr k' \<Longrightarrow> sync_ok mx k'"
  by (simp add: callable_def)

lemma callable_tick: "sync.rel mx f \<Longrightarrow> callable mx f"
  using sync.relD by (blast intro: callableI)

lemma callable_Inr: "callable mx Inr" by (simp add: callable_def)

lemma callable_bind: "(\<And>x. callable mx (g x)) \<Longrightarrow> callable mx (\<lambda>k. rbind (r k) (\<lambda>x. g x k))"
  by (auto simp: callable_def rbind_eq_Inr_iff)

lemma callable_ASSERT: "callable mx f \<Longrightarrow> callable mx (\<lambda>k. ASSERT (c k) (f k))"
  by (auto simp: callable_def ASSERT_eq_Inr_iff)

lemma callable_if: "callable mx f \<Longrightarrow> callable mx g \<Longrightarrow> callable mx (\<lambda>k. if c k then f k else g k)"
  by (rule callableI) (auto split: if_splits dest: callableD)

lemma callable_read: "(\<And>x. callable mx (g x)) \<Longrightarrow> callable mx (\<lambda>k. g (r k) k)"
  by (rule callableI) (blast dest: callableD)

lemma callable_case_list:
  "callable mx f \<Longrightarrow> (\<And>x xs. callable mx (g x xs)) \<Longrightarrow> callable mx (\<lambda>k. case ys k of [] \<Rightarrow> f k | x # xs \<Rightarrow> g x xs k)"
  by (rule callableI) (auto split: list.splits dest: callableD)

lemma calm_same: "same_sync k k' \<Longrightarrow> currentThread k' = currentThread k \<Longrightarrow> calm mx k' = calm mx k"
  by (simp add: calm_def same_sync_def)

lemma callable_upd:
  "(\<And>k. same_sync k (u k) \<and> currentThread (u k) = currentThread k) \<Longrightarrow> callable mx f \<Longrightarrow> callable mx (\<lambda>k. f (u k))"
proof (rule callableI)
  fix k k' assume u: "\<And>k. same_sync k (u k) \<and> currentThread (u k) = currentThread k" and f: "callable mx f"
    and k: "sync_ok mx k" "calm mx k" "f (u k) = Inr k'"
  have "sync_ok mx (u k)" "calm mx (u k)" using u [of k] k(1,2) sync_ok_same [of k "u k"] calm_same [of k "u k"] by simp_all
  from callableD [OF f this k(3)] show "sync_ok mx k'" .
qed

lemma same_sync_upds [simp]:
  "same_sync k (ChangeLevel l k)" "same_sync k (map_interrupt f k)" "same_sync k (k\<lparr>philosophers := p\<rparr>)" "same_sync k (k\<lparr>synchLists := sl\<rparr>)"
  "same_sync k (k\<lparr>kdisk := dk, stats := st\<rparr>)" "currentThread (ChangeLevel l k) = currentThread k"
  "currentThread (map_interrupt f k) = currentThread k"
  by (simp_all add: same_sync_def ChangeLevel_def map_interrupt_def)

text \<open>Pushing calls leaves the thread calm.\<close>

lemma push_calls:
  assumes ok: "sync_ok mx k" "calm mx k" and ds: "calls mx ds" and p: "push ds k = Inr k'"
  shows "sync_ok mx k'" "calm mx k'"
proof -
  obtain fr where fr: "stacks k (currentThread k) = Some fr" "calls mx fr" using ok(2) by (auto simp: calm_def)
  have c: "calls mx (ds @ fr)" using ds fr(2) by simp
  note r = sync_ok_push [OF ok(1) p fr(1) calls_shape [OF c]]
  show "sync_ok mx k'" by (rule r(1)) (simp_all add: calls_quiet [OF c] calls_quiet [OF fr(2)])
  have "stacks k' (currentThread k') = Some (ds @ fr)" by (rule r(2)) (simp_all add: calls_quiet [OF c] calls_quiet [OF fr(2)])
  then show "calm mx k'" using c by (auto simp: calm_def)
qed

lemma callable_push: "calls mx ds \<Longrightarrow> callable mx f \<Longrightarrow> callable mx (\<lambda>k. rbind (push ds k) f)"
  by (rule callableI) (auto simp: rbind_eq_Inr_iff dest: push_calls callableD)

text \<open>\<open>Semaphore::P\<close> and \<open>Lock::Acquire\<close> put their loop on the stack.\<close>

lemma push_loop:
  assumes ok: "sync_ok mx k" "calm mx k" and p: "push (P_loop s # Set_level l # ds) k = Inr k'"
    and ds: "s \<notin> ran mx \<and> ds = [] \<or> (\<exists>x. ds = [Set_holder x] \<and> mx x = Some s)"
  shows "sync_ok mx k'"
proof -
  obtain fr where fr: "stacks k (currentThread k) = Some fr" "calls mx fr" using ok(2) by (auto simp: calm_def)
  show ?thesis
    by (rule sync_ok_push(1) [OF ok(1) p fr(1)]) (use ds fr(2) in \<open>auto simp: calls_quiet [OF fr(2)]\<close>)
qed

lemma callable_P: "s \<notin> ran mx \<Longrightarrow> callable mx (P s)"
proof (rule callableI)
  fix k k' assume a: "s \<notin> ran mx" "sync_ok mx k" "calm mx k" "P s k = Inr k'"
  have "sync_ok mx (ChangeLevel IntOff k)" "calm mx (ChangeLevel IntOff k)"
    using a sync_ok_same [OF same_sync_upds(1)] calm_same [OF same_sync_upds(1)] by simp_all
  moreover have "push [P_loop s, Set_level (level (interrupt k))] (ChangeLevel IntOff k) = Inr k'"
    using a(4) by (simp add: P_def SetLevel_off_def)
  ultimately show "sync_ok mx k'" using push_loop [of mx _ s _ "[]"] a(1) by blast
qed

lemma push_twice: "push cs k = Inr k1 \<Longrightarrow> push ds (ChangeLevel l k1) = push (ds @ cs) (ChangeLevel l k)"
  by (auto simp: push_def rbind_eq_Inr_iff lookup_def ChangeLevel_def map_interrupt_def set_thread_def split: option.splits)

lemma callable_Acquire: "callable mx (Acquire l)"
proof (rule callableI)
  fix k k' assume a: "sync_ok mx k" "calm mx k" "Acquire l k = Inr k'"
  obtain lk k1 where 1: "locks k l = Some lk" "push [Set_holder l] k = Inr k1" "P (mutex lk) k1 = Inr k'"
    using a(3) by (auto simp: Acquire_def lookup_def rbind_eq_Inr_iff split: option.splits)
  have "mx l = Some (mutex lk)" using a(1) 1(1) unfolding sync_ok_def sync_static_def by (metis option.simps(9))
  moreover have "push [P_loop (mutex lk), Set_level (level (interrupt k1)), Set_holder l] (ChangeLevel IntOff k) = Inr k'"
    using 1(3) push_twice [OF 1(2), of "[P_loop (mutex lk), Set_level (level (interrupt k1))]" IntOff] by (simp add: P_def SetLevel_off_def)
  moreover have "sync_ok mx (ChangeLevel IntOff k)" "calm mx (ChangeLevel IntOff k)"
    using a sync_ok_same [OF same_sync_upds(1)] calm_same [OF same_sync_upds(1)] by simp_all
  ultimately show "sync_ok mx k'" using push_loop [of mx _ "mutex lk" _ "[Set_holder l]"] by blast
qed

lemma callable_V: "s \<notin> ran mx \<Longrightarrow> callable mx (V s)"
proof (rule callableI)
  fix k k' assume a: "s \<notin> ran mx" "sync_ok mx k" "calm mx k" "V s k = Inr k'"
  obtain k1 where 1: "V_body s (ChangeLevel IntOff k) = Inr k1" "push [Set_level (level (interrupt k))] k1 = Inr k'"
    using a(4) by (auto simp: V_def SetLevel_off_def rbind_eq_Inr_iff)
  have "sync_ok mx (ChangeLevel IntOff k)" using a(2) sync_ok_same [OF same_sync_upds(1)] by simp
  from push_transparent [OF sync_ok_V_body(1) [OF this 1(1) a(1)] 1(2)] show "sync_ok mx k'" by simp
qed

text \<open>\<open>Lock::Release\<close> gives the token of the holder back to the mutex.\<close>

lemma core_release:
  assumes core: "sync_core mx F S L" and l: "L l = Some lk" "lockHolder lk \<noteq> None" and s: "S (mutex lk) = Some sem"
    and inj: "\<And>l' lk'. L l' = Some lk' \<Longrightarrow> mutex lk' = mutex lk \<Longrightarrow> l' = l"
  shows "sync_core mx F (S(mutex lk \<mapsto> \<lparr>value = value sem + 1, queue = tl (queue sem)\<rparr>)) (L(l \<mapsto> lk\<lparr>lockHolder := None\<rparr>))"
proof -
  let ?L = "L(l := None)"
  have "sync_core mx F S ?L" using core by (auto simp: sync_core_def)
  moreover have "mutex lk' \<noteq> mutex lk" if "?L l' = Some lk'" for l' lk' using that inj [of l' lk'] by (auto split: if_splits)
  ultimately have 1: "sync_core mx F (S(mutex lk \<mapsto> \<lparr>value = value sem + 1, queue = tl (queue sem)\<rparr>)) ?L"
    using core_wake [of mx F S ?L "mutex lk" sem] s by blast
  have "tokens F S l lk" using core l(1) by (simp add: sync_core_def)
  then have "tokens F (S(mutex lk \<mapsto> \<lparr>value = value sem + 1, queue = tl (queue sem)\<rparr>)) l (lk\<lparr>lockHolder := None\<rparr>)"
    using s l(2) by (simp add: tokens_def)
  with 1 show ?thesis by (auto simp: sync_core_def)
qed

lemma static_mutex:
  assumes "sync_static mx k" "locks k l = Some lk"
  shows "mx l = Some (mutex lk)" "locks k l' = Some lk' \<Longrightarrow> mutex lk' = mutex lk \<Longrightarrow> l' = l"
proof -
  have m: "mx l = Some (mutex lk)" if "locks k l = Some lk" for l lk
    using assms(1) that unfolding sync_static_def by (metis option.simps(9))
  show "mx l = Some (mutex lk)" using m assms(2) by blast
  assume "locks k l' = Some lk'" "mutex lk' = mutex lk"
  then have "mx l' = mx l" "l \<in> dom mx" "l' \<in> dom mx" using m assms(2) by auto
  then show "l' = l" using assms(1) unfolding sync_static_def inj_on_def by blast
qed

lemma callable_Release: "callable mx (Release l)"
proof (rule callableI)
  fix k k' assume a: "sync_ok mx k" "calm mx k" "Release l k = Inr k'"
  obtain lk where lk: "locks k l = Some lk" "lockHolder lk = Some (currentThread k)"
    and v: "V (mutex lk) (k\<lparr>locks := (locks k)(l \<mapsto> lk\<lparr>lockHolder := None\<rparr>)\<rparr>) = Inr k'"
    using a(3) by (auto simp: Release_def lookup_def rbind_eq_Inr_iff ASSERT_eq_Inr_iff isHeldByCurrentThread_def split: option.splits)
  let ?k0 = "ChangeLevel IntOff (k\<lparr>locks := (locks k)(l \<mapsto> lk\<lparr>lockHolder := None\<rparr>)\<rparr>)"
  obtain k1 where 1: "V_body (mutex lk) ?k0 = Inr k1" "push [Set_level (level (interrupt k))] k1 = Inr k'"
    using v by (auto simp: V_def SetLevel_off_def rbind_eq_Inr_iff)
  have st: "sync_static mx k" "sync_core mx (stacks k) (semaphores k) (locks k)" using a(1) by (simp_all add: sync_ok_def)
  from 1(1) obtain sem where e: "semaphores k (mutex lk) = Some sem"
    "semaphores k1 = (semaphores k)(mutex lk \<mapsto> \<lparr>value = value sem + 1, queue = tl (queue sem)\<rparr>)" "stacks k1 = stacks k"
    "locks k1 = (locks k)(l \<mapsto> lk\<lparr>lockHolder := None\<rparr>)" "conditions k1 = conditions k" "disk_semaphore k1 = disk_semaphore k"
    "next_address k1 = next_address k"
    by (rule V_body_effect) (simp add: ChangeLevel_def map_interrupt_def)
  have "dom (threads k1) = dom (threads k)" using e(3) dom_stacks by metis
  moreover have "mx l = Some (mutex lk)" using static_mutex(1) [OF st(1) lk(1)] .
  ultimately have "sync_static mx k1" using st(1) e by (simp add: sync_static_def)
  moreover have "sync_core mx (stacks k1) (semaphores k1) (locks k1)"
    unfolding e using core_release [OF st(2) lk(1) _ e(1)] static_mutex(2) [OF st(1) lk(1)] lk(2) by simp
  ultimately have "sync_ok mx k1" by (simp add: sync_ok_def)
  from push_transparent [OF this 1(2)] show "sync_ok mx k'" by simp
qed

text \<open>A new semaphore, and a new entry in the queue of a condition.\<close>

lemma sync_ok_waiter:
  assumes ok: "sync_ok mx k" and c: "conditions k c = Some cond" and n: "n = next_address k"
    and k': "k' = set_semaphore n \<lparr>value = 0, queue = []\<rparr> (k\<lparr>next_address := Suc n, conditions := (conditions k)(c \<mapsto> \<lparr>waitQueue = waitQueue cond @ [n]\<rparr>)\<rparr>)"
  shows "sync_ok mx k'" "n \<notin> ran mx" "stacks k' = stacks k" "currentThread k' = currentThread k"
proof -
  have st: "sync_static mx k" "sync_core mx (stacks k) (semaphores k) (locks k)" using ok by (simp_all add: sync_ok_def)
  show n': "n \<notin> ran mx" using st(1) n by (auto simp: sync_static_def)
  show s: "stacks k' = stacks k" "currentThread k' = currentThread k" by (simp_all add: k' set_semaphore_def)
  have "\<forall>t \<in> dom (threads k). t < Suc (next_address k)" "\<forall>m \<in> ran mx. m < Suc (next_address k)"
    using st(1) unfolding sync_static_def by (meson less_Suc_eq)+
  moreover have "set (waitQueue cond) \<inter> ran mx = {}" using st(1) c by (simp add: sync_static_def)
  ultimately have "sync_static mx k'" using st(1) n n' by (simp add: sync_static_def k' set_semaphore_def)
  moreover have "tokens F (S(n \<mapsto> sem')) l lk = tokens F S l lk" if "locks k l = Some lk" for F S l lk sem'
    using not_mutex [OF st(1) that n'] by (simp add: tokens_def)
  then have "sync_core mx (stacks k') (semaphores k') (locks k')"
    using st(2) unfolding s by (simp add: sync_core_def k' set_semaphore_def no_lost_wakeup_def)
  ultimately show "sync_ok mx k'" by (simp add: sync_ok_def)
qed

lemma callable_Wait: "callable mx (Wait c l)"
proof (rule callableI)
  fix k k' assume a: "sync_ok mx k" "calm mx k" "Wait c l k = Inr k'"
  define n where "n = next_address k"
  obtain cond where c: "conditions k c = Some cond"
    and r: "rbind (push [Call_P n, Call_Acquire l, Delete_sem n] (set_semaphore n \<lparr>value = 0, queue = []\<rparr> (k\<lparr>next_address := Suc n,
      conditions := (conditions k)(c \<mapsto> \<lparr>waitQueue = waitQueue cond @ [n]\<rparr>)\<rparr>))) (Release l) = Inr k'"
    using a(3) by (auto simp: Wait_def lookup_def rbind_eq_Inr_iff ASSERT_eq_Inr_iff Let_def n_def split: option.splits)
  let ?k = "set_semaphore n \<lparr>value = 0, queue = []\<rparr> (k\<lparr>next_address := Suc n, conditions := (conditions k)(c \<mapsto> \<lparr>waitQueue = waitQueue cond @ [n]\<rparr>)\<rparr>)"
  note w = sync_ok_waiter [OF a(1) c n_def refl]
  have "calm mx ?k" using a(2) w(3,4) by (simp add: calm_def)
  moreover have "callable mx (\<lambda>k. rbind (push [Call_P n, Call_Acquire l, Delete_sem n] k) (Release l))"
    using w(2) by (intro callable_push callable_Release) simp
  ultimately show "sync_ok mx k'" using w(1) r unfolding callable_def by blast
qed

lemma sync_ok_dequeue:
  assumes "sync_ok mx k" "conditions k c = Some cond" "waitQueue cond = w # ws"
  shows "sync_ok mx (k\<lparr>conditions := (conditions k)(c \<mapsto> \<lparr>waitQueue = ws\<rparr>)\<rparr>)" "w \<notin> ran mx"
proof -
  have "set (waitQueue cond) \<inter> ran mx = {}" using assms(1,2) unfolding sync_ok_def sync_static_def by blast
  then show "sync_ok mx (k\<lparr>conditions := (conditions k)(c \<mapsto> \<lparr>waitQueue = ws\<rparr>)\<rparr>)" "w \<notin> ran mx"
    using assms by (auto simp: sync_ok_def sync_static_def)
qed

lemma callable_Signal: "callable mx (Signal c l)"
proof (rule callableI)
  fix k k' assume a: "sync_ok mx k" "calm mx k" "Signal c l k = Inr k'"
  obtain cond where c: "conditions k c = Some cond"
    and r: "(case waitQueue cond of [] \<Rightarrow> Inr k | w # ws \<Rightarrow> V w (k\<lparr>conditions := (conditions k)(c \<mapsto> \<lparr>waitQueue = ws\<rparr>)\<rparr>)) = Inr k'"
    using a(3) by (auto simp: Signal_def lookup_def rbind_eq_Inr_iff ASSERT_eq_Inr_iff split: option.splits)
  show "sync_ok mx k'"
  proof (cases "waitQueue cond")
    case Nil
    then show ?thesis using r a(1) by simp
  next
    case (Cons w ws)
    note d = sync_ok_dequeue [OF a(1) c Cons]
    moreover have "calm mx (k\<lparr>conditions := (conditions k)(c \<mapsto> \<lparr>waitQueue = ws\<rparr>)\<rparr>)" using a(2) by (simp add: calm_def)
    ultimately show ?thesis using callableD [OF callable_V] r Cons by simp
  qed
qed

lemma callable_broadcast: "callable mx (broadcast_loop c l)"
  unfolding broadcast_loop_def [abs_def] by (intro callable_bind callable_if callable_Inr callable_push callable_Signal) simp

lemma callable_SL: "callable mx (SL_Append sl x)" "callable mx (list_append sl x)" "callable mx (SL_Remove sl)"
proof -
  show "callable mx (SL_Append sl x)" "callable mx (SL_Remove sl)" unfolding SL_Append_def [abs_def] SL_Remove_def [abs_def]
    by (intro callable_bind callable_push callable_Acquire; simp)+
  show "callable mx (list_append sl x)" unfolding list_append_def [abs_def]
    by (intro callable_bind callable_upd [OF _ callable_Inr]) simp
qed

lemma same_frames_sync:
  "threads k (currentThread k) = Some th \<Longrightarrow> frames th' = frames th \<Longrightarrow> same_sync k (set_thread (currentThread k) th' k)"
  by (simp add: same_sync_def stacks_same_frames set_thread_sel)

lemma callable_remove_loop: "callable mx (remove_loop sl)"
proof -
  have rel: "callable mx (\<lambda>k. rbind (lookup (threads k) (currentThread k)) (\<lambda>th. Release l (set_thread (currentThread k)
     (th\<lparr>received := received th @ [x]\<rparr>) (k\<lparr>synchLists := (synchLists k)(sl \<mapsto> s)\<rparr>))))" for l x s
  proof (rule callableI)
    fix k k' assume a: "sync_ok mx k" "calm mx k" and r: "rbind (lookup (threads k) (currentThread k)) (\<lambda>th. Release l
      (set_thread (currentThread k) (th\<lparr>received := received th @ [x]\<rparr>) (k\<lparr>synchLists := (synchLists k)(sl \<mapsto> s)\<rparr>))) = Inr k'"
    then obtain th where th: "threads k (currentThread k) = Some th"
      "Release l (set_thread (currentThread k) (th\<lparr>received := received th @ [x]\<rparr>) (k\<lparr>synchLists := (synchLists k)(sl \<mapsto> s)\<rparr>)) = Inr k'"
      by (auto simp: lookup_def rbind_eq_Inr_iff split: option.splits)
    let ?k = "set_thread (currentThread k) (th\<lparr>received := received th @ [x]\<rparr>) (k\<lparr>synchLists := (synchLists k)(sl \<mapsto> s)\<rparr>)"
    have "same_sync k ?k" "currentThread ?k = currentThread k"
      using same_frames_sync [of "k\<lparr>synchLists := (synchLists k)(sl \<mapsto> s)\<rparr>" th] th(1) by (simp_all add: same_sync_def set_thread_sel)
    then show "sync_ok mx k'" using callableD [OF callable_Release _ _ th(2)] a sync_ok_same [of k ?k] calm_same [of k ?k] by simp
  qed
  show ?thesis unfolding remove_loop_def [abs_def]
    by (rule callable_bind, rule callable_case_list) (rule callable_push [OF _ callable_Wait], simp, rule rel)
qed

text \<open>The philosophers and the disk.\<close>

lemma ph_set_sync: "ph_set i st k = Inr k' \<Longrightarrow> same_sync k k' \<and> currentThread k' = currentThread k"
  by (auto simp: ph_set_def rbind_eq_Inr_iff)

lemma callable_ph_set: "callable mx f \<Longrightarrow> callable mx (\<lambda>k. rbind (ph_set i st k) f)"
proof (rule callableI)
  fix k k' assume f: "callable mx f" and k: "sync_ok mx k" "calm mx k" "rbind (ph_set i st k) f = Inr k'"
  then obtain k1 where "ph_set i st k = Inr k1" "f k1 = Inr k'" by (auto simp: rbind_eq_Inr_iff)
  with ph_set_sync [OF this(1)] show "sync_ok mx k'"
    using callableD [OF f] k(1,2) sync_ok_same [of k k1] calm_same [of k k1] by blast
qed

lemma callable_ph_test: "callable mx (ph_test i)"
proof -
  have "callable mx (\<lambda>k. rbind (ph_set i Eating k) (\<lambda>k1. rbind (array_get y i) (\<lambda>c. Signal c x k1)))" for x y
    by (intro callable_ph_set callable_bind callable_Signal)
  from callable_read [where r = philosophers and g = "\<lambda>p k. rbind (ph_set i Eating k) (\<lambda>k1. rbind (array_get (self p) i) (\<lambda>c. Signal c (dp p) k1))", OF this]
  have "callable mx (\<lambda>k. rbind (ph_set i Eating k) (\<lambda>k1. rbind (array_get (self (philosophers k)) i)
      (\<lambda>c. Signal c (dp (philosophers k)) k1)))" .
  from callable_if [OF this callable_Inr] show ?thesis unfolding ph_test_def [abs_def]
    by (rule callable_bind [OF callable_bind [OF callable_bind]])
qed

lemma callable_ph: "callable mx (pickup i)" "callable mx (pickup_test i)" "callable mx (pickup_wait i)" "callable mx (putdown i)" "callable mx (putdown_left i)"
proof -
  have "callable mx (\<lambda>k. rbind (push [Pickup_test i] k) (Acquire x))" for x by (intro callable_push callable_Acquire) simp
  then show "callable mx (pickup i)" unfolding pickup_def [abs_def] by (rule callable_read)
  show "callable mx (pickup_test i)" unfolding pickup_test_def [abs_def]
    by (intro callable_ph_set callable_push callable_ph_test) simp
  have "callable mx (\<lambda>k. rbind (array_get (self (philosophers k)) i) (\<lambda>c. Wait c (dp (philosophers k)) k))"
    by (rule callable_read [where r = philosophers and g = "\<lambda>p k. rbind (array_get (self p) i) (\<lambda>c. Wait c (dp p) k)"])
       (intro callable_bind callable_Wait)
  from callable_if [OF this callable_Inr] have "callable mx (\<lambda>k1. rbind (ph_get i k1) (\<lambda>st. if st = Hungry
       then rbind (array_get (self (philosophers k1)) i) (\<lambda>c. Wait c (dp (philosophers k1)) k1) else Inr k1))"
    by (rule callable_bind)
  then have "callable mx (\<lambda>k. rbind (push [Call_Release x] k) (\<lambda>k1. rbind (ph_get i k1) (\<lambda>st. if st = Hungry
       then rbind (array_get (self (philosophers k1)) i) (\<lambda>c. Wait c (dp (philosophers k1)) k1) else Inr k1)))" for x
    by (intro callable_push) simp
  then show "callable mx (pickup_wait i)" unfolding pickup_wait_def [abs_def] by (rule callable_read)
  have "callable mx (\<lambda>k. rbind (push [Putdown_left i, Ph_test ((i + 1) smod 5), Call_Release x] k) (Acquire x))" for x
    by (intro callable_push callable_Acquire) simp
  then show "callable mx (putdown i)" unfolding putdown_def [abs_def] by (rule callable_read)
  show "callable mx (putdown_left i)" unfolding putdown_left_def [abs_def] by (intro callable_ph_set callable_ph_test)
qed

lemma sector_codes:
  assumes "sync_ok mx k" shows "calls mx [Read_request s, Call_P (disk_semaphore k), Call_Release (disk_lock k)]"
    "calls mx [Write_request s bs, Call_P (disk_semaphore k), Call_Release (disk_lock k)]"
  using assms by (simp_all add: sync_ok_def sync_static_def)

lemma callable_sector: "callable mx (k_ReadSector s)" "callable mx (k_WriteSector s bs)"
proof -
  show "callable mx (k_ReadSector s)"
  proof (rule callableI)
    fix k k' assume a: "sync_ok mx k" "calm mx k" "k_ReadSector s k = Inr k'"
    show "sync_ok mx k'"
      using callable_push [OF sector_codes(1) [OF a(1)] callable_Acquire] a unfolding callable_def k_ReadSector_def by blast
  qed
  show "callable mx (k_WriteSector s bs)"
  proof (rule callableI)
    fix k k' assume a: "sync_ok mx k" "calm mx k" "k_WriteSector s bs k = Inr k'"
    show "sync_ok mx k'"
      using callable_push [OF sector_codes(2) [OF a(1)] callable_Acquire] a unfolding callable_def k_WriteSector_def by blast
  qed
qed

lemma request_sync: "read_request s k = Inr k' \<Longrightarrow> same_sync k k'" "write_request s bs k = Inr k' \<Longrightarrow> same_sync k k'"
proof -
  assume "read_request s k = Inr k'"
  then obtain th bs d st i where "threads k (currentThread k) = Some th"
    "k' = map_interrupt i (set_thread (currentThread k) (th\<lparr>buffer := bs\<rparr>) (k\<lparr>kdisk := d, stats := st\<rparr>))"
    by (auto simp: read_request_def rbind_eq_Inr_iff lookup_def Schedule_Inr split: option.splits prod.splits)
  then show "same_sync k k'"
    using same_frames_sync [of "k\<lparr>kdisk := d, stats := st\<rparr>" th "th\<lparr>buffer := bs\<rparr>"] by (simp add: same_sync_def map_interrupt_def)
next
  assume "write_request s bs k = Inr k'"
  then show "same_sync k k'"
    by (auto simp: write_request_def rbind_eq_Inr_iff Schedule_Inr same_sync_def map_interrupt_def split: prod.splits)
qed

lemma callable_request: "callable mx (read_request s)" "callable mx (write_request s bs)"
  using request_sync sync_ok_same by (blast intro: callableI)+

text \<open>Semaphores that disappear or wake everybody.\<close>

lemma core_semaphore:
  assumes core: "sync_core mx F S L" and out: "\<And>l lk. L l = Some lk \<Longrightarrow> mutex lk \<noteq> s"
    and ok: "\<And>sem. x = Some sem \<Longrightarrow> no_lost_wakeup F s sem"
  shows "sync_core mx F (S(s := x)) L"
proof -
  have "tokens F (S(s := x)) l lk" if "L l = Some lk" for l lk
    using core out [OF that] that by (simp add: sync_core_def tokens_def)
  then show ?thesis using core ok by (simp add: sync_core_def)
qed

lemma sync_ok_semaphore:
  assumes "sync_ok mx k" "s \<notin> ran mx" "\<And>sem. x = Some sem \<Longrightarrow> no_lost_wakeup (stacks k) s sem"
  shows "sync_ok mx (k\<lparr>semaphores := (semaphores k)(s := x)\<rparr>)"
proof -
  have st: "sync_static mx k" "sync_core mx (stacks k) (semaphores k) (locks k)" using assms(1) by (simp_all add: sync_ok_def)
  have "sync_core mx (stacks k) ((semaphores k)(s := x)) (locks k)"
    by (rule core_semaphore [OF st(2) not_mutex [OF st(1) _ assms(2)] assms(3)])
  moreover have "sync_static mx (k\<lparr>semaphores := (semaphores k)(s := x)\<rparr>)" using st(1) by (simp add: sync_static_def)
  ultimately show ?thesis by (simp add: sync_ok_def)
qed

lemma callable_Delete: "s \<notin> ran mx \<Longrightarrow> callable mx (\<lambda>k. Inr (k\<lparr>semaphores := (semaphores k)(s := None)\<rparr>))"
  by (rule callableI) (auto intro: sync_ok_semaphore)

lemma no_lost_wakeup_drop:
  assumes "no_lost_wakeup F s sem" "queue sem = t # ts" "finite (dom F)"
  shows "no_lost_wakeup F s (sem\<lparr>queue := ts\<rparr>)"
proof -
  have q: "value sem \<le> int (card (having (heading s) F - set (t # ts)))" "distinct (t # ts)" "set (t # ts) \<subseteq> having (heading s) F"
    using assms(1) unfolding no_lost_wakeup_def assms(2) by (blast, blast, blast)
  have "card (having (heading s) F - set (t # ts)) \<le> card (having (heading s) F - set ts)"
    by (rule card_mono) (use finite_having [OF assms(3)] in auto)
  then have "value sem \<le> int (card (having (heading s) F - set ts))" using q(1) by linarith
  then show ?thesis using q(2,3) by (simp add: no_lost_wakeup_def)
qed

lemma sem_destroy_sync:
  "sem_destroy_loop s ts k = Inr k' \<Longrightarrow> sync_ok mx k \<Longrightarrow> s \<notin> ran mx \<Longrightarrow> (\<And>sem. semaphores k s = Some sem \<Longrightarrow> queue sem = ts) \<Longrightarrow>
   sync_ok mx k' \<and> currentThread k' = currentThread k"
proof (induction s ts k rule: sem_destroy_loop.induct)
  case (2 s t ts k)
  obtain sem k1 where 1: "semaphores k s = Some sem" "ReadyToRun t (set_semaphore s (sem\<lparr>queue := ts\<rparr>) k) = Inr k1" "sem_destroy_loop s ts k1 = Inr k'"
    using 2(2) by (auto simp: rbind_eq_Inr_iff lookup_def split: option.splits)
  have nl: "no_lost_wakeup (stacks k) s sem" "finite (dom (stacks k))" using 2(3) 1(1) by (simp_all add: sync_ok_def sync_core_def)
  have "sync_ok mx (set_semaphore s (sem\<lparr>queue := ts\<rparr>) k)" unfolding set_semaphore_def
    by (rule sync_ok_semaphore [OF 2(3,4)]) (use no_lost_wakeup_drop [OF nl(1) 2(5) [OF 1(1)] nl(2)] in simp)
  moreover have s: "same_sync (set_semaphore s (sem\<lparr>queue := ts\<rparr>) k) k1" "currentThread k1 = currentThread k"
    using ReadyToRun_same [OF 1(2)] by (simp_all add: set_semaphore_def)
  ultimately have "sync_ok mx k1" using sync_ok_same by blast
  moreover have "queue sem' = ts" if "semaphores k1 s = Some sem'" for sem' using s(1) that by (auto simp: same_sync_def set_semaphore_def)
  ultimately show ?case using 2 (1) 1 s(2) 2(4) by (auto simp: lookup_def)
qed simp

lemma callable_Destroy: "s \<notin> ran mx \<Longrightarrow> callable mx (Destroy s)"
proof (rule callableI)
  fix k k' assume a: "s \<notin> ran mx" "sync_ok mx k" "calm mx k" "Destroy s k = Inr k'"
  obtain sem k1 where 1: "semaphores k s = Some sem" "sem_destroy_loop s (queue sem) (ChangeLevel IntOff k) = Inr k1"
    "push [Set_level (level (interrupt k))] k1 = Inr k'"
    using a(4) by (auto simp: Destroy_def SetLevel_off_def rbind_eq_Inr_iff lookup_def ChangeLevel_def map_interrupt_def split: option.splits)
  have "sync_ok mx (ChangeLevel IntOff k)" using a(2) sync_ok_same [OF same_sync_upds(1)] by simp
  then have "sync_ok mx k1" using sem_destroy_sync [OF 1(2) _ a(1)] 1(1) by (auto simp: ChangeLevel_def map_interrupt_def)
  from push_transparent [OF this 1(3)] show "sync_ok mx k'" by simp
qed

text \<open>A new thread starts with its program on the stack.\<close>

lemma core_new_stack:
  assumes "sync_core mx F S L" "F t = None" "shape mx fr" "\<And>l. \<not> entering l fr" "\<And>s. \<not> heading s fr"
  shows "sync_core mx (F(t \<mapsto> fr)) S L"
proof -
  have "having (entering l) (F(t \<mapsto> fr)) = having (entering l) F" "having (heading s) (F(t \<mapsto> fr)) = having (heading s) F" for l s
    using having_fresh [of F t "entering l" fr] having_fresh [of F t "heading s" fr] assms(2,4,5) by blast+
  then show ?thesis using assms(1,3) by (simp add: sync_core_def tokens_def no_lost_wakeup_def)
qed

lemma callable_Fork:
  assumes "calls mx func" shows "callable mx (Fork func)"
proof (rule callableI)
  fix k k' :: Kernel
  let ?t = "next_address k"
  let ?k0 = "set_thread ?t (StackAllocate func Thread_new) (k\<lparr>next_address := Suc ?t\<rparr>)"
  assume a: "sync_ok mx k" "calm mx k" "Fork func k = Inr k'"
  then obtain k1 l where 1: "ReadyToRun ?t (ChangeLevel IntOff ?k0) = Inr k1" "push [Set_level l] k1 = Inr k'"
    unfolding Fork_def SetLevel_off_def Let_def prod.case rbind_eq_Inr_iff by blast
  have st: "sync_static mx k" "sync_core mx (stacks k) (semaphores k) (locks k)" using a(1) by (simp_all add: sync_ok_def)
  have "stacks ?k0 = (stacks k)(?t \<mapsto> Int_enable # func @ [Call_Finish])" by (simp add: stacks_set_thread StackAllocate_def)
  moreover have "?t \<notin> dom (threads k)" using st(1) unfolding sync_static_def by blast
  then have "stacks k ?t = None" by (simp add: stacks_def domIff)
  ultimately have "sync_core mx (stacks ?k0) (semaphores ?k0) (locks ?k0)"
    using core_new_stack [OF st(2), of ?t "Int_enable # func @ [Call_Finish]"] assms by (simp add: set_thread_sel)
  moreover have "\<forall>t \<in> dom (threads k). t < Suc (next_address k)" "\<forall>m \<in> ran mx. m < Suc (next_address k)"
    using st(1) unfolding sync_static_def by (meson less_Suc_eq)+
  then have "sync_static mx ?k0" using st(1) by (simp add: sync_static_def set_thread_def)
  ultimately have "sync_ok mx ?k0" by (simp add: sync_ok_def)
  then have "sync_ok mx (ChangeLevel IntOff ?k0)" using sync_ok_same [OF same_sync_upds(1)] by blast
  then have "sync_ok mx k1" using ReadyToRun_same [OF 1(1)] sync_ok_same by blast
  from push_transparent [OF this 1(2)] show "sync_ok mx k'" by simp
qed

lemmas callable_rules = callable_P callable_Acquire callable_V callable_Release callable_Wait callable_Signal callable_broadcast
  callable_SL callable_remove_loop callable_ph_test callable_ph callable_sector callable_request callable_Delete callable_Destroy callable_Fork

lemma callable_exec: "call_safe mx c \<Longrightarrow> callable mx (exec_code c)"
  by (cases c) (simp_all add: callable_rules callable_tick sync.rel_Yield sync.rel_Finish fun_eq_iff [symmetric] exec_code.simps [abs_def])

section \<open>Taking a unit of a semaphore, and becoming the holder of a lock\<close>

lemma wakeup_leave:
  assumes nl: "no_lost_wakeup F s sem" and fin: "finite (dom F)" and a: "a \<notin> set (queue sem)" "a \<in> having (heading s) F"
    and cs: "\<not> heading s cs"
  shows "no_lost_wakeup (F(a \<mapsto> cs)) s (sem\<lparr>value := value sem - 1\<rparr>)"
proof -
  have h: "having (heading s) (F(a \<mapsto> cs)) = having (heading s) F - {a}" using having_upd [of "heading s" F a cs] cs by simp
  have "card (having (heading s) F - {a} - set (queue sem)) = card (having (heading s) F - set (queue sem) - {a})"
    by (rule arg_cong [where f = card]) blast
  also have "\<dots> = card (having (heading s) F - set (queue sem)) - 1"
    by (rule card_Diff_singleton) (use a in simp)
  finally have "card (having (heading s) F - {a} - set (queue sem)) = card (having (heading s) F - set (queue sem)) - 1" .
  moreover have "0 < card (having (heading s) F - set (queue sem))"
    using a finite_having [OF fin] by (auto simp: card_gt_0_iff)
  ultimately have "int (card (having (heading s) F - {a} - set (queue sem))) = int (card (having (heading s) F - set (queue sem))) - 1"
    by linarith
  then show ?thesis using nl a(1) unfolding no_lost_wakeup_def h by auto
qed

lemma wakeup_other:
  assumes "no_lost_wakeup F s' sem" "F a = Some old" "\<not> heading s' old" "\<not> heading s' cs"
  shows "no_lost_wakeup (F(a \<mapsto> cs)) s' sem"
  using assms having_same [of F a old "heading s'" cs] by (simp add: no_lost_wakeup_def)

lemma core_take:
  assumes core: "sync_core mx F S L" and a: "F a = Some (P_loop s # cs)" and s: "S s = Some sem" "a \<notin> set (queue sem)" "value sem \<noteq> 0"
    and sh: "cs = Set_level x # ds" "s \<notin> mutex ` ran L \<and> calls mx ds \<or> (\<exists>l lk es. ds = Set_holder l # es \<and> L l = Some lk \<and> mutex lk = s \<and> calls mx es)"
    and inj: "\<And>l l' lk lk'. L l = Some lk \<Longrightarrow> L l' = Some lk' \<Longrightarrow> mutex lk' = mutex lk \<Longrightarrow> l' = l"
  shows "sync_core mx (F(a \<mapsto> cs)) (S(s \<mapsto> sem\<lparr>value := value sem - 1\<rparr>)) L"
proof -
  let ?F = "F(a \<mapsto> cs)" and ?sem = "sem\<lparr>value := value sem - 1\<rparr>"
  have fin: "finite (dom F)" and shape: "\<forall>t fr. F t = Some fr \<longrightarrow> shape mx fr" and tok: "\<And>l lk. L l = Some lk \<Longrightarrow> tokens F S l lk"
    and nl: "\<And>s sem. S s = Some sem \<Longrightarrow> no_lost_wakeup F s sem" using core by (auto simp: sync_core_def)
  have nh: "\<not> heading s' cs" for s' using sh calls_quiet(2) by auto
  have "shape mx cs" using sh calls_shape by auto
  moreover have "no_lost_wakeup ?F s ?sem"
    by (rule wakeup_leave [OF nl [OF s(1)] fin s(2) _ nh]) (use a in \<open>simp add: having_def\<close>)
  moreover have "no_lost_wakeup ?F s' sem'" if "S s' = Some sem'" "s' \<noteq> s" for s' sem'
    using wakeup_other [OF nl [OF that(1)] a _ nh] that(2) by simp
  moreover have "tokens ?F (S(s \<mapsto> ?sem)) l lk" if l: "L l = Some lk" for l lk
  proof (cases "entering l cs")
    case True
    then obtain lk' es where "ds = Set_holder l # es" "L l = Some lk'" "mutex lk' = s" using sh calls_quiet(1) by auto
    then have m: "mutex lk = s" using l by simp
    have "having (entering l) ?F = insert a (having (entering l) F)" "a \<notin> having (entering l) F"
      using True a having_upd [of "entering l" F a cs] by (auto simp: having_def)
    then show ?thesis using tok [OF l] s(1,3) m finite_having [OF fin] by (auto simp: tokens_def)
  next
    case False
    then have "having (entering l) ?F = having (entering l) F" using having_same [of F a _ "entering l" cs] a by simp
    moreover have "mutex lk \<noteq> s"
    proof
      assume "mutex lk = s"
      then obtain l' lk' es where "ds = Set_holder l' # es" "L l' = Some lk'" "mutex lk' = s" using sh(2) l by (auto intro: ranI)
      with inj [OF this(2) l] \<open>mutex lk = s\<close> False sh(1) show False by simp
    qed
    ultimately show ?thesis using tok [OF l] by (simp add: tokens_def)
  qed
  ultimately show ?thesis using fin shape by (simp add: sync_core_def)
qed

lemma core_hold:
  assumes core: "sync_core mx F S L" and a: "F a = Some (Set_holder l # cs)" and l: "L l = Some lk"
    and inj: "\<And>l l' lk lk'. L l = Some lk \<Longrightarrow> L l' = Some lk' \<Longrightarrow> mutex lk' = mutex lk \<Longrightarrow> l' = l"
  shows "sync_core mx (F(a \<mapsto> cs)) S (L(l \<mapsto> lk\<lparr>lockHolder := Some t\<rparr>))" "lockHolder lk = None"
proof -
  let ?F = "F(a \<mapsto> cs)"
  have fin: "finite (dom F)" and shape: "\<forall>t fr. F t = Some fr \<longrightarrow> shape mx fr" and tok: "\<And>l lk. L l = Some lk \<Longrightarrow> tokens F S l lk"
    and nl: "\<And>s sem. S s = Some sem \<Longrightarrow> no_lost_wakeup F s sem" using core by (auto simp: sync_core_def)
  have c: "calls mx cs" using shape [rule_format, OF a] by simp
  have in_a: "a \<in> having (entering l) F" using a by (simp add: having_def)
  then have "0 < card (having (entering l) F)" using finite_having [OF fin] by (auto simp: card_gt_0_iff)
  moreover obtain sem where sem: "S (mutex lk) = Some sem" "0 \<le> value sem"
    "value sem + (if lockHolder lk = None then 0 else 1) + int (card (having (entering l) F)) = 1" using tok [OF l] by (auto simp: tokens_def)
  ultimately have v: "lockHolder lk = None" "value sem = 0" "card (having (entering l) F) = 1" by (auto split: if_splits)
  then show "lockHolder lk = None" by simp
  have "having (entering l) F = {a}" using v(3) in_a by (auto simp: card_1_singleton_iff)
  then have "having (entering l) ?F = {}" using having_upd [of "entering l" F a cs] calls_quiet(1) [OF c] by simp
  then have "tokens ?F S l (lk\<lparr>lockHolder := Some t\<rparr>)" using sem v by (simp add: tokens_def)
  moreover have "tokens ?F S l' lk'" if "L l' = Some lk'" "l' \<noteq> l" for l' lk'
    using tok [OF that(1)] having_same [of F a _ "entering l'" cs] a that(2) calls_quiet(1) [OF c] by (simp add: tokens_def)
  moreover have "no_lost_wakeup ?F s' sem'" if "S s' = Some sem'" for s' sem'
    using wakeup_other [OF nl [OF that] a] calls_quiet(2) [OF c] by simp
  ultimately show "sync_core mx ?F S (L(l \<mapsto> lk\<lparr>lockHolder := Some t\<rparr>))"
    using fin shape calls_shape [OF c] by (simp add: sync_core_def)
qed

section \<open>Every step keeps the invariant\<close>

lemma static_pop: "sync_static mx k \<Longrightarrow> threads k t = Some th \<Longrightarrow> sync_static mx (set_thread t th' k)"
  unfolding sync_static_def set_thread_def by auto

lemma sync_ok_pop:
  assumes ok: "sync_ok mx k" and th: "threads k t = Some th" and cs: "shape mx cs" "\<And>l. entering l cs = entering l (frames th)"
    "\<And>s. heading s (frames th) \<Longrightarrow> heading s cs"
  shows "sync_ok mx (set_thread t (th\<lparr>frames := cs\<rparr>) k)"
proof -
  have "sync_core mx (stacks k) (semaphores k) (locks k)" using ok by (simp add: sync_ok_def)
  from core_stack [where F = "stacks k" and a = t, OF this stacks_Some [OF th] cs]
  show ?thesis using ok static_pop [OF _ th] by (simp add: sync_ok_def stacks_set_thread set_thread_sel)
qed

lemma destroyed_finished:
  assumes "kernel_ok k" "threadToBeDestroyed k = Some t"
  shows "\<exists>th. threads k t = Some th \<and> finished (frames th)"
  using assms unfolding kernel_ok_def running_def sleeping_def inv_at_def lists_ok_def by blast

lemma core_delete:
  assumes "sync_core mx F S L" "F t = Some fr" "\<And>l. \<not> entering l fr" "\<And>s. \<not> heading s fr"
  shows "sync_core mx (F(t := None)) S L"
proof -
  have "having (entering l) (F(t := None)) = having (entering l) F" "having (heading s) (F(t := None)) = having (heading s) F" for l s
    using assms(2-4) by (auto simp: having_def)
  moreover have "finite (dom (F(t := None)))" using assms(1) by (simp add: sync_core_def)
  ultimately show ?thesis using assms(1) by (simp add: sync_core_def tokens_def no_lost_wakeup_def)
qed

lemma sync_run_tail:
  assumes ok: "sync_ok mx k" and r: "run_tail k = Inr k'"
    and fin: "\<And>t. threadToBeDestroyed k = Some t \<Longrightarrow> t \<noteq> currentThread k \<Longrightarrow> \<exists>th. threads k t = Some th \<and> finished (frames th)"
  shows "sync_ok mx k'"
proof (cases "threadToBeDestroyed k")
  case None
  then show ?thesis using ok r by (simp add: run_tail_def)
next
  case (Some t)
  have k': "k' = k\<lparr>threads := (threads k)(t := None), threadToBeDestroyed := None\<rparr>" and t: "t \<noteq> currentThread k"
    using r Some by (auto simp: run_tail_def Thread_delete_def ASSERT_def split: if_splits)
  obtain th where th: "threads k t = Some th" "finished (frames th)" using fin [OF Some t] by blast
  have st: "sync_static mx k" "sync_core mx (stacks k) (semaphores k) (locks k)" using ok by (simp_all add: sync_ok_def)
  have s: "stacks k' = (stacks k)(t := None)" by (auto simp: k' stacks_def)
  have "sync_core mx (stacks k') (semaphores k') (locks k')" unfolding s
    using core_delete [OF st(2) stacks_Some [OF th(1)]] finished_quiet [OF th(2)] by (simp add: k')
  moreover have "sync_static mx k'" using st(1) by (auto simp: sync_static_def k')
  ultimately show ?thesis by (simp add: sync_ok_def)
qed

lemma running_not_queued:
  assumes "kernel_ok k" "threads k (currentThread k) = Some th" "frames th = P_loop s # cs" "semaphores k s' = Some sem"
  shows "currentThread k \<notin> set (queue sem)"
proof
  assume "currentThread k \<in> set (queue sem)"
  from queue_members [OF assms(1,4) this] assms(2,3) show False by (auto simp: waits_on_def)
qed

lemma static_inj: "sync_static mx k \<Longrightarrow> locks k l = Some lk \<Longrightarrow> locks k l' = Some lk' \<Longrightarrow> mutex lk' = mutex lk \<Longrightarrow> l' = l"
  by (rule static_mutex(2))

lemma static_ran: "sync_static mx k \<Longrightarrow> s \<notin> ran mx \<Longrightarrow> s \<notin> mutex ` ran (locks k)"
  using not_mutex by (fastforce simp: ran_def)

lemma sync_p_loop:
  assumes ok: "sync_ok mx k" and th: "threads k (currentThread k) = Some th" "frames th = P_loop s # cs" and kok: "kernel_ok k"
    and p: "p_loop s (set_thread (currentThread k) (th\<lparr>frames := cs\<rparr>) k) = Inr k'"
  shows "sync_ok mx k'"
proof -
  let ?c = "currentThread k"
  have st: "sync_static mx k" "sync_core mx (stacks k) (semaphores k) (locks k)" using ok by (simp_all add: sync_ok_def)
  have F: "stacks k ?c = Some (P_loop s # cs)" using th by (simp add: stacks_def)
  obtain sem where sem: "semaphores k s = Some sem" using p by (auto simp: p_loop_def lookup_def rbind_eq_Inr_iff set_thread_sel split: option.splits)
  have nq: "?c \<notin> set (queue sem)" by (rule running_not_queued [OF kok th sem])
  have "shape mx (P_loop s # cs)" by (rule shape_frames [OF ok F])
  then obtain x ds where sh: "cs = Set_level x # ds" "s \<notin> ran mx \<and> calls mx ds \<or> (\<exists>l es. ds = Set_holder l # es \<and> mx l = Some s \<and> calls mx es)" by auto
  show ?thesis
  proof (cases "value sem = 0")
    case True
    let ?fr = "Sleep_loop # P_loop s # cs"
    have s': "stacks k' = (stacks k)(?c \<mapsto> ?fr)" "semaphores k' = (semaphores k)(s \<mapsto> sem\<lparr>queue := queue sem @ [?c]\<rparr>)"
      "locks k' = locks k" "conditions k' = conditions k" "disk_semaphore k' = disk_semaphore k" "next_address k' = next_address k"
      "dom (threads k') = dom (threads k)"
      using p sem th(1) True
      by (auto simp: p_loop_def lookup_def rbind_eq_Inr_iff set_thread_def push_def Sleep_def setStatus_def ASSERT_eq_Inr_iff
          set_semaphore_def stacks_def fun_eq_iff split: if_splits)
    have "sync_core mx ((stacks k)(?c \<mapsto> ?fr)) (semaphores k) (locks k)"
      by (rule core_stack [where F = "stacks k", OF st(2) F]) (use sh in auto)
    note c = this
    have "no_lost_wakeup ((stacks k)(?c \<mapsto> ?fr)) s (sem\<lparr>queue := queue sem @ [?c]\<rparr>)"
      using c sem True nq unfolding sync_core_def no_lost_wakeup_def by (auto simp: having_def)
    moreover have "tokens F (S(s \<mapsto> sem\<lparr>queue := q\<rparr>)) l lk = tokens F S l lk" if "S s = Some sem" for F S q l lk
      using that by (auto simp: tokens_def)
    ultimately have "sync_core mx (stacks k') (semaphores k') (locks k')" unfolding s' using c sem by (simp add: sync_core_def)
    moreover have "sync_static mx k'" using st(1) s' by (simp add: sync_static_def)
    ultimately show ?thesis by (simp add: sync_ok_def)
  next
    case False
    have k': "k' = set_semaphore s (sem\<lparr>value := value sem - 1\<rparr>) (set_thread ?c (th\<lparr>frames := cs\<rparr>) k)"
      using p sem False by (auto simp: p_loop_def lookup_def rbind_eq_Inr_iff set_thread_def)
    have "s \<notin> mutex ` ran (locks k) \<and> calls mx ds \<or> (\<exists>l lk es. ds = Set_holder l # es \<and> locks k l = Some lk \<and> mutex lk = s \<and> calls mx es)"
      using sh(2) static_ran [OF st(1)] st(1) unfolding sync_static_def by (metis map_option_eq_Some)
    from core_take [OF st(2) F sem nq False sh(1) this static_inj [OF st(1)]]
    have "sync_core mx (stacks k') (semaphores k') (locks k')" by (simp add: k' set_semaphore_def stacks_set_thread set_thread_sel)
    moreover have "sync_static mx k'" using static_pop [OF st(1) th(1), of "th\<lparr>frames := cs\<rparr>"] by (simp add: sync_static_def k' set_semaphore_def)
    ultimately show ?thesis by (simp add: sync_ok_def)
  qed
qed

lemma sync_set_holder:
  assumes ok: "sync_ok mx k" and th: "threads k (currentThread k) = Some th" "frames th = Set_holder l # cs"
    and p: "set_holder l (set_thread (currentThread k) (th\<lparr>frames := cs\<rparr>) k) = Inr k'"
  shows "sync_ok mx k'"
proof -
  let ?c = "currentThread k"
  have st: "sync_static mx k" "sync_core mx (stacks k) (semaphores k) (locks k)" using ok by (simp_all add: sync_ok_def)
  obtain lk where lk: "locks k l = Some lk"
    and k': "k' = (set_thread ?c (th\<lparr>frames := cs\<rparr>) k)\<lparr>locks := (locks k)(l \<mapsto> lk\<lparr>lockHolder := Some ?c\<rparr>)\<rparr>"
    using p by (auto simp: set_holder_def lookup_def rbind_eq_Inr_iff set_thread_sel split: option.splits)
  have "stacks k ?c = Some (Set_holder l # cs)" using th by (simp add: stacks_def)
  from core_hold(1) [where t = ?c, OF st(2) this lk static_inj [OF st(1)]]
  have "sync_core mx (stacks k') (semaphores k') (locks k')" by (simp add: k' stacks_set_thread set_thread_sel)
  moreover have "sync_static mx k'"
    using static_pop [OF st(1) th(1), of "th\<lparr>frames := cs\<rparr>"] lk by (simp add: sync_static_def k' set_thread_sel) (metis option.simps(9))
  ultimately show ?thesis by (simp add: sync_ok_def)
qed

lemma shape_cases:
  assumes "shape mx (c # cs)"
  obtains (call) "call_safe mx c" "calls mx cs" | (tick) "transparent c" "shape mx cs" | (start) "c = Int_enable" "calls mx cs"
  | (loop) s where "c = P_loop s" | (hold) l where "c = Set_holder l"
  using assms by (cases c) auto

theorem sync_step:
  assumes ok: "sync_ok mx k" and kok: "kernel_ok k" and st: "kernel_step k = Inr k'"
  shows "sync_ok mx k'"
proof -
  obtain th c cs where th: "threads k (currentThread k) = Some th" "frames th = c # cs"
    and ex: "exec_code c (set_thread (currentThread k) (th\<lparr>frames := cs\<rparr>) k) = Inr k'"
    by (rule kernel_stepE [OF st])
  let ?k = "set_thread (currentThread k) (th\<lparr>frames := cs\<rparr>) k"
  have "shape mx (c # cs)" using shape_frames [OF ok stacks_Some [OF th(1)]] th(2) by simp
  then show ?thesis
  proof (cases rule: shape_cases)
    case call
    have "sync_ok mx ?k"
      by (rule sync_ok_pop [OF ok th(1)]) (use call th(2) in \<open>simp_all add: calls_shape calls_quiet call_safe_simps\<close>)
    moreover have "calm mx ?k" using call by (simp add: calm_def stacks_set_thread set_thread_sel)
    ultimately show ?thesis using callableD [OF callable_exec [OF call(1)]] ex by blast
  next
    case tick
    have pop: "sync_ok mx ?k"
      by (rule sync_ok_pop [OF ok th(1)]) (use tick th(2) in \<open>simp_all add: entering_transparent heading_transparent\<close>)
    have "\<exists>uh. threads ?k t = Some uh \<and> finished (frames uh)" if "threadToBeDestroyed ?k = Some t" "t \<noteq> currentThread ?k" for t
      using destroyed_finished [OF kok, of t] that by (auto simp: set_thread_def)
    from sync_run_tail [OF pop _ this] show ?thesis
      using tick(1) ex pop sync.relD [OF sync.rel_sleep_loop] sync.relD [OF sync.rel_SetLevel] sync_ok_same [OF same_sync_upds(2)]
      by (cases c) auto
  next
    case start
    have "sync_ok mx ?k" by (rule sync_ok_pop [OF ok th(1)]) (use start th(2) in \<open>simp_all add: calls_shape calls_quiet\<close>)
    then show ?thesis using ex start(1) sync.relD [OF sync.rel_SetLevel] by (auto simp: Enable_def)
  next
    case (loop s)
    then show ?thesis using sync_p_loop [OF ok th(1) _ kok] th(2) ex by simp
  next
    case (hold l)
    then show ?thesis using sync_set_holder [OF ok th(1)] th(2) ex by simp
  qed
qed

lemma sync_steps: "steps k k' \<Longrightarrow> kernel_ok k \<Longrightarrow> sync_ok mx k \<Longrightarrow> sync_ok mx k'"
  by (induction rule: steps.induct) (auto intro: sync_step steps_ok)

section \<open>The first state, and what the invariant says\<close>

text \<open>The locks have mutexes of their own, and the program uses them through the locks only.\<close>

definition lock_boot :: "Globals \<Rightarrow> code list \<Rightarrow> bool" where
  "lock_boot g prog \<longleftrightarrow> distinct (map fst (g_locks g)) \<and> distinct (map snd (g_locks g)) \<and>
     list_all (\<lambda>m. m \<notin> set (map fst (g_semaphores g)) \<and> m \<noteq> g_disk_semaphore g) (map snd (g_locks g)) \<and>
     calls (map_of (g_locks g)) prog"

lemma ran_locks: "distinct (map fst (g_locks g)) \<Longrightarrow> ran (map_of (g_locks g)) = set (map snd (g_locks g))"
  by (simp add: ran_distinct)

lemma Initialize_fields:
  assumes "Initialize ry rnd d g prog = Inr k"
  shows "threads k = [0 \<mapsto> Thread_new\<lparr>thread_status := RUNNING, frames := Int_enable # prog @ [Call_Finish]\<rparr>]" "semaphores k = new_semaphores g"
    "locks k = map_of (map (\<lambda>(l, m). (l, \<lparr>lockHolder = None, mutex = m\<rparr>)) (g_locks g))"
    "conditions k = map_of (map (\<lambda>c. (c, \<lparr>waitQueue = []\<rparr>)) (g_conditions g))" "disk_semaphore k = g_disk_semaphore g" "next_address k = g_next g"
  using assms by (auto simp: Initialize_def Let_def TimeOfNextInterrupt_def Schedule_Inr map_interrupt_def split: if_splits)

lemma map_of_locks:
  "map_of (map (\<lambda>(l, m). (l, \<lparr>lockHolder = None, mutex = m\<rparr>)) xs) l = map_option (\<lambda>m. \<lparr>lockHolder = None, mutex = m\<rparr>) (map_of xs l)"
  by (induction xs) auto

lemma new_mutex:
  assumes "(l, m) \<in> set (g_locks g)" "m \<notin> set (map fst (g_semaphores g))"
  shows "new_semaphores g m = Some \<lparr>value = 1, queue = []\<rparr>"
proof -
  have "map_of (map (\<lambda>(s, v). (s, \<lparr>value = v, queue = []\<rparr>)) (g_semaphores g)) m = None"
    using assms(2) by (force simp: map_of_eq_None_iff)
  moreover have "map_of (map (\<lambda>(l, m). (m, \<lparr>value = 1, queue = []\<rparr>)) xs) m = Some \<lparr>value = 1, queue = []\<rparr>"
    if "(l, m) \<in> set xs" for xs using that by (induction xs) auto
  ultimately show ?thesis using assms(1) by (simp add: new_semaphores_def map_add_def)
qed

lemma new_queue: "new_semaphores g s = Some sem \<Longrightarrow> queue sem = []"
  unfolding new_semaphores_def by (auto dest!: map_of_SomeD)

lemma Initialize_sync:
  assumes b: "boot_ok g prog" "lock_boot g prog" and i: "Initialize ry rnd d g prog = Inr k"
  shows "sync_ok (map_of (g_locks g)) k"
proof -
  let ?mx = "map_of (g_locks g)"
  note f = Initialize_fields [OF i]
  have d: "distinct (map fst (g_locks g))" "distinct (map snd (g_locks g))" "calls ?mx prog"
    "\<forall>m \<in> set (map snd (g_locks g)). m \<notin> set (map fst (g_semaphores g)) \<and> m \<noteq> g_disk_semaphore g"
    using b(2) by (simp_all add: lock_boot_def list_all_iff)
  have inj: "inj_on ?mx (dom ?mx)"
  proof (rule inj_onI)
    fix l l' assume "l \<in> dom ?mx" "l' \<in> dom ?mx" "?mx l = ?mx l'"
    then obtain m where "?mx l = Some m" "?mx l' = Some m" by auto
    then have "(l, m) \<in> set (g_locks g)" "(l', m) \<in> set (g_locks g)" by (simp_all add: map_of_SomeD)
    then show "l = l'" using d(2) unfolding distinct_map inj_on_def by (metis Pair_inject snd_conv)
  qed
  have ran: "ran ?mx = set (map snd (g_locks g))" by (rule ran_locks [OF d(1)])
  have "\<forall>m \<in> ran ?mx. m < g_next g" unfolding ran using b(1) by (auto simp: boot_ok_def list_all_iff)
  then have "sync_static ?mx k"
    unfolding sync_static_def f using inj d(4) ran b(1)
    by (auto simp: map_of_locks option.map_comp comp_def boot_ok_def option.map_ident dest!: map_of_SomeD)
  moreover have st: "stacks k = [0 \<mapsto> Int_enable # prog @ [Call_Finish]]" by (auto simp: stacks_def f)
  have none: "having (entering l) (stacks k) = {}" "having (heading s) (stacks k) = {}" for l s by (auto simp: st having_def)
  have "tokens (stacks k) (semaphores k) l lk" if l: "locks k l = Some lk" for l lk
  proof -
    obtain m where m: "?mx l = Some m" "lk = \<lparr>lockHolder = None, mutex = m\<rparr>" using l by (auto simp: f map_of_locks)
    then have "new_semaphores g m = Some \<lparr>value = 1, queue = []\<rparr>" using new_mutex d(4) by (fastforce dest!: map_of_SomeD)
    then show ?thesis using m(2) by (simp add: tokens_def none f)
  qed
  moreover have "no_lost_wakeup (stacks k) s sem" if "semaphores k s = Some sem" for s sem
    using new_queue [of g s sem] that by (simp add: no_lost_wakeup_def f)
  moreover have "shape ?mx (Int_enable # prog @ [Call_Finish])" using d(3) by simp
  ultimately show ?thesis unfolding sync_ok_def sync_core_def by (simp add: st)
qed

definition lock_booted :: "(address \<rightharpoonup> address) \<Rightarrow> Kernel \<Rightarrow> bool" where
  "lock_booted mx k \<longleftrightarrow> (\<exists>randomYield rnd d g prog. boot_ok g prog \<and> lock_boot g prog \<and> mx = map_of (g_locks g) \<and>
     Initialize randomYield rnd d g prog = Inr k)"

lemma reachable_sync:
  assumes "lock_booted mx k0" "steps k0 k"
  shows "kernel_ok k" "sync_ok mx k"
proof -
  obtain ry rnd d g prog where b: "boot_ok g prog" "lock_boot g prog" "mx = map_of (g_locks g)" "Initialize ry rnd d g prog = Inr k0"
    using assms(1) by (auto simp: lock_booted_def)
  have "kernel_ok k0" using b(1,4) Initialize_ok [of prog g ry rnd d] by (auto simp: boot_ok_def list_all_iff)
  then show "kernel_ok k" "sync_ok mx k" using steps_ok [OF assms(2)] sync_steps [OF assms(2)] Initialize_sync [OF b(1,2,4)] b(3) by auto
qed

text \<open>At most one thread is between the end of \<open>mutex->P()\<close> in \<open>Acquire\<close> and \<open>Release\<close>.\<close>

definition in_section :: "address \<Rightarrow> Lock \<Rightarrow> Kernel \<Rightarrow> address \<Rightarrow> bool" where
  "in_section l lk k t \<longleftrightarrow> lockHolder lk = Some t \<or> (\<exists>th. threads k t = Some th \<and> entering l (frames th))"

lemma section_exclusive:
  assumes ok: "sync_ok mx k" and l: "locks k l = Some lk" and t: "in_section l lk k t" "in_section l lk k u"
  shows "t = u"
proof -
  let ?E = "having (entering l) (stacks k)"
  have fin: "finite ?E" using ok finite_having by (auto simp: sync_ok_def sync_core_def)
  obtain sem :: Semaphore where "0 \<le> value sem" "value sem + (if lockHolder lk = None then 0 else 1) + int (card ?E) = 1"
    using ok l unfolding sync_ok_def sync_core_def tokens_def by blast
  then have c: "card ?E + (if lockHolder lk = None then 0 else 1) \<le> 1" by (auto split: if_splits)
  have E: "v \<in> ?E" if "threads k v = Some th" "entering l (frames th)" for v th using that by (auto simp: having_def stacks_def)
  show ?thesis
  proof (cases "lockHolder lk")
    case None
    then have "t \<in> ?E" "u \<in> ?E" using t E by (auto simp: in_section_def)
    moreover have "card ?E \<le> 1" using c None by simp
    ultimately show ?thesis using card_le_Suc0_iff_eq [OF fin] by simp
  next
    case (Some v)
    then have "?E = {}" using c fin by simp
    then show ?thesis using t E Some by (auto simp: in_section_def)
  qed
qed

lemma somebody_takes_it:
  assumes ok: "sync_ok mx k" and kok: "kernel_ok k" and s: "semaphores k s = Some sem" "queue sem \<noteq> []" "0 < value sem"
  shows "\<exists>t th. threads k t = Some th \<and> heading s (frames th) \<and> (t \<in> set (readyList k) \<or> t = currentThread k \<and> thread_status th = RUNNING)"
proof -
  have "value sem \<le> int (card (having (heading s) (stacks k) - set (queue sem)))"
    using ok s by (auto simp: sync_ok_def sync_core_def no_lost_wakeup_def)
  then have "having (heading s) (stacks k) - set (queue sem) \<noteq> {}" using s(3) by (intro notI) simp
  then obtain t th where t: "threads k t = Some th" "heading s (frames th)" "t \<notin> set (queue sem)"
    by (auto simp: having_def stacks_def)
  note p = thread_places [OF kok t(1)]
  show ?thesis
  proof (cases "thread_status th")
    case BLOCKED
    then consider "finished (frames th)" | s' where "waits_on s' (frames th)" "\<forall>sem. semaphores k s' = Some sem \<longrightarrow> t \<in> set (queue sem)"
      using p(3) by blast
    then show ?thesis
    proof cases
      case 1
      then show ?thesis using finished_quiet t(2) by blast
    next
      case 2
      then have "s' = s" using heading_unique [OF t(2)] waits_heading by blast
      then show ?thesis using 2(2) s(1) t(3) by blast
    qed
  qed (use t p in auto)
qed

end
