(* ===== verification/Nachos_Network.thy ===== *)
theory Nachos_Network
  imports Complex_Main Nachos_List
begin

text \<open>
  \<open>machine/network.cc\<close>: the simulated network interface.  Packets are datagrams of \<open>MaxWireSize\<close> bytes
  with the \<open>PacketHeader\<close> in front; they travel through the sockets of the host, one queue of datagrams for each
  machine.  The handlers that the constructor is given are arguments of the operations, as they are
  function pointers in the code, and the state \<open>'c\<close> that they change is the client of the device.
\<close>

section \<open>Packets on the wire\<close>

record PacketHeader =
  to_machine :: int
  from_machine :: int
  packet_length :: "32 word"

text \<open>\<open>sizeof (PacketHeader)\<close>: three fields of four bytes.\<close>

definition PacketHeaderSize :: nat where "PacketHeaderSize = 12"
definition MaxWireSize :: nat where "MaxWireSize = 64"
definition MaxPacketSize :: nat where "MaxPacketSize = MaxWireSize - PacketHeaderSize"

lemma wire_sizes: "PacketHeaderSize = 12" "MaxWireSize = 64" "MaxPacketSize = 52"
  by (simp_all add: PacketHeaderSize_def MaxWireSize_def MaxPacketSize_def)

text \<open>\<open>*(PacketHeader *)buffer\<close> as the target and as the source of an assignment.\<close>

definition header_to_bytes :: "PacketHeader \<Rightarrow> byte list" where
  "header_to_bytes h = int_to_bytes (to_machine h) @ int_to_bytes (from_machine h) @ word_to_bytes (packet_length h)"

definition bytes_to_header :: "byte list \<Rightarrow> PacketHeader" where
  "bytes_to_header bs = \<lparr>to_machine = bytes_to_int bs, from_machine = bytes_to_int (drop 4 bs), packet_length = bytes_to_word (drop 8 bs)\<rparr>"

definition bcopy :: "byte list \<Rightarrow> byte list \<Rightarrow> nat \<Rightarrow> byte list res" where
  "bcopy src dst n = (if n \<le> length src \<and> n \<le> length dst then Inr (overwrite 0 (take n src) dst) else Inl BadIndex)"

lemma length_header_to_bytes [simp]: "length (header_to_bytes h) = PacketHeaderSize"
  by (simp add: header_to_bytes_def wire_sizes)

lemma header_roundtrip_bytes:
  assumes "is_int32 (to_machine h)" "is_int32 (from_machine h)"
  shows "bytes_to_header (header_to_bytes h @ bs) = h"
  using assms by (simp add: bytes_to_header_def header_to_bytes_def)

lemma bcopy_ok [simp]: "n \<le> length src \<Longrightarrow> n \<le> length dst \<Longrightarrow> bcopy src dst n = Inr (overwrite 0 (take n src) dst)"
  by (simp add: bcopy_def)

lemma take_overwrite [simp]: "n \<le> length src \<Longrightarrow> take n (overwrite 0 (take n src) dst) = take n src"
  by (simp add: overwrite_def)

section \<open>The device\<close>

datatype NetHandler = NetworkReadPoll | NetworkSendDone

text \<open>
  The fields of \<open>Network\<close>, the part of the interrupt simulation that the device uses (the clock, its pending
  interrupts, its counters) and the random numbers of the host.
\<close>

record Network =
  ident :: int
  chanceToWork :: real
  sendBusy :: bool
  inHdr :: PacketHeader
  inbox :: "byte list"
  net_now :: int
  net_pending :: "NetHandler keyed"
  numPacketsSent :: int
  numPacketsRecvd :: int
  net_random :: "nat \<Rightarrow> nat"
  net_draws :: nat

type_synonym sockets = "int \<rightharpoonup> byte list list"

definition NetworkTime :: int where "NetworkTime = 100"

definition net_Schedule :: "NetHandler \<Rightarrow> Network \<Rightarrow> Network" where
  "net_Schedule h n = n\<lparr>net_pending := l_sorted_insert h (net_now n + NetworkTime) (net_pending n)\<rparr>"

definition Network_new :: "int \<Rightarrow> real \<Rightarrow> (nat \<Rightarrow> nat) \<Rightarrow> PacketHeader \<Rightarrow> byte list \<Rightarrow> Network" where
  "Network_new addr reliability rnd hdr0 inbox0 = net_Schedule NetworkReadPoll
     \<lparr>ident = addr, chanceToWork = (if reliability < 0 then 0 else if reliability > 1 then 1 else reliability),
      sendBusy = False, inHdr = hdr0\<lparr>packet_length := 0\<rparr>, inbox = inbox0, net_now = 0, net_pending = [],
      numPacketsSent = 0, numPacketsRecvd = 0, net_random = rnd, net_draws = 0\<rparr>"

text \<open>
  The sockets of the host: \<open>bind\<close> gives a machine a queue, \<open>sendto\<close> fails when nobody has the name,
  \<open>recvfrom\<close> takes one datagram and cuts it off at the size of the buffer.
\<close>

definition AssignNameToSocket :: "int \<Rightarrow> sockets \<Rightarrow> sockets" where
  "AssignNameToSocket a ss = ss(a \<mapsto> [])"

definition DeAssignNameToSocket :: "int \<Rightarrow> sockets \<Rightarrow> sockets" where
  "DeAssignNameToSocket a ss = ss(a := None)"

definition PollSocket :: "byte list list \<Rightarrow> bool" where
  "PollSocket sock \<longleftrightarrow> sock \<noteq> []"

definition ReadFromSocket :: "byte list list \<Rightarrow> nat \<Rightarrow> (byte list \<times> byte list list) res" where
  "ReadFromSocket sock packetSize = (case sock of [] \<Rightarrow> Inl Abort
     | d # rest \<Rightarrow> ASSERT (length (take packetSize d) = packetSize) (Inr (take packetSize d, rest)))"

definition SendToSocket :: "int \<Rightarrow> byte list \<Rightarrow> sockets \<Rightarrow> sockets res" where
  "SendToSocket a buffer ss = (case ss a of None \<Rightarrow> Inl Abort | Some q \<Rightarrow> Inr (ss(a \<mapsto> q @ [buffer])))"

definition net_Random :: "Network \<Rightarrow> nat \<times> Network" where
  "net_Random n = (net_random n (net_draws n), n\<lparr>net_draws := Suc (net_draws n)\<rparr>)"

definition CheckPktAvail :: "('c \<Rightarrow> 'c res) \<Rightarrow> byte list list \<Rightarrow> Network \<Rightarrow> 'c \<Rightarrow> (byte list list \<times> Network \<times> 'c) res" where
  "CheckPktAvail readHandler sock n c =
     (let n1 = net_Schedule NetworkReadPoll n in
      if packet_length (inHdr n1) \<noteq> 0 then Inr (sock, n1, c)
      else if \<not> PollSocket sock then Inr (sock, n1, c)
      else rbind (ReadFromSocket sock MaxWireSize) (\<lambda>(buffer, rest).
        let h = bytes_to_header buffer in
        ASSERT (to_machine h = ident n1 \<and> packet_length h \<le> of_nat MaxPacketSize) (
        rbind (bcopy (drop PacketHeaderSize buffer) (inbox n1) (unat (packet_length h))) (\<lambda>ib.
        let n2 = n1\<lparr>inHdr := h, inbox := ib, numPacketsRecvd := numPacketsRecvd n1 + 1\<rparr> in
        rbind (readHandler c) (\<lambda>c'. Inr (rest, n2, c'))))))"

definition SendDone :: "('c \<Rightarrow> 'c res) \<Rightarrow> Network \<Rightarrow> 'c \<Rightarrow> (Network \<times> 'c) res" where
  "SendDone writeHandler n c =
     rbind (writeHandler c) (\<lambda>c'. Inr (n\<lparr>sendBusy := False, numPacketsSent := numPacketsSent n + 1\<rparr>, c'))"

text \<open>\<open>fresh\<close> is the buffer of \<open>MaxWireSize\<close> bytes that \<open>Send\<close> allocates and does not clear.\<close>

definition lost :: "nat \<Rightarrow> Network \<Rightarrow> bool" where
  "lost r n \<longleftrightarrow> real (r mod 100) \<ge> chanceToWork n * 100"

definition Net_Send :: "byte list \<Rightarrow> PacketHeader \<Rightarrow> byte list \<Rightarrow> sockets \<Rightarrow> Network \<Rightarrow> (sockets \<times> Network) res" where
  "Net_Send fresh hdr data ss n =
     ASSERT (\<not> sendBusy n \<and> packet_length hdr > 0 \<and> packet_length hdr \<le> of_nat MaxPacketSize \<and> from_machine hdr = ident n) (
     let n1 = net_Schedule NetworkSendDone n; (r, n2) = net_Random n1 in
     if lost r n2 then Inr (ss, n2)
     else rbind (bcopy data (drop PacketHeaderSize fresh) (unat (packet_length hdr))) (\<lambda>d.
       rbind (SendToSocket (to_machine hdr) (header_to_bytes hdr @ d) ss) (\<lambda>ss'. Inr (ss', n2))))"

definition Net_Receive :: "byte list \<Rightarrow> Network \<Rightarrow> (PacketHeader \<times> byte list \<times> Network) res" where
  "Net_Receive data n =
     (let h = inHdr n; n1 = n\<lparr>inHdr := h\<lparr>packet_length := 0\<rparr>\<rparr> in
      rbind (if packet_length h \<noteq> 0 then bcopy (inbox n) data (unat (packet_length h)) else Inr data) (\<lambda>d.
        Inr (h, d, n1)))"

section \<open>What the operations do\<close>

lemma chance_bounds: "0 \<le> chanceToWork (Network_new a r rnd h i)" "chanceToWork (Network_new a r rnd h i) \<le> 1"
  by (simp_all add: Network_new_def net_Schedule_def)

text \<open>A network with reliability 1 loses nothing, and one with reliability 0 delivers nothing.\<close>

lemma reliable_loses_nothing: "chanceToWork n = 1 \<Longrightarrow> \<not> lost r n"
  by (simp add: lost_def not_le)

lemma unreliable_loses_everything: "chanceToWork n = 0 \<Longrightarrow> lost r n"
  by (simp add: lost_def)

lemma net_Schedule_simps [simp]:
  "ident (net_Schedule h n) = ident n" "chanceToWork (net_Schedule h n) = chanceToWork n"
  "sendBusy (net_Schedule h n) = sendBusy n" "inHdr (net_Schedule h n) = inHdr n"
  "inbox (net_Schedule h n) = inbox n" "net_now (net_Schedule h n) = net_now n"
  by (simp_all add: net_Schedule_def)

lemma net_Random_simps [simp]:
  "ident (snd (net_Random n)) = ident n" "chanceToWork (snd (net_Random n)) = chanceToWork n"
  "sendBusy (snd (net_Random n)) = sendBusy n" "inHdr (snd (net_Random n)) = inHdr n"
  "inbox (snd (net_Random n)) = inbox n" "net_pending (snd (net_Random n)) = net_pending n"
  by (simp_all add: net_Random_def)

text \<open>The bytes of a packet on the wire, and a packet that \<open>Send\<close> puts there.\<close>

definition wire_ok :: "byte list \<Rightarrow> bool" where
  "wire_ok d \<longleftrightarrow> length d = MaxWireSize \<and> 0 < packet_length (bytes_to_header d) \<and>
     packet_length (bytes_to_header d) \<le> of_nat MaxPacketSize"

abbreviation packet_data :: "PacketHeader \<Rightarrow> byte list \<Rightarrow> byte list" where
  "packet_data h bs \<equiv> take (unat (packet_length h)) bs"

lemma packet_length_bound: "packet_length h \<le> of_nat MaxPacketSize \<longleftrightarrow> unat (packet_length h) \<le> MaxPacketSize"
  by (simp add: word_le_nat_alt wire_sizes)

lemma Net_Send_cases:
  assumes "\<not> sendBusy n" "0 < packet_length h" "unat (packet_length h) \<le> MaxPacketSize" "from_machine h = ident n"
    "is_int32 (to_machine h)" "is_int32 (from_machine h)"
    "ss (to_machine h) = Some q" "length fresh = MaxWireSize" "unat (packet_length h) \<le> length data"
  obtains n' where "n' = snd (net_Random (net_Schedule NetworkSendDone n))" "lost (fst (net_Random (net_Schedule NetworkSendDone n))) n"
      "Net_Send fresh h data ss n = Inr (ss, n')"
  | n' d where "n' = snd (net_Random (net_Schedule NetworkSendDone n))" "\<not> lost (fst (net_Random (net_Schedule NetworkSendDone n))) n"
      "Net_Send fresh h data ss n = Inr (ss(to_machine h \<mapsto> q @ [d]), n')"
      "wire_ok d" "bytes_to_header d = h" "packet_data h (drop PacketHeaderSize d) = packet_data h data"
proof -
  let ?n1 = "net_Schedule NetworkSendDone n"
  let ?n2 = "snd (net_Random ?n1)"
  let ?body = "overwrite 0 (packet_data h data) (drop PacketHeaderSize fresh)"
  have pre: "packet_length h \<le> of_nat MaxPacketSize" using assms(3) by (simp add: packet_length_bound)
  have lost: "lost r ?n2 = lost r n" for r by (simp add: lost_def)
  have fit: "unat (packet_length h) \<le> length (drop PacketHeaderSize fresh)" using assms(3,8) by (simp add: wire_sizes)
  show thesis
  proof (cases "lost (fst (net_Random ?n1)) n")
    case True
    then show ?thesis
      using assms pre lost by (intro that(1)) (simp_all add: Net_Send_def Let_def split_beta)
  next
    case False
    have "wire_ok (header_to_bytes h @ ?body)"
      using assms(2,3,5,6,8,9) pre fit by (simp add: wire_ok_def header_roundtrip_bytes) (simp add: wire_sizes)
    then show ?thesis
      using assms pre lost fit False
      by (intro that(2) [of ?n2 "header_to_bytes h @ ?body"])
        (simp_all add: Net_Send_def Let_def split_beta SendToSocket_def header_roundtrip_bytes)
  qed
qed

lemma CheckPktAvail_buffered: "packet_length (inHdr n) \<noteq> 0 \<Longrightarrow>
  CheckPktAvail rd sock n c = Inr (sock, net_Schedule NetworkReadPoll n, c)"
  by (simp add: CheckPktAvail_def Let_def)

lemma CheckPktAvail_empty: "CheckPktAvail rd [] n c = Inr ([], net_Schedule NetworkReadPoll n, c)"
  by (simp add: CheckPktAvail_def PollSocket_def Let_def)

lemma CheckPktAvail_packet:
  assumes "packet_length (inHdr n) = 0" "wire_ok d" "to_machine (bytes_to_header d) = ident n" "length (inbox n) = MaxPacketSize"
    "rd c = Inr c'"
  obtains n' where "CheckPktAvail rd (d # ds) n c = Inr (ds, n', c')"
    "inHdr n' = bytes_to_header d" "packet_data (inHdr n') (inbox n') = packet_data (inHdr n') (drop PacketHeaderSize d)"
    "length (inbox n') = MaxPacketSize" "ident n' = ident n" "sendBusy n' = sendBusy n" "chanceToWork n' = chanceToWork n"
    "net_pending n' = net_pending (net_Schedule NetworkReadPoll n)"
proof -
  let ?h = "bytes_to_header d"
  let ?ib = "overwrite 0 (packet_data ?h (drop PacketHeaderSize d)) (inbox n)"
  have l: "length d = MaxWireSize" "unat (packet_length ?h) \<le> MaxPacketSize" "packet_length ?h \<le> of_nat MaxPacketSize"
    using assms(2) packet_length_bound [of ?h] by (auto simp: wire_ok_def)
  have fit: "unat (packet_length ?h) \<le> length (drop PacketHeaderSize d)" "unat (packet_length ?h) \<le> length (inbox n)"
    using l assms(4) by (simp_all add: wire_sizes)
  let ?n1 = "net_Schedule NetworkReadPoll n"
  let ?n' = "?n1\<lparr>inHdr := ?h, inbox := ?ib, numPacketsRecvd := numPacketsRecvd ?n1 + 1\<rparr>"
  have "CheckPktAvail rd (d # ds) n c = Inr (ds, ?n', c')"
    using assms l fit by (simp add: CheckPktAvail_def PollSocket_def ReadFromSocket_def Let_def)
  then show thesis by (rule that) (use assms(4) fit in \<open>simp_all add: net_Schedule_def\<close>)
qed

lemma Net_Receive_packet:
  assumes "packet_length (inHdr n) \<noteq> 0" "unat (packet_length (inHdr n)) \<le> MaxPacketSize"
    "length (inbox n) = MaxPacketSize" "length data = MaxPacketSize"
  shows "\<exists>d. Net_Receive data n = Inr (inHdr n, d, n\<lparr>inHdr := (inHdr n)\<lparr>packet_length := 0\<rparr>\<rparr>) \<and>
    length d = MaxPacketSize \<and> packet_data (inHdr n) d = packet_data (inHdr n) (inbox n)"
  using assms by (simp add: Net_Receive_def Let_def)

end
