(* ===== verification/Nachos_Devices.thy ===== *)
theory Nachos_Devices
  imports Nachos_Prelude
begin

text \<open>
  The interface of an input device with room for one item, as the console and the network
  have: an interrupt handler polls for the next item and calls \<open>V\<close> on a semaphore when it has put one into the
  buffer, and a thread that has passed \<open>P\<close> takes it out.  \<open>slot\<close> is the buffer, \<open>arriving\<close> the items that the
  host has and \<open>avail\<close> the value of the semaphore.
\<close>

locale one_slot_device =
  fixes ok :: "'s \<Rightarrow> bool"
    and slot :: "'s \<Rightarrow> 'a option"
    and arriving :: "'s \<Rightarrow> 'a list"
    and avail :: "'s \<Rightarrow> nat"
    and poll :: "'s \<Rightarrow> 's res"
    and grab :: "'s \<Rightarrow> ('a \<times> 's) res"
  assumes poll_full: "ok s \<Longrightarrow> slot s = Some x \<Longrightarrow>
      \<exists>s'. poll s = Inr s' \<and> ok s' \<and> slot s' = Some x \<and> arriving s' = arriving s \<and> avail s' = avail s"
    and poll_idle: "ok s \<Longrightarrow> slot s = None \<Longrightarrow> arriving s = [] \<Longrightarrow>
      \<exists>s'. poll s = Inr s' \<and> ok s' \<and> slot s' = None \<and> arriving s' = [] \<and> avail s' = avail s"
    and poll_next: "ok s \<Longrightarrow> slot s = None \<Longrightarrow> arriving s = x # xs \<Longrightarrow>
      \<exists>s'. poll s = Inr s' \<and> ok s' \<and> slot s' = Some x \<and> arriving s' = xs \<and> avail s' = Suc (avail s)"
    and grab_slot: "ok s \<Longrightarrow> slot s = Some x \<Longrightarrow> avail s = Suc n \<Longrightarrow>
      \<exists>s'. grab s = Inr (x, s') \<and> ok s' \<and> slot s' = None \<and> arriving s' = arriving s \<and> avail s' = n"
begin

text \<open>The semaphore counts the buffer, and \<open>waiting\<close> is what the device has still to hand over.\<close>

definition balanced :: "'s \<Rightarrow> bool" where
  "balanced s \<longleftrightarrow> ok s \<and> avail s = (case slot s of None \<Rightarrow> 0 | Some x \<Rightarrow> 1)"

definition waiting :: "'s \<Rightarrow> 'a list" where
  "waiting s = (case slot s of None \<Rightarrow> arriving s | Some x \<Rightarrow> x # arriving s)"

lemma poll_keeps:
  assumes "balanced s"
  obtains s' where "poll s = Inr s'" "balanced s'" "waiting s' = waiting s"
proof (cases "slot s")
  case None
  then show ?thesis
    using assms poll_idle [of s] poll_next [of s] by (cases "arriving s") (auto simp: balanced_def waiting_def intro!: that)
next
  case (Some x)
  then show ?thesis using assms poll_full [of s x] by (auto simp: balanced_def waiting_def intro!: that)
qed

lemma grab_next:
  assumes "balanced s" "0 < avail s"
  obtains x s' where "grab s = Inr (x, s')" "balanced s'" "waiting s = x # waiting s'" "slot s = Some x"
proof -
  obtain x where "slot s = Some x" "avail s = Suc 0" using assms by (auto simp: balanced_def split: option.splits)
  then show ?thesis using assms(1) grab_slot [of s x 0] by (auto simp: balanced_def waiting_def intro!: that)
qed

text \<open>An item that the host adds comes last.\<close>

lemma waiting_append: "slot s' = slot s \<Longrightarrow> arriving s' = arriving s @ [x] \<Longrightarrow> waiting s' = waiting s @ [x]"
  by (simp add: waiting_def split: option.splits)

end

end
