(* ===== verification/Nachos_PostOffice.thy ===== *)
theory Nachos_PostOffice
  imports Nachos_Network Nachos_Devices "HOL-Library.Sublist"
begin

text \<open>
  \<open>network/post.cc\<close>: mail boxes on the network.  The post offices of several machines, their network
  devices and the sockets between them are one world, and a step of the world is an interrupt, a stretch of code of a
  thread between two places where it can wait, or the passing of time on one machine.
\<close>

section \<open>Messages\<close>

record MailHeader =
  to_box :: int
  from_box :: int
  mail_length :: "32 word"

definition MailHeaderSize :: nat where "MailHeaderSize = 12"
definition MaxMailSize :: nat where "MaxMailSize = MaxPacketSize - MailHeaderSize"

lemma mail_sizes: "MailHeaderSize = 12" "MaxMailSize = 40"
  by (simp_all add: MailHeaderSize_def MaxMailSize_def wire_sizes)

definition mail_to_bytes :: "MailHeader \<Rightarrow> byte list" where
  "mail_to_bytes m = int_to_bytes (to_box m) @ int_to_bytes (from_box m) @ word_to_bytes (mail_length m)"

definition bytes_to_mail :: "byte list \<Rightarrow> MailHeader" where
  "bytes_to_mail bs = \<lparr>to_box = bytes_to_int bs, from_box = bytes_to_int (drop 4 bs), mail_length = bytes_to_word (drop 8 bs)\<rparr>"

record Mail =
  pktHdr :: PacketHeader
  mailHdr :: MailHeader
  mail_data :: "byte list"

definition Mail_new :: "byte list \<Rightarrow> PacketHeader \<Rightarrow> MailHeader \<Rightarrow> byte list \<Rightarrow> Mail res" where
  "Mail_new fresh pktH mailH msgData = ASSERT (mail_length mailH \<le> of_nat MaxMailSize) (
     rbind (bcopy msgData fresh (unat (mail_length mailH))) (\<lambda>d. Inr \<lparr>pktHdr = pktH, mailHdr = mailH, mail_data = d\<rparr>))"

section \<open>The post office\<close>

text \<open>
  Where a thread is in \<open>PostOffice::Send\<close>: it has its packet and waits for \<open>sendLock\<close>, or it has handed the packet to
  the network and waits for \<open>messageSent\<close>.
\<close>

datatype Sending = Packed PacketHeader "byte list" | Sent

text \<open>
  A mail box is the list of messages of its \<open>SynchList\<close>, a semaphore is its value, and \<open>sendLock\<close> is its holder.
  \<open>worker_buffer\<close> is the buffer of the postal worker, which keeps its contents from one message to the next.
\<close>

record PostOffice =
  netAddr :: int
  numBoxes :: int
  boxes :: "Mail list list"
  messageAvailable :: nat
  messageSent :: nat
  sendLock :: "nat option"
  worker_buffer :: "byte list"
  senders :: "nat \<rightharpoonup> Sending"

definition PostOffice_new :: "int \<Rightarrow> real \<Rightarrow> int \<Rightarrow> (nat \<Rightarrow> nat) \<Rightarrow> PacketHeader \<Rightarrow> byte list \<Rightarrow> byte list \<Rightarrow> Network \<times> PostOffice" where
  "PostOffice_new addr reliability nBoxes rnd hdr0 inbox0 buffer0 =
     (Network_new addr reliability rnd hdr0 inbox0,
      \<lparr>netAddr = addr, numBoxes = nBoxes, boxes = replicate (nat nBoxes) [], messageAvailable = 0, messageSent = 0,
       sendLock = None, worker_buffer = buffer0, senders = Map.empty\<rparr>)"

definition IncomingPacket :: "PostOffice \<Rightarrow> PostOffice res" where
  "IncomingPacket po = Inr (po\<lparr>messageAvailable := Suc (messageAvailable po)\<rparr>)"

definition PacketSent :: "PostOffice \<Rightarrow> PostOffice res" where
  "PacketSent po = Inr (po\<lparr>messageSent := Suc (messageSent po)\<rparr>)"

definition Put :: "byte list \<Rightarrow> PacketHeader \<Rightarrow> MailHeader \<Rightarrow> byte list \<Rightarrow> Mail list \<Rightarrow> Mail list res" where
  "Put fresh pkt m data box = rbind (Mail_new fresh pkt m data) (\<lambda>mail. Inr (box @ [mail]))"

text \<open>\<open>MailBox::Get\<close>, once there is a message.\<close>

definition Get :: "byte list \<Rightarrow> Mail list \<Rightarrow> (Mail \<times> byte list \<times> Mail list) res" where
  "Get data box = (case box of [] \<Rightarrow> Inl BadPointer
     | mail # rest \<Rightarrow> rbind (bcopy (mail_data mail) data (unat (mail_length (mailHdr mail)))) (\<lambda>d. Inr (mail, d, rest)))"

text \<open>One round of the loop of the postal worker, after \<open>messageAvailable->P()\<close> found the value positive.\<close>

definition PostalDelivery :: "byte list \<Rightarrow> Network \<Rightarrow> PostOffice \<Rightarrow> (Network \<times> PostOffice) res" where
  "PostalDelivery fresh n po =
     rbind (Net_Receive (worker_buffer po) n) (\<lambda>(pkt, buffer, n').
     let m = bytes_to_mail buffer; po1 = po\<lparr>messageAvailable := messageAvailable po - 1, worker_buffer := buffer\<rparr> in
     ASSERT (0 \<le> to_box m \<and> to_box m < numBoxes po1) (
     ASSERT (mail_length m \<le> of_nat MaxMailSize) (
     rbind (array_get (boxes po1) (to_box m)) (\<lambda>box.
     rbind (Put fresh pkt m (drop MailHeaderSize buffer) box) (\<lambda>box'.
     rbind (array_set (boxes po1) (to_box m) box') (\<lambda>bs. Inr (n', po1\<lparr>boxes := bs\<rparr>)))))))"

text \<open>\<open>PostOffice::Send\<close>: up to \<open>sendLock->Acquire()\<close>, from there to \<open>messageSent->P()\<close>, and to the end.\<close>

definition send_pack :: "nat \<Rightarrow> byte list \<Rightarrow> PacketHeader \<Rightarrow> MailHeader \<Rightarrow> byte list \<Rightarrow> PostOffice \<Rightarrow> PostOffice res" where
  "send_pack t fresh pkt m data po =
     ASSERT (mail_length m \<le> of_nat MaxMailSize) (
     ASSERT (0 \<le> to_box m \<and> to_box m < numBoxes po) (
     let pkt' = pkt\<lparr>from_machine := netAddr po, packet_length := mail_length m + of_nat MailHeaderSize\<rparr> in
     rbind (bcopy data (drop MailHeaderSize fresh) (unat (mail_length m))) (\<lambda>d.
       Inr (po\<lparr>senders := (senders po)(t \<mapsto> Packed pkt' (mail_to_bytes m @ d))\<rparr>))))"

definition send_transmit :: "nat \<Rightarrow> byte list \<Rightarrow> PacketHeader \<Rightarrow> byte list \<Rightarrow> sockets \<Rightarrow> Network \<Rightarrow> PostOffice
    \<Rightarrow> (sockets \<times> Network \<times> PostOffice) res" where
  "send_transmit t fresh pkt buffer ss n po =
     rbind (Net_Send fresh pkt buffer ss n) (\<lambda>(ss', n').
       Inr (ss', n', po\<lparr>sendLock := Some t, senders := (senders po)(t \<mapsto> Sent)\<rparr>))"

definition send_finish :: "nat \<Rightarrow> PostOffice \<Rightarrow> PostOffice res" where
  "send_finish t po = ASSERT (sendLock po = Some t)
     (Inr (po\<lparr>messageSent := messageSent po - 1, sendLock := None, senders := (senders po)(t := None)\<rparr>))"

text \<open>\<open>PostOffice::Receive\<close>, once there is a message in the box.\<close>

definition PO_Receive :: "int \<Rightarrow> byte list \<Rightarrow> PostOffice \<Rightarrow> (Mail \<times> byte list \<times> PostOffice) res" where
  "PO_Receive box data po = ASSERT (box \<ge> 0 \<and> box < numBoxes po) (
     rbind (array_get (boxes po) box) (\<lambda>mb.
     rbind (Get data mb) (\<lambda>(mail, d, rest).
     rbind (array_set (boxes po) box rest) (\<lambda>bs.
     ASSERT (mail_length (mailHdr mail) \<le> of_nat MaxMailSize) (Inr (mail, d, po\<lparr>boxes := bs\<rparr>))))))"

section \<open>Several machines\<close>

text \<open>
  A message as its sender and its receiver see it.  The world records, for every thread in \<open>Send\<close>, the message that
  it passed as arguments, and with it the messages that were handed to the network, those that it did not lose, and those that
  \<open>Receive\<close> has returned for each machine and box.
\<close>

type_synonym envelope = "PacketHeader \<times> MailHeader \<times> byte list"

record World =
  machines :: "int \<rightharpoonup> Network \<times> PostOffice"
  sockets :: sockets
  sending :: "int \<Rightarrow> nat \<rightharpoonup> envelope"
  offered :: "envelope list"
  transmitted :: "envelope list"
  received_mail :: "int \<Rightarrow> int \<Rightarrow> envelope list"

datatype action =
    Advance nat
  | Fire
  | Send_call nat "byte list" PacketHeader MailHeader "byte list"
  | Send_packet nat "byte list"
  | Send_return nat
  | Deliver "byte list"
  | Receive_call int "byte list"

definition open_packet :: "PacketHeader \<times> byte list \<Rightarrow> envelope" where
  "open_packet p = (fst p, bytes_to_mail (snd p), take (unat (mail_length (bytes_to_mail (snd p)))) (drop MailHeaderSize (snd p)))"

definition mail_envelope :: "Mail \<Rightarrow> envelope" where
  "mail_envelope m = (pktHdr m, mailHdr m, take (unat (mail_length (mailHdr m))) (mail_data m))"

text \<open>The message that a caller of \<open>Send\<close> on machine \<open>a\<close> means: its arguments, with the sender's address and the length of the packet.\<close>

definition message :: "int \<Rightarrow> PacketHeader \<Rightarrow> MailHeader \<Rightarrow> byte list \<Rightarrow> envelope" where
  "message a pkt m data = (pkt\<lparr>from_machine := a, packet_length := mail_length m + of_nat MailHeaderSize\<rparr>, m, take (unat (mail_length m)) data)"

text \<open>Where a thread waits for a semaphore, a lock or a message, and an interrupt that is not yet due.\<close>

fun blocked :: "action \<Rightarrow> Network \<Rightarrow> PostOffice \<Rightarrow> bool" where
  "blocked (Advance d) n po = False"
| "blocked Fire n po = (case net_pending n of [] \<Rightarrow> True | (w, h) # rest \<Rightarrow> w > net_now n)"
| "blocked (Send_call t fresh pkt m data) n po = (senders po t \<noteq> None)"
| "blocked (Send_packet t fresh) n po = ((case senders po t of Some (Packed pkt buffer) \<Rightarrow> False | _ \<Rightarrow> True) \<or> sendLock po \<noteq> None)"
| "blocked (Send_return t) n po = (senders po t \<noteq> Some Sent \<or> messageSent po = 0)"
| "blocked (Deliver fresh) n po = (messageAvailable po = 0)"
| "blocked (Receive_call box data) n po = (0 \<le> box \<and> box < int (length (boxes po)) \<and> boxes po ! nat box = [])"

definition put_machine :: "int \<Rightarrow> Network \<times> PostOffice \<Rightarrow> World \<Rightarrow> World" where
  "put_machine a st w = w\<lparr>machines := (machines w)(a \<mapsto> st)\<rparr>"

fun perform :: "int \<Rightarrow> action \<Rightarrow> Network \<Rightarrow> PostOffice \<Rightarrow> World \<Rightarrow> World res" where
  "perform a (Advance d) n po w = Inr (put_machine a (n\<lparr>net_now := net_now n + int d\<rparr>, po) w)"
| "perform a Fire n po w = (case net_pending n of [] \<Rightarrow> Inr w
     | (_, h) # rest \<Rightarrow> let n1 = n\<lparr>net_pending := rest\<rparr> in
        (case h of
           NetworkReadPoll \<Rightarrow> rbind (case sockets w a of None \<Rightarrow> Inl BadPointer | Some sock \<Rightarrow> Inr sock) (\<lambda>sock.
             rbind (CheckPktAvail IncomingPacket sock n1 po) (\<lambda>(sock', n2, po').
               Inr ((put_machine a (n2, po') w)\<lparr>sockets := (sockets w)(a \<mapsto> sock')\<rparr>)))
         | NetworkSendDone \<Rightarrow> rbind (SendDone PacketSent n1 po) (\<lambda>st. Inr (put_machine a st w))))"
| "perform a (Send_call t fresh pkt m data) n po w =
     rbind (send_pack t fresh pkt m data po) (\<lambda>po'.
       Inr ((put_machine a (n, po') w)\<lparr>sending := (sending w)(a := (sending w a)(t \<mapsto> message a pkt m data))\<rparr>))"
| "perform a (Send_packet t fresh) n po w = (case senders po t of
       Some (Packed pkt buffer) \<Rightarrow> rbind (send_transmit t fresh pkt buffer (sockets w) n po) (\<lambda>(ss, n', po').
         let es = (case sending w a t of None \<Rightarrow> [] | Some e \<Rightarrow> [e]) in
         Inr ((put_machine a (n', po') w)\<lparr>sockets := ss, offered := offered w @ es,
           transmitted := (if ss (to_machine pkt) = sockets w (to_machine pkt) then transmitted w else transmitted w @ es)\<rparr>))
     | _ \<Rightarrow> Inr w)"
| "perform a (Send_return t) n po w = rbind (send_finish t po) (\<lambda>po'. Inr (put_machine a (n, po') w))"
| "perform a (Deliver fresh) n po w = rbind (PostalDelivery fresh n po) (\<lambda>st. Inr (put_machine a st w))"
| "perform a (Receive_call box data) n po w = rbind (PO_Receive box data po) (\<lambda>(mail, d, po').
     let e = (pktHdr mail, mailHdr mail, take (unat (mail_length (mailHdr mail))) d) in
     Inr ((put_machine a (n, po') w)\<lparr>received_mail := (received_mail w)(a := (received_mail w a)(box := received_mail w a box @ [e]))\<rparr>))"

text \<open>
  What the callers see to: buffers have the size that the code allocates, \<open>Send\<close> is called for an existing
  machine, an existing box and data of the announced length, and \<open>Receive\<close> for an existing box with a buffer of \<open>MaxMailSize\<close> bytes.
\<close>

fun proper :: "action \<Rightarrow> PostOffice \<Rightarrow> World \<Rightarrow> bool" where
  "proper (Advance d) po w = True"
| "proper Fire po w = True"
| "proper (Send_call t fresh pkt m data) po w \<longleftrightarrow> length fresh = MaxPacketSize \<and> machines w (to_machine pkt) \<noteq> None \<and>
     0 \<le> to_box m \<and> to_box m < numBoxes po \<and> is_int32 (from_box m) \<and> unat (mail_length m) \<le> MaxMailSize \<and> unat (mail_length m) \<le> length data"
| "proper (Send_packet t fresh) po w \<longleftrightarrow> length fresh = MaxWireSize"
| "proper (Send_return t) po w \<longleftrightarrow> True"
| "proper (Deliver fresh) po w \<longleftrightarrow> length fresh = MaxMailSize"
| "proper (Receive_call box data) po w \<longleftrightarrow> 0 \<le> box \<and> box < numBoxes po \<and> length data = MaxMailSize"

inductive post_step :: "World \<Rightarrow> World \<Rightarrow> bool" where
  post_step: "machines w a = Some (n, po) \<Longrightarrow> \<not> blocked act n po \<Longrightarrow> proper act po w \<Longrightarrow> perform a act n po w = Inr w' \<Longrightarrow> post_step w w'"

abbreviation post_steps :: "World \<Rightarrow> World \<Rightarrow> bool" where
  "post_steps \<equiv> post_step\<^sup>*\<^sup>*"

text \<open>A given interleaving of the machines.\<close>

fun run_actions :: "(int \<times> action) list \<Rightarrow> World \<Rightarrow> World option" where
  "run_actions [] w = Some w"
| "run_actions ((a, act) # rest) w = (case machines w a of None \<Rightarrow> None
     | Some (n, po) \<Rightarrow> if blocked act n po \<or> \<not> proper act po w then None
         else (case perform a act n po w of Inl f \<Rightarrow> None | Inr w' \<Rightarrow> run_actions rest w'))"

lemma run_actions_steps: "run_actions acts w = Some w' \<Longrightarrow> post_steps w w'"
proof (induction acts arbitrary: w)
  case (Cons x acts)
  obtain a act where x: "x = (a, act)" by (cases x)
  obtain n po w1 where w1: "machines w a = Some (n, po)" "\<not> blocked act n po" "proper act po w" "perform a act n po w = Inr w1"
    "run_actions acts w1 = Some w'"
    using Cons.prems unfolding x by (auto split: option.splits if_splits sum.splits)
  have "post_step w w1" by (rule post_step [OF w1(1-4)])
  then show ?case using Cons.IH [OF w1(5)] by (rule converse_rtranclp_into_rtranclp)
qed simp

text \<open>Machines that have just been started, with the same number of boxes each.\<close>

definition post_start :: "int \<Rightarrow> World \<Rightarrow> bool" where
  "post_start nb w \<longleftrightarrow> is_int32 nb \<and> dom (sockets w) = dom (machines w) \<and> (\<forall>a \<in> dom (machines w). is_int32 a \<and> sockets w a = Some [] \<and>
       (\<exists>rel rnd hdr0 inbox0 buffer0. machines w a = Some (PostOffice_new a rel nb rnd hdr0 inbox0 buffer0) \<and>
          length inbox0 = MaxPacketSize \<and> length buffer0 = MaxPacketSize)) \<and>
     sending w = (\<lambda>_ _. None) \<and> offered w = [] \<and> transmitted w = [] \<and> received_mail w = (\<lambda>_ _. [])"

section \<open>The receiving side is a device with one slot\<close>

text \<open>A packet that \<open>PostOffice::Send\<close> has built for a box below \<open>nb\<close>.\<close>

definition mail_packet :: "int \<Rightarrow> PacketHeader \<times> byte list \<Rightarrow> bool" where
  "mail_packet nb p \<longleftrightarrow> (let m = bytes_to_mail (snd p) in
     unat (packet_length (fst p)) = MailHeaderSize + unat (mail_length m) \<and> length (snd p) = MailHeaderSize + unat (mail_length m) \<and>
     unat (mail_length m) \<le> MaxMailSize \<and> 0 \<le> to_box m \<and> to_box m < nb)"

definition packet_of :: "byte list \<Rightarrow> PacketHeader \<times> byte list" where
  "packet_of d = (bytes_to_header d, packet_data (bytes_to_header d) (drop PacketHeaderSize d))"

type_synonym receiver = "byte list list \<times> Network \<times> PostOffice"

definition recv_slot :: "receiver \<Rightarrow> (PacketHeader \<times> byte list) option" where
  "recv_slot s = (case s of (sock, n, po) \<Rightarrow>
     if packet_length (inHdr n) = 0 then None else Some (inHdr n, packet_data (inHdr n) (inbox n)))"

definition recv_ok :: "receiver \<Rightarrow> bool" where
  "recv_ok s \<longleftrightarrow> (case s of (sock, n, po) \<Rightarrow> length (inbox n) = MaxPacketSize \<and> length (worker_buffer po) = MaxPacketSize \<and>
     (\<forall>d \<in> set sock. wire_ok d \<and> to_machine (bytes_to_header d) = ident n \<and> mail_packet (numBoxes po) (packet_of d)) \<and>
     (\<forall>p. recv_slot s = Some p \<longrightarrow> mail_packet (numBoxes po) p))"

definition recv_poll :: "receiver \<Rightarrow> receiver res" where
  "recv_poll s = (case s of (sock, n, po) \<Rightarrow> CheckPktAvail IncomingPacket sock n po)"

definition recv_grab :: "receiver \<Rightarrow> ((PacketHeader \<times> byte list) \<times> receiver) res" where
  "recv_grab s = (case s of (sock, n, po) \<Rightarrow> rbind (Net_Receive (worker_buffer po) n) (\<lambda>(h, d, n').
     Inr ((h, packet_data h d), (sock, n', po\<lparr>messageAvailable := messageAvailable po - 1, worker_buffer := d\<rparr>))))"

lemma recv_poll_next:
  assumes "recv_ok (d # ds, n, po)" "packet_length (inHdr n) = 0"
  shows "\<exists>s'. recv_poll (d # ds, n, po) = Inr s' \<and> recv_ok s' \<and> recv_slot s' = Some (packet_of d) \<and> map packet_of (fst s') = map packet_of ds \<and>
    messageAvailable (snd (snd s')) = Suc (messageAvailable po)"
proof -
  let ?po = "po\<lparr>messageAvailable := Suc (messageAvailable po)\<rparr>"
  have d: "wire_ok d" "to_machine (bytes_to_header d) = ident n" "mail_packet (numBoxes po) (packet_of d)" "length (inbox n) = MaxPacketSize"
    using assms by (auto simp: recv_ok_def)
  obtain n' where "CheckPktAvail IncomingPacket (d # ds) n po = Inr (ds, n', ?po)"
    "inHdr n' = bytes_to_header d" "packet_data (inHdr n') (inbox n') = packet_data (inHdr n') (drop PacketHeaderSize d)"
    "length (inbox n') = MaxPacketSize" "ident n' = ident n"
    by (rule CheckPktAvail_packet [OF assms(2) d(1,2,4), of IncomingPacket po ?po ds]) (simp add: IncomingPacket_def)
  then show ?thesis using assms(1) d
    by (auto simp: recv_poll_def recv_ok_def recv_slot_def packet_of_def wire_ok_def)
qed

lemma recv_grab_slot:
  assumes "recv_ok (sock, n, po)" "recv_slot (sock, n, po) = Some p"
  shows "\<exists>d n' po'. Net_Receive (worker_buffer po) n = Inr (fst p, d, n') \<and> packet_data (fst p) d = snd p \<and> length d = MaxPacketSize \<and>
    n' = n\<lparr>inHdr := (inHdr n)\<lparr>packet_length := 0\<rparr>\<rparr> \<and>
    po' = po\<lparr>messageAvailable := messageAvailable po - 1, worker_buffer := d\<rparr> \<and>
    recv_grab (sock, n, po) = Inr (p, (sock, n', po')) \<and> recv_ok (sock, n', po') \<and> recv_slot (sock, n', po') = None"
proof -
  have p: "p = (inHdr n, packet_data (inHdr n) (inbox n))" "packet_length (inHdr n) \<noteq> 0" using assms(2) by (auto simp: recv_slot_def split: if_splits)
  have ok: "length (inbox n) = MaxPacketSize" "length (worker_buffer po) = MaxPacketSize" "mail_packet (numBoxes po) p"
    using assms by (auto simp: recv_ok_def)
  have "unat (packet_length (inHdr n)) \<le> MaxPacketSize" using ok(3) p(1) by (auto simp: mail_packet_def Let_def mail_sizes wire_sizes)
  from Net_Receive_packet [OF p(2) this ok(1,2)] obtain d where
    "Net_Receive (worker_buffer po) n = Inr (inHdr n, d, n\<lparr>inHdr := (inHdr n)\<lparr>packet_length := 0\<rparr>\<rparr>)"
    "length d = MaxPacketSize" "packet_data (inHdr n) d = packet_data (inHdr n) (inbox n)" by blast
  then show ?thesis using p assms(1) by (auto simp: recv_grab_def recv_ok_def recv_slot_def)
qed

interpretation receiver: one_slot_device recv_ok recv_slot "\<lambda>s. map packet_of (fst s)" "\<lambda>s. messageAvailable (snd (snd s))" recv_poll recv_grab
proof
  fix s :: receiver and p assume s: "recv_ok s" "recv_slot s = Some p"
  obtain sock n po where e: "s = (sock, n, po)" by (cases s)
  have "packet_length (inHdr n) \<noteq> 0" using s(2) by (auto simp: e recv_slot_def split: if_splits)
  then show "\<exists>s'. recv_poll s = Inr s' \<and> recv_ok s' \<and> recv_slot s' = Some p \<and> map packet_of (fst s') = map packet_of (fst s) \<and>
      messageAvailable (snd (snd s')) = messageAvailable (snd (snd s))"
    using s by (auto simp: e recv_poll_def CheckPktAvail_buffered recv_ok_def recv_slot_def)
next
  fix s :: receiver assume s: "recv_ok s" "recv_slot s = None" "map packet_of (fst s) = []"
  then show "\<exists>s'. recv_poll s = Inr s' \<and> recv_ok s' \<and> recv_slot s' = None \<and> map packet_of (fst s') = [] \<and>
      messageAvailable (snd (snd s')) = messageAvailable (snd (snd s))"
    by (cases s) (auto simp: recv_poll_def CheckPktAvail_empty recv_ok_def recv_slot_def split: if_splits)
next
  fix s :: receiver and p ps assume s: "recv_ok s" "recv_slot s = None" "map packet_of (fst s) = p # ps"
  then obtain d ds n po where "s = (d # ds, n, po)" "p = packet_of d" "ps = map packet_of ds" by (cases s) auto
  then show "\<exists>s'. recv_poll s = Inr s' \<and> recv_ok s' \<and> recv_slot s' = Some p \<and> map packet_of (fst s') = ps \<and>
      messageAvailable (snd (snd s')) = Suc (messageAvailable (snd (snd s)))"
    using recv_poll_next [of d ds n po] s by (auto simp: recv_slot_def split: if_splits)
next
  fix s :: receiver and p k assume s: "recv_ok s" "recv_slot s = Some p" "messageAvailable (snd (snd s)) = Suc k"
  then show "\<exists>s'. recv_grab s = Inr (p, s') \<and> recv_ok s' \<and> recv_slot s' = None \<and> map packet_of (fst s') = map packet_of (fst s) \<and>
      messageAvailable (snd (snd s')) = k"
    by (cases s) (use recv_grab_slot in \<open>fastforce\<close>)
qed

section \<open>Bytes of a message\<close>

lemma bytes_to_word_take: "4 \<le> k \<Longrightarrow> bytes_to_word (take k bs) = bytes_to_word bs"
  by (simp add: bytes_to_word_def)

lemma bytes_to_mail_take: "MailHeaderSize \<le> k \<Longrightarrow> bytes_to_mail (take k bs) = bytes_to_mail bs"
  by (simp add: bytes_to_mail_def bytes_to_int_def bytes_to_word_take drop_take mail_sizes)

lemma mail_roundtrip_bytes:
  assumes "is_int32 (to_box m)" "is_int32 (from_box m)"
  shows "bytes_to_mail (mail_to_bytes m @ bs) = m"
  using assms by (simp add: bytes_to_mail_def mail_to_bytes_def)

lemma length_mail_to_bytes [simp]: "length (mail_to_bytes m) = MailHeaderSize"
  by (simp add: mail_to_bytes_def mail_sizes)

lemma open_packet_take:
  assumes "MailHeaderSize + unat (mail_length (bytes_to_mail bs)) \<le> k"
  shows "open_packet (h, take k bs) = open_packet (h, bs)"
  using assms by (simp add: open_packet_def bytes_to_mail_take drop_take min_def)

text \<open>The packet that \<open>Send\<close> builds carries the message of the caller.\<close>

lemma send_pack_ok:
  assumes "proper (Send_call t fresh pkt m data) po w" "is_int32 (numBoxes po)"
  obtains pkt' buffer where "send_pack t fresh pkt m data po = Inr (po\<lparr>senders := (senders po)(t \<mapsto> Packed pkt' buffer)\<rparr>)"
    "to_machine pkt' = to_machine pkt" "from_machine pkt' = netAddr po" "length buffer = MaxPacketSize"
    "mail_packet (numBoxes po) (pkt', packet_data pkt' buffer)"
    "open_packet (pkt', buffer) = message (netAddr po) pkt m data"
proof -
  let ?l = "unat (mail_length m)"
  let ?pkt = "pkt\<lparr>from_machine := netAddr po, packet_length := mail_length m + of_nat MailHeaderSize\<rparr>"
  let ?d = "overwrite 0 (take ?l data) (drop MailHeaderSize fresh)"
  let ?b = "mail_to_bytes m @ ?d"
  have a: "length fresh = MaxPacketSize" "0 \<le> to_box m" "to_box m < numBoxes po" "is_int32 (from_box m)" "?l \<le> MaxMailSize" "?l \<le> length data"
    using assms(1) by simp_all
  have fit: "?l \<le> length (drop MailHeaderSize fresh)" using a(1,5) by (simp add: wire_sizes mail_sizes)
  have le: "mail_length m \<le> of_nat MaxMailSize" using a(5) by (simp add: word_le_nat_alt mail_sizes)
  have len: "unat (mail_length m + of_nat MailHeaderSize) = MailHeaderSize + ?l"
    using a(5) by (simp add: unat_word_ariths mail_sizes)
  have box: "is_int32 (to_box m)" using a(2,3) assms(2) by (auto simp: is_int32_def)
  have m: "bytes_to_mail (?b @ bs) = m" for bs using mail_roundtrip_bytes [OF box a(4)] by simp
  have b: "length ?b = MaxPacketSize" using fit a(1) by (simp add: wire_sizes mail_sizes)
  have pl: "unat (packet_length ?pkt) = MailHeaderSize + ?l" using len by simp
  have tm: "bytes_to_mail (packet_data ?pkt ?b) = m" using bytes_to_mail_take [of "MailHeaderSize + ?l" ?b] m [of "[]"] unfolding pl by simp
  have tl: "length (packet_data ?pkt ?b) = MailHeaderSize + ?l" unfolding pl length_take b using a(5) by (simp add: wire_sizes mail_sizes)
  have "mail_packet (numBoxes po) (?pkt, packet_data ?pkt ?b)"
    unfolding mail_packet_def Let_def fst_conv snd_conv pl tm [unfolded pl] tl [unfolded pl] using a(2,3,5) by blast
  moreover have "open_packet (?pkt, ?b) = message (netAddr po) pkt m data"
    using m [of "[]"] fit a(6) by (simp add: open_packet_def message_def)
  moreover have "send_pack t fresh pkt m data po = Inr (po\<lparr>senders := (senders po)(t \<mapsto> Packed ?pkt ?b)\<rparr>)"
    using a fit le by (simp add: send_pack_def Let_def)
  ultimately show thesis using b by (intro that) simp_all
qed

section \<open>The invariant of the world\<close>

abbreviation in_box :: "int \<Rightarrow> envelope \<Rightarrow> bool" where
  "in_box x e \<equiv> to_box (fst (snd e)) = x"

definition addressed :: "int \<Rightarrow> int \<Rightarrow> envelope list \<Rightarrow> envelope list" where
  "addressed a x es = filter (\<lambda>e. to_machine (fst e) = a \<and> in_box x e) es"

text \<open>The messages for box \<open>x\<close> that a machine has and no thread has received.\<close>

definition in_hand :: "receiver \<Rightarrow> int \<Rightarrow> envelope list" where
  "in_hand s x = map mail_envelope (boxes (snd (snd s)) ! nat x) @ filter (in_box x) (map open_packet (receiver.waiting s))"

definition sends_due :: "Network \<Rightarrow> nat" where
  "sends_due n = count (image_mset snd (mset (net_pending n))) NetworkSendDone"

definition mail_ok :: "Mail \<Rightarrow> bool" where
  "mail_ok m \<longleftrightarrow> unat (mail_length (mailHdr m)) \<le> MaxMailSize \<and> length (mail_data m) = MaxMailSize"

definition post_ok :: "int \<Rightarrow> int set \<Rightarrow> int \<Rightarrow> Network \<Rightarrow> PostOffice \<Rightarrow> bool" where
  "post_ok nb A a n po \<longleftrightarrow> ident n = a \<and> netAddr po = a \<and> numBoxes po = nb \<and> length (boxes po) = nat nb \<and> \<not> sendBusy n \<and>
     (\<forall>box \<in> set (boxes po). \<forall>m \<in> set box. mail_ok m) \<and>
     (\<forall>t. senders po t = Some Sent \<longleftrightarrow> sendLock po = Some t) \<and>
     messageSent po + sends_due n = (if sendLock po = None then 0 else 1) \<and>
     (\<forall>t pkt buffer. senders po t = Some (Packed pkt buffer) \<longrightarrow> from_machine pkt = a \<and> to_machine pkt \<in> A \<and>
        length buffer = MaxPacketSize \<and> mail_packet nb (pkt, packet_data pkt buffer))"

definition node_ok :: "int \<Rightarrow> World \<Rightarrow> int \<Rightarrow> receiver \<Rightarrow> bool" where
  "node_ok nb w a s \<longleftrightarrow> post_ok nb (dom (machines w)) a (fst (snd s)) (snd (snd s)) \<and> receiver.balanced s \<and>
     (\<forall>x. 0 \<le> x \<and> x < nb \<longrightarrow> addressed a x (transmitted w) = received_mail w a x @ in_hand s x)"

definition reliable :: "World \<Rightarrow> bool" where
  "reliable w \<longleftrightarrow> (\<forall>a st. machines w a = Some st \<longrightarrow> chanceToWork (fst st) = 1)"

definition world_ok :: "int \<Rightarrow> World \<Rightarrow> bool" where
  "world_ok nb w \<longleftrightarrow> is_int32 nb \<and> (\<forall>a \<in> dom (machines w). is_int32 a) \<and> dom (sockets w) = dom (machines w) \<and>
     (\<forall>a n po sock. machines w a = Some (n, po) \<longrightarrow> sockets w a = Some sock \<longrightarrow> node_ok nb w a (sock, n, po)) \<and>
     subseq (transmitted w) (offered w) \<and> (reliable w \<longrightarrow> transmitted w = offered w)"

text \<open>A packet that waits for the network carries the message of the thread that is sending it.\<close>

definition calls_ok :: "World \<Rightarrow> bool" where
  "calls_ok w \<longleftrightarrow> (\<forall>a n po t pkt buffer. machines w a = Some (n, po) \<longrightarrow> senders po t = Some (Packed pkt buffer) \<longrightarrow>
     sending w a t = Some (open_packet (pkt, buffer)))"

lemma world_ok_sending [simp]: "world_ok nb (w\<lparr>sending := s\<rparr>) = world_ok nb w"
  by (simp add: world_ok_def node_ok_def reliable_def)

text \<open>A change on one machine that keeps the messages it has.\<close>

definition update :: "int \<Rightarrow> receiver \<Rightarrow> World \<Rightarrow> World" where
  "update a s w = w\<lparr>machines := (machines w)(a \<mapsto> snd s), sockets := (sockets w)(a \<mapsto> fst s)\<rparr>"

lemma world_ok_machine: "world_ok nb w \<Longrightarrow> machines w a = Some (n, po) \<Longrightarrow> \<exists>sock. sockets w a = Some sock \<and> node_ok nb w a (sock, n, po)"
  unfolding world_ok_def by (metis domD domI)

lemma world_ok_update:
  assumes w: "world_ok nb w" "machines w a = Some (n, po)" "sockets w a = Some sock"
    and s': "post_ok nb (dom (machines w)) a n' po'" "receiver.balanced (sock', n', po')" "chanceToWork n' = chanceToWork n"
    and r: "\<And>x. 0 \<le> x \<Longrightarrow> x < nb \<Longrightarrow> rs x @ in_hand (sock', n', po') x = received_mail w a x @ in_hand (sock, n, po) x"
  shows "world_ok nb ((update a (sock', n', po') w)\<lparr>received_mail := (received_mail w)(a := rs)\<rparr>)"
proof -
  let ?w = "(update a (sock', n', po') w)\<lparr>received_mail := (received_mail w)(a := rs)\<rparr>"
  have dom: "dom (machines ?w) = dom (machines w)" "dom (sockets ?w) = dom (sockets w)" using w(2,3) by (auto simp: update_def)
  have ok: "node_ok nb w a (sock, n, po)" using w by (auto simp: world_ok_def)
  have "node_ok nb ?w a (sock', n', po')"
    using ok s'(1,2) r dom by (simp add: node_ok_def update_def)
  moreover have "node_ok nb ?w b (q, m, p)" if "machines w b = Some (m, p)" "sockets w b = Some q" "b \<noteq> a" for b q m p
    using that w(1) dom by (simp add: world_ok_def node_ok_def update_def)
  ultimately have "\<forall>b m p q. machines ?w b = Some (m, p) \<longrightarrow> sockets ?w b = Some q \<longrightarrow> node_ok nb ?w b (q, m, p)"
    by (auto simp: update_def)
  moreover have "reliable ?w \<longleftrightarrow> reliable w"
    using w(2) s'(3) unfolding reliable_def update_def by (simp, metis fst_conv option.inject)
  ultimately show ?thesis using w(1) unfolding world_ok_def dom by (simp add: update_def)
qed

text \<open>A packet that the network adds to the socket of machine \<open>b\<close>.\<close>

lemma world_ok_packet:
  assumes w: "world_ok nb w" "machines w b = Some (n, po)" "sockets w b = Some q"
    and d: "wire_ok d" "to_machine (bytes_to_header d) = b" "mail_packet nb (packet_of d)"
  shows "world_ok nb (w\<lparr>sockets := (sockets w)(b \<mapsto> q @ [d]), offered := offered w @ [open_packet (packet_of d)],
    transmitted := transmitted w @ [open_packet (packet_of d)]\<rparr>)"
proof -
  let ?e = "open_packet (packet_of d)"
  let ?w = "w\<lparr>sockets := (sockets w)(b \<mapsto> q @ [d]), offered := offered w @ [?e], transmitted := transmitted w @ [?e]\<rparr>"
  have dom: "dom (sockets ?w) = dom (sockets w)" using w(3) by auto
  have e: "to_machine (fst ?e) = b" "0 \<le> to_box (fst (snd ?e))" "to_box (fst (snd ?e)) < nb"
    using d by (auto simp: open_packet_def packet_of_def mail_packet_def Let_def)
  have ok: "node_ok nb w b (q, n, po)" using w by (auto simp: world_ok_def)
  then have bal: "receiver.balanced (q, n, po)" "ident n = b" "numBoxes po = nb" by (auto simp: node_ok_def post_ok_def)
  have slot: "recv_slot (q @ [d], n, po) = recv_slot (q, n, po)" by (simp add: recv_slot_def)
  then have "receiver.balanced (q @ [d], n, po)"
    using bal d by (auto simp: receiver.balanced_def recv_ok_def)
  moreover have "receiver.waiting (q @ [d], n, po) = receiver.waiting (q, n, po) @ [packet_of d]"
    by (rule receiver.waiting_append [OF slot]) simp
  then have "in_hand (q @ [d], n, po) x = in_hand (q, n, po) x @ filter (in_box x) [?e]" for x by (simp add: in_hand_def)
  ultimately have "node_ok nb ?w b (q @ [d], n, po)"
    using ok e by (simp add: node_ok_def addressed_def)
  moreover have "node_ok nb ?w c (r, m, p)" if "machines w c = Some (m, p)" "sockets w c = Some r" "c \<noteq> b" for c r m p
    using that w(1) e(1) by (simp add: world_ok_def node_ok_def addressed_def)
  ultimately have "\<forall>c m p r. machines ?w c = Some (m, p) \<longrightarrow> sockets ?w c = Some r \<longrightarrow> node_ok nb ?w c (r, m, p)"
    using w(2) by auto
  moreover have "reliable ?w \<longleftrightarrow> reliable w" by (simp add: reliable_def)
  ultimately show ?thesis using w(1) unfolding world_ok_def dom by (simp add: subseq_append')
qed

section \<open>Every step keeps the invariant\<close>

lemma update_same: "(update a s w)\<lparr>received_mail := (received_mail w)(a := received_mail w a)\<rparr> = update a s w"
  by (simp add: update_def)

lemma world_ok_local:
  assumes "world_ok nb w" "machines w a = Some (n, po)" "sockets w a = Some sock"
    "post_ok nb (dom (machines w)) a n' po'" "receiver.balanced (sock', n', po')" "chanceToWork n' = chanceToWork n"
    "boxes po' = boxes po" "receiver.waiting (sock', n', po') = receiver.waiting (sock, n, po)"
  shows "world_ok nb (update a (sock', n', po') w)"
proof -
  let ?s = "(sock', n', po')"
  have "in_hand ?s x = in_hand (sock, n, po) x" for x using assms(7,8) by (simp add: in_hand_def)
  then have "world_ok nb ((update a ?s w)\<lparr>received_mail := (received_mail w)(a := received_mail w a)\<rparr>)"
    using assms by (intro world_ok_update [where n = n and po = po and sock = sock]) simp_all
  then show ?thesis unfolding update_same .
qed

lemma put_machine_update: "sockets w a = Some sock \<Longrightarrow> put_machine a (n, po) w = update a (sock, n, po) w"
  by (simp add: put_machine_def update_def fun_upd_idem)

lemma sends_due_simps [simp]:
  "sends_due (net_Schedule NetworkReadPoll n) = sends_due n" "sends_due (net_Schedule NetworkSendDone n) = Suc (sends_due n)"
  "sends_due (snd (net_Random n)) = sends_due n"
  by (simp_all add: sends_due_def net_Schedule_def)

text \<open>The receiving side depends on some of the fields only.\<close>

lemma receiver_cong:
  assumes "ident n' = ident n" "inHdr n' = inHdr n" "inbox n' = inbox n"
    "messageAvailable po' = messageAvailable po" "worker_buffer po' = worker_buffer po" "numBoxes po' = numBoxes po"
  shows "receiver.balanced (sock, n', po') = receiver.balanced (sock, n, po)" "receiver.waiting (sock, n', po') = receiver.waiting (sock, n, po)"
proof -
  have "recv_slot (sock, n', po') = recv_slot (sock, n, po)" by (simp add: recv_slot_def assms)
  then show "receiver.balanced (sock, n', po') = receiver.balanced (sock, n, po)" "receiver.waiting (sock, n', po') = receiver.waiting (sock, n, po)"
    by (simp_all add: receiver.balanced_def receiver.waiting_def recv_ok_def assms split: option.split)
qed

lemma post_ok_poll:
  assumes "post_ok nb A a n po" "ident n' = ident n" "sendBusy n' = sendBusy n" "sends_due n' = sends_due n"
  shows "post_ok nb A a n' (po\<lparr>messageAvailable := k\<rparr>)"
  using assms by (simp add: post_ok_def)

text \<open>What \<open>CheckPktAvail\<close> leaves alone.\<close>

lemma CheckPktAvail_frame:
  assumes "CheckPktAvail IncomingPacket sock n po = Inr (sock', n', po')"
  shows "ident n' = ident n \<and> sendBusy n' = sendBusy n \<and> chanceToWork n' = chanceToWork n \<and>
    sends_due n' = sends_due n \<and> po' = po\<lparr>messageAvailable := messageAvailable po'\<rparr>"
proof -
  have "net_pending n' = net_pending (net_Schedule NetworkReadPoll n) \<Longrightarrow> sends_due n' = sends_due n"
    using sends_due_simps(1) [of n] by (simp add: sends_due_def)
  then show ?thesis using assms
    by (auto simp: CheckPktAvail_def Let_def rbind_eq_Inr_iff ASSERT_eq_Inr_iff IncomingPacket_def net_Schedule_def split: if_splits)
qed

lemma post_here:
  assumes "world_ok nb w" "machines w a = Some (n, po)" "sockets w a = Some sock"
  shows "post_ok nb (dom (machines w)) a n po" "receiver.balanced (sock, n, po)"
  using assms by (auto simp: world_ok_def node_ok_def)

text \<open>A step that does not touch the receiving side.\<close>

lemma world_ok_sender:
  assumes w: "world_ok nb w" "machines w a = Some (n, po)"
    and s: "post_ok nb (dom (machines w)) a n po \<Longrightarrow> post_ok nb (dom (machines w)) a n' po'"
      "ident n' = ident n" "inHdr n' = inHdr n" "inbox n' = inbox n" "chanceToWork n' = chanceToWork n"
      "messageAvailable po' = messageAvailable po" "worker_buffer po' = worker_buffer po" "numBoxes po' = numBoxes po" "boxes po' = boxes po"
  shows "world_ok nb (put_machine a (n', po') w)"
proof -
  obtain sock where sock: "sockets w a = Some sock" using world_ok_machine [OF w] by blast
  note cong = receiver_cong [OF s(2-4) s(6-8), of sock]
  show ?thesis unfolding put_machine_update [OF sock]
    using s post_here [OF w sock] cong by (intro world_ok_local [OF w sock]) simp_all
qed

lemma poll_step_ok:
  assumes w: "world_ok nb w" "machines w a = Some (n, po)" and p: "net_pending n = (t, NetworkReadPoll) # rest"
  shows "\<exists>w'. perform a Fire n po w = Inr w' \<and> world_ok nb w'"
proof -
  let ?n = "n\<lparr>net_pending := rest\<rparr>"
  obtain sock where sock: "sockets w a = Some sock" using world_ok_machine [OF w] by blast
  note here = post_here [OF w sock]
  have cong: "receiver.balanced (sock, ?n, po) = receiver.balanced (sock, n, po)" "receiver.waiting (sock, ?n, po) = receiver.waiting (sock, n, po)"
    by (rule receiver_cong; simp)+
  obtain s' where s': "recv_poll (sock, ?n, po) = Inr s'" "receiver.balanced s'" "receiver.waiting s' = receiver.waiting (sock, ?n, po)"
    using receiver.poll_keeps here(2) cong(1) by blast
  obtain sock' n' po' where e: "s' = (sock', n', po')" by (cases s')
  have c: "CheckPktAvail IncomingPacket sock ?n po = Inr (sock', n', po')" using s'(1) by (simp add: recv_poll_def e)
  note f = CheckPktAvail_frame [OF c]
  have "sends_due ?n = sends_due n" using p by (simp add: sends_due_def)
  then have "post_ok nb (dom (machines w)) a n' (po\<lparr>messageAvailable := messageAvailable po'\<rparr>)"
    using f by (intro post_ok_poll [OF here(1)]) simp_all
  then have "post_ok nb (dom (machines w)) a n' po'" using f by simp
  moreover have "boxes po' = boxes po" using f by (metis PostOffice.select_convs(3) PostOffice.surjective PostOffice.update_convs(4))
  ultimately have "world_ok nb (update a (sock', n', po') w)"
    using s' e cong(2) f by (intro world_ok_local [OF w sock]) simp_all
  then show ?thesis using c by (simp add: p sock update_def put_machine_def)
qed

lemma send_done_ok:
  assumes w: "world_ok nb w" "machines w a = Some (n, po)" and p: "net_pending n = (t, NetworkSendDone) # rest"
  shows "\<exists>w'. perform a Fire n po w = Inr w' \<and> world_ok nb w'"
proof -
  have "sends_due n = Suc (sends_due (n\<lparr>net_pending := rest\<rparr>))" by (simp add: sends_due_def p)
  then have "world_ok nb (put_machine a (n\<lparr>net_pending := rest, sendBusy := False, numPacketsSent := numPacketsSent n + 1\<rparr>,
      po\<lparr>messageSent := Suc (messageSent po)\<rparr>) w)"
    by (intro world_ok_sender [OF w]) (auto simp: post_ok_def sends_due_def)
  then show ?thesis by (simp add: p SendDone_def PacketSent_def)
qed

lemma send_call_ok:
  assumes w: "world_ok nb w" "machines w a = Some (n, po)" and p: "proper (Send_call t fresh pkt m data) po w" "senders po t = None"
  shows "\<exists>w'. perform a (Send_call t fresh pkt m data) n po w = Inr w' \<and> world_ok nb w'"
proof -
  obtain sock where sock: "sockets w a = Some sock" using world_ok_machine [OF w] by blast
  have nb: "numBoxes po = nb" "netAddr po = a" "is_int32 nb" "sendLock po \<noteq> Some t"
    using post_here(1) [OF w sock] w(1) p(2) unfolding post_ok_def world_ok_def by (metis option.distinct(1))+
  obtain pkt' buffer where s: "send_pack t fresh pkt m data po = Inr (po\<lparr>senders := (senders po)(t \<mapsto> Packed pkt' buffer)\<rparr>)"
    "to_machine pkt' = to_machine pkt" "from_machine pkt' = netAddr po" "length buffer = MaxPacketSize"
    "mail_packet (numBoxes po) (pkt', packet_data pkt' buffer)"
    using send_pack_ok [OF p(1)] nb(1,3) by metis
  have "world_ok nb (put_machine a (n, po\<lparr>senders := (senders po)(t \<mapsto> Packed pkt' buffer)\<rparr>) w)"
    using s nb p by (intro world_ok_sender [OF w]) (auto simp: post_ok_def)
  then show ?thesis using s(1) by simp
qed

lemma send_return_ok:
  assumes w: "world_ok nb w" "machines w a = Some (n, po)" and b: "\<not> blocked (Send_return t) n po"
  shows "\<exists>w'. perform a (Send_return t) n po w = Inr w' \<and> world_ok nb w'"
proof -
  obtain sock where sock: "sockets w a = Some sock" using world_ok_machine [OF w] by blast
  have t: "senders po t = Some Sent" "0 < messageSent po" "sendLock po = Some t"
    using b post_here(1) [OF w sock] by (auto simp: post_ok_def)
  have "world_ok nb (put_machine a (n, po\<lparr>messageSent := messageSent po - 1, sendLock := None, senders := (senders po)(t := None)\<rparr>) w)"
    using t by (intro world_ok_sender [OF w]) (auto simp: post_ok_def)
  then show ?thesis using t(3) by (simp add: send_finish_def)
qed

text \<open>A round of the postal worker puts the message of the packet into its box.\<close>

lemma PostalDelivery_ok:
  assumes ok: "recv_ok (sock, n, po)" "recv_slot (sock, n, po) = Some p" "length (boxes po) = nat (numBoxes po)" "length fresh = MaxMailSize"
  obtains mail n' d where
    "PostalDelivery fresh n po = Inr (n', po\<lparr>messageAvailable := messageAvailable po - 1, worker_buffer := d,
       boxes := (boxes po)[nat (to_box (mailHdr mail)) := boxes po ! nat (to_box (mailHdr mail)) @ [mail]]\<rparr>)"
    "recv_grab (sock, n, po) = Inr (p, (sock, n', po\<lparr>messageAvailable := messageAvailable po - 1, worker_buffer := d\<rparr>))"
    "n' = n\<lparr>inHdr := (inHdr n)\<lparr>packet_length := 0\<rparr>\<rparr>" "mail_envelope mail = open_packet p" "mail_ok mail"
    "0 \<le> to_box (mailHdr mail)" "to_box (mailHdr mail) < numBoxes po"
proof -
  obtain d n' where r: "Net_Receive (worker_buffer po) n = Inr (fst p, d, n')" "packet_data (fst p) d = snd p" "length d = MaxPacketSize"
    "n' = n\<lparr>inHdr := (inHdr n)\<lparr>packet_length := 0\<rparr>\<rparr>"
    "recv_grab (sock, n, po) = Inr (p, (sock, n', po\<lparr>messageAvailable := messageAvailable po - 1, worker_buffer := d\<rparr>))"
    using recv_grab_slot [OF ok(1,2)] by auto
  have mp: "mail_packet (numBoxes po) p" using ok(1,2) by (auto simp: recv_ok_def)
  let ?m = "bytes_to_mail d" and ?l = "unat (mail_length (bytes_to_mail d))"
  have m: "bytes_to_mail (snd p) = ?m"
    using mp unfolding r(2) [symmetric] by (intro bytes_to_mail_take) (simp add: mail_packet_def Let_def)
  then have k: "unat (packet_length (fst p)) = MailHeaderSize + ?l" "?l \<le> MaxMailSize" "0 \<le> to_box ?m" "to_box ?m < numBoxes po" "mail_length ?m \<le> of_nat MaxMailSize"
    using mp by (simp_all add: mail_packet_def Let_def word_le_nat_alt mail_sizes)
  let ?mail = "\<lparr>pktHdr = fst p, mailHdr = ?m, mail_data = overwrite 0 (take ?l (drop MailHeaderSize d)) fresh\<rparr>"
  have fit: "?l \<le> length (drop MailHeaderSize d)" "?l \<le> length fresh" using k(2) r(3) ok(4) by (simp_all add: wire_sizes mail_sizes)
  have "open_packet (fst p, take (MailHeaderSize + ?l) d) = open_packet (fst p, d)" by (rule open_packet_take) simp
  then have "open_packet p = open_packet (fst p, d)" using r(2) k(1) by (metis prod.collapse)
  then have "mail_envelope ?mail = open_packet p" using fit by (auto simp: open_packet_def mail_envelope_def)
  moreover have "mail_ok ?mail" using k(2) fit ok(4) by (simp add: mail_ok_def)
  ultimately show thesis
    using r k ok(3) fit by (intro that [where mail = ?mail and n' = n' and d = d]) (simp_all add: PostalDelivery_def Let_def Put_def Mail_new_def)
qed

lemma deliver_ok:
  assumes w: "world_ok nb w" "machines w a = Some (n, po)" and b: "0 < messageAvailable po" and f: "length fresh = MaxMailSize"
  shows "\<exists>w'. perform a (Deliver fresh) n po w = Inr w' \<and> world_ok nb w'"
proof -
  obtain sock where sock: "sockets w a = Some sock" using world_ok_machine [OF w] by blast
  note here = post_here [OF w sock]
  have nb: "numBoxes po = nb" "length (boxes po) = nat nb" using here(1) by (simp_all add: post_ok_def)
  obtain p s' where g: "recv_grab (sock, n, po) = Inr (p, s')" "receiver.balanced s'"
    "receiver.waiting (sock, n, po) = p # receiver.waiting s'" "recv_slot (sock, n, po) = Some p"
    by (rule receiver.grab_next [OF here(2)]) (use b in simp_all)
  have rok: "recv_ok (sock, n, po)" using here(2) by (simp add: receiver.balanced_def)
  obtain mail n' d where r: "PostalDelivery fresh n po = Inr (n', po\<lparr>messageAvailable := messageAvailable po - 1, worker_buffer := d,
       boxes := (boxes po)[nat (to_box (mailHdr mail)) := boxes po ! nat (to_box (mailHdr mail)) @ [mail]]\<rparr>)"
    "recv_grab (sock, n, po) = Inr (p, (sock, n', po\<lparr>messageAvailable := messageAvailable po - 1, worker_buffer := d\<rparr>))"
    "n' = n\<lparr>inHdr := (inHdr n)\<lparr>packet_length := 0\<rparr>\<rparr>" "mail_envelope mail = open_packet p" "mail_ok mail"
    "0 \<le> to_box (mailHdr mail)" "to_box (mailHdr mail) < numBoxes po"
    by (rule PostalDelivery_ok [OF rok g(4) _ f]) (use nb in simp_all)
  let ?b = "nat (to_box (mailHdr mail))"
  let ?bs = "(boxes po)[?b := boxes po ! ?b @ [mail]]"
  let ?po = "po\<lparr>messageAvailable := messageAvailable po - 1, worker_buffer := d, boxes := ?bs\<rparr>"
  have mails: "\<forall>box \<in> set (boxes po). \<forall>m \<in> set box. mail_ok m" using here(1) by (simp add: post_ok_def)
  moreover have "boxes po ! ?b \<in> set (boxes po)" using r(6,7) nb by (intro nth_mem) simp
  ultimately have "\<forall>box \<in> set ?bs. \<forall>m \<in> set box. mail_ok m"
    using r(5) set_update_subset_insert [of "boxes po" ?b "boxes po ! ?b @ [mail]"] by fastforce
  then have ok: "post_ok nb (dom (machines w)) a n' ?po" using here(1) r(3) by (simp add: post_ok_def sends_due_def)
  have c: "receiver.balanced (sock, n', ?po) = receiver.balanced s'" "receiver.waiting (sock, n', ?po) = receiver.waiting s'"
    using g(1) r(2) receiver_cong [of n' n' ?po "snd (snd s')" sock] by auto
  have env: "in_box x (open_packet p) \<longleftrightarrow> to_box (mailHdr mail) = x" for x using r(4) by (metis fst_conv mail_envelope_def snd_conv)
  have hand: "in_hand (sock, n', ?po) x = in_hand (sock, n, po) x" if x: "0 \<le> x" "x < nb" for x
    using x g(3) c(2) r(4,6,7) nb env [of x] by (cases "x = to_box (mailHdr mail)") (simp_all add: in_hand_def nth_list_update)
  have "world_ok nb ((update a (sock, n', ?po) w)\<lparr>received_mail := (received_mail w)(a := received_mail w a)\<rparr>)"
    using ok g(2) r(3) c(1) hand by (intro world_ok_update [OF w sock]) simp_all
  then show ?thesis using r(1) unfolding update_same by (simp add: put_machine_update [OF sock])
qed

lemma receive_ok:
  assumes w: "world_ok nb w" "machines w a = Some (n, po)" and b: "\<not> blocked (Receive_call x data) n po" "proper (Receive_call x data) po w"
  shows "\<exists>w'. perform a (Receive_call x data) n po w = Inr w' \<and> world_ok nb w'"
proof -
  obtain sock where sock: "sockets w a = Some sock" using world_ok_machine [OF w] by blast
  note here = post_here [OF w sock]
  have nb: "numBoxes po = nb" "length (boxes po) = nat nb" "\<forall>box \<in> set (boxes po). \<forall>m \<in> set box. mail_ok m"
    using here(1) by (simp_all add: post_ok_def)
  have x: "0 \<le> x" "x < nb" "nat x < length (boxes po)" "length data = MaxMailSize" using b(2) nb by auto
  then obtain mail rest where box: "boxes po ! nat x = mail # rest" using b(1) by (auto simp: neq_Nil_conv)
  have "boxes po ! nat x \<in> set (boxes po)" using x(3) by simp
  then have mail: "mail_ok mail" "\<forall>m \<in> set rest. mail_ok m" using nb(3) box by fastforce+
  let ?l = "unat (mail_length (mailHdr mail))"
  let ?bs = "(boxes po)[nat x := rest]"
  let ?po = "po\<lparr>boxes := ?bs\<rparr>"
  have l: "mail_length (mailHdr mail) \<le> of_nat MaxMailSize" "?l \<le> length (mail_data mail)" "?l \<le> length data"
    using mail(1) x(4) by (simp_all add: mail_ok_def word_le_nat_alt mail_sizes)
  have r: "PO_Receive x data po = Inr (mail, overwrite 0 (take ?l (mail_data mail)) data, ?po)"
    using x nb l box by (simp add: PO_Receive_def Get_def)
  have "\<forall>box \<in> set ?bs. \<forall>m \<in> set box. mail_ok m" using mail(2) nb(3) set_update_subset_insert [of "boxes po" "nat x" rest] by blast
  then have ok: "post_ok nb (dom (machines w)) a n ?po" using here(1) by (simp add: post_ok_def)
  have c: "receiver.balanced (sock, n, ?po) = receiver.balanced (sock, n, po)" "receiver.waiting (sock, n, ?po) = receiver.waiting (sock, n, po)"
    by (rule receiver_cong; simp)+
  let ?rs = "(received_mail w a)(x := received_mail w a x @ [mail_envelope mail])"
  have "?rs y @ in_hand (sock, n, ?po) y = received_mail w a y @ in_hand (sock, n, po) y" if "0 \<le> y" "y < nb" for y
    using that x box c(2) by (cases "y = x") (simp_all add: in_hand_def)
  then have "world_ok nb ((update a (sock, n, ?po) w)\<lparr>received_mail := (received_mail w)(a := ?rs)\<rparr>)"
    using ok here(2) c(1) by (intro world_ok_update [OF w sock]) simp_all
  then show ?thesis using r l by (simp add: put_machine_update [OF sock] mail_envelope_def)
qed

text \<open>A packet that is lost changes the history only.\<close>

lemma world_ok_lost:
  assumes "world_ok nb w" "\<not> reliable w"
  shows "world_ok nb (w\<lparr>offered := offered w @ [e]\<rparr>)"
proof -
  let ?w = "w\<lparr>offered := offered w @ [e]\<rparr>"
  have "node_ok nb ?w a s = node_ok nb w a s" for a s by (simp add: node_ok_def)
  moreover have "subseq (transmitted w) (offered w @ [e])" using assms(1) by (auto simp: world_ok_def intro: subseq_order.order_trans)
  ultimately show ?thesis using assms by (simp add: world_ok_def reliable_def)
qed

lemma send_packet_ok:
  assumes w: "world_ok nb w" "machines w a = Some (n, po)" and b: "\<not> blocked (Send_packet t fresh) n po" "length fresh = MaxWireSize"
    and c: "calls_ok w"
  shows "\<exists>w'. perform a (Send_packet t fresh) n po w = Inr w' \<and> world_ok nb w'"
proof -
  obtain sock where sock: "sockets w a = Some sock" using world_ok_machine [OF w] by blast
  note here = post_here [OF w sock]
  obtain pkt buffer where t: "senders po t = Some (Packed pkt buffer)" "sendLock po = None"
    using b(1) by (auto split: option.splits Sending.splits)
  have sd: "sending w a t = Some (open_packet (pkt, buffer))" using c w(2) t(1) by (simp add: calls_ok_def)
  have pk: "from_machine pkt = a" "to_machine pkt \<in> dom (machines w)" "length buffer = MaxPacketSize" "mail_packet nb (pkt, packet_data pkt buffer)"
    and n: "ident n = a" "\<not> sendBusy n" using here(1) t(1) unfolding post_ok_def by blast+
  obtain nb' pob q where b': "machines w (to_machine pkt) = Some (nb', pob)" "sockets w (to_machine pkt) = Some q"
    using pk(2) w(1) unfolding world_ok_def by (metis domD prod.collapse)
  have i32: "is_int32 (to_machine pkt)" "is_int32 (from_machine pkt)" using w pk(1,2) by (auto simp: world_ok_def)
  have len: "0 < packet_length pkt" "unat (packet_length pkt) \<le> MaxPacketSize" "unat (packet_length pkt) \<le> length buffer"
    using pk(3,4) by (auto simp: mail_packet_def Let_def mail_sizes wire_sizes word_greater_zero_iff)
  let ?n = "snd (net_Random (net_Schedule NetworkSendDone n))"
  let ?po = "po\<lparr>sendLock := Some t, senders := (senders po)(t \<mapsto> Sent)\<rparr>"
  let ?w = "put_machine a (?n, ?po) w"
  have w1: "world_ok nb ?w" using t by (intro world_ok_sender [OF w]) (auto simp: post_ok_def)
  have "from_machine pkt = ident n" using pk(1) n(1) by simp
  note sending = Net_Send_cases [of n pkt "sockets w" q fresh buffer, OF n(2) len(1,2) this i32 b'(2) b(2) len(3)]
  show ?thesis
  proof (rule sending)
    fix n' assume l: "n' = ?n" "lost (fst (net_Random (net_Schedule NetworkSendDone n))) n" "Net_Send fresh pkt buffer (sockets w) n = Inr (sockets w, n')"
    have "chanceToWork n \<noteq> 1" using l(2) reliable_loses_nothing by blast
    then have "\<not> reliable ?w" by (auto simp: reliable_def put_machine_def)
    from world_ok_lost [OF w1 this] show ?thesis using l t(1) sd by (simp add: send_transmit_def put_machine_def)
  next
    fix n' d assume l: "n' = ?n" "Net_Send fresh pkt buffer (sockets w) n = Inr ((sockets w)(to_machine pkt \<mapsto> q @ [d]), n')"
      "wire_ok d" "bytes_to_header d = pkt" "packet_data pkt (drop PacketHeaderSize d) = packet_data pkt buffer"
    have p: "packet_of d = (pkt, packet_data pkt buffer)" using l(4,5) by (simp add: packet_of_def)
    have "unat (packet_length pkt) = MailHeaderSize + unat (mail_length (bytes_to_mail (packet_data pkt buffer)))"
      using pk(4) by (simp add: mail_packet_def Let_def)
    moreover have "bytes_to_mail (packet_data pkt buffer) = bytes_to_mail buffer" using calculation by (intro bytes_to_mail_take) simp
    ultimately have o: "open_packet (packet_of d) = open_packet (pkt, buffer)" unfolding p by (intro open_packet_take) simp
    obtain m' p' where m': "machines ?w (to_machine pkt) = Some (m', p')" using b'(1) by (fastforce simp: put_machine_def)
    have "world_ok nb (?w\<lparr>sockets := (sockets ?w)(to_machine pkt \<mapsto> q @ [d]), offered := offered ?w @ [open_packet (packet_of d)],
        transmitted := transmitted ?w @ [open_packet (packet_of d)]\<rparr>)"
      using l(3,4) pk(4) p by (intro world_ok_packet [OF w1 m']) (simp_all add: put_machine_def b'(2))
    then show ?thesis unfolding o using l(1,2) t(1) b'(2) sd by (simp add: send_transmit_def put_machine_def Let_def)
  qed
qed

theorem perform_ok:
  assumes "world_ok nb w" "machines w a = Some (n, po)" "\<not> blocked act n po" "proper act po w" "calls_ok w"
  shows "\<exists>w'. perform a act n po w = Inr w' \<and> world_ok nb w'"
proof (cases act)
  case (Advance d)
  have "world_ok nb (put_machine a (n\<lparr>net_now := net_now n + int d\<rparr>, po) w)"
    by (rule world_ok_sender [OF assms(1,2)]) (simp_all add: post_ok_def sends_due_def)
  then show ?thesis using Advance by simp
next
  case Fire
  then obtain t h rest where "net_pending n = (t, h) # rest" using assms(3) by (auto split: list.splits)
  then show ?thesis using Fire poll_step_ok [OF assms(1,2)] send_done_ok [OF assms(1,2)] by (cases h) blast+
qed (use assms send_call_ok send_packet_ok send_return_ok deliver_ok receive_ok in auto)

lemma calls_ok_put:
  assumes "calls_ok w" "machines w a = Some (n, po)"
    "\<And>n' po' t pkt buffer. machines w' a = Some (n', po') \<Longrightarrow> senders po' t = Some (Packed pkt buffer) \<Longrightarrow>
      senders po t = Some (Packed pkt buffer)"
    "\<And>b. b \<noteq> a \<Longrightarrow> machines w' b = machines w b" "sending w' = sending w"
  shows "calls_ok w'"
  unfolding calls_ok_def
proof (intro allI impI)
  fix b n' po' t pkt buffer assume b: "machines w' b = Some (n', po')" "senders po' t = Some (Packed pkt buffer)"
  show "sending w' b t = Some (open_packet (pkt, buffer))"
    using assms b by (cases "b = a") (auto simp: calls_ok_def)
qed

lemma perform_calls:
  assumes w: "world_ok nb w" "calls_ok w" "machines w a = Some (n, po)" and act: "\<not> blocked act n po" "proper act po w"
    and p: "perform a act n po w = Inr w'"
  shows "calls_ok w'"
proof (cases act)
  case (Advance d)
  then show ?thesis using p by (intro calls_ok_put [OF w(2,3)]) (auto simp: put_machine_def)
next
  case Fire
  then obtain t h rest where h: "net_pending n = (t, h) # rest" using act(1) by (auto split: list.splits)
  show ?thesis
  proof (cases h)
    case NetworkReadPoll
    then obtain sock sock' n2 po' where c: "CheckPktAvail IncomingPacket sock (n\<lparr>net_pending := rest\<rparr>) po = Inr (sock', n2, po')"
      "w' = (put_machine a (n2, po') w)\<lparr>sockets := (sockets w)(a \<mapsto> sock')\<rparr>"
      using Fire p h by (auto simp: rbind_eq_Inr_iff Let_def split: option.splits)
    have "senders po' = senders (po\<lparr>messageAvailable := messageAvailable po'\<rparr>)"
      using CheckPktAvail_frame [OF c(1)] by (intro arg_cong [where f = senders]) blast
    then show ?thesis using c(2) by (intro calls_ok_put [OF w(2,3)]) (auto simp: put_machine_def)
  next
    case NetworkSendDone
    then show ?thesis using Fire p h
      by (intro calls_ok_put [OF w(2,3)]) (auto simp: put_machine_def SendDone_def PacketSent_def)
  qed
next
  case (Send_call t fresh pkt m data)
  obtain sock where sock: "sockets w a = Some sock" using world_ok_machine [OF w(1,3)] by blast
  have nb: "numBoxes po = nb" "netAddr po = a" "is_int32 nb"
    using post_here(1) [OF w(1,3) sock] w(1) by (auto simp: post_ok_def world_ok_def)
  obtain pkt' buffer where s: "send_pack t fresh pkt m data po = Inr (po\<lparr>senders := (senders po)(t \<mapsto> Packed pkt' buffer)\<rparr>)"
    "open_packet (pkt', buffer) = message (netAddr po) pkt m data"
    using send_pack_ok [of t fresh pkt m data po w] act(2) nb(1,3) unfolding Send_call by metis
  then have "w' = (put_machine a (n, po\<lparr>senders := (senders po)(t \<mapsto> Packed pkt' buffer)\<rparr>) w)
      \<lparr>sending := (sending w)(a := (sending w a)(t \<mapsto> open_packet (pkt', buffer)))\<rparr>"
    using p nb(2) by (simp add: Send_call)
  then show ?thesis using w(2,3) by (auto simp: calls_ok_def put_machine_def)
next
  case (Send_packet t fresh)
  then show ?thesis using p act(1)
    by (intro calls_ok_put [OF w(2,3)]) (auto simp: put_machine_def send_transmit_def rbind_eq_Inr_iff Let_def split: option.splits Sending.splits if_splits)
next
  case (Send_return t)
  then show ?thesis using p
    by (intro calls_ok_put [OF w(2,3)]) (auto simp: put_machine_def send_finish_def rbind_eq_Inr_iff ASSERT_eq_Inr_iff split: if_splits)
next
  case (Deliver fresh)
  then show ?thesis using p
    by (intro calls_ok_put [OF w(2,3)]) (auto simp: put_machine_def PostalDelivery_def rbind_eq_Inr_iff ASSERT_eq_Inr_iff Let_def split: if_splits)
next
  case (Receive_call x data)
  then show ?thesis using p
    by (intro calls_ok_put [OF w(2,3)]) (auto simp: put_machine_def PO_Receive_def rbind_eq_Inr_iff ASSERT_eq_Inr_iff Let_def split: if_splits)
qed

lemma world_ok_start:
  assumes "post_start nb w"
  shows "world_ok nb w"
proof -
  have "node_ok nb w a ([], n, po)" if "machines w a = Some (n, po)" for a n po
  proof -
    have "a \<in> dom (machines w)" using that by blast
    then obtain rel rnd hdr0 inbox0 buffer0 where "machines w a = Some (PostOffice_new a rel nb rnd hdr0 inbox0 buffer0)"
      "length inbox0 = MaxPacketSize" "length buffer0 = MaxPacketSize"
      using assms unfolding post_start_def by blast
    then have i: "n = Network_new a rel rnd hdr0 inbox0" "numBoxes po = nb" "netAddr po = a" "boxes po = replicate (nat nb) []" "messageAvailable po = 0"
        "messageSent po = 0" "sendLock po = None" "senders po = Map.empty" "length (inbox n) = MaxPacketSize" "length (worker_buffer po) = MaxPacketSize"
      using that by (auto simp: PostOffice_new_def Network_new_def)
    have n: "packet_length (inHdr n) = 0" "\<not> sendBusy n" "ident n = a" "sends_due n = 0"
      unfolding i(1) by (simp_all add: Network_new_def sends_due_def net_Schedule_def)
    have "receiver.balanced ([], n, po)" using i(5,9,10) n(1) by (simp add: receiver.balanced_def recv_ok_def recv_slot_def)
    moreover have "in_hand ([], n, po) x = []" if "0 \<le> x" "x < nb" for x
      using that i(4) n(1) by (simp add: in_hand_def receiver.waiting_def recv_slot_def)
    moreover have "post_ok nb (dom (machines w)) a n po" using i n by (auto simp: post_ok_def)
    ultimately show ?thesis using assms by (simp add: node_ok_def post_start_def addressed_def)
  qed
  moreover have "sock = []" if "sockets w a = Some sock" for a sock
  proof -
    have "dom (sockets w) = dom (machines w)" "\<forall>a \<in> dom (machines w). sockets w a = Some []" using assms unfolding post_start_def by blast+
    then show ?thesis using that by (metis domI option.inject)
  qed
  ultimately have "\<forall>a n po sock. machines w a = Some (n, po) \<longrightarrow> sockets w a = Some sock \<longrightarrow> node_ok nb w a (sock, n, po)" by blast
  then show ?thesis using assms by (simp add: world_ok_def post_start_def)
qed

lemma reachable_world:
  assumes "post_start nb w0" "post_steps w0 w"
  shows "world_ok nb w" "calls_ok w"
proof -
  have "world_ok nb w \<and> calls_ok w" using assms(2)
  proof induction
    case base
    have "senders po = Map.empty" if "machines w0 a = Some (n, po)" for a n po
    proof -
      have "a \<in> dom (machines w0)" using that by blast
      then obtain rel rnd hdr0 inbox0 buffer0 where "machines w0 a = Some (PostOffice_new a rel nb rnd hdr0 inbox0 buffer0)"
        using assms(1) unfolding post_start_def by blast
      then show ?thesis using that by (auto simp: PostOffice_new_def)
    qed
    then show ?case using world_ok_start [OF assms(1)] by (auto simp: calls_ok_def)
  next
    case (step w w')
    from step(2) obtain a n po act where s: "machines w a = Some (n, po)" "\<not> blocked act n po" "proper act po w" "perform a act n po w = Inr w'"
      by cases
    then show ?case using perform_ok [OF _ s(1-3)] perform_calls [OF _ _ s] step(3) by auto
  qed
  then show "world_ok nb w" "calls_ok w" by auto
qed

text \<open>What \<open>Receive\<close> has returned for a box are messages sent to that box, in order and at most once each.\<close>

lemma received_in_order:
  assumes "world_ok nb w" "a \<in> dom (machines w)" "0 \<le> x" "x < nb"
  shows "prefix (received_mail w a x) (addressed a x (transmitted w))" "subseq (received_mail w a x) (addressed a x (offered w))"
proof -
  obtain n po where "machines w a = Some (n, po)" using assms(2) by (metis domD prod.collapse)
  then obtain sock where "node_ok nb w a (sock, n, po)" using world_ok_machine [OF assms(1)] by blast
  then show p: "prefix (received_mail w a x) (addressed a x (transmitted w))" using assms(3,4) by (simp add: node_ok_def)
  have "subseq (addressed a x (transmitted w)) (addressed a x (offered w))"
    using assms(1) unfolding addressed_def world_ok_def by (intro subseq_filter) simp
  then show "subseq (received_mail w a x) (addressed a x (offered w))"
    using prefix_imp_subseq [OF p] by (rule subseq_order.order_trans [rotated])
qed

end
