(* ===== verification/Nachos_Console.thy ===== *)
theory Nachos_Console
  imports Nachos_List Nachos_Devices
begin

text \<open>
  \<open>machine/console.cc\<close>, the simulated keyboard and display, and \<open>ConsoleTest\<close> of \<open>userprog/progtest.cc\<close>, the thread that
  echoes what is typed.  The handlers that the constructor is given are arguments of the operations; \<open>open\<close> and
  \<open>close\<close> of the host are arguments of the constructor and the destructor.
\<close>

section \<open>The device\<close>

text \<open>\<open>(char) EOF\<close>, the mark of an empty buffer.\<close>

definition EOF_char :: byte where "EOF_char = -1"

definition ConsoleTime :: int where "ConsoleTime = 100"

datatype ConHandler = ConsoleReadPoll | ConsoleWriteDone

text \<open>
  \<open>keyboard\<close> is what the host has of the input and has not yet given to \<open>read\<close>, \<open>at_end\<close> says that no more can follow
  (the end of an input file), and \<open>display\<close> is what was written.
\<close>

record Console =
  readFileNo :: int
  writeFileNo :: int
  putBusy :: bool
  incoming :: byte
  keyboard :: "byte list"
  at_end :: bool
  display :: "byte list"
  con_now :: int
  con_pending :: "ConHandler keyed"
  numConsoleCharsRead :: int
  numConsoleCharsWritten :: int

definition con_Schedule :: "ConHandler \<Rightarrow> Console \<Rightarrow> Console" where
  "con_Schedule h c = c\<lparr>con_pending := l_sorted_insert h (con_now c + ConsoleTime) (con_pending c)\<rparr>"

definition OpenForReadWrite :: "(string \<Rightarrow> int) \<Rightarrow> string \<Rightarrow> bool \<Rightarrow> int res" where
  "OpenForReadWrite host_open nm crashOnError = ASSERT (\<not> crashOnError \<or> host_open nm \<ge> 0) (Inr (host_open nm))"

definition OpenForWrite :: "(string \<Rightarrow> int) \<Rightarrow> string \<Rightarrow> int res" where
  "OpenForWrite host_open nm = ASSERT (host_open nm \<ge> 0) (Inr (host_open nm))"

definition Close_host :: "(int \<Rightarrow> int) \<Rightarrow> int \<Rightarrow> unit res" where
  "Close_host host_close fd = ASSERT (host_close fd \<ge> 0) (Inr ())"

definition Console_new :: "(string \<Rightarrow> int) \<Rightarrow> (string \<Rightarrow> int) \<Rightarrow> string option \<Rightarrow> string option \<Rightarrow> Console res" where
  "Console_new open_rw open_w readFile writeFile =
     rbind (case readFile of None \<Rightarrow> Inr 0 | Some f \<Rightarrow> OpenForReadWrite open_rw f True) (\<lambda>r.
     rbind (case writeFile of None \<Rightarrow> Inr 1 | Some f \<Rightarrow> OpenForWrite open_w f) (\<lambda>w.
       Inr (con_Schedule ConsoleReadPoll \<lparr>readFileNo = r, writeFileNo = w, putBusy = False, incoming = EOF_char,
         keyboard = [], at_end = False, display = [], con_now = 0, con_pending = [],
         numConsoleCharsRead = 0, numConsoleCharsWritten = 0\<rparr>)))"

definition Console_delete :: "(int \<Rightarrow> int) \<Rightarrow> Console \<Rightarrow> unit res" where
  "Console_delete host_close c =
     rbind (if readFileNo c \<noteq> 0 then Close_host host_close (readFileNo c) else Inr ()) (\<lambda>_.
     if writeFileNo c \<noteq> 1 then Close_host host_close (writeFileNo c) else Inr ())"

text \<open>\<open>select\<close> reports a file as readable at its end as well; \<open>read\<close> then returns no byte.\<close>

definition PollFile :: "Console \<Rightarrow> bool" where
  "PollFile c \<longleftrightarrow> keyboard c \<noteq> [] \<or> at_end c"

definition Read_char :: "Console \<Rightarrow> (byte \<times> Console) res" where
  "Read_char c = (case keyboard c of [] \<Rightarrow> Inl Abort | x # xs \<Rightarrow> Inr (x, c\<lparr>keyboard := xs\<rparr>))"

definition CheckCharAvail :: "('c \<Rightarrow> 'c res) \<Rightarrow> Console \<Rightarrow> 'c \<Rightarrow> (Console \<times> 'c) res" where
  "CheckCharAvail readHandler c client =
     (let c1 = con_Schedule ConsoleReadPoll c in
      if incoming c1 \<noteq> EOF_char \<or> \<not> PollFile c1 then Inr (c1, client)
      else rbind (Read_char c1) (\<lambda>(x, c2).
        rbind (readHandler client) (\<lambda>client'.
          Inr (c2\<lparr>incoming := x, numConsoleCharsRead := numConsoleCharsRead c2 + 1\<rparr>, client'))))"

definition WriteDone :: "('c \<Rightarrow> 'c res) \<Rightarrow> Console \<Rightarrow> 'c \<Rightarrow> (Console \<times> 'c) res" where
  "WriteDone writeHandler c client =
     rbind (writeHandler client) (\<lambda>client'.
       Inr (c\<lparr>putBusy := False, numConsoleCharsWritten := numConsoleCharsWritten c + 1\<rparr>, client'))"

definition GetChar :: "Console \<Rightarrow> byte \<times> Console" where
  "GetChar c = (incoming c, c\<lparr>incoming := EOF_char\<rparr>)"

definition PutChar :: "byte \<Rightarrow> Console \<Rightarrow> Console res" where
  "PutChar ch c = ASSERT (\<not> putBusy c)
     (Inr (con_Schedule ConsoleWriteDone (c\<lparr>display := display c @ [ch], putBusy := True\<rparr>)))"

section \<open>The echo thread\<close>

text \<open>Where the thread is in the loop of \<open>ConsoleTest\<close>, and the values of its two semaphores.\<close>

datatype EchoState = Reading | Writing byte | Returned

record Echo =
  readAvail :: nat
  writeDone :: nat
  echo_state :: EchoState

definition Echo_new :: Echo where
  "Echo_new = \<lparr>readAvail = 0, writeDone = 0, echo_state = Reading\<rparr>"

definition ReadAvail :: "Echo \<Rightarrow> Echo res" where
  "ReadAvail e = Inr (e\<lparr>readAvail := Suc (readAvail e)\<rparr>)"

definition WriteDone_handler :: "Echo \<Rightarrow> Echo res" where
  "WriteDone_handler e = Inr (e\<lparr>writeDone := Suc (writeDone e)\<rparr>)"

text \<open>From \<open>readAvail->P()\<close> to \<open>writeDone->P()\<close>, and from there to the next round.\<close>

definition echo_char :: "Console \<times> Echo \<Rightarrow> (Console \<times> Echo) res" where
  "echo_char s = (case s of (c, e) \<Rightarrow> let (ch, c1) = GetChar c in
     rbind (PutChar ch c1) (\<lambda>c2. Inr (c2, e\<lparr>readAvail := readAvail e - 1, echo_state := Writing ch\<rparr>)))"

definition echo_next :: "byte \<Rightarrow> Console \<times> Echo \<Rightarrow> (Console \<times> Echo) res" where
  "echo_next ch s = (case s of (c, e) \<Rightarrow>
     Inr (c, e\<lparr>writeDone := writeDone e - 1, echo_state := (if ch = 113 then Returned else Reading)\<rparr>))"

definition con_fire :: "Console \<times> Echo \<Rightarrow> (Console \<times> Echo) res" where
  "con_fire s = (case s of (c, e) \<Rightarrow> (case con_pending c of [] \<Rightarrow> Inr (c, e)
     | (_, h) # rest \<Rightarrow> let c1 = c\<lparr>con_pending := rest\<rparr> in
        (case h of ConsoleReadPoll \<Rightarrow> CheckCharAvail ReadAvail c1 e | ConsoleWriteDone \<Rightarrow> WriteDone WriteDone_handler c1 e)))"

text \<open>
  A step: a key is pressed, time passes, an interrupt that is due fires, or the thread runs where its semaphore lets it.
  The first component of the state is what has been typed.
\<close>

inductive con_step :: "byte list \<times> Console \<times> Echo \<Rightarrow> byte list \<times> Console \<times> Echo \<Rightarrow> bool" where
  type_char: "con_step (ts, c, e) (ts @ [x], c\<lparr>keyboard := keyboard c @ [x]\<rparr>, e)"
| advance: "con_step (ts, c, e) (ts, c\<lparr>con_now := con_now c + int d\<rparr>, e)"
| fire: "con_pending c = (w, h) # rest \<Longrightarrow> w \<le> con_now c \<Longrightarrow> con_fire (c, e) = Inr s \<Longrightarrow> con_step (ts, c, e) (ts, s)"
| read_char: "echo_state e = Reading \<Longrightarrow> 0 < readAvail e \<Longrightarrow> echo_char (c, e) = Inr s \<Longrightarrow> con_step (ts, c, e) (ts, s)"
| next_char: "echo_state e = Writing ch \<Longrightarrow> 0 < writeDone e \<Longrightarrow> echo_next ch (c, e) = Inr s \<Longrightarrow> con_step (ts, c, e) (ts, s)"

section \<open>The keyboard is a device with one slot\<close>

definition key_ok :: "Console \<times> Echo \<Rightarrow> bool" where
  "key_ok s \<longleftrightarrow> EOF_char \<notin> set (keyboard (fst s)) \<and> \<not> at_end (fst s)"

definition key_slot :: "Console \<times> Echo \<Rightarrow> byte option" where
  "key_slot s = (if incoming (fst s) = EOF_char then None else Some (incoming (fst s)))"

definition key_poll :: "Console \<times> Echo \<Rightarrow> (Console \<times> Echo) res" where
  "key_poll s = CheckCharAvail ReadAvail (fst s) (snd s)"

definition key_grab :: "Console \<times> Echo \<Rightarrow> (byte \<times> Console \<times> Echo) res" where
  "key_grab s = (let (ch, c) = GetChar (fst s) in Inr (ch, c, (snd s)\<lparr>readAvail := readAvail (snd s) - 1\<rparr>))"

lemma con_Schedule_simps [simp]:
  "incoming (con_Schedule h c) = incoming c" "keyboard (con_Schedule h c) = keyboard c" "at_end (con_Schedule h c) = at_end c"
  "display (con_Schedule h c) = display c" "putBusy (con_Schedule h c) = putBusy c"
  by (simp_all add: con_Schedule_def)

lemmas key_defs = key_ok_def key_slot_def key_poll_def key_grab_def CheckCharAvail_def PollFile_def Read_char_def ReadAvail_def GetChar_def Let_def

interpretation keys: one_slot_device key_ok key_slot "\<lambda>s. keyboard (fst s)" "\<lambda>s. readAvail (snd s)" key_poll key_grab
  by unfold_locales (auto simp: key_defs split: if_splits)

text \<open>A byte \<open>0xFF\<close> is taken for an empty buffer: the handler is called, and the character is gone.\<close>

lemma key_0xFF_lost:
  assumes "incoming c = EOF_char" "keyboard c = EOF_char # ks"
  shows "\<exists>c' e'. CheckCharAvail ReadAvail c e = Inr (c', e') \<and> readAvail e' = Suc (readAvail e) \<and> incoming c' = EOF_char \<and> keyboard c' = ks"
  using assms by (auto simp: key_defs)

text \<open>At the end of an input file the poll stops NachOS.\<close>

lemma end_of_input_aborts:
  assumes "incoming c = EOF_char" "keyboard c = []" "at_end c"
  shows "CheckCharAvail ReadAvail c e = Inl Abort"
  using assms by (simp add: key_defs)

section \<open>The invariant of the echo\<close>

abbreviation con_steps :: "byte list \<times> Console \<times> Echo \<Rightarrow> byte list \<times> Console \<times> Echo \<Rightarrow> bool" where
  "con_steps \<equiv> con_step\<^sup>*\<^sup>*"

definition writes_due :: "Console \<Rightarrow> nat" where
  "writes_due c = count (image_mset snd (mset (con_pending c))) ConsoleWriteDone"

text \<open>While the thread waits for a write there is an interrupt to come or a \<open>V\<close> that it has not used; the device is busy as long as the interrupt is to come.\<close>

definition echo_ok :: "Console \<Rightarrow> Echo \<Rightarrow> bool" where
  "echo_ok c e \<longleftrightarrow> writes_due c + writeDone e = (case echo_state e of Writing ch \<Rightarrow> 1 | _ \<Rightarrow> 0) \<and> (putBusy c \<longleftrightarrow> 0 < writes_due c) \<and>
     (\<forall>ch. echo_state e = Writing ch \<longrightarrow> display c \<noteq> [] \<and> last (display c) = ch) \<and>
     (echo_state e = Returned \<longrightarrow> display c \<noteq> [] \<and> last (display c) = 113)"

definition con_ok :: "byte list \<times> Console \<times> Echo \<Rightarrow> bool" where
  "con_ok s \<longleftrightarrow> (case s of (ts, c, e) \<Rightarrow> keys.balanced (c, e) \<and> echo_ok c e \<and> ts = display c @ keys.waiting (c, e))"

lemma writes_due_Schedule [simp]:
  "writes_due (con_Schedule ConsoleReadPoll c) = writes_due c" "writes_due (con_Schedule ConsoleWriteDone c) = Suc (writes_due c)"
  by (simp_all add: writes_due_def con_Schedule_def)

lemma keys_cong:
  assumes "incoming c' = incoming c" "keyboard c' = keyboard c" "at_end c' = at_end c" "readAvail e' = readAvail e"
  shows "keys.balanced (c', e') = keys.balanced (c, e)" "keys.waiting (c', e') = keys.waiting (c, e)"
  using assms by (simp_all add: keys.balanced_def keys.waiting_def key_ok_def key_slot_def)

lemma poll_ok:
  assumes "con_ok (ts, c, e)" "con_pending c = (w, ConsoleReadPoll) # rest"
  shows "\<exists>s. con_fire (c, e) = Inr s \<and> con_ok (ts, s)"
proof -
  let ?c = "c\<lparr>con_pending := rest\<rparr>"
  have c: "keys.balanced (?c, e) = keys.balanced (c, e)" "keys.waiting (?c, e) = keys.waiting (c, e)" by (rule keys_cong; simp)+
  obtain s where s: "key_poll (?c, e) = Inr s" "keys.balanced s" "keys.waiting s = keys.waiting (?c, e)"
    using keys.poll_keeps [of "(?c, e)"] assms(1) c(1) by (auto simp: con_ok_def)
  obtain c' e' where s': "s = (c', e')" by (cases s)
  have "writes_due ?c = writes_due c" using assms(2) by (simp add: writes_due_def)
  moreover have "writes_due c' = writes_due ?c \<and> putBusy c' = putBusy c \<and> display c' = display c \<and> writeDone e' = writeDone e \<and> echo_state e' = echo_state e"
    using s(1) writes_due_Schedule(1) [of ?c] unfolding s'
    by (auto simp: key_defs writes_due_def con_Schedule_def rbind_eq_Inr_iff split: if_splits list.splits)
  ultimately have "echo_ok c' e'" "display c' = display c" using assms(1) by (simp_all add: con_ok_def echo_ok_def)
  then show ?thesis using s s' c assms by (simp add: con_ok_def con_fire_def key_poll_def)
qed

lemma write_done_ok:
  assumes "con_ok (ts, c, e)" "con_pending c = (w, ConsoleWriteDone) # rest"
  shows "\<exists>s. con_fire (c, e) = Inr s \<and> con_ok (ts, s)"
proof -
  let ?c = "c\<lparr>con_pending := rest, putBusy := False, numConsoleCharsWritten := numConsoleCharsWritten c + 1\<rparr>"
  let ?e = "e\<lparr>writeDone := Suc (writeDone e)\<rparr>"
  have c: "keys.balanced (?c, ?e) = keys.balanced (c, e)" "keys.waiting (?c, ?e) = keys.waiting (c, e)" by (rule keys_cong; simp)+
  have "writes_due c = Suc (writes_due ?c)" using assms(2) by (simp add: writes_due_def)
  then have "echo_ok ?c ?e" using assms(1) by (auto simp: con_ok_def echo_ok_def split: EchoState.splits)
  then show ?thesis using assms c by (simp add: con_ok_def con_fire_def WriteDone_def WriteDone_handler_def)
qed

lemma echo_char_ok:
  assumes "con_ok (ts, c, e)" "echo_state e = Reading" "0 < readAvail e"
  shows "\<exists>s. echo_char (c, e) = Inr s \<and> con_ok (ts, s)"
proof -
  have b: "keys.balanced (c, e)" and w: "\<not> putBusy c" "writes_due c = 0" "writeDone e = 0" and ts: "ts = display c @ keys.waiting (c, e)"
    using assms(1,2) by (auto simp: con_ok_def echo_ok_def)
  obtain ch s where g: "key_grab (c, e) = Inr (ch, s)" "keys.balanced s" "keys.waiting (c, e) = ch # keys.waiting s"
    by (rule keys.grab_next [OF b]) (use assms(3) in simp_all)
  let ?c1 = "c\<lparr>incoming := EOF_char\<rparr>"
  let ?c = "con_Schedule ConsoleWriteDone (?c1\<lparr>display := display c @ [ch], putBusy := True\<rparr>)"
  let ?e = "e\<lparr>readAvail := readAvail e - 1, echo_state := Writing ch\<rparr>"
  have s: "ch = incoming c" "s = (?c1, e\<lparr>readAvail := readAvail e - 1\<rparr>)" using g(1) by (simp_all add: key_grab_def GetChar_def)
  have c: "keys.balanced (?c, ?e) = keys.balanced s" "keys.waiting (?c, ?e) = keys.waiting s"
    unfolding s(2) by (rule keys_cong; simp)+
  have "writes_due (?c1\<lparr>display := display c @ [ch], putBusy := True\<rparr>) = 0" using w(2) by (simp add: writes_due_def)
  then have "echo_ok ?c ?e" using w(3) by (simp add: echo_ok_def)
  then have "con_ok (ts, ?c, ?e)" using ts g(2,3) c by (simp add: con_ok_def)
  moreover have "echo_char (c, e) = Inr (?c, ?e)" using w(1) s(1) by (simp add: echo_char_def GetChar_def PutChar_def)
  ultimately show ?thesis by blast
qed

lemma echo_next_ok:
  assumes "con_ok (ts, c, e)" "echo_state e = Writing ch" "0 < writeDone e"
  shows "\<exists>s. echo_next ch (c, e) = Inr s \<and> con_ok (ts, s)"
proof -
  let ?e = "e\<lparr>writeDone := writeDone e - 1, echo_state := (if ch = 113 then Returned else Reading)\<rparr>"
  have c: "keys.balanced (c, ?e) = keys.balanced (c, e)" "keys.waiting (c, ?e) = keys.waiting (c, e)" by (rule keys_cong; simp)+
  have "echo_ok c ?e" using assms by (auto simp: con_ok_def echo_ok_def)
  then show ?thesis using assms(1) c by (simp add: con_ok_def echo_next_def)
qed

text \<open>Every step from a good state goes to a good state, as long as nobody types \<open>0xFF\<close>.\<close>

lemma con_step_ok:
  assumes "con_step s s'" "EOF_char \<notin> set (fst s')" "con_ok s"
  shows "con_ok s'"
  using assms
proof (induction rule: con_step.induct)
  case (type_char ts c e x)
  let ?c = "c\<lparr>keyboard := keyboard c @ [x]\<rparr>"
  have "key_slot (?c, e) = key_slot (c, e)" by (simp add: key_slot_def)
  moreover from this have "keys.waiting (?c, e) = keys.waiting (c, e) @ [x]" by (rule keys.waiting_append) simp
  ultimately show ?case using type_char by (auto simp: con_ok_def keys.balanced_def key_ok_def echo_ok_def writes_due_def)
next
  case (advance ts c e d)
  let ?c = "c\<lparr>con_now := con_now c + int d\<rparr>"
  have "keys.balanced (?c, e) = keys.balanced (c, e)" "keys.waiting (?c, e) = keys.waiting (c, e)" by (rule keys_cong; simp)+
  then show ?case using advance by (simp add: con_ok_def echo_ok_def writes_due_def)
next
  case (fire c w h rest e s ts)
  then show ?case using poll_ok write_done_ok by (cases h) fastforce+
next
  case (read_char e c s ts)
  then show ?case using echo_char_ok by fastforce
next
  case (next_char e ch c s ts)
  then show ?case using echo_next_ok by fastforce
qed

lemma typed_grows: "con_step s s' \<Longrightarrow> set (fst s) \<subseteq> set (fst s')"
  by (induction rule: con_step.induct) auto

lemma con_steps_ok:
  assumes "con_steps s s'" "EOF_char \<notin> set (fst s')" "con_ok s"
  shows "con_ok s'"
  using assms
proof (induction rule: rtranclp_induct)
  case (step s1 s2)
  then show ?case using con_step_ok typed_grows by blast
qed

lemma Console_new_ok:
  assumes "Console_new open_rw open_w readFile writeFile = Inr c"
  shows "con_ok ([], c, Echo_new)"
proof -
  have "incoming c = EOF_char" "keyboard c = []" "\<not> at_end c" "display c = []" "\<not> putBusy c" "writes_due c = 0"
    using assms by (auto simp: Console_new_def rbind_eq_Inr_iff writes_due_def con_Schedule_def)
  then show ?thesis by (simp add: con_ok_def Echo_new_def keys.balanced_def keys.waiting_def key_ok_def key_slot_def echo_ok_def)
qed

end
