(* ===== verification/Nachos_AddrSpace.thy ===== *)
theory Nachos_AddrSpace
  imports Nachos_Disk Nachos_BitMap
begin

text \<open>
  \<open>userprog/addrspace.cc\<close>: the address space of a user program, with \<open>VM\<close> (pages are loaded when they are
  first touched, through the TLB) and without (all pages are loaded by the constructor), and the stub of the file system
  (\<open>FILESYS_STUB\<close> of \<open>filesys.h\<close> and \<open>openfile.h\<close>) whose files are files of the host.
\<close>

section \<open>Files of the host\<close>

type_synonym host_files = "byte list \<rightharpoonup> byte list"

definition stub_Open :: "byte list \<Rightarrow> host_files \<Rightarrow> byte list option" where
  "stub_Open nm fs = (case fs nm of None \<Rightarrow> None | Some bs \<Rightarrow> Some nm)"

definition stub_Create :: "byte list \<Rightarrow> host_files \<Rightarrow> host_files" where
  "stub_Create nm fs = fs(nm \<mapsto> [])"

definition stub_Remove :: "byte list \<Rightarrow> host_files \<Rightarrow> bool \<times> host_files" where
  "stub_Remove nm fs = (fs nm \<noteq> None, fs(nm := None))"

text \<open>\<open>Lseek\<close> refuses a negative position; \<open>read\<close> returns what there is, \<open>write\<close> extends the file.\<close>

definition stub_ReadAt :: "byte list \<Rightarrow> nat \<Rightarrow> int \<Rightarrow> host_files \<Rightarrow> byte list res" where
  "stub_ReadAt f numBytes position fs = ASSERT (position \<ge> 0)
     (case fs f of None \<Rightarrow> Inl BadPointer | Some bs \<Rightarrow> Inr (take numBytes (drop (nat position) bs)))"

definition stub_WriteAt :: "byte list \<Rightarrow> byte list \<Rightarrow> int \<Rightarrow> host_files \<Rightarrow> host_files res" where
  "stub_WriteAt f bytes position fs = ASSERT (position \<ge> 0)
     (case fs f of None \<Rightarrow> Inl BadPointer | Some bs \<Rightarrow> Inr (fs(f \<mapsto> host_write (nat position) bytes bs)))"

section \<open>Object files\<close>

record Segment =
  virtualAddr :: "32 word"
  inFileAddr :: "32 word"
  seg_size :: "32 word"

record NoffHeader =
  noffMagic :: "32 word"
  seg_code :: Segment
  initData :: Segment
  uninitData :: Segment

definition NOFFMAGIC :: "32 word" where "NOFFMAGIC = 0xbadfad"

definition NoffSize :: nat where "NoffSize = 40"

definition bytes_to_segment :: "byte list \<Rightarrow> Segment" where
  "bytes_to_segment bs = \<lparr>virtualAddr = bytes_to_word bs, inFileAddr = bytes_to_word (drop 4 bs), seg_size = bytes_to_word (drop 8 bs)\<rparr>"

definition bytes_to_noff :: "byte list \<Rightarrow> NoffHeader" where
  "bytes_to_noff bs = \<lparr>noffMagic = bytes_to_word bs, seg_code = bytes_to_segment (drop 4 bs),
     initData = bytes_to_segment (drop 16 bs), uninitData = bytes_to_segment (drop 28 bs)\<rparr>"

definition swap_segment :: "Segment \<Rightarrow> Segment" where
  "swap_segment s = \<lparr>virtualAddr = WordToHost (virtualAddr s), inFileAddr = WordToHost (inFileAddr s), seg_size = WordToHost (seg_size s)\<rparr>"

definition SwapHeader :: "NoffHeader \<Rightarrow> NoffHeader" where
  "SwapHeader h = \<lparr>noffMagic = WordToHost (noffMagic h), seg_code = swap_segment (seg_code h),
     initData = swap_segment (initData h), uninitData = swap_segment (uninitData h)\<rparr>"

section \<open>State\<close>

text \<open>The global variables that address spaces share.\<close>

record UserState =
  machine :: Machine
  memoryMap :: BitMap
  swapMap :: BitMap
  hostFiles :: host_files
  iter :: int

text \<open>
  \<open>Swap\<close> is the open swap file, if there is one; \<open>ipt\<close> is the array that \<open>new TPI\<close> allocates, if the constructor did
  (the constructor for a forked thread does not).
\<close>

record AddrSpace =
  as_pageTable :: "TranslationEntry list"
  numPages :: "32 word"
  noffH1 :: NoffHeader
  ejecutable :: "byte list"
  Swap :: "byte list option"
  ipt :: "int list option"

definition UserStackSize :: nat where "UserStackSize = 1024"

definition SwapName :: "byte list" where "SwapName = [83, 87, 65, 80]"

text \<open>\<open>divRoundUp\<close> on \<open>unsigned int\<close>.\<close>

definition udivRoundUp :: "32 word \<Rightarrow> 32 word \<Rightarrow> 32 word" where
  "udivRoundUp n s = n div s + (if n mod s > 0 then 1 else 0)"

text \<open>\<open>read\<close> into the main memory at an index, and the bytes there.\<close>

definition read_into :: "int \<Rightarrow> byte list \<Rightarrow> Machine \<Rightarrow> Machine res" where
  "read_into off bs m = (if bs = [] then Inr m
     else if 0 \<le> off \<and> nat off + length bs \<le> length (mainMemory m) then Inr (write_bytes (nat off) bs m) else Inl BadIndex)"

definition mem_slice :: "int \<Rightarrow> nat \<Rightarrow> Machine \<Rightarrow> byte list res" where
  "mem_slice off n m = (if 0 \<le> off \<and> nat off + n \<le> length (mainMemory m) then Inr (take n (drop (nat off) (mainMemory m))) else Inl BadIndex)"

text \<open>\<open>file->ReadAt(&(machine->mainMemory[off]), PageSize, pos)\<close>.\<close>

definition load_page :: "byte list \<Rightarrow> int \<Rightarrow> int \<Rightarrow> UserState \<Rightarrow> UserState res" where
  "load_page f off pos us = rbind (stub_ReadAt f PageSize pos (hostFiles us)) (\<lambda>bs.
     rbind (read_into off bs (machine us)) (\<lambda>m. Inr (us\<lparr>machine := m\<rparr>)))"

section \<open>Constructors and destructor\<close>

text \<open>The loop over \<open>pageTable\<close>: with \<open>VM\<close> no page has a frame, without it every page takes what \<open>Find\<close> returns.\<close>

fun table_loop :: "bool \<Rightarrow> nat list \<Rightarrow> BitMap \<Rightarrow> (TranslationEntry list \<times> BitMap) res" where
  "table_loop vm [] mm = Inr ([], mm)"
| "table_loop vm (i # is) mm =
     rbind (if vm then Inr (-1, mm) else Find mm) (\<lambda>(f, mm1).
     rbind (table_loop vm is mm1) (\<lambda>(es, mm2).
       Inr (\<lparr>virtualPage = of_nat i, physicalPage = word_of_int f, valid = \<not> vm, readOnly = False, use = False, dirty = False\<rparr> # es, mm2)))"

fun load_loop :: "byte list \<Rightarrow> TranslationEntry list \<Rightarrow> int list \<Rightarrow> int \<Rightarrow> UserState \<Rightarrow> UserState res" where
  "load_loop f pt [] pos us = Inr us"
| "load_loop f pt (j # js) pos us = rbind (array_get pt j) (\<lambda>e.
     rbind (load_page f (sint (physicalPage e) * 128) pos us) (\<lambda>us1. load_loop f pt js (i32 (pos + 128)) us1))"

definition read_header :: "byte list \<Rightarrow> byte list \<Rightarrow> host_files \<Rightarrow> NoffHeader res" where
  "read_header raw f fs = rbind (stub_ReadAt f NoffSize 0 fs) (\<lambda>bs.
     let h = bytes_to_noff (overwrite 0 bs raw);
         h1 = (if noffMagic h \<noteq> NOFFMAGIC \<and> WordToHost (noffMagic h) = NOFFMAGIC then SwapHeader h else h) in
     ASSERT (noffMagic h1 = NOFFMAGIC) (Inr h1))"

definition space_pages :: "NoffHeader \<Rightarrow> 32 word" where
  "space_pages h = udivRoundUp (seg_size (seg_code h) + seg_size (initData h) + seg_size (uninitData h) + of_nat UserStackSize) (of_nat PageSize)"

text \<open>The two loops that load the code and the initialised data when there is no \<open>VM\<close>.\<close>

definition load_segments :: "byte list \<Rightarrow> NoffHeader \<Rightarrow> 32 word \<Rightarrow> TranslationEntry list \<Rightarrow> UserState \<Rightarrow> UserState res" where
  "load_segments f h n pt us = (if n = 0 then Inl DivTrap else
     let numPages2 = sint (udivRoundUp (seg_size (seg_code h)) n); numPages3 = sint (udivRoundUp (seg_size (initData h)) n) in
     rbind (load_loop f pt [0..numPages2 - 1] (sint (inFileAddr (seg_code h))) us) (\<lambda>us1.
       load_loop f pt [numPages2..numPages3 - 1] (sint (inFileAddr (initData h))) us1))"

text \<open>\<open>raw\<close> is the uninitialised memory of \<open>noffH\<close>, \<open>raw_name\<close> that of \<open>ejecutable\<close>.\<close>

definition AddrSpace_new :: "bool \<Rightarrow> byte list \<Rightarrow> byte list \<Rightarrow> byte list \<Rightarrow> byte list \<Rightarrow> UserState \<Rightarrow> (AddrSpace \<times> UserState) res" where
  "AddrSpace_new vm raw raw_name executable filename us =
     (let swap = stub_Open SwapName (hostFiles us) in
      rbind (if vm then (if length filename < 128 then Inr filename else Inl BadIndex) else Inr raw_name) (\<lambda>ej.
      rbind (read_header raw executable (hostFiles us)) (\<lambda>h.
      let n = space_pages h in
      ASSERT (vm \<or> n \<le> of_nat NumPhysPages) (
      rbind (table_loop vm [0..<unat n] (memoryMap us)) (\<lambda>(pt, mm).
      let us1 = us\<lparr>memoryMap := mm\<rparr> in
      rbind (if vm then Inr us1 else load_segments executable h n pt us1) (\<lambda>us2.
      Inr (\<lparr>as_pageTable = pt, numPages = n, noffH1 = h, ejecutable = ej, Swap = swap, ipt = Some [-1]\<rparr>, us2)))))))"

text \<open>
  The constructor for a forked thread: all but the last eight pages are those of the parent; \<open>raw\<close> is the
  memory of the members that it leaves alone.
\<close>

fun stack_loop :: "nat list \<Rightarrow> BitMap \<Rightarrow> (TranslationEntry list \<times> BitMap) res" where
  "stack_loop [] mm = Inr ([], mm)"
| "stack_loop (i # is) mm = rbind (Find mm) (\<lambda>(f, mm1).
     rbind (stack_loop is mm1) (\<lambda>(es, mm2).
       Inr (\<lparr>virtualPage = of_nat i, physicalPage = word_of_int f, valid = True, readOnly = False, use = False, dirty = False\<rparr> # es, mm2)))"

definition AddrSpace_copy :: "AddrSpace \<Rightarrow> AddrSpace \<Rightarrow> UserState \<Rightarrow> (AddrSpace \<times> UserState) res" where
  "AddrSpace_copy raw a us =
     (let n = unat (numPages a) in
      if n < 8 \<or> length (as_pageTable a) < n - 8 then Inl BadIndex
      else rbind (stack_loop [n - 8..<n] (memoryMap us)) (\<lambda>(es, mm).
        Inr (raw\<lparr>as_pageTable := take (n - 8) (as_pageTable a) @ es, numPages := numPages a, Swap := None, ipt := None\<rparr>,
          us\<lparr>memoryMap := mm\<rparr>)))"

fun delete_loop :: "TranslationEntry list \<Rightarrow> BitMap \<Rightarrow> BitMap res" where
  "delete_loop [] mm = Inr mm"
| "delete_loop (e # es) mm = rbind (Clear (sint (physicalPage e)) mm) (delete_loop es)"

definition AddrSpace_delete :: "AddrSpace \<Rightarrow> UserState \<Rightarrow> UserState res" where
  "AddrSpace_delete a us = (if length (as_pageTable a) < unat (numPages a) then Inl BadIndex
     else rbind (delete_loop (take (unat (numPages a)) (as_pageTable a)) (memoryMap us)) (\<lambda>mm. Inr (us\<lparr>memoryMap := mm\<rparr>)))"

section \<open>Registers and context switches\<close>

fun clear_registers :: "nat list \<Rightarrow> Machine \<Rightarrow> Machine res" where
  "clear_registers [] m = Inr m"
| "clear_registers (i # is) m = rbind (WriteRegister (int i) 0 m) (clear_registers is)"

definition InitRegisters :: "AddrSpace \<Rightarrow> Machine \<Rightarrow> Machine res" where
  "InitRegisters a m = rbind (clear_registers [0..<NumTotalRegs] m) (\<lambda>m1.
     rbind (WriteRegister (int PCReg) 0 m1) (\<lambda>m2.
     rbind (WriteRegister (int NextPCReg) 4 m2) (\<lambda>m3.
     WriteRegister (int StackReg) (numPages a * of_nat PageSize - 16) m3)))"

definition tlb_get :: "Machine \<Rightarrow> int \<Rightarrow> TranslationEntry res" where
  "tlb_get m i = (case tlb m of None \<Rightarrow> Inl BadPointer | Some t \<Rightarrow> array_get t i)"

definition pt_set :: "int \<Rightarrow> TranslationEntry \<Rightarrow> AddrSpace \<Rightarrow> AddrSpace res" where
  "pt_set i e a = rbind (array_set (as_pageTable a) i e) (\<lambda>pt. Inr (a\<lparr>as_pageTable := pt\<rparr>))"

text \<open>\<open>pageTable[machine->tlb[i].virtualPage]\<close> takes some bits of entry \<open>i\<close> of the TLB.\<close>

fun tlb_sync :: "(TranslationEntry \<Rightarrow> TranslationEntry \<Rightarrow> TranslationEntry) \<Rightarrow> int list \<Rightarrow> Machine \<Rightarrow> AddrSpace \<Rightarrow> AddrSpace res" where
  "tlb_sync upd [] m a = Inr a"
| "tlb_sync upd (i # is) m a = rbind (tlb_get m i) (\<lambda>t.
     rbind (array_get (as_pageTable a) (sint (virtualPage t))) (\<lambda>e.
     rbind (pt_set (sint (virtualPage t)) (upd t e) a) (tlb_sync upd is m)))"

definition SaveState :: "Machine \<Rightarrow> AddrSpace \<Rightarrow> AddrSpace res" where
  "SaveState m a = tlb_sync (\<lambda>t e. e\<lparr>dirty := dirty t, valid := valid t\<rparr>) [0..3] m a"

definition RestoreState :: "bool \<Rightarrow> AddrSpace \<Rightarrow> Machine \<Rightarrow> Machine" where
  "RestoreState vm a m = (if vm then m else m\<lparr>pageTable := Some (as_pageTable a), pageTableSize := numPages a\<rparr>)"

section \<open>Page faults\<close>

definition copiarATLB :: "int \<Rightarrow> int \<Rightarrow> AddrSpace \<Rightarrow> Machine \<Rightarrow> Machine res" where
  "copiarATLB indPagT indTLB a m = rbind (array_get (as_pageTable a) indPagT) (\<lambda>e.
     case tlb m of None \<Rightarrow> Inl BadPointer
     | Some t \<Rightarrow> rbind (array_set t indTLB e) (\<lambda>t1. Inr (m\<lparr>tlb := Some t1\<rparr>)))"

definition ipt_get :: "int \<Rightarrow> AddrSpace \<Rightarrow> int res" where
  "ipt_get i a = (case ipt a of None \<Rightarrow> Inl BadPointer | Some t \<Rightarrow> array_get t i)"

definition ipt_set :: "int \<Rightarrow> int \<Rightarrow> AddrSpace \<Rightarrow> AddrSpace res" where
  "ipt_set i v a = (case ipt a of None \<Rightarrow> Inl BadPointer | Some t \<Rightarrow> rbind (array_set t i v) (\<lambda>t1. Inr (a\<lparr>ipt := Some t1\<rparr>)))"

text \<open>
  The second-chance search: one pass over the frames 1 to 31, and the loop around it, which runs twice at
  most (\<open>buscarVictima_twice\<close> below).
\<close>

fun victim_pass :: "int list \<Rightarrow> AddrSpace \<Rightarrow> (int option \<times> AddrSpace) res" where
  "victim_pass [] a = Inr (None, a)"
| "victim_pass (i # is) a = rbind (ipt_get i a) (\<lambda>v.
     rbind (array_get (as_pageTable a) v) (\<lambda>e.
       if \<not> use e then Inr (Some (sint (physicalPage e)), a)
       else rbind (pt_set v (e\<lparr>use := False\<rparr>) a) (victim_pass is)))"

fun victim_loop :: "nat \<Rightarrow> AddrSpace \<Rightarrow> (int \<times> AddrSpace) res" where
  "victim_loop 0 a = Inl Diverges"
| "victim_loop (Suc k) a = rbind (victim_pass [1..31] a) (\<lambda>(r, a1).
     case r of Some v \<Rightarrow> Inr (v, a1) | None \<Rightarrow> victim_loop k a1)"

definition buscarVictima :: "AddrSpace \<Rightarrow> (int \<times> AddrSpace) res" where
  "buscarVictima a = victim_loop 2 a"

text \<open>The page of the TLB entry that is replaced next goes to the swap file when it is dirty.\<close>

definition swap_out :: "AddrSpace \<Rightarrow> UserState \<Rightarrow> (AddrSpace \<times> UserState) res" where
  "swap_out a us = rbind (tlb_get (machine us) (iter us)) (\<lambda>t.
     rbind (array_get (as_pageTable a) (sint (virtualPage t))) (\<lambda>e.
     if dirty e then
       rbind (Find (swapMap us)) (\<lambda>(campo, sm).
       rbind (array_get (as_pageTable a) (iter us)) (\<lambda>pe.
       rbind (mem_slice (sint (physicalPage pe)) PageSize (machine us)) (\<lambda>bs.
       rbind (case Swap a of None \<Rightarrow> Inl BadPointer | Some f \<Rightarrow> stub_WriteAt f bs (campo * int PageSize) (hostFiles us)) (\<lambda>fs.
       rbind (Clear (sint (physicalPage t)) (memoryMap us)) (\<lambda>mm.
       rbind (pt_set (sint (virtualPage t)) (e\<lparr>physicalPage := word_of_int campo, valid := False\<rparr>) a) (\<lambda>a1.
         Inr (a1, us\<lparr>swapMap := sm, hostFiles := fs, memoryMap := mm\<rparr>)))))))
     else Inr (a, us)))"

text \<open>\<open>memoryMap->Find()\<close>, or the frame of a victim when there is none; \<open>swapping\<close> is false for code pages.\<close>

definition get_frame :: "bool \<Rightarrow> AddrSpace \<Rightarrow> UserState \<Rightarrow> (int \<times> AddrSpace \<times> UserState) res" where
  "get_frame swapping a us = rbind (Find (memoryMap us)) (\<lambda>(f, mm).
     let us1 = us\<lparr>memoryMap := mm\<rparr> in
     if f = -1 then rbind (buscarVictima a) (\<lambda>(v, a1).
       if swapping then rbind (swap_out a1 us1) (\<lambda>(a2, us2). Inr (v, a2, us2)) else Inr (v, a1, us1))
     else Inr (f, a, us1))"

definition tlb_load :: "int \<Rightarrow> AddrSpace \<Rightarrow> UserState \<Rightarrow> UserState res" where
  "tlb_load vpn a us = rbind (copiarATLB vpn (iter us) a (machine us)) (\<lambda>m.
     Inr (us\<lparr>machine := m, iter := (iter us + 1) smod 4\<rparr>))"

definition map_page :: "int \<Rightarrow> int \<Rightarrow> bool \<Rightarrow> bool \<Rightarrow> AddrSpace \<Rightarrow> UserState \<Rightarrow> (AddrSpace \<times> UserState) res" where
  "map_page vpn f d ro a us =
     rbind (pt_set vpn \<lparr>virtualPage = word_of_int vpn, physicalPage = word_of_int f, valid = True, readOnly = ro, use = True, dirty = d\<rparr> a) (\<lambda>a1.
     rbind (tlb_load vpn a1 us) (\<lambda>us1. Inr (a1, us1)))"

definition from_file :: "int \<Rightarrow> bool \<Rightarrow> byte list option \<Rightarrow> AddrSpace \<Rightarrow> UserState \<Rightarrow> (AddrSpace \<times> UserState) res" where
  "from_file vpn code_page executable a us =
     rbind (get_frame (\<not> code_page) a us) (\<lambda>(f, a1, us1).
     rbind (map_page vpn f False code_page a1 us1) (\<lambda>(a2, us2).
     rbind (case executable of None \<Rightarrow> Inl BadPointer | Some x \<Rightarrow>
         load_page x (f * int PageSize) (int NoffSize + vpn * int PageSize) us2) (\<lambda>us3.
     rbind (ipt_set f vpn a2) (\<lambda>a3. Inr (a3, us3)))))"

definition from_swap :: "int \<Rightarrow> AddrSpace \<Rightarrow> UserState \<Rightarrow> (AddrSpace \<times> UserState) res" where
  "from_swap vpn a us = rbind (array_get (as_pageTable a) vpn) (\<lambda>e.
     let campoViejo = sint (physicalPage e) in
     rbind (get_frame True a us) (\<lambda>(f, a1, us1).
     rbind (map_page vpn f True False a1 us1) (\<lambda>(a2, us2).
     rbind (case Swap a of None \<Rightarrow> Inl BadPointer | Some x \<Rightarrow> load_page x (f * 128) (campoViejo * int PageSize) us2) (\<lambda>us3.
     rbind (Clear campoViejo (swapMap us3)) (\<lambda>sm.
     rbind (ipt_set f vpn a2) (\<lambda>a3. Inr (a3, us3\<lparr>swapMap := sm\<rparr>)))))))"

definition from_nothing :: "int \<Rightarrow> AddrSpace \<Rightarrow> UserState \<Rightarrow> (AddrSpace \<times> UserState) res" where
  "from_nothing vpn a us = rbind (get_frame True a us) (\<lambda>(f, a1, us1).
     rbind (map_page vpn f False False a1 us1) (\<lambda>(a2, us2).
     rbind (ipt_set f vpn a2) (\<lambda>a3. Inr (a3, us2))))"

definition from_table :: "int \<Rightarrow> AddrSpace \<Rightarrow> UserState \<Rightarrow> (AddrSpace \<times> UserState) res" where
  "from_table vpn a us = rbind (tlb_load vpn a us) (\<lambda>us1. Inr (a, us1))"

definition MoveraMemoria :: "int \<Rightarrow> AddrSpace \<Rightarrow> UserState \<Rightarrow> (AddrSpace \<times> UserState) res" where
  "MoveraMemoria vpn a0 us =
     rbind (tlb_sync (\<lambda>t e. e\<lparr>dirty := dirty t, use := use t\<rparr>) [0..3] (machine us) a0) (\<lambda>a.
     let executable = stub_Open (ejecutable a) (hostFiles us);
         numPages1 = divRoundUp (sint (seg_size (seg_code (noffH1 a)))) (int PageSize);
         numPages2 = divRoundUp (sint (seg_size (initData (noffH1 a)))) (int PageSize) in
     rbind (array_get (as_pageTable a) vpn) (\<lambda>e.
     let valida = valid e; sucia = dirty e in
     if vpn < numPages1 then
       (if \<not> valida then from_file vpn True executable a us else from_table vpn a us)
     else if vpn < numPages2 then
       (if \<not> valida \<and> \<not> sucia then from_file vpn False executable a us
        else if valida then from_table vpn a us else from_swap vpn a us)
     else
       (if \<not> valida \<and> \<not> sucia then from_nothing vpn a us
        else if valida then from_table vpn a us else from_swap vpn a us)))"

section \<open>The search for a victim ends\<close>

lemma array_get_Inr: "array_get xs i = Inr x \<longleftrightarrow> 0 \<le> i \<and> i < int (length xs) \<and> x = xs ! nat i"
  by (auto simp: array_get_def)

lemma array_set_Inr: "array_set xs i v = Inr ys \<longleftrightarrow> 0 \<le> i \<and> i < int (length xs) \<and> ys = xs[nat i := v]"
  by (auto simp: array_set_def)

text \<open>The page whose number the table of frames has for frame \<open>i\<close> has not been used.\<close>

definition unused :: "int \<Rightarrow> AddrSpace \<Rightarrow> bool" where
  "unused i a \<longleftrightarrow> (\<exists>v e. ipt_get i a = Inr v \<and> array_get (as_pageTable a) v = Inr e \<and> \<not> use e)"

lemma unused_pt_set:
  assumes "pt_set v (e\<lparr>use := False\<rparr>) a = Inr a'"
  shows "unused i a \<Longrightarrow> unused i a'" "ipt_get i a = Inr v \<Longrightarrow> unused i a'" "ipt a' = ipt a"
  using assms by (auto simp: unused_def pt_set_def ipt_get_def rbind_eq_Inr_iff array_get_Inr array_set_Inr nth_list_update)

lemma victim_pass_unused:
  "victim_pass is a = Inr (None, a') \<Longrightarrow> (\<forall>i \<in> set is. unused i a') \<and> (\<forall>j. unused j a \<longrightarrow> unused j a') \<and> ipt a' = ipt a"
proof (induction "is" arbitrary: a)
  case (Cons i "is")
  obtain v e a1 where 1: "ipt_get i a = Inr v" "pt_set v (e\<lparr>use := False\<rparr>) a = Inr a1" "victim_pass is a1 = Inr (None, a')"
    using Cons.prems by (auto simp: rbind_eq_Inr_iff split: if_splits)
  note u = unused_pt_set [OF 1(2)]
  show ?case using Cons.IH [OF 1(3)] u 1(1) by auto
qed simp

lemma victim_pass_found:
  assumes "unused i a"
  obtains v where "victim_pass (i # is) a = Inr (Some v, a)"
  using assms by (auto simp: unused_def)

lemma victim_no_Diverges: "victim_pass is a \<noteq> Inl Diverges"
proof (induction "is" arbitrary: a)
  case (Cons i "is")
  have "ipt_get i a \<noteq> Inl Diverges" "array_get (as_pageTable a) v \<noteq> Inl Diverges" "pt_set v e a \<noteq> Inl Diverges" for v e
    by (auto simp: ipt_get_def array_get_def pt_set_def array_set_def split: option.splits)
  then show ?case using Cons.IH
    by (auto simp: rbind_def split: sum.splits)
qed simp

lemma buscarVictima_twice: "victim_loop (Suc (Suc k)) a = buscarVictima a" "buscarVictima a \<noteq> Inl Diverges"
proof -
  have two: "(2 :: nat) = Suc (Suc 0)" by simp
  have is31: "[1..31 :: int] = 1 # [2..31]" by (simp add: upto_rec1)
  have second: "\<exists>v. victim_pass [1..31] a1 = Inr (Some v, a1)" if "victim_pass [1..31] a = Inr (None, a1)" for a1
  proof -
    have "unused 1 a1" using victim_pass_unused [OF that] by simp
    then show ?thesis unfolding is31 by (rule victim_pass_found) blast
  qed
  then show "victim_loop (Suc (Suc k)) a = buscarVictima a"
    by (auto simp: buscarVictima_def two rbind_def split: sum.splits option.splits)
  show "buscarVictima a \<noteq> Inl Diverges"
    using second victim_no_Diverges [of "[1..31]" a] by (auto simp: buscarVictima_def two rbind_def split: sum.splits option.splits)
qed

lemma victim_pass_victim:
  "victim_pass is a = Inr (Some v, a') \<Longrightarrow> \<exists>e \<in> set (as_pageTable a'). \<not> use e \<and> v = sint (physicalPage e)"
proof (induction "is" arbitrary: a)
  case (Cons i "is")
  then show ?case by (auto simp: rbind_eq_Inr_iff array_get_Inr split: if_splits)
qed simp

lemma buscarVictima_victim: "buscarVictima a = Inr (v, a') \<Longrightarrow> \<exists>e \<in> set (as_pageTable a'). \<not> use e \<and> v = sint (physicalPage e)"
proof -
  have two: "(2 :: nat) = Suc (Suc 0)" by simp
  assume "buscarVictima a = Inr (v, a')"
  then show ?thesis
    by (auto simp: buscarVictima_def two rbind_eq_Inr_iff split: option.splits intro: victim_pass_victim)
qed

section \<open>Frames of a new address space\<close>

definition frames_of :: "AddrSpace \<Rightarrow> int list" where
  "frames_of a = map (\<lambda>e. sint (physicalPage e)) (as_pageTable a)"

lemma sint_frame: "0 \<le> f \<Longrightarrow> f < 32 \<Longrightarrow> sint (word_of_int f :: 32 word) = f"
  using i32_id [of f] by (simp add: i32_def is_int32_def)

definition new_entry :: "nat \<Rightarrow> int \<Rightarrow> TranslationEntry" where
  "new_entry i f = \<lparr>virtualPage = of_nat i, physicalPage = word_of_int f, valid = True, readOnly = False, use = False, dirty = False\<rparr>"

lemma table_loop_find_n:
  "table_loop False is mm = rbind (find_n Find (length is) mm) (\<lambda>(fs, mm'). Inr (map2 new_entry is fs, mm'))"
  by (induction "is" arbitrary: mm) (auto simp: rbind_def new_entry_def split: sum.splits prod.splits)

lemma stack_loop_table_loop: "stack_loop is mm = table_loop False is mm"
  by (induction "is" arbitrary: mm) simp_all

lemma new_entry_frames:
  assumes "length fs = length is" "set fs \<subseteq> {0..<32}"
  shows "map (\<lambda>e. sint (physicalPage e)) (map2 new_entry is fs) = fs"
proof (rule nth_equalityI)
  fix k assume k: "k < length (map (\<lambda>e. sint (physicalPage e)) (map2 new_entry is fs))"
  then have "fs ! k \<in> set fs" using assms(1) by simp
  then have "fs ! k \<in> {0..<32}" using assms(2) by blast
  then show "map (\<lambda>e. sint (physicalPage e)) (map2 new_entry is fs) ! k = fs ! k"
    using k assms(1) by (simp add: new_entry_def sint_frame)
qed (use assms in simp)

lemma table_loop_frames:
  assumes "bitmap_ok mm" "numBits mm = 32" "length is \<le> card ({0..<32} - used mm)"
  obtains es mm' where "table_loop False is mm = Inr (es, mm')" "bitmap_ok mm'" "numBits mm' = 32" "length es = length is"
    "distinct (map (\<lambda>e. sint (physicalPage e)) es)" "set (map (\<lambda>e. sint (physicalPage e)) es) \<inter> used mm = {}"
    "used mm' = used mm \<union> set (map (\<lambda>e. sint (physicalPage e)) es)"
proof -
  obtain fs mm' where f: "find_n Find (length is) mm = Inr (fs, mm')" "length fs = length is" "distinct fs" "set fs \<subseteq> {0..<32} - used mm"
    "bitmap_ok mm'" "numBits mm' = 32" "used mm' = used mm \<union> set fs"
    using bm.find_n_law [OF assms(1)] assms(2,3) by metis
  then have "map (\<lambda>e. sint (physicalPage e)) (map2 new_entry is fs) = fs" by (intro new_entry_frames) auto
  then show thesis
    using f by (intro that [of "map2 new_entry is fs" mm']) (auto simp: table_loop_find_n simp del: map_map)
qed

text \<open>Loading changes the frames of the table only.\<close>

definition same_outside :: "int set \<Rightarrow> Machine \<Rightarrow> Machine \<Rightarrow> bool" where
  "same_outside fs m m' \<longleftrightarrow> length (mainMemory m') = length (mainMemory m) \<and>
     (\<forall>p < length (mainMemory m). int (p div PageSize) \<notin> fs \<longrightarrow> mainMemory m' ! p = mainMemory m ! p) \<and>
     registers m' = registers m \<and> tlb m' = tlb m \<and> pageTable m' = pageTable m"

lemma same_outside_refl [simp]: "same_outside fs m m"
  by (simp add: same_outside_def)

lemma same_outside_trans: "same_outside fs m m1 \<Longrightarrow> same_outside fs m1 m2 \<Longrightarrow> same_outside fs m m2"
  by (simp add: same_outside_def)

lemma load_page_frame:
  assumes "load_page f (k * 128) pos us = Inr us'" "k \<in> fs"
  obtains m where "us' = us\<lparr>machine := m\<rparr>" "same_outside fs (machine us) m"
proof -
  obtain bs m where b: "stub_ReadAt f PageSize pos (hostFiles us) = Inr bs" "read_into (k * 128) bs (machine us) = Inr m" "us' = us\<lparr>machine := m\<rparr>"
    using assms(1) by (auto simp: load_page_def rbind_eq_Inr_iff)
  have l: "length bs \<le> 128" using b(1) by (auto simp: stub_ReadAt_def ASSERT_eq_Inr_iff machine_sizes split: option.splits)
  have "same_outside fs (machine us) m"
  proof (cases "bs = []")
    case False
    then have o: "0 \<le> k" "nat (k * 128) + length bs \<le> length (mainMemory (machine us))" "m = write_bytes (nat (k * 128)) bs (machine us)"
      using b(2) by (auto simp: read_into_def split: if_splits)
    have "\<not> (nat (k * 128) \<le> p \<and> p < nat (k * 128) + length bs)" if "int (p div PageSize) \<notin> fs" for p
    proof
      assume "nat (k * 128) \<le> p \<and> p < nat (k * 128) + length bs"
      then have "p div 128 = nat k" using o(1) l by (intro div_nat_eqI) (simp_all add: nat_mult_distrib)
      then show False using that assms(2) o(1) by (simp add: machine_sizes)
    qed
    then show ?thesis using o by (auto simp: same_outside_def write_bytes_def nth_overwrite)
  qed (use b in \<open>simp add: read_into_def\<close>)
  then show thesis using b(3) that by blast
qed

lemma load_loop_frame:
  assumes "load_loop f pt js pos us = Inr us'"
  shows "\<exists>m. us' = us\<lparr>machine := m\<rparr> \<and> same_outside (set (map (\<lambda>e. sint (physicalPage e)) pt)) (machine us) m"
  using assms
proof (induction js arbitrary: pos us)
  case Nil
  then show ?case by (intro exI [of _ "machine us"]) simp
next
  case (Cons j js)
  let ?fs = "set (map (\<lambda>e. sint (physicalPage e)) pt)"
  obtain e us1 where 1: "array_get pt j = Inr e" "load_page f (sint (physicalPage e) * 128) pos us = Inr us1"
    "load_loop f pt js (i32 (pos + 128)) us1 = Inr us'"
    using Cons.prems by (auto simp: rbind_eq_Inr_iff)
  have "sint (physicalPage e) \<in> ?fs" using 1(1) by (auto simp: array_get_Inr)
  from load_page_frame [OF 1(2) this] obtain m1 where m1: "us1 = us\<lparr>machine := m1\<rparr>" "same_outside ?fs (machine us) m1" .
  obtain m where "us' = us1\<lparr>machine := m\<rparr>" "same_outside ?fs (machine us1) m" using Cons.IH [OF 1(3)] by blast
  then show ?case using m1 same_outside_trans [of ?fs "machine us" m1 m] by (intro exI [of _ m]) simp
qed

lemma load_segments_frame:
  assumes "load_segments f h n pt us = Inr us'"
  shows "\<exists>m. us' = us\<lparr>machine := m\<rparr> \<and> same_outside (set (map (\<lambda>e. sint (physicalPage e)) pt)) (machine us) m"
proof -
  obtain js pos ks pos' us1 where "load_loop f pt js pos us = Inr us1" "load_loop f pt ks pos' us1 = Inr us'"
    using assms by (auto simp: load_segments_def rbind_eq_Inr_iff Let_def split: if_splits)
  from load_loop_frame [OF this(1)] load_loop_frame [OF this(2)] show ?thesis using same_outside_trans by fastforce
qed

lemma length_table_loop: "table_loop vm is mm = Inr (es, mm') \<Longrightarrow> length es = length is"
  by (induction vm "is" mm arbitrary: es mm' rule: table_loop.induct) (auto simp: rbind_eq_Inr_iff)

text \<open>
  Without \<open>VM\<close> a new space has frames of its own, if there are enough: they were free, no two pages share
  one, and the memory of every other frame is as it was.
\<close>

lemma AddrSpace_new_isolated:
  assumes n: "AddrSpace_new False raw raw_name f nm us = Inr (a, us')"
    and mm: "bitmap_ok (memoryMap us)" "numBits (memoryMap us) = 32" "unat (numPages a) \<le> card ({0..<32} - used (memoryMap us))"
  shows "length (as_pageTable a) = unat (numPages a)" "distinct (frames_of a)" "set (frames_of a) \<inter> used (memoryMap us) = {}"
    "used (memoryMap us') = used (memoryMap us) \<union> set (frames_of a)" "bitmap_ok (memoryMap us')" "numBits (memoryMap us') = 32"
    "same_outside (set (frames_of a)) (machine us) (machine us')"
proof -
  obtain h pt mm' where t: "table_loop False [0..<unat (space_pages h)] (memoryMap us) = Inr (pt, mm')" "as_pageTable a = pt" "numPages a = space_pages h"
    "load_segments f h (space_pages h) pt (us\<lparr>memoryMap := mm'\<rparr>) = Inr us'"
    using n by (auto simp: AddrSpace_new_def rbind_eq_Inr_iff ASSERT_eq_Inr_iff Let_def)
  have "length [0..<unat (space_pages h)] \<le> card ({0..<32} - used (memoryMap us))" using mm(3) t(3) by simp
  from table_loop_frames [OF mm(1,2) this] t(1) have r: "bitmap_ok mm'" "numBits mm' = 32" "length pt = unat (space_pages h)"
    "distinct (map (\<lambda>e. sint (physicalPage e)) pt)" "set (map (\<lambda>e. sint (physicalPage e)) pt) \<inter> used (memoryMap us) = {}"
    "used mm' = used (memoryMap us) \<union> set (map (\<lambda>e. sint (physicalPage e)) pt)"
    by (metis Inr_inject diff_zero fst_conv length_upt snd_conv)+
  obtain m where m: "us' = (us\<lparr>memoryMap := mm'\<rparr>)\<lparr>machine := m\<rparr>" "same_outside (set (map (\<lambda>e. sint (physicalPage e)) pt)) (machine us) m"
    using load_segments_frame [OF t(4)] by auto
  show "length (as_pageTable a) = unat (numPages a)" "distinct (frames_of a)" "set (frames_of a) \<inter> used (memoryMap us) = {}"
    "used (memoryMap us') = used (memoryMap us) \<union> set (frames_of a)" "bitmap_ok (memoryMap us')" "numBits (memoryMap us') = 32"
    "same_outside (set (frames_of a)) (machine us) (machine us')"
    using r m t(2,3) by (simp_all add: frames_of_def)
qed

lemma delete_loop_frames:
  assumes "bitmap_ok mm" "\<forall>e \<in> set es. 0 \<le> sint (physicalPage e) \<and> sint (physicalPage e) < numBits mm"
  shows "\<exists>mm'. delete_loop es mm = Inr mm' \<and> bitmap_ok mm' \<and> numBits mm' = numBits mm \<and>
    used mm' = used mm - set (map (\<lambda>e. sint (physicalPage e)) es)"
  using assms
proof (induction es arbitrary: mm)
  case (Cons e es)
  obtain mm1 where 1: "Clear (sint (physicalPage e)) mm = Inr mm1" "bitmap_ok mm1" "numBits mm1 = numBits mm" "used mm1 = used mm - {sint (physicalPage e)}"
    using bm.clear_law [OF Cons.prems(1)] Cons.prems(2) by (metis list.set_intros(1))
  then obtain mm' where "delete_loop es mm1 = Inr mm'" "bitmap_ok mm'" "numBits mm' = numBits mm" "used mm' = used mm1 - set (map (\<lambda>e. sint (physicalPage e)) es)"
    using Cons.IH [OF 1(2)] Cons.prems(2) by auto
  then show ?case using 1 by (intro exI [of _ mm']) auto
qed simp

text \<open>Deleting the space gives back exactly the frames that it was given.\<close>

lemma AddrSpace_new_delete:
  assumes "AddrSpace_new False raw raw_name f nm us = Inr (a, us')"
    "bitmap_ok (memoryMap us)" "numBits (memoryMap us) = 32" "unat (numPages a) \<le> card ({0..<32} - used (memoryMap us))"
  shows "\<exists>us''. AddrSpace_delete a us' = Inr us'' \<and> used (memoryMap us'') = used (memoryMap us) \<and> machine us'' = machine us'"
proof -
  note i = AddrSpace_new_isolated [OF assms]
  have "used (memoryMap us') \<subseteq> {0..<32}" using used_subset [of "memoryMap us'"] i(6) by simp
  then have "\<forall>e \<in> set (as_pageTable a). 0 \<le> sint (physicalPage e) \<and> sint (physicalPage e) < numBits (memoryMap us')"
    using i(4,6) by (auto simp: frames_of_def)
  from delete_loop_frames [OF i(5) this] obtain mm where "delete_loop (as_pageTable a) (memoryMap us') = Inr mm"
    "used mm = used (memoryMap us') - set (frames_of a)" by (auto simp: frames_of_def)
  then show ?thesis using i(1,3,4) by (auto simp: AddrSpace_delete_def)
qed

text \<open>With \<open>VM\<close> a page that was never loaded has no frame, and the destructor stops NachOS.\<close>

lemma delete_loop_unloaded: "bitmap_ok mm \<Longrightarrow> delete_loop (e # es) mm = Inl Abort" if "physicalPage e = -1"
  using that by (simp add: Clear_def)

section \<open>Programs that the constructor cannot load\<close>

lemma load_page_ok:
  assumes "0 \<le> k" "k < 32" "length (mainMemory (machine us)) = MemorySize" "0 \<le> pos" "hostFiles us f = Some bs"
  obtains us' where "load_page f (k * 128) pos us = Inr us'" "length (mainMemory (machine us')) = MemorySize" "hostFiles us' = hostFiles us"
proof -
  let ?bs = "take PageSize (drop (nat pos) bs)"
  have fit: "nat (k * 128) + length ?bs \<le> length (mainMemory (machine us))" using assms(1-3) by (simp add: machine_sizes)
  have "read_into (k * 128) ?bs (machine us) = Inr (if ?bs = [] then machine us else write_bytes (nat (k * 128)) ?bs (machine us))"
    using assms(1) fit by (simp add: read_into_def)
  then show thesis
    using assms fit by (intro that [of "us\<lparr>machine := (if ?bs = [] then machine us else write_bytes (nat (k * 128)) ?bs (machine us))\<rparr>"])
      (simp_all add: load_page_def stub_ReadAt_def write_bytes_def)
qed

lemma load_loop_overrun:
  assumes "\<forall>e \<in> set pt. 0 \<le> sint (physicalPage e) \<and> sint (physicalPage e) < 32" "hostFiles us f = Some bs"
    "length (mainMemory (machine us)) = MemorySize" "0 \<le> pos" "pos + 128 * int n < 2 ^ 31"
    "j + n = length pt" "length pt < k"
  shows "load_loop f pt (map int [j..<k]) pos us = Inl BadIndex"
  using assms(2-)
proof (induction n arbitrary: j pos us)
  case 0
  then have "[j..<k] = j # [Suc j..<k]" by (intro upt_conv_Cons) simp
  then show ?case using 0 by (simp add: array_get_def)
next
  case (Suc n)
  have j: "j < length pt" using Suc.prems(5) by simp
  have e: "0 \<le> sint (physicalPage (pt ! j))" "sint (physicalPage (pt ! j)) < 32" using assms(1) j nth_mem by blast+
  obtain us1 where us1: "load_page f (sint (physicalPage (pt ! j)) * 128) pos us = Inr us1" "length (mainMemory (machine us1)) = MemorySize" "hostFiles us1 = hostFiles us"
    using load_page_ok [OF e Suc.prems(2,3,1)] .
  have p: "i32 (pos + 128) = pos + 128" using Suc.prems(3,4) by (intro i32_id) (auto simp: is_int32_def)
  have "load_loop f pt (map int [Suc j..<k]) (pos + 128) us1 = Inl BadIndex"
    by (rule Suc.IH) (use Suc.prems us1 in simp_all)
  moreover have "[j..<k] = j # [Suc j..<k]" using j assms(7) by (intro upt_conv_Cons) simp
  ultimately show ?case using us1(1) j p by simp
qed

lemma upto_map_int: "[0..int k - 1] = map int [0..<k]"
  by (rule nth_equalityI) simp_all

lemma sint_small: "unat w < 2 ^ 31 \<Longrightarrow> sint (w :: 32 word) = int (unat w)"
proof -
  assume "unat w < 2 ^ 31"
  then have "int (unat w) < int (2 ^ 31)" by (simp only: of_nat_less_iff)
  then have "signed_take_bit 31 (uint w) = uint w" by (intro signed_take_bit_int_eq_self) (simp_all add: order_trans [OF _ uint_ge_0])
  then show ?thesis by (simp add: sint_uint)
qed

lemma udivRoundUp_exceeds:
  assumes "n \<noteq> 0" "unat n * unat n < unat c" "unat c < 2 ^ 31"
  shows "int (unat n) < sint (udivRoundUp c n)"
proof -
  let ?r = "if c mod n > 0 then 1 else 0 :: nat"
  have pos: "0 < unat n" using assms(1) by (simp add: unat_gt_0)
  have q: "unat c div unat n + 1 < 2 ^ 31 + 1" using assms(3) div_le_dividend [of "unat c" "unat n"] by linarith
  have u: "unat (udivRoundUp c n) = unat c div unat n + ?r"
    using q by (auto simp: udivRoundUp_def unat_word_ariths unat_div)
  have r: "?r = (if unat c mod unat n > 0 then 1 else 0)" by (simp add: word_less_nat_alt unat_mod)
  have "unat n < unat c div unat n + ?r"
  proof (cases "unat c mod unat n = 0")
    case True
    then have "unat c = unat c div unat n * unat n" by (metis add.right_neutral div_mult_mod_eq)
    then have "unat n * unat n < unat c div unat n * unat n" using assms(2) by simp
    then show ?thesis by simp
  next
    case False
    have "unat n \<le> unat c div unat n" using assms(2) pos by (metis div_le_mono less_imp_le_nat nonzero_mult_div_cancel_right not_gr0)
    then show ?thesis unfolding r using False by simp
  qed
  moreover have "sint (udivRoundUp c n) = int (unat c div unat n + ?r)"
  proof -
    have "unat (udivRoundUp c n) < 2 ^ 31"
    proof (cases "unat n = 1")
      case True
      then show ?thesis using assms(3) by (simp add: u r)
    next
      case False
      then have "2 \<le> unat n" using pos by simp
      then have "unat c div unat n \<le> unat c div 2" by (simp add: div_le_mono2)
      then show ?thesis unfolding u using assms(3) by auto
    qed
    then show ?thesis unfolding u [symmetric] by (rule sint_small)
  qed
  ultimately show ?thesis by (simp only: of_nat_less_iff)
qed

text \<open>
  The loops that load a program divide the size of a segment by the number of pages of the space instead of the
  size of a page: a program with more bytes of code than the square of its number of pages runs past the page table.
\<close>

lemma AddrSpace_new_overrun:
  assumes h: "read_header raw f (hostFiles us) = Inr h" "hostFiles us f = Some bs"
    and n: "space_pages h \<noteq> 0" "unat (space_pages h) \<le> 32" "unat (space_pages h) \<le> card ({0..<32} - used (memoryMap us))"
    and us: "bitmap_ok (memoryMap us)" "numBits (memoryMap us) = 32" "length (mainMemory (machine us)) = MemorySize"
    and c: "unat (space_pages h) * unat (space_pages h) < unat (seg_size (seg_code h))" "unat (seg_size (seg_code h)) < 2 ^ 31"
      "0 \<le> sint (inFileAddr (seg_code h))" "sint (inFileAddr (seg_code h)) + 128 * 32 < 2 ^ 31"
  shows "AddrSpace_new False raw raw_name f nm us = Inl BadIndex"
proof -
  let ?n = "space_pages h"
  obtain pt mm where t: "table_loop False [0..<unat ?n] (memoryMap us) = Inr (pt, mm)" "numBits mm = 32" "length pt = unat ?n"
    "used mm = used (memoryMap us) \<union> set (map (\<lambda>e. sint (physicalPage e)) pt)"
    by (rule table_loop_frames [OF us(1,2), of "[0..<unat ?n]"]) (use n(3) in auto)
  have fr: "\<forall>e \<in> set pt. 0 \<le> sint (physicalPage e) \<and> sint (physicalPage e) < 32"
    using used_subset [of mm] t(2,4) by auto
  have len: "int (length pt) < sint (udivRoundUp (seg_size (seg_code h)) ?n)" unfolding t(3) by (rule udivRoundUp_exceeds [OF n(1) c(1,2)])
  obtain k where k: "sint (udivRoundUp (seg_size (seg_code h)) ?n) = int k"
    by (rule nonneg_int_cases [of "sint (udivRoundUp (seg_size (seg_code h)) ?n)"]) (use len in linarith)
  have lk: "length pt < k" using len unfolding k by simp
  have "int (length pt) \<le> 32" using n(2) t(3) by linarith
  then have "load_loop f pt [0..sint (udivRoundUp (seg_size (seg_code h)) ?n) - 1] (sint (inFileAddr (seg_code h))) (us\<lparr>memoryMap := mm\<rparr>) = Inl BadIndex"
    unfolding k upto_map_int using h(2) us(3) c(3,4) lk by (intro load_loop_overrun [OF fr, where n = "length pt"]) simp_all
  moreover have "?n \<le> of_nat NumPhysPages" using n(2) by (simp add: word_le_nat_alt machine_sizes)
  ultimately show ?thesis using h(1) t(1) n(1) by (simp add: AddrSpace_new_def Let_def load_segments_def)
qed

section \<open>Page faults\<close>

lemma pt_set_Inr: "pt_set i e a = Inr a' \<longleftrightarrow> 0 \<le> i \<and> i < int (length (as_pageTable a)) \<and> a' = a\<lparr>as_pageTable := (as_pageTable a)[nat i := e]\<rparr>"
  by (auto simp: pt_set_def rbind_eq_Inr_iff array_set_Inr)

lemma tlb_sync_keeps:
  assumes "tlb_sync upd is m a = Inr a'" "\<And>t e. valid (upd t e) = valid e"
  shows "ipt a' = ipt a \<and> noffH1 a' = noffH1 a \<and> ejecutable a' = ejecutable a \<and> length (as_pageTable a') = length (as_pageTable a) \<and>
    map valid (as_pageTable a') = map valid (as_pageTable a)"
  using assms
proof (induction "is" arbitrary: a)
  case (Cons i "is")
  then obtain t e a1 where 1: "tlb_get m i = Inr t" "array_get (as_pageTable a) (sint (virtualPage t)) = Inr e"
    "pt_set (sint (virtualPage t)) (upd t e) a = Inr a1" "tlb_sync upd is m a1 = Inr a'"
    by (auto simp: rbind_eq_Inr_iff)
  have "map valid (as_pageTable a1) = map valid (as_pageTable a)"
    using 1(2,3) Cons.prems(2) by (auto simp: pt_set_Inr array_get_Inr nth_list_update intro!: nth_equalityI split: if_splits)
  then show ?case using Cons.IH [OF 1(4) Cons.prems(2)] 1(3) by (auto simp: pt_set_Inr)
qed simp

lemma tlb_sync_ok:
  assumes "tlb m = Some t" "\<forall>i \<in> set is. 0 \<le> i \<and> i < int (length t)"
    "\<forall>e \<in> set t. 0 \<le> sint (virtualPage e) \<and> sint (virtualPage e) < int (length (as_pageTable a))"
  shows "\<exists>a'. tlb_sync upd is m a = Inr a'"
  using assms(2,3)
proof (induction "is" arbitrary: a)
  case (Cons i "is")
  have i: "0 \<le> i" "i < int (length t)" using Cons.prems(1) by auto
  then have "t ! nat i \<in> set t" by (simp add: nth_mem)
  then have v: "0 \<le> sint (virtualPage (t ! nat i))" "sint (virtualPage (t ! nat i)) < int (length (as_pageTable a))" using Cons.prems(2) by auto
  let ?v = "nat (sint (virtualPage (t ! nat i)))"
  let ?a = "a\<lparr>as_pageTable := (as_pageTable a)[?v := upd (t ! nat i) (as_pageTable a ! ?v)]\<rparr>"
  have "\<exists>a'. tlb_sync upd is m ?a = Inr a'" using Cons.prems by (intro Cons.IH) auto
  moreover have "tlb_sync upd (i # is) m a = tlb_sync upd is m ?a" using i v assms(1) by (simp add: tlb_get_def pt_set_def)
  ultimately show ?case by simp
qed simp

text \<open>\<open>new TPI\<close> makes one entry, so that only frame 0 has one: once it is taken, no page can be loaded.\<close>

lemma get_frame_beyond:
  assumes "get_frame swapping a us = Inr (f, a1, us1)" "ipt a = Some [x]" "bitmap_ok (memoryMap us)" "0 \<in> used (memoryMap us)"
  shows "1 \<le> f \<and> ipt a1 = ipt a"
proof -
  have two: "(2 :: nat) = Suc (Suc 0)" by simp
  have is31: "[1..31 :: int] = 1 # [2..31]" by (simp add: upto_rec1)
  have none: "buscarVictima a = Inl BadIndex" unfolding buscarVictima_def two victim_loop.simps is31 victim_pass.simps
    using assms(2) by (simp add: ipt_get_def array_get_def)
  have "used (memoryMap us) \<noteq> {0..<numBits (memoryMap us)}"
  proof
    assume "used (memoryMap us) = {0..<numBits (memoryMap us)}"
    then have "Find (memoryMap us) = Inr (-1, memoryMap us)" using Find_correct(1) [OF assms(3)] by blast
    then show False using assms(1) none by (simp add: get_frame_def)
  qed
  then obtain g mm where g: "Find (memoryMap us) = Inr (g, mm)" "g \<notin> used (memoryMap us)" "0 \<le> g"
    using Find_correct(2) [OF assms(3)] by blast
  then have "1 \<le> g" using assms(4) by (metis int_one_le_iff_zero_less order_le_less)
  then show ?thesis using assms(1) g by (auto simp: get_frame_def Let_def)
qed

lemma map_page_ipt: "map_page vpn f d ro a us = Inr (a', us') \<Longrightarrow> ipt a' = ipt a"
  by (auto simp: map_page_def rbind_eq_Inr_iff pt_set_Inr)

lemma no_second_frame:
  assumes "ipt a = Some [x]" "bitmap_ok (memoryMap us)" "0 \<in> used (memoryMap us)"
  shows "from_file vpn c ex a us \<noteq> Inr r" "from_swap vpn a us \<noteq> Inr r" "from_nothing vpn a us \<noteq> Inr r"
proof -
  have no: "ipt_set f vpn a2 \<noteq> Inr a3" if "get_frame sw a us = Inr (f, a1, us1)" "map_page vpn f d ro a1 us1 = Inr (a2, us2)" for sw f a1 us1 d ro a2 us2 a3
    using get_frame_beyond [OF that(1) assms] map_page_ipt [OF that(2)] assms(1) by (auto simp: ipt_set_def array_set_def)
  show "from_file vpn c ex a us \<noteq> Inr r" using no by (auto simp: from_file_def rbind_eq_Inr_iff)
  show "from_swap vpn a us \<noteq> Inr r" using no by (auto simp: from_swap_def rbind_eq_Inr_iff Let_def)
  show "from_nothing vpn a us \<noteq> Inr r" using no by (auto simp: from_nothing_def rbind_eq_Inr_iff)
qed

lemma MoveraMemoria_overrun:
  assumes "ipt a = Some [x]" "bitmap_ok (memoryMap us)" "0 \<in> used (memoryMap us)"
    "0 \<le> vpn" "vpn < int (length (as_pageTable a))" "\<not> valid (as_pageTable a ! nat vpn)"
  shows "\<exists>e. MoveraMemoria vpn a us = Inl e"
proof (rule ccontr)
  assume "\<not> (\<exists>e. MoveraMemoria vpn a us = Inl e)"
  then obtain r where r: "MoveraMemoria vpn a us = Inr r" by (cases "MoveraMemoria vpn a us") auto
  then obtain a1 where a1: "tlb_sync (\<lambda>t e. e\<lparr>dirty := dirty t, use := use t\<rparr>) [0..3] (machine us) a = Inr a1"
    by (auto simp: MoveraMemoria_def rbind_eq_Inr_iff)
  have k: "ipt a1 = Some [x]" "length (as_pageTable a1) = length (as_pageTable a)" "map valid (as_pageTable a1) = map valid (as_pageTable a)"
    using tlb_sync_keeps [OF a1] assms(1) by auto
  have "valid (as_pageTable a1 ! nat vpn) = valid (as_pageTable a ! nat vpn)"
    using assms(4,5) k(2) arg_cong [OF k(3), of "\<lambda>xs. xs ! nat vpn"] by simp
  then have v: "\<not> valid (as_pageTable a1 ! nat vpn)" using assms(6) by simp
  have "array_get (as_pageTable a1) vpn = Inr (as_pageTable a1 ! nat vpn)" using assms(4,5) k(2) by simp
  then show False
    using r a1 v no_second_frame [OF k(1) assms(2,3)] by (auto simp: MoveraMemoria_def Let_def split: if_splits)
qed

text \<open>
  A page of code that is not in memory, when there is a free frame with an entry in \<open>ipt\<close>: it is read from its
  place in the program file into that frame, mapped read-only, and entered into the TLB.
\<close>

definition code_entry :: "int \<Rightarrow> int \<Rightarrow> TranslationEntry" where
  "code_entry vpn f = \<lparr>virtualPage = word_of_int vpn, physicalPage = word_of_int f, valid = True, readOnly = True, use = True, dirty = False\<rparr>"

lemma from_file_loads:
  assumes f: "Find (memoryMap us) = Inr (f, mm)" "0 \<le> f" "f < 32" "ipt a = Some ts" "f < int (length ts)"
    and t: "tlb (machine us) = Some t" "0 \<le> iter us" "iter us < int (length t)"
    and v: "0 \<le> vpn" "vpn < int (length (as_pageTable a))" "hostFiles us x = Some bs" "length (mainMemory (machine us)) = MemorySize"
  shows "\<exists>a' us'. from_file vpn True (Some x) a us = Inr (a', us') \<and> memoryMap us' = mm \<and>
    as_pageTable a' = (as_pageTable a)[nat vpn := code_entry vpn f] \<and>
    tlb (machine us') = Some (t[nat (iter us) := code_entry vpn f]) \<and>
    mainMemory (machine us') = overwrite (nat f * PageSize) (take PageSize (drop (NoffSize + nat vpn * PageSize) bs)) (mainMemory (machine us))"
proof -
  let ?pg = "take PageSize (drop (NoffSize + nat vpn * PageSize) bs)"
  let ?a = "a\<lparr>as_pageTable := (as_pageTable a)[nat vpn := code_entry vpn f]\<rparr>"
  let ?us = "us\<lparr>memoryMap := mm, machine := (machine us)\<lparr>tlb := Some (t[nat (iter us) := code_entry vpn f])\<rparr>, iter := (iter us + 1) smod 4\<rparr>"
  have g: "get_frame False a us = Inr (f, a, us\<lparr>memoryMap := mm\<rparr>)" using f(1,2) by (simp add: get_frame_def)
  have m: "map_page vpn f False True a (us\<lparr>memoryMap := mm\<rparr>) = Inr (?a, ?us)"
    using t v(1,2) by (simp add: map_page_def pt_set_def tlb_load_def copiarATLB_def code_entry_def)
  have pos: "nat (int NoffSize + vpn * int PageSize) = NoffSize + nat vpn * PageSize" "nat (f * int PageSize) = nat f * PageSize"
    using v(1) f(2) by (simp_all add: nat_add_distrib nat_mult_distrib)
  have fit: "nat f * PageSize + length ?pg \<le> length (mainMemory (machine us))" using v(4) f(2,3) by (simp add: machine_sizes)
  have r: "stub_ReadAt x PageSize (int NoffSize + vpn * int PageSize) (hostFiles ?us) = Inr ?pg"
    using v(1,3) pos(1) by (simp add: stub_ReadAt_def)
  have empty: "overwrite (nat f * PageSize) [] (mainMemory (machine us)) = mainMemory (machine us)" by (simp add: overwrite_def)
  obtain m' where m': "read_into (f * int PageSize) ?pg (machine ?us) = Inr m'" "tlb m' = tlb (machine ?us)"
    "mainMemory m' = overwrite (nat f * PageSize) ?pg (mainMemory (machine us))"
    using fit f(2) pos(2) empty by (cases "?pg = []") (auto simp: read_into_def write_bytes_def)
  then have "from_file vpn True (Some x) a us = Inr (?a\<lparr>ipt := Some (ts[nat f := vpn])\<rparr>, ?us\<lparr>machine := m'\<rparr>)"
    using g m r f(2,4,5) by (simp add: from_file_def load_page_def ipt_set_def)
  then show ?thesis using m' by simp
qed

lemma MoveraMemoria_loads:
  assumes f: "Find (memoryMap us) = Inr (f, mm)" "0 \<le> f" "f < 32" "ipt a = Some ts" "f < int (length ts)"
    and t: "tlb (machine us) = Some t" "length t = TLBSize" "0 \<le> iter us" "iter us < int TLBSize"
      "\<forall>e \<in> set t. 0 \<le> sint (virtualPage e) \<and> sint (virtualPage e) < int (length (as_pageTable a))"
    and v: "0 \<le> vpn" "vpn < int (length (as_pageTable a))" "\<not> valid (as_pageTable a ! nat vpn)"
      "vpn < divRoundUp (sint (seg_size (seg_code (noffH1 a)))) (int PageSize)"
    and x: "hostFiles us (ejecutable a) = Some bs" "length (mainMemory (machine us)) = MemorySize"
  shows "\<exists>a' us'. MoveraMemoria vpn a us = Inr (a', us') \<and> memoryMap us' = mm \<and> as_pageTable a' ! nat vpn = code_entry vpn f \<and>
    tlb (machine us') = Some (t[nat (iter us) := code_entry vpn f]) \<and>
    mainMemory (machine us') = overwrite (nat f * PageSize) (take PageSize (drop (NoffSize + nat vpn * PageSize) bs)) (mainMemory (machine us))"
proof -
  have four: "\<forall>i \<in> set [0..3]. 0 \<le> i \<and> i < int (length t)" using t(2) by (simp add: machine_sizes)
  obtain a1 where a1: "tlb_sync (\<lambda>t e. e\<lparr>dirty := dirty t, use := use t\<rparr>) [0..3] (machine us) a = Inr a1"
    using tlb_sync_ok [OF t(1) four t(5)] by blast
  have k: "ipt a1 = Some ts" "length (as_pageTable a1) = length (as_pageTable a)" "map valid (as_pageTable a1) = map valid (as_pageTable a)"
    "noffH1 a1 = noffH1 a" "ejecutable a1 = ejecutable a"
    using tlb_sync_keeps [OF a1] f(4) by auto
  have "valid (as_pageTable a1 ! nat vpn) = valid (as_pageTable a ! nat vpn)"
    using v(1,2) k(2) arg_cong [OF k(3), of "\<lambda>xs. xs ! nat vpn"] by simp
  then have inv: "\<not> valid (as_pageTable a1 ! nat vpn)" using v(3) by simp
  have get: "array_get (as_pageTable a1) vpn = Inr (as_pageTable a1 ! nat vpn)" using v(1,2) k(2) by simp
  have len: "vpn < int (length (as_pageTable a1))" "iter us < int (length t)" using v(2) k(2) t(2,4) by simp_all
  have "MoveraMemoria vpn a us = from_file vpn True (Some (ejecutable a)) a1 us"
    using a1 inv get k(4,5) v(4) x(1) by (simp add: MoveraMemoria_def stub_Open_def)
  then show ?thesis
    using from_file_loads [OF f(1-3) k(1) f(5) t(1,3) len(2) v(1) len(1) x] v(1) len(1) by auto
qed

end
