(* ===== verification/Nachos_Syscalls.thy ===== *)
theory Nachos_Syscalls
  imports Nachos_AddrSpace Nachos_Tables Nachos_MIPS
begin

text \<open>
  \<open>userprog/exception.cc\<close>: the entry of the kernel for user programs.  A handler runs until it calls a routine of the
  kernel that may give up the processor; such a call is a value \<open>Call\<close> with the state at the call and the rest of the
  handler, which gets the reply and the state in which the thread goes on.  The files that programs open are files of the host.
\<close>

section \<open>State\<close>

record archivosEjec =
  hilo :: int
  nombre :: "byte list"
  ejec_sem :: "int option"
  hiloJ :: int

datatype line_out = Out_string "byte list" | Out_int int

text \<open>
  The state that a handler sees: the globals of \<open>UserState\<close>, the space and the file table of the current thread, the
  globals of \<open>exception.cc\<close>, and of the host the open descriptors (name and offset), the input and the output.
\<close>

record Sys =
  us :: UserState
  space :: AddrSpace
  NOP :: NachosOpenFilesTable
  SMT :: SemTabla
  ejecutables :: "archivosEjec list"
  archivoAE :: int
  currentThread_id :: int
  Console_sem :: int
  last_page :: int
  pagPaults :: int
  descriptors :: "int \<rightharpoonup> byte list \<times> nat"
  input :: "byte list"
  printed :: "line_out list"

text \<open>What a forked thread executes.\<close>

datatype body = NachosExec_body nat | NachosFork_body AddrSpace "32 word"

datatype kcall =
    K_Halt
  | K_SetLevel bool
  | K_V int
  | K_P int
  | K_FindNextToRun
  | K_Finish
  | K_Run int
  | K_new_Thread
  | K_new_Semaphore int
  | K_Fork int body
  | K_Yield
  | K_machine_Run

datatype prog = Fault fault | Done Sys | Call kcall Sys "int option \<Rightarrow> Sys \<Rightarrow> prog"

definition pbind :: "'a res \<Rightarrow> ('a \<Rightarrow> prog) \<Rightarrow> prog" where
  "pbind r k = (case r of Inl f \<Rightarrow> Fault f | Inr x \<Rightarrow> k x)"

definition sys_machine :: "Sys \<Rightarrow> Machine" where
  "sys_machine s = machine (us s)"

definition set_machine :: "Machine \<Rightarrow> Sys \<Rightarrow> Sys" where
  "set_machine m s = s\<lparr>us := (us s)\<lparr>machine := m\<rparr>\<rparr>"

definition user_reg :: "nat \<Rightarrow> Sys \<Rightarrow> 32 word res" where
  "user_reg r s = ReadRegister (int r) (sys_machine s)"

definition set_user_reg :: "nat \<Rightarrow> 32 word \<Rightarrow> Sys \<Rightarrow> Sys res" where
  "set_user_reg r v s = rbind (WriteRegister (int r) v (sys_machine s)) (\<lambda>m. Inr (set_machine m s))"

definition returnFromSystemCall :: "Sys \<Rightarrow> Sys res" where
  "returnFromSystemCall s = rbind (user_reg PCReg s) (\<lambda>pc. rbind (user_reg NextPCReg s) (\<lambda>npc.
     rbind (set_user_reg PrevPCReg pc s) (\<lambda>s1.
     rbind (set_user_reg PCReg npc s1) (\<lambda>s2.
     set_user_reg NextPCReg (npc + 4) s2))))"

definition ret :: "Sys \<Rightarrow> prog" where
  "ret s = pbind (returnFromSystemCall s) Done"

text \<open>\<open>machine->WriteRegister(2, v)\<close> and the return.\<close>

definition ret_val :: "32 word \<Rightarrow> Sys \<Rightarrow> prog" where
  "ret_val v s = pbind (set_user_reg 2 v s) ret"

section \<open>The host\<close>

definition free_fd :: "Sys \<Rightarrow> int option" where
  "free_fd s = find (\<lambda>n. descriptors s n = None) [3..1023]"

definition host_open :: "byte list \<Rightarrow> Sys \<Rightarrow> int \<times> Sys" where
  "host_open nm s = (case (hostFiles (us s) nm, free_fd s) of
       (Some _, Some fd) \<Rightarrow> (fd, s\<lparr>descriptors := (descriptors s)(fd \<mapsto> (nm, 0))\<rparr>)
     | _ \<Rightarrow> (-1, s))"

definition host_creat :: "byte list \<Rightarrow> Sys \<Rightarrow> int \<times> Sys" where
  "host_creat nm s = (case free_fd s of
       Some fd \<Rightarrow> (fd, s\<lparr>descriptors := (descriptors s)(fd \<mapsto> (nm, 0)), us := (us s)\<lparr>hostFiles := (hostFiles (us s))(nm \<mapsto> [])\<rparr>\<rparr>)
     | None \<Rightarrow> (-1, s))"

definition host_close :: "int \<Rightarrow> Sys \<Rightarrow> Sys" where
  "host_close fd s = s\<lparr>descriptors := (descriptors s)(fd := None)\<rparr>"

definition host_read_fd :: "int \<Rightarrow> nat \<Rightarrow> Sys \<Rightarrow> int \<times> byte list \<times> Sys" where
  "host_read_fd fd n s = (case descriptors s fd of None \<Rightarrow> (-1, [], s)
     | Some (nm, off) \<Rightarrow> (case hostFiles (us s) nm of None \<Rightarrow> (-1, [], s)
        | Some bs \<Rightarrow> let r = take n (drop off bs) in (int (length r), r, s\<lparr>descriptors := (descriptors s)(fd \<mapsto> (nm, off + length r))\<rparr>)))"

definition host_write_fd :: "int \<Rightarrow> byte list \<Rightarrow> Sys \<Rightarrow> int \<times> Sys" where
  "host_write_fd fd data s = (case descriptors s fd of None \<Rightarrow> (-1, s)
     | Some (nm, off) \<Rightarrow> (case hostFiles (us s) nm of None \<Rightarrow> (-1, s)
        | Some bs \<Rightarrow> (int (length data), s\<lparr>descriptors := (descriptors s)(fd \<mapsto> (nm, off + length data)),
            us := (us s)\<lparr>hostFiles := (hostFiles (us s))(nm \<mapsto> host_write off data bs)\<rparr>\<rparr>)))"

section \<open>Page faults and the memory of the program\<close>

definition Nachos_PageFault :: "Sys \<Rightarrow> Sys res" where
  "Nachos_PageFault s = rbind (user_reg BadVAddrReg s) (\<lambda>dirVirtual.
     let vpn = sint dirVirtual sdiv int PageSize in
     if last_page s = vpn then Inl Abort
     else let s1 = s\<lparr>last_page := vpn, pagPaults := i32 (pagPaults s + 1)\<rparr> in
       rbind (MoveraMemoria vpn (space s1) (us s1)) (\<lambda>(a, u). Inr (s1\<lparr>space := a, us := u\<rparr>)))"

text \<open>\<open>ExceptionHandler\<close> for an exception that the kernel itself causes by an access to the memory of the program.\<close>

definition kernel_trap :: "ExceptionType \<Rightarrow> Sys \<Rightarrow> Sys res" where
  "kernel_trap which s = (if which = PageFaultException then Nachos_PageFault s else Inl Abort)"

text \<open>
  \<open>machine->ReadMem(addr, 1, &k)\<close> and \<open>machine->WriteMem(addr, 1, v)\<close>: the handlers do not look at the result, and after an
  exception \<open>k\<close> is what it was.
\<close>

definition kernel_read :: "32 word \<Rightarrow> 32 word \<Rightarrow> Sys \<Rightarrow> (32 word \<times> Sys) res" where
  "kernel_read addr k s = rbind (ReadMem addr 1 (sys_machine s)) (\<lambda>(r, m).
     let s1 = set_machine m s in
     case r of Inr v \<Rightarrow> Inr (v, s1)
     | Inl ex \<Rightarrow> rbind (RaiseException (\<lambda>which m'. kernel_trap which (set_machine m' s1)) ex addr m) (\<lambda>s2. Inr (k, s2)))"

definition kernel_write :: "32 word \<Rightarrow> byte \<Rightarrow> Sys \<Rightarrow> Sys res" where
  "kernel_write addr v s = rbind (WriteMem addr 1 (scast v) (sys_machine s)) (\<lambda>(r, m).
     let s1 = set_machine m s in
     case r of None \<Rightarrow> Inr s1
     | Some ex \<Rightarrow> RaiseException (\<lambda>which m'. kernel_trap which (set_machine m' s1)) ex addr m)"

text \<open>The loop that copies a string up to its NUL into an array with room for \<open>room\<close> more bytes.\<close>

fun read_string :: "nat \<Rightarrow> 32 word \<Rightarrow> 32 word \<Rightarrow> Sys \<Rightarrow> (byte list \<times> Sys) res" where
  "read_string 0 addr k s = rbind (kernel_read addr k s) (\<lambda>_. Inl BadIndex)"
| "read_string (Suc room) addr k s = rbind (kernel_read addr k s) (\<lambda>(k1, s1).
     if k1 = 0 then Inr ([], s1)
     else rbind (read_string room (addr + 1) k1 s1) (\<lambda>(bs, s2). Inr (ucast k1 # bs, s2)))"

fun write_string :: "byte list \<Rightarrow> 32 word \<Rightarrow> Sys \<Rightarrow> Sys res" where
  "write_string [] addr s = Inr s"
| "write_string (b # bs) addr s = rbind (kernel_write addr b s) (write_string bs (addr + 1))"

text \<open>\<open>name[i] = 0\<close> after the loop needs one more byte.\<close>

definition read_name :: "32 word \<Rightarrow> Sys \<Rightarrow> (byte list \<times> Sys) res" where
  "read_name addr s = rbind (read_string 128 addr 1 s) (\<lambda>(bs, s1). if length bs + 1 < 128 then Inr (bs, s1) else Inl BadIndex)"

section \<open>System calls\<close>

definition Nachos_Halt :: "Sys \<Rightarrow> prog" where
  "Nachos_Halt s = Call K_Halt s (\<lambda>_. ret)"

fun exit_loop :: "nat list \<Rightarrow> Sys \<Rightarrow> (Sys \<Rightarrow> prog) \<Rightarrow> prog" where
  "exit_loop [] s k = k s"
| "exit_loop (i # is) s k = (let e = ejecutables s ! i in
     case ejec_sem e of
       Some sem \<Rightarrow> if hilo e = currentThread_id s
         then Call (K_V sem) s (\<lambda>_ s1. exit_loop is (s1\<lparr>ejecutables := (ejecutables s1)[i := (ejecutables s1 ! i)\<lparr>ejec_sem := None\<rparr>]\<rparr>) k)
         else exit_loop is s k
     | None \<Rightarrow> exit_loop is s k)"

definition Nachos_Exit :: "Sys \<Rightarrow> prog" where
  "Nachos_Exit s = Call (K_SetLevel False) s (\<lambda>old s1.
     exit_loop [0..<length (ejecutables s1)] s1 (\<lambda>s2.
     Call K_FindNextToRun (s2\<lparr>NOP := NOF_delThread (NOP s2)\<rparr>) (\<lambda>nxt s3.
     Call (case nxt of None \<Rightarrow> K_Finish | Some t \<Rightarrow> K_Run t) s3 (\<lambda>_ s4.
     Call (K_SetLevel (old = Some 1)) s4 (\<lambda>_. ret)))))"

text \<open>\<open>NachosExecThread\<close>, executed by the new thread, whose \<open>space\<close> is NULL; \<open>raw\<close> and \<open>raw_name\<close> are uninitialised memory.\<close>

definition NachosExecThread :: "bool \<Rightarrow> byte list \<Rightarrow> byte list \<Rightarrow> nat \<Rightarrow> Sys \<Rightarrow> prog" where
  "NachosExecThread vm raw raw_name p s =
     (case stub_Open (nombre (ejecutables s ! p)) (hostFiles (us s)) of None \<Rightarrow> Done s
      | Some executable \<Rightarrow>
         pbind (AddrSpace_new vm raw raw_name executable [] (us s)) (\<lambda>(a, u).
         pbind (InitRegisters a (machine u)) (\<lambda>m.
           Call K_machine_Run (s\<lparr>space := a, us := u\<lparr>machine := RestoreState vm a m\<rparr>\<rparr>) (\<lambda>_. Done))))"

definition Nachos_Exec :: "Sys \<Rightarrow> prog" where
  "Nachos_Exec s = pbind (user_reg 4 s) (\<lambda>reg4.
     pbind (read_name reg4 s) (\<lambda>(nm, s1).
     Call K_new_Thread s1 (\<lambda>newT s2. case newT of None \<Rightarrow> Fault BadPointer
       | Some t \<Rightarrow> let s3 = s2\<lparr>archivoAE := i32 (archivoAE s2 + 1),
             ejecutables := ejecutables s2 @ [\<lparr>hilo = t, nombre = nm, ejec_sem = None, hiloJ = -1\<rparr>], NOP := NOF_addThread (NOP s2)\<rparr> in
           Call (K_Fork t (NachosExec_body (length (ejecutables s2)))) s3 (\<lambda>_ s4. ret_val (word_of_int (archivoAE s4)) s4))))"

text \<open>\<open>Nachos_Join\<close> and the return that \<open>ExceptionHandler\<close> adds to it; a negative id becomes a huge unsigned number.\<close>

definition Nachos_Join :: "Sys \<Rightarrow> prog" where
  "Nachos_Join s = pbind (user_reg 4 s) (\<lambda>r. let i = sint r in
     if 0 \<le> i \<and> i < int (length (ejecutables s)) then
       Call (K_new_Semaphore 0) s (\<lambda>sem s1. case sem of None \<Rightarrow> Fault BadPointer
         | Some a \<Rightarrow> Call (K_P a) (s1\<lparr>ejecutables := (ejecutables s1)[nat i := (ejecutables s1 ! nat i)\<lparr>ejec_sem := Some a, hiloJ := currentThread_id s1\<rparr>]\<rparr>)
             (\<lambda>_ s2. ret_val 1 s2))
     else ret_val (-1) s)"

definition Nachos_Create :: "Sys \<Rightarrow> prog" where
  "Nachos_Create s = pbind (user_reg 4 s) (\<lambda>direc.
     pbind (read_string 128 direc 1 s) (\<lambda>(nm, s1).
     let (fd, s2) = host_creat nm s1 in ret (host_close fd s2)))"

definition Nachos_Open :: "Sys \<Rightarrow> prog" where
  "Nachos_Open s = pbind (user_reg 4 s) (\<lambda>direc.
     pbind (read_name direc s) (\<lambda>(nm, s1).
     let (fd, s2) = host_open nm s1 in
     pbind (NOF_Open fd (NOP s2)) (\<lambda>(idFake, t). ret_val (word_of_int idFake) (s2\<lparr>NOP := t\<rparr>))))"

text \<open>\<open>fgets(buffer, 2, stdin)\<close> into a buffer of \<open>sz\<close> bytes, and the string in it.\<close>

definition fgets_char :: "nat \<Rightarrow> Sys \<Rightarrow> (byte list \<times> Sys) res" where
  "fgets_char sz s = (case input s of
       [] \<Rightarrow> if sz = 0 then Inl BadIndex else Inr ([], s)
     | c # cs \<Rightarrow> if sz < 2 then Inl BadIndex else Inr (takeWhile (\<lambda>b. b \<noteq> 0) [c], s\<lparr>input := cs\<rparr>))"

definition ConsoleInput :: int where "ConsoleInput = 0"
definition ConsoleOutput :: int where "ConsoleOutput = 1"
definition ConsoleError :: int where "ConsoleError = 2"

text \<open>Between \<open>Console->P()\<close> and \<open>Console->V()\<close>.\<close>

definition read_body :: "nat \<Rightarrow> 32 word \<Rightarrow> int \<Rightarrow> Sys \<Rightarrow> Sys res" where
  "read_body sz r4 fid s =
     (if fid = ConsoleInput then rbind (fgets_char sz s) (\<lambda>(buffer, s1).
        rbind (write_string buffer r4 s1) (\<lambda>s2. set_user_reg 2 (of_nat (length buffer)) s2))
      else if fid = ConsoleOutput \<or> fid = ConsoleError then set_user_reg 2 (-1) s
      else rbind (NOF_isOpened fid (NOP s)) (\<lambda>b.
        if b then rbind (NOF_getUnixHandle fid (NOP s)) (\<lambda>id2.
          let (r, buffer, s1) = host_read_fd id2 sz s in
          rbind (write_string buffer r4 s1) (\<lambda>s2. set_user_reg 2 (word_of_int r) s2))
        else set_user_reg 2 (-1) s))"

definition Nachos_Read :: "Sys \<Rightarrow> prog" where
  "Nachos_Read s = pbind (user_reg 5 s) (\<lambda>size_word. pbind (user_reg 4 s) (\<lambda>r4. pbind (user_reg 6 s) (\<lambda>fid.
     if sint size_word < 0 then Fault BadIndex else
     Call (K_P (Console_sem s)) s (\<lambda>_ s1.
     pbind (read_body (nat (sint size_word)) r4 (sint fid) s1) (\<lambda>s2.
     Call (K_V (Console_sem s2)) s2 (\<lambda>_. ret))))))"

text \<open>
  The string is copied up to its NUL, whatever the size is; \<open>write\<close> then writes \<open>size\<close> bytes of the buffer, which is
  zero behind the string.
\<close>

definition write_body :: "nat \<Rightarrow> int \<Rightarrow> Sys \<Rightarrow> Sys res" where
  "write_body sz fid s = rbind (user_reg 4 s) (\<lambda>direc.
     rbind (read_string (Suc sz) direc 1 s) (\<lambda>(buffer, s1).
     if length buffer + 1 \<ge> Suc sz then Inl BadIndex
     else if fid = ConsoleInput then set_user_reg 2 (-1) s1
     else if fid = ConsoleOutput then Inr (s1\<lparr>printed := printed s1 @ [Out_string buffer]\<rparr>)
     else if fid = ConsoleError then rbind (user_reg 4 s1) (\<lambda>v. Inr (s1\<lparr>printed := printed s1 @ [Out_int (sint v)]\<rparr>))
     else rbind (NOF_isOpened fid (NOP s1)) (\<lambda>b.
       if b then rbind (NOF_getUnixHandle fid (NOP s1)) (\<lambda>id2.
         let (r, s2) = host_write_fd id2 (take sz (buffer @ replicate sz 0)) s1 in set_user_reg 2 (word_of_int r) s2)
       else set_user_reg 2 (-1) s1)))"

definition Nachos_Write :: "Sys \<Rightarrow> prog" where
  "Nachos_Write s = pbind (user_reg 5 s) (\<lambda>size_word. pbind (user_reg 6 s) (\<lambda>fid.
     if sint size_word < 0 then Fault BadIndex else
     Call (K_P (Console_sem s)) s (\<lambda>_ s1.
     pbind (write_body (nat (sint size_word)) (sint fid) s1) (\<lambda>s2.
     Call (K_V (Console_sem s2)) s2 (\<lambda>_. ret)))))"

definition Nachos_Close :: "Sys \<Rightarrow> prog" where
  "Nachos_Close s = pbind (user_reg 4 s) (\<lambda>r. let h = sint r in
     pbind (NOF_getUnixHandle h (NOP s)) (\<lambda>id2.
     let s1 = host_close id2 s in
     pbind (NOF_Close h (NOP s1)) (\<lambda>(_, t). ret (s1\<lparr>NOP := t\<rparr>))))"

text \<open>\<open>NachosForkThread\<close>, executed by the new thread with the space that \<open>Nachos_Fork\<close> made for it.\<close>

definition NachosForkThread :: "bool \<Rightarrow> AddrSpace \<Rightarrow> 32 word \<Rightarrow> Sys \<Rightarrow> prog" where
  "NachosForkThread vm a p s =
     pbind (InitRegisters a (sys_machine s)) (\<lambda>m.
     let s1 = set_machine (RestoreState vm a m) (s\<lparr>space := a\<rparr>) in
     pbind (set_user_reg RetAddrReg 4 s1) (\<lambda>s2.
     pbind (set_user_reg PCReg p s2) (\<lambda>s3.
     pbind (set_user_reg NextPCReg (p + 4) s3) (\<lambda>s4.
     Call K_machine_Run s4 (\<lambda>_ _. Fault Abort)))))"

definition Nachos_Fork :: "AddrSpace \<Rightarrow> Sys \<Rightarrow> prog" where
  "Nachos_Fork raw_space s = Call K_new_Thread s (\<lambda>newT s1. case newT of None \<Rightarrow> Fault BadPointer
     | Some t \<Rightarrow> pbind (AddrSpace_copy raw_space (space s1) (us s1)) (\<lambda>(a, u).
         let s2 = s1\<lparr>us := u, NOP := NOF_addThread (NOP s1)\<rparr> in
         pbind (user_reg 4 s2) (\<lambda>func.
         Call (K_Fork t (NachosFork_body a func)) s2 (\<lambda>_ s3.
         Call K_Yield s3 (\<lambda>_. ret)))))"

definition Nachos_Yield :: "Sys \<Rightarrow> prog" where
  "Nachos_Yield s = Call K_Yield s (\<lambda>_. ret)"

definition Nachos_SemCreate :: "Sys \<Rightarrow> prog" where
  "Nachos_SemCreate s = pbind (user_reg 4 s) (\<lambda>v.
     Call (K_new_Semaphore (sint v)) s (\<lambda>sem s1. case sem of None \<Rightarrow> Fault BadPointer
       | Some a \<Rightarrow> pbind (Sem_Create a (SMT s1)) (\<lambda>(idFake, t). ret_val (word_of_int idFake) (s1\<lparr>SMT := t\<rparr>))))"

definition Nachos_SemDestroy :: "Sys \<Rightarrow> prog" where
  "Nachos_SemDestroy s = pbind (user_reg 4 s) (\<lambda>r.
     pbind (Sem_Close (sint r) (SMT s)) (\<lambda>(v, t). ret_val (word_of_int v) (s\<lparr>SMT := t\<rparr>)))"

definition Nachos_SemSignal :: "Sys \<Rightarrow> prog" where
  "Nachos_SemSignal s = pbind (user_reg 4 s) (\<lambda>r.
     pbind (Sem_getSemaphore (sint r) (SMT s)) (\<lambda>idReal.
     if idReal = -1 then ret_val (-1) s else Call (K_V idReal) s (\<lambda>_ s1. ret_val 1 s1)))"

definition Nachos_SemWait :: "Sys \<Rightarrow> prog" where
  "Nachos_SemWait s = pbind (user_reg 4 s) (\<lambda>r.
     pbind (Sem_getSemaphore (sint r) (SMT s)) (\<lambda>idReal.
     if idReal = -1 then ret_val (-1) s else Call (K_P idReal) s (\<lambda>_ s1. ret_val 1 s1)))"

section \<open>The dispatcher\<close>

definition syscall_table :: "AddrSpace \<Rightarrow> (Sys \<Rightarrow> prog) list" where
  "syscall_table raw_space = [Nachos_Halt, Nachos_Exit, Nachos_Exec, Nachos_Join, Nachos_Create, Nachos_Open, Nachos_Read, Nachos_Write,
     Nachos_Close, Nachos_Fork raw_space, Nachos_Yield, Nachos_SemCreate, Nachos_SemDestroy, Nachos_SemSignal, Nachos_SemWait]"

definition ExceptionHandler :: "AddrSpace \<Rightarrow> ExceptionType \<Rightarrow> Sys \<Rightarrow> prog" where
  "ExceptionHandler raw_space which s = pbind (user_reg 2 s) (\<lambda>type.
     case which of
       SyscallException \<Rightarrow> if unat type < length (syscall_table raw_space) then (syscall_table raw_space ! unat type) s else Fault Abort
     | PageFaultException \<Rightarrow> pbind (Nachos_PageFault s) Done
     | _ \<Rightarrow> Fault Abort)"

section \<open>Handlers that end\<close>

text \<open>
  A run of a handler to its end.  The kernel may do anything at a call and give any reply; \<open>K\<close> relates the state at the
  call to the state in which the thread goes on.
\<close>

abbreviation regs :: "Sys \<Rightarrow> 32 word list" where
  "regs s \<equiv> registers (machine (us s))"

inductive completes :: "(Sys \<Rightarrow> Sys \<Rightarrow> bool) \<Rightarrow> prog \<Rightarrow> Sys \<Rightarrow> bool" for K where
  completes_Done: "completes K (Done s) s"
| completes_Call: "K s s1 \<Longrightarrow> completes K (k r s1) s' \<Longrightarrow> completes K (Call c s k) s'"

inductive_simps completes_simps [simp]: "completes K (Fault f) s'" "completes K (Done s) s'" "completes K (Call c s k) s'"

text \<open>One iteration of the loop of \<open>Machine::Run\<close>, up to the tick of the clock: an instruction, and the kernel when it traps.\<close>

definition user_step :: "AddrSpace \<Rightarrow> Sys \<Rightarrow> prog" where
  "user_step raw_space s = pbind (fetch_execute (sys_machine s)) (\<lambda>(exn, m). case exn of
       None \<Rightarrow> Done (set_machine m s)
     | Some (which, badVAddr) \<Rightarrow> pbind (RaiseException (\<lambda>_. Inr) which badVAddr m) (\<lambda>m1. ExceptionHandler raw_space which (set_machine m1 s)))"

inductive user_run :: "(Sys \<Rightarrow> Sys \<Rightarrow> bool) \<Rightarrow> AddrSpace \<Rightarrow> Sys \<Rightarrow> Sys \<Rightarrow> bool" for K raw_space where
  run_start: "user_run K raw_space s s"
| run_step: "user_run K raw_space s s1 \<Longrightarrow> completes K (user_step raw_space s1) s2 \<Longrightarrow> K s2 s3 \<Longrightarrow> user_run K raw_space s s3"

text \<open>The files of the host are not part of the machine.\<close>

lemma host_machine:
  "host_open nm s = (fd, s') \<Longrightarrow> machine (us s') = machine (us s)"
  "host_creat nm s = (fd, s') \<Longrightarrow> machine (us s') = machine (us s)"
  "host_read_fd fd n s = (r, bs, s') \<Longrightarrow> machine (us s') = machine (us s)"
  "host_write_fd fd data s = (r, s') \<Longrightarrow> machine (us s') = machine (us s)"
  "machine (us (host_close fd s)) = machine (us s)"
  by (auto simp: host_open_def host_creat_def host_read_fd_def host_write_fd_def host_close_def Let_def split: option.splits prod.splits)

text \<open>
  What a handler keeps until it returns, \<open>before\<close>, and what the return makes of it, \<open>after\<close>.  The laws are about the few
  routines that touch the machine; the lemmas go through every system call.
\<close>

locale handler_invariant =
  fixes before :: "Sys \<Rightarrow> bool"
    and "after" :: "Sys \<Rightarrow> bool"
    and K :: "Sys \<Rightarrow> Sys \<Rightarrow> bool"
  assumes kernel: "before s \<Longrightarrow> K s s1 \<Longrightarrow> before s1"
    and machine_only: "machine (us s') = machine (us s) \<Longrightarrow> before s' = before s"
    and result: "set_user_reg 2 v s = Inr s' \<Longrightarrow> before s \<Longrightarrow> before s'"
    and leave: "returnFromSystemCall s = Inr s' \<Longrightarrow> before s \<Longrightarrow> after s'"
    and read_byte: "kernel_read addr k s = Inr (k', s') \<Longrightarrow> before s \<Longrightarrow> before s'"
    and write_byte: "kernel_write addr b s = Inr s' \<Longrightarrow> before s \<Longrightarrow> before s'"
begin

definition yields :: "prog \<Rightarrow> bool" where
  "yields p \<longleftrightarrow> (\<forall>s'. completes K p s' \<longrightarrow> after s')"

lemma before_upd [simp]:
  "before (s\<lparr>NOP := x\<rparr>) = before s" "before (s\<lparr>SMT := y\<rparr>) = before s" "before (s\<lparr>ejecutables := e\<rparr>) = before s"
  "before (s\<lparr>archivoAE := n\<rparr>) = before s" "before (s\<lparr>descriptors := d\<rparr>) = before s" "before (s\<lparr>input := i\<rparr>) = before s"
  "before (s\<lparr>printed := q\<rparr>) = before s" "before (s\<lparr>last_page := l\<rparr>) = before s" "before (s\<lparr>pagPaults := f\<rparr>) = before s"
  "before (s\<lparr>space := a\<rparr>) = before s"
  by (rule machine_only, simp)+

lemma Fault_yields [simp]: "yields (Fault f)"
  by (simp add: yields_def)

lemma pbind_yields: "(\<And>x. r = Inr x \<Longrightarrow> yields (k x)) \<Longrightarrow> yields (pbind r k)"
  by (auto simp: pbind_def yields_def split: sum.splits)

lemma ret_yields: "before s \<Longrightarrow> yields (ret s)"
  unfolding ret_def by (rule pbind_yields) (auto simp: yields_def dest: leave)

lemma ret_val_yields: "before s \<Longrightarrow> yields (ret_val v s)"
  unfolding ret_val_def by (rule pbind_yields, rule ret_yields) (rule result)

lemma Call_yields: "before s \<Longrightarrow> (\<And>r s1. before s1 \<Longrightarrow> yields (k r s1)) \<Longrightarrow> yields (Call c s k)"
  by (auto simp: yields_def dest: kernel)

lemma read_string_before: "read_string room addr k s = Inr (bs, s') \<Longrightarrow> before s \<Longrightarrow> before s'"
proof (induction room arbitrary: addr k s bs s')
  case (Suc room)
  then obtain k1 s1 where k: "kernel_read addr k s = Inr (k1, s1)" by (auto simp: rbind_eq_Inr_iff)
  then have "before s1" using Suc.prems(2) by (rule read_byte)
  then show ?case using Suc.prems(1) k Suc.IH by (auto simp: rbind_eq_Inr_iff split: if_splits)
qed (auto simp: rbind_eq_Inr_iff)

lemma read_name_before: "read_name addr s = Inr (bs, s') \<Longrightarrow> before s \<Longrightarrow> before s'"
  by (auto simp: read_name_def rbind_eq_Inr_iff split: if_splits dest: read_string_before)

lemma write_string_before: "write_string bs addr s = Inr s' \<Longrightarrow> before s \<Longrightarrow> before s'"
  by (induction bs addr s rule: write_string.induct) (auto simp: rbind_eq_Inr_iff dest: write_byte)

lemmas host_before = host_machine [THEN machine_only]

lemma fgets_before: "fgets_char sz s = Inr (bs, s') \<Longrightarrow> before s' = before s"
  by (rule machine_only) (auto simp: fgets_char_def split: list.splits if_splits)

text \<open>The same rules for the parts of a handler between two calls.\<close>

definition keeps_before :: "Sys res \<Rightarrow> bool" where
  "keeps_before r \<longleftrightarrow> (\<forall>s'. r = Inr s' \<longrightarrow> before s')"

lemma keeps_before_intros:
  "keeps_before (Inl f)" "before s \<Longrightarrow> keeps_before (Inr s)"
  "(\<And>x. r = Inr x \<Longrightarrow> keeps_before (k x)) \<Longrightarrow> keeps_before (rbind r k)"
  "before s \<Longrightarrow> keeps_before (set_user_reg 2 v s)"
  by (auto simp: keeps_before_def rbind_eq_Inr_iff dest: result)

lemma read_body_before: "read_body sz r4 fid s = Inr s' \<Longrightarrow> before s \<Longrightarrow> before s'"
proof -
  assume r: "read_body sz r4 fid s = Inr s'" and at: "before s"
  have h: "before s1" if "host_read_fd fd sz s = (r, bs, s1)" for fd r bs s1 using host_before(3) [OF that] at by simp
  have f: "before s1" if "fgets_char sz s = Inr (bs, s1)" for bs s1 using fgets_before [OF that] at by simp
  have "keeps_before (read_body sz r4 fid s)"
    unfolding read_body_def Let_def
    by (auto intro!: keeps_before_intros at split: prod.splits dest!: h f elim!: write_string_before)
  then show ?thesis using r by (simp add: keeps_before_def)
qed

lemma write_body_before: "write_body sz fid s = Inr s' \<Longrightarrow> before s \<Longrightarrow> before s'"
proof -
  assume r: "write_body sz fid s = Inr s'" and at: "before s"
  have w: "before s1" if "read_string n addr k s = Inr (buffer, s1)" for n addr k buffer s1
    using that at by (rule read_string_before)
  have h: "before s2" if "host_write_fd fd d s1 = (r, s2)" "before s1" for fd d r s1 s2 using host_before(4) that by blast
  have "keeps_before (write_body sz fid s)"
    unfolding write_body_def Let_def
    by (auto intro!: keeps_before_intros at split: prod.splits simp del: read_string.simps dest!: w elim!: h)
  then show ?thesis using r by (simp add: keeps_before_def)
qed

lemma exit_loop_yields:
  "before s \<Longrightarrow> (\<And>s1. before s1 \<Longrightarrow> yields (k s1)) \<Longrightarrow> yields (exit_loop is s k)"
  by (induction "is" s k rule: exit_loop.induct) (auto simp: Let_def split: option.splits intro!: Call_yields)

lemmas yields_intros = pbind_yields Call_yields ret_yields ret_val_yields exit_loop_yields

lemma syscalls_yield:
  assumes at: "before s"
  shows "yields (Nachos_Halt s)" "yields (Nachos_Exit s)" "yields (Nachos_Exec s)" "yields (Nachos_Join s)"
    "yields (Nachos_Create s)" "yields (Nachos_Open s)" "yields (Nachos_Read s)" "yields (Nachos_Write s)"
    "yields (Nachos_Close s)" "yields (Nachos_Yield s)" "yields (Nachos_SemCreate s)"
    "yields (Nachos_SemDestroy s)" "yields (Nachos_SemSignal s)" "yields (Nachos_SemWait s)"
proof -
  have nm: "before s1" if "read_name addr s = Inr (bs, s1)" for addr bs s1 using that at by (rule read_name_before)
  have str: "before s1" if "read_string n addr k s = Inr (bs, s1)" for n addr k bs s1 using that at by (rule read_string_before)
  show "yields (Nachos_Halt s)" "yields (Nachos_Yield s)" unfolding Nachos_Halt_def Nachos_Yield_def by (intro yields_intros at; assumption)+
  show "yields (Nachos_Exit s)" unfolding Nachos_Exit_def by (intro yields_intros at; simp)
  show "yields (Nachos_Exec s)" unfolding Nachos_Exec_def by (auto intro!: yields_intros dest!: nm split: option.splits simp: Let_def)
  show "yields (Nachos_Join s)" unfolding Nachos_Join_def by (auto intro!: yields_intros at split: option.splits simp: Let_def)
  show "yields (Nachos_Create s)" unfolding Nachos_Create_def
    by (auto intro!: yields_intros dest!: str host_before(2) split: prod.splits simp: host_before(5) simp del: read_string.simps)
  show "yields (Nachos_Open s)" unfolding Nachos_Open_def
    by (auto intro!: yields_intros dest!: nm host_before(1) split: prod.splits)
  show "yields (Nachos_Read s)" unfolding Nachos_Read_def by (auto intro!: yields_intros at elim!: read_body_before)
  show "yields (Nachos_Write s)" unfolding Nachos_Write_def by (auto intro!: yields_intros at elim!: write_body_before)
  show "yields (Nachos_Close s)" unfolding Nachos_Close_def by (auto intro!: yields_intros at simp: Let_def host_before(5))
  show "yields (Nachos_SemCreate s)" unfolding Nachos_SemCreate_def by (auto intro!: yields_intros at split: option.splits)
  show "yields (Nachos_SemDestroy s)" unfolding Nachos_SemDestroy_def by (auto intro!: yields_intros at)
  show "yields (Nachos_SemSignal s)" "yields (Nachos_SemWait s)"
    unfolding Nachos_SemSignal_def Nachos_SemWait_def by (auto intro!: yields_intros at)
qed

lemma Fork_yields: "before s \<Longrightarrow> yields (Nachos_Fork raw_space s)"
proof -
  have "before (s1\<lparr>us := u, NOP := x\<rparr>)" if "AddrSpace_copy raw_space a (us s1) = Inr (a', u)" "before s1" for s1 a a' u x
  proof -
    have "machine u = machine (us s1)" using that(1) by (auto simp: AddrSpace_copy_def Let_def rbind_eq_Inr_iff split: if_splits)
    then show ?thesis using machine_only [of "s1\<lparr>us := u, NOP := x\<rparr>" s1] that(2) by simp
  qed
  then show "before s \<Longrightarrow> ?thesis" unfolding Nachos_Fork_def Let_def
    by (auto intro!: yields_intros split: option.splits)
qed

lemma handler_yields:
  assumes "before s"
  shows "yields (ExceptionHandler raw_space SyscallException s)"
proof -
  have "\<forall>h \<in> set (syscall_table raw_space). yields (h s)"
    using syscalls_yield [OF assms] Fork_yields [OF assms] by (simp add: syscall_table_def)
  then show ?thesis unfolding ExceptionHandler_def by (auto intro!: pbind_yields)
qed

end

section \<open>Page faults keep the shape of the machine\<close>

text \<open>A page fault changes bytes of the memory and an entry of the TLB.\<close>

definition repaged :: "Machine \<Rightarrow> Machine \<Rightarrow> bool" where
  "repaged m m' \<longleftrightarrow> registers m' = registers m \<and> length (mainMemory m') = length (mainMemory m) \<and>
     map_option length (tlb m') = map_option length (tlb m) \<and> pageTable m' = pageTable m \<and> pageTableSize m' = pageTableSize m"

lemma repaged_refl [simp]: "repaged m m"
  by (simp add: repaged_def)

lemma repaged_trans: "repaged m m1 \<Longrightarrow> repaged m1 m2 \<Longrightarrow> repaged m m2"
  by (simp add: repaged_def)

lemma repaged_cpu_ok: "repaged m m' \<Longrightarrow> cpu_ok m \<Longrightarrow> cpu_ok m'"
  by (auto simp: repaged_def cpu_ok_def machine_ok_def split: option.splits)

lemma load_page_repaged: "load_page f off pos u = Inr u' \<Longrightarrow> repaged (machine u) (machine u')"
  by (auto simp: load_page_def rbind_eq_Inr_iff read_into_def write_bytes_def repaged_def split: if_splits)

lemma tlb_load_repaged: "tlb_load vpn a u = Inr u' \<Longrightarrow> repaged (machine u) (machine u')"
  by (auto simp: tlb_load_def copiarATLB_def rbind_eq_Inr_iff repaged_def array_set_Inr split: option.splits)

lemma map_page_repaged: "map_page vpn f d ro a u = Inr (a', u') \<Longrightarrow> repaged (machine u) (machine u')"
  by (auto simp: map_page_def rbind_eq_Inr_iff dest: tlb_load_repaged)

lemma swap_out_machine: "swap_out a u = Inr (a', u') \<Longrightarrow> machine u' = machine u"
  by (auto simp: swap_out_def rbind_eq_Inr_iff split: if_splits)

lemma get_frame_machine: "get_frame sw a u = Inr (f, a', u') \<Longrightarrow> machine u' = machine u"
  by (auto simp: get_frame_def rbind_eq_Inr_iff Let_def split: if_splits dest: swap_out_machine)

lemmas paging_rules = load_page_repaged map_page_repaged get_frame_machine tlb_load_repaged

lemma from_file_repaged: "from_file vpn c ex a u = Inr (a', u') \<Longrightarrow> repaged (machine u) (machine u')"
  by (auto simp: from_file_def rbind_eq_Inr_iff split: option.splits dest!: paging_rules) (erule (1) repaged_trans)

lemma from_swap_repaged: "from_swap vpn a u = Inr (a', u') \<Longrightarrow> repaged (machine u) (machine u')"
  by (auto simp: from_swap_def rbind_eq_Inr_iff Let_def split: option.splits dest!: paging_rules) (erule (1) repaged_trans)

lemma from_nothing_repaged: "from_nothing vpn a u = Inr (a', u') \<Longrightarrow> repaged (machine u) (machine u')"
  by (auto simp: from_nothing_def rbind_eq_Inr_iff dest!: paging_rules)

lemma MoveraMemoria_repaged: "MoveraMemoria vpn a u = Inr (a', u') \<Longrightarrow> repaged (machine u) (machine u')"
  by (auto simp: MoveraMemoria_def from_table_def rbind_eq_Inr_iff Let_def split: if_splits
      dest: from_file_repaged from_swap_repaged from_nothing_repaged tlb_load_repaged)

lemma PageFault_repaged: "Nachos_PageFault s = Inr s' \<Longrightarrow> repaged (machine (us s)) (machine (us s'))"
  by (auto simp: Nachos_PageFault_def rbind_eq_Inr_iff Let_def split: if_splits dest!: MoveraMemoria_repaged)

lemma kernel_trap_repaged: "kernel_trap which s = Inr s' \<Longrightarrow> repaged (machine (us s)) (machine (us s'))"
  by (auto simp: kernel_trap_def split: if_splits dest: PageFault_repaged)

lemma machine_set_machine [simp]: "machine (us (set_machine m s)) = m"
  by (simp add: set_machine_def)

lemma set_machine_twice [simp]: "set_machine m (set_machine m1 s) = set_machine m s"
  by (simp add: set_machine_def)

text \<open>What an access of the kernel to the memory of the program does to the machine.\<close>

lemma kernel_read_cases:
  assumes "kernel_read addr k s = Inr (k', s')"
  obtains (plain) v m where "ReadMem addr 1 (machine (us s)) = Inr (Inr v, m)" "machine (us s') = m"
  | (trapped) ex m m1 where "ReadMem addr 1 (machine (us s)) = Inr (Inl ex, m)"
      "RaiseException (\<lambda>_. Inr) ex addr m = Inr m1" "repaged m1 (machine (us s'))"
proof -
  obtain r m where r: "ReadMem addr 1 (machine (us s)) = Inr (r, m)" using assms by (auto simp: kernel_read_def rbind_eq_Inr_iff sys_machine_def)
  show ?thesis
  proof (cases r)
    case (Inr v)
    then show ?thesis using plain [of v m] assms r by (auto simp: kernel_read_def sys_machine_def)
  next
    case (Inl ex)
    then obtain m1 where "DelayedLoad 0 0 (m\<lparr>registers := (registers m)[BadVAddrReg := addr]\<rparr>) = Inr m1" "kernel_trap ex (set_machine m1 s) = Inr s'"
      using assms r by (auto simp: kernel_read_def sys_machine_def rbind_eq_Inr_iff RaiseException_def)
    then show ?thesis using trapped [of ex m m1] r Inl kernel_trap_repaged by (force simp: RaiseException_def)
  qed
qed

lemma kernel_write_cases:
  assumes "kernel_write addr v s = Inr s'"
  obtains (plain) m where "WriteMem addr 1 (scast v) (machine (us s)) = Inr (None, m)" "machine (us s') = m"
  | (trapped) ex m m1 where "WriteMem addr 1 (scast v) (machine (us s)) = Inr (Some ex, m)"
      "RaiseException (\<lambda>_. Inr) ex addr m = Inr m1" "repaged m1 (machine (us s'))"
proof -
  obtain r m where r: "WriteMem addr 1 (scast v) (machine (us s)) = Inr (r, m)" using assms by (auto simp: kernel_write_def rbind_eq_Inr_iff sys_machine_def)
  show ?thesis
  proof (cases r)
    case None
    then show ?thesis using plain [of m] assms r by (auto simp: kernel_write_def sys_machine_def)
  next
    case (Some ex)
    then obtain m1 where "DelayedLoad 0 0 (m\<lparr>registers := (registers m)[BadVAddrReg := addr]\<rparr>) = Inr m1" "kernel_trap ex (set_machine m1 s) = Inr s'"
      using assms r by (auto simp: kernel_write_def sys_machine_def rbind_eq_Inr_iff RaiseException_def)
    then show ?thesis using trapped [of ex m m1] r Some kernel_trap_repaged by (force simp: RaiseException_def)
  qed
qed

section \<open>Every system call returns to the next instruction\<close>

text \<open>
  A program that has trapped with the registers \<open>rs\<close>; no load is pending, because \<open>RaiseException\<close> ends it.  The handler may write
  the result, and the kernel registers 0 and those of the loads and of the bad address.
\<close>

definition user_regs :: "nat set" where
  "user_regs = {r. r < NumTotalRegs \<and> r \<notin> {0, 2, PCReg, NextPCReg, PrevPCReg, LoadReg, LoadValueReg, BadVAddrReg}}"

definition at_call :: "32 word list \<Rightarrow> Sys \<Rightarrow> bool" where
  "at_call xs s \<longleftrightarrow> length (regs s) = NumTotalRegs \<and> regs s ! LoadReg = 0 \<and>
     (\<forall>r \<in> user_regs \<union> {PCReg, NextPCReg}. regs s ! r = xs ! r)"

definition after_call :: "32 word list \<Rightarrow> Sys \<Rightarrow> bool" where
  "after_call xs s \<longleftrightarrow> regs s ! PrevPCReg = xs ! PCReg \<and> regs s ! PCReg = xs ! NextPCReg \<and> regs s ! NextPCReg = xs ! NextPCReg + 4 \<and>
     (\<forall>r \<in> user_regs. regs s ! r = xs ! r)"

lemma at_call_cong: "regs s' = regs s \<Longrightarrow> at_call xs s' = at_call xs s"
  by (simp add: at_call_def)

lemma Translate_registers: "Translate addr sz w m = Inr (r, m') \<Longrightarrow> registers m' = registers m"
proof -
  assume t: "Translate addr sz w m = Inr (r, m')"
  show ?thesis
  proof (cases "misaligned addr sz")
    case True
    then show ?thesis using t by (simp add: Translate_def)
  next
    case False
    then obtain x where "find_entry (addr div of_nat PageSize) m = Inr x" using t by (auto simp: Translate_def rbind_eq_Inr_iff Let_def)
    then show ?thesis using t False
      by (cases x) (auto simp: Translate_def Let_def ASSERT_eq_Inr_iff set_entry_def split: if_splits)
  qed
qed

lemma ReadMem_registers: "ReadMem addr sz m = Inr (r, m') \<Longrightarrow> registers m' = registers m"
proof -
  assume r: "ReadMem addr sz m = Inr (r, m')"
  then obtain t m1 where "Translate addr sz False m = Inr (t, m1)" by (auto simp: ReadMem_def rbind_eq_Inr_iff)
  then show ?thesis using r Translate_registers by (cases t) (auto simp: ReadMem_def split: if_splits)
qed

lemma WriteMem_registers: "WriteMem addr sz v m = Inr (r, m') \<Longrightarrow> registers m' = registers m"
proof -
  assume r: "WriteMem addr sz v m = Inr (r, m')"
  then obtain t m1 where "Translate addr sz True m = Inr (t, m1)" by (auto simp: WriteMem_def rbind_eq_Inr_iff)
  then show ?thesis using r Translate_registers by (cases t) (auto simp: WriteMem_def write_bytes_def split: if_splits)
qed

text \<open>An exception in the kernel changes only the register with the bad address.\<close>

lemma raise_at_call:
  assumes "RaiseException (\<lambda>_. Inr) ex addr m = Inr m1" "repaged m1 (machine (us s'))" "registers m = regs s" "at_call xs s"
  shows "at_call xs s'"
proof -
  have "regs s' = registers m1" using assms(2) by (simp add: repaged_def)
  then show ?thesis using assms(1,3,4)
    by (auto simp: RaiseException_def rbind_eq_Inr_iff DelayedLoad_def Let_def at_call_def user_regs_def nth_list_update)
qed

lemma kernel_read_at_call: "kernel_read addr k s = Inr (k', s') \<Longrightarrow> at_call xs s \<Longrightarrow> at_call xs s'"
proof (erule kernel_read_cases)
  fix v m assume "ReadMem addr 1 (machine (us s)) = Inr (Inr v, m)" "machine (us s') = m" "at_call xs s"
  then show "at_call xs s'" using at_call_cong [of s' s] ReadMem_registers by metis
next
  fix ex m m1 assume "ReadMem addr 1 (machine (us s)) = Inr (Inl ex, m)" "RaiseException (\<lambda>_. Inr) ex addr m = Inr m1"
    "repaged m1 (machine (us s'))" "at_call xs s"
  then show "at_call xs s'" using raise_at_call ReadMem_registers by metis
qed

lemma kernel_write_at_call: "kernel_write addr v s = Inr s' \<Longrightarrow> at_call xs s \<Longrightarrow> at_call xs s'"
proof (erule kernel_write_cases)
  fix m assume "WriteMem addr 1 (scast v) (machine (us s)) = Inr (None, m)" "machine (us s') = m" "at_call xs s"
  then show "at_call xs s'" using at_call_cong [of s' s] WriteMem_registers by metis
next
  fix ex m m1 assume "WriteMem addr 1 (scast v) (machine (us s)) = Inr (Some ex, m)" "RaiseException (\<lambda>_. Inr) ex addr m = Inr m1"
    "repaged m1 (machine (us s'))" "at_call xs s"
  then show "at_call xs s'" using raise_at_call WriteMem_registers by metis
qed

text \<open>The result and the return.\<close>

lemma result_at_call: "set_user_reg 2 v s = Inr s' \<Longrightarrow> at_call xs s \<Longrightarrow> at_call xs s'"
  by (auto simp: set_user_reg_def WriteRegister_def rbind_eq_Inr_iff ASSERT_eq_Inr_iff sys_machine_def at_call_def user_regs_def nth_list_update)

lemma return_after_call: "returnFromSystemCall s = Inr s' \<Longrightarrow> at_call xs s \<Longrightarrow> after_call xs s'"
  by (auto simp: returnFromSystemCall_def user_reg_def set_user_reg_def ReadRegister_def WriteRegister_def sys_machine_def
      at_call_def after_call_def user_regs_def)

section \<open>User programs keep the machine well formed\<close>

definition sys_ok :: "Sys \<Rightarrow> bool" where
  "sys_ok s \<longleftrightarrow> cpu_ok (machine (us s))"

text \<open>
  A thread that goes on finds its registers and its page table (\<open>RestoreUserState\<close>, \<open>AddrSpace::RestoreState\<close>); the
  others may have changed the bytes of the memory and the entries of the TLB.
\<close>

definition resumes :: "Sys \<Rightarrow> Sys \<Rightarrow> bool" where
  "resumes s s1 \<longleftrightarrow> repaged (machine (us s)) (machine (us s1))"

lemma resumes_ok: "sys_ok s \<Longrightarrow> resumes s s1 \<Longrightarrow> sys_ok s1"
  unfolding sys_ok_def resumes_def by (rule repaged_cpu_ok)

lemma raise_ok: "RaiseException (\<lambda>_. Inr) ex addr m = Inr m1 \<Longrightarrow> machine_ok m \<Longrightarrow> unat (reg m LoadReg) < 32 \<Longrightarrow> cpu_ok m1"
  using RaiseException_ok [of m m "\<lambda>_. Inr" ex addr] by (auto simp: confined_refl)

lemma kernel_read_ok: "kernel_read addr k s = Inr (k', s') \<Longrightarrow> sys_ok s \<Longrightarrow> sys_ok s'"
proof (erule kernel_read_cases)
  fix v m assume "ReadMem addr 1 (machine (us s)) = Inr (Inr v, m)" "machine (us s') = m" "sys_ok s"
  then show "sys_ok s'" using ReadMem_safe [of "machine (us s)" 1 addr] by (auto simp: sys_ok_def cpu_ok_def)
next
  fix ex m m1 assume r: "ReadMem addr 1 (machine (us s)) = Inr (Inl ex, m)" "RaiseException (\<lambda>_. Inr) ex addr m = Inr m1"
    "repaged m1 (machine (us s'))" "sys_ok s"
  then have "machine_ok m" "unat (reg m LoadReg) < 32" using ReadMem_safe [of "machine (us s)" 1 addr] by (auto simp: sys_ok_def cpu_ok_def)
  then show "sys_ok s'" using raise_ok [OF r(2)] repaged_cpu_ok [OF r(3)] by (simp add: sys_ok_def)
qed

lemma kernel_write_ok: "kernel_write addr b s = Inr s' \<Longrightarrow> sys_ok s \<Longrightarrow> sys_ok s'"
proof (erule kernel_write_cases)
  fix m assume "WriteMem addr 1 (scast b) (machine (us s)) = Inr (None, m)" "machine (us s') = m" "sys_ok s"
  then show "sys_ok s'" using WriteMem_confined [of "machine (us s)" 1 addr "scast b"] by (auto simp: sys_ok_def cpu_ok_def)
next
  fix ex m m1 assume r: "WriteMem addr 1 (scast b) (machine (us s)) = Inr (Some ex, m)" "RaiseException (\<lambda>_. Inr) ex addr m = Inr m1"
    "repaged m1 (machine (us s'))" "sys_ok s"
  then have "machine_ok m" "unat (reg m LoadReg) < 32"
    using WriteMem_confined [of "machine (us s)" 1 addr "scast b"] by (auto simp: sys_ok_def cpu_ok_def)
  then show "sys_ok s'" using raise_ok [OF r(2)] repaged_cpu_ok [OF r(3)] by (simp add: sys_ok_def)
qed

lemma set_user_reg_ok:
  assumes "set_user_reg r v s = Inr s'" "sys_ok s" "r \<notin> {0, LoadReg}"
  shows "sys_ok s'"
proof -
  have "machine (us s') = set_reg r v (machine (us s))"
    using assms(1) by (auto simp: set_user_reg_def WriteRegister_def set_reg_def sys_machine_def rbind_eq_Inr_iff ASSERT_eq_Inr_iff)
  then show ?thesis using cpu_ok_set_reg [of _ r v] assms(2,3) by (simp add: sys_ok_def)
qed

interpretation shape: handler_invariant sys_ok sys_ok resumes
proof
  show "sys_ok s1" if "sys_ok s" "resumes s s1" for s s1 using that by (rule resumes_ok)
  show "sys_ok s' = sys_ok s" if "machine (us s') = machine (us s)" for s s' using that by (simp add: sys_ok_def)
  show "sys_ok s'" if "set_user_reg 2 v s = Inr s'" "sys_ok s" for s v s' using set_user_reg_ok [OF that] by simp
  show "sys_ok s'" if r: "returnFromSystemCall s = Inr s'" "sys_ok s" for s s'
  proof -
    obtain pc npc s1 s2 where "set_user_reg PrevPCReg pc s = Inr s1" "set_user_reg PCReg npc s1 = Inr s2" "set_user_reg NextPCReg (npc + 4) s2 = Inr s'"
      using r(1) unfolding returnFromSystemCall_def rbind_eq_Inr_iff by blast
    then show ?thesis using set_user_reg_ok [OF _ set_user_reg_ok [OF _ set_user_reg_ok]] r(2) by fastforce
  qed
qed (rule kernel_read_ok kernel_write_ok; assumption)+

lemma ExceptionHandler_ok:
  assumes "sys_ok s" "completes resumes (ExceptionHandler raw_space which s) s'"
  shows "sys_ok s'"
proof (cases "which = SyscallException")
  case True
  then show ?thesis using shape.handler_yields [OF assms(1)] assms(2) by (simp add: shape.yields_def)
next
  case False
  then obtain s1 where "Nachos_PageFault s = Inr s1" "s' = s1"
    using assms(2) by (auto simp: ExceptionHandler_def pbind_def split: sum.splits ExceptionType.splits)
  then show ?thesis using PageFault_repaged repaged_cpu_ok assms(1) by (auto simp: sys_ok_def)
qed

lemma user_step_ok:
  assumes "sys_ok s" "completes resumes (user_step raw_space s) s'"
  shows "sys_ok s'"
proof -
  have c: "cpu_ok (machine (us s))" using assms(1) by (simp add: sys_ok_def)
  show ?thesis
  proof (cases rule: fetch_execute_ok [OF c, case_names trap run fault])
    case (trap ex bad m)
    have "machine_ok m" using trap(2) by (simp add: confined_def)
    from trap(1) obtain m1 where m1: "RaiseException (\<lambda>_. Inr) ex bad m = Inr m1" "completes resumes (ExceptionHandler raw_space ex (set_machine m1 s)) s'"
      using assms(2) by (auto simp: user_step_def pbind_def sys_machine_def split: sum.splits)
    then show ?thesis using raise_ok [OF m1(1) \<open>machine_ok m\<close> trap(3)] ExceptionHandler_ok [OF _ m1(2)] by (simp add: sys_ok_def)
  qed (use assms(2) in \<open>auto simp: user_step_def pbind_def sys_machine_def sys_ok_def\<close>)
qed

lemma user_run_ok: "user_run resumes raw_space s s' \<Longrightarrow> sys_ok s \<Longrightarrow> sys_ok s'"
  by (induction rule: user_run.induct) (auto dest: user_step_ok resumes_ok)

end
