(* ===== verification/Nachos_Switch.thy ===== *)
theory Nachos_Switch
  imports Nachos_Kernel Nachos_Syscalls
begin

text \<open>
  The blocks under \<open>USER_PROGRAM\<close> of \<open>Scheduler::Run\<close> (\<open>threads/scheduler.cc\<close>) and the routines of \<open>Thread\<close> that they call: a context
  switch saves the user registers of the thread that leaves the processor, and the thread that gets it back restores its own.  A
  thread that waits in a system call so finds its registers again, whatever the others do with the machine.
\<close>

section \<open>Saving and restoring\<close>

text \<open>
  The kernel, the machine that all user programs share, and of every thread its \<open>userRegisters\<close> and its \<open>space\<close> (\<open>None\<close>: a kernel
  thread).
\<close>

record Multi =
  kern :: Kernel
  umach :: Machine
  userRegisters :: "address \<Rightarrow> 32 word list"
  uspace :: "address \<rightharpoonup> AddrSpace"

fun save_loop :: "int list \<Rightarrow> Machine \<Rightarrow> 32 word list \<Rightarrow> 32 word list res" where
  "save_loop [] m xs = Inr xs"
| "save_loop (i # is) m xs = rbind (ReadRegister i m) (\<lambda>v. rbind (array_set xs i v) (save_loop is m))"

definition SaveUserState :: "address \<Rightarrow> Multi \<Rightarrow> Multi res" where
  "SaveUserState t u = rbind (save_loop [0..int NumTotalRegs - 1] (umach u) (userRegisters u t)) (\<lambda>xs.
     Inr (u\<lparr>userRegisters := (userRegisters u)(t := xs)\<rparr>))"

fun restore_loop :: "int list \<Rightarrow> 32 word list \<Rightarrow> Machine \<Rightarrow> Machine res" where
  "restore_loop [] xs m = Inr m"
| "restore_loop (i # is) xs m = rbind (array_get xs i) (\<lambda>v. rbind (WriteRegister i v m) (restore_loop is xs))"

definition RestoreUserState :: "address \<Rightarrow> Multi \<Rightarrow> Multi res" where
  "RestoreUserState t u = rbind (restore_loop [0..int NumTotalRegs - 1] (userRegisters u t) (umach u)) (\<lambda>m. Inr (u\<lparr>umach := m\<rparr>))"

text \<open>\<open>Scheduler::Run\<close> up to \<open>SWITCH\<close>, and from there on in the thread that gets the processor back.\<close>

definition Run_user :: "address \<Rightarrow> Multi \<Rightarrow> Multi res" where
  "Run_user nextThread u = (let t = currentThread (kern u) in
     rbind (case uspace u t of None \<Rightarrow> Inr u
       | Some a \<Rightarrow> rbind (SaveUserState t u) (\<lambda>u1. rbind (SaveState (umach u1) a) (\<lambda>a1. Inr (u1\<lparr>uspace := (uspace u1)(t \<mapsto> a1)\<rparr>)))) (\<lambda>u2.
     rbind (Run nextThread (kern u2)) (\<lambda>k. Inr (u2\<lparr>kern := k\<rparr>))))"

definition run_tail_user :: "bool \<Rightarrow> Multi \<Rightarrow> Multi res" where
  "run_tail_user vm u = rbind (run_tail (kern u)) (\<lambda>k. let u1 = u\<lparr>kern := k\<rparr>; t = currentThread k in
     case uspace u1 t of None \<Rightarrow> Inr u1
     | Some a \<Rightarrow> rbind (RestoreUserState t u1) (\<lambda>u2. Inr (u2\<lparr>umach := RestoreState vm a (umach u2)\<rparr>)))"

section \<open>A thread in the kernel\<close>

text \<open>
  What happens while thread \<open>t\<close> does not have the processor: another thread runs, in the kernel or as a user program, and may do
  anything to the machine, the kernel and the other spaces; it loses the processor in \<open>Run\<close>, perhaps to \<open>t\<close>, and it goes on behind it.
\<close>

inductive away :: "bool \<Rightarrow> address \<Rightarrow> Multi \<Rightarrow> Multi \<Rightarrow> bool" for vm t where
  away_left: "away vm t u u"
| away_work: "away vm t u u1 \<Longrightarrow> currentThread (kern u1) \<noteq> t \<Longrightarrow> currentThread (kern u2) = currentThread (kern u1) \<Longrightarrow>
    userRegisters u2 = userRegisters u1 \<Longrightarrow> uspace u2 t = uspace u1 t \<Longrightarrow> length (registers (umach u2)) = NumTotalRegs \<Longrightarrow> away vm t u u2"
| away_switch: "away vm t u u1 \<Longrightarrow> currentThread (kern u1) \<noteq> t \<Longrightarrow> Run_user n u1 = Inr u2 \<Longrightarrow> away vm t u u2"
| away_tail: "away vm t u u1 \<Longrightarrow> currentThread (kern u1) \<noteq> t \<Longrightarrow> run_tail_user vm u1 = Inr u2 \<Longrightarrow> away vm t u u2"

text \<open>
  What thread \<open>t\<close> does in a routine of the thread kernel: code of the kernel, which does not touch the machine (\<open>Nachos_Kernel\<close> has none);
  interrupts, before which \<open>CheckIfDue\<close> ends the load that is pending; and switches to other threads and back.
\<close>

inductive in_kernel :: "bool \<Rightarrow> address \<Rightarrow> Multi \<Rightarrow> Multi \<Rightarrow> bool" for vm t where
  in_start: "in_kernel vm t u u"
| in_work: "in_kernel vm t u u1 \<Longrightarrow> currentThread (kern u2) = t \<Longrightarrow> umach u2 = umach u1 \<Longrightarrow> userRegisters u2 = userRegisters u1 \<Longrightarrow>
    uspace u2 t = uspace u1 t \<Longrightarrow> in_kernel vm t u u2"
| in_interrupt: "in_kernel vm t u u1 \<Longrightarrow> DelayedLoad 0 0 (umach u1) = Inr m \<Longrightarrow> in_kernel vm t u (u1\<lparr>umach := m\<rparr>)"
| in_switch: "in_kernel vm t u u1 \<Longrightarrow> Run_user n u1 = Inr u2 \<Longrightarrow> away vm t u2 u3 \<Longrightarrow> currentThread (kern u3) = t \<Longrightarrow>
    run_tail_user vm u3 = Inr u4 \<Longrightarrow> in_kernel vm t u u4"

text \<open>A call of the thread kernel by the handler of a system call.\<close>

definition kernel_call :: "bool \<Rightarrow> Sys \<Rightarrow> Sys \<Rightarrow> bool" where
  "kernel_call vm s s1 \<longleftrightarrow> (\<exists>t u u1. currentThread (kern u) = t \<and> uspace u t = Some (space s) \<and> length (userRegisters u t) = NumTotalRegs \<and>
     umach u = machine (us s) \<and> in_kernel vm t u u1 \<and> machine (us s1) = umach u1 \<and> uspace u1 t = Some (space s1))"

section \<open>The registers come back\<close>

lemma save_loop_copies:
  assumes "length xs = NumTotalRegs" "\<forall>i \<in> set is. 0 \<le> i \<and> i < int NumTotalRegs"
  shows "\<exists>ys. save_loop is m xs = Inr ys \<and> length ys = NumTotalRegs \<and>
    (\<forall>r. ys ! r = (if int r \<in> set is then registers m ! r else xs ! r))"
  using assms
proof (induction "is" arbitrary: xs)
  case (Cons i "is")
  let ?xs = "xs[nat i := registers m ! nat i]"
  obtain ys where ys: "save_loop is m ?xs = Inr ys" "length ys = NumTotalRegs"
    "\<forall>r. ys ! r = (if int r \<in> set is then registers m ! r else ?xs ! r)"
    using Cons.IH [of ?xs] Cons.prems by auto
  have "ys ! r = (if int r \<in> set (i # is) then registers m ! r else xs ! r)" for r
    using ys(3) Cons.prems by (auto simp: nth_list_update)
  then show ?case using ys(1,2) Cons.prems by (auto simp: ReadRegister_def)
qed simp

lemma restore_loop_copies:
  assumes "length xs = NumTotalRegs" "\<forall>i \<in> set is. 0 \<le> i \<and> i < int NumTotalRegs"
  shows "\<exists>ys. restore_loop is xs m = Inr (m\<lparr>registers := ys\<rparr>) \<and> length ys = length (registers m) \<and>
    (\<forall>r < length (registers m). ys ! r = (if int r \<in> set is then xs ! r else registers m ! r))"
  using assms
proof (induction "is" arbitrary: m)
  case Nil
  show ?case by (rule exI [of _ "registers m"]) simp
next
  case (Cons i "is")
  let ?m = "m\<lparr>registers := (registers m)[nat i := xs ! nat i]\<rparr>"
  obtain ys where ys: "restore_loop is xs ?m = Inr (?m\<lparr>registers := ys\<rparr>)" "length ys = length (registers m)"
    "\<forall>r < length (registers m). ys ! r = (if int r \<in> set is then xs ! r else registers ?m ! r)"
    using Cons.IH [of ?m] Cons.prems by auto
  have "ys ! r = (if int r \<in> set (i # is) then xs ! r else registers m ! r)" if "r < length (registers m)" for r
    using ys(3) that Cons.prems by (auto simp: nth_list_update)
  then show ?case using ys(1,2) Cons.prems by (auto simp: WriteRegister_def)
qed

lemma save_all:
  assumes "length xs = NumTotalRegs" "length (registers m) = NumTotalRegs"
  shows "save_loop [0..int NumTotalRegs - 1] m xs = Inr (registers m)"
proof -
  obtain ys where ys: "save_loop [0..int NumTotalRegs - 1] m xs = Inr ys" "length ys = NumTotalRegs"
    "\<forall>r. ys ! r = (if int r \<in> set [0..int NumTotalRegs - 1] then registers m ! r else xs ! r)"
    using save_loop_copies [OF assms(1), of "[0..int NumTotalRegs - 1]" m] by auto
  have "ys = registers m" using ys(2,3) assms(2) by (intro nth_equalityI) auto
  then show ?thesis using ys(1) by simp
qed

lemma restore_all:
  assumes "length xs = NumTotalRegs" "length (registers m) = NumTotalRegs"
  shows "restore_loop [0..int NumTotalRegs - 1] xs m = Inr (m\<lparr>registers := xs\<rparr>)"
proof -
  obtain ys where ys: "restore_loop [0..int NumTotalRegs - 1] xs m = Inr (m\<lparr>registers := ys\<rparr>)" "length ys = NumTotalRegs"
    "\<forall>r < NumTotalRegs. ys ! r = (if int r \<in> set [0..int NumTotalRegs - 1] then xs ! r else registers m ! r)"
    using restore_loop_copies [OF assms(1), of "[0..int NumTotalRegs - 1]" m] assms(2) by auto
  have "ys = xs" using ys(2,3) assms(1) by (intro nth_equalityI) auto
  then show ?thesis using ys(1) by simp
qed

lemma restore_loop_length: "restore_loop is xs m = Inr m' \<Longrightarrow> length (registers m') = length (registers m)"
  by (induction "is" arbitrary: m) (auto simp: rbind_eq_Inr_iff WriteRegister_def ASSERT_eq_Inr_iff)

lemma RestoreState_registers [simp]: "registers (RestoreState vm a m) = registers m"
  by (simp add: RestoreState_def)

lemma Run_current: "Run n k = Inr k' \<Longrightarrow> currentThread k' = n"
  by (auto simp: Run_def rbind_eq_Inr_iff CheckOverflow_def ASSERT_eq_Inr_iff split: option.splits)

lemma run_tail_current: "run_tail k = Inr k' \<Longrightarrow> currentThread k' = currentThread k"
  by (auto simp: run_tail_def Thread_delete_def rbind_eq_Inr_iff ASSERT_eq_Inr_iff split: option.splits)

text \<open>A switch saves the registers of the thread that leaves, and the tail brings them back; the saved ones of the others stay.\<close>

lemma Run_user_saves:
  assumes "Run_user n u = Inr u'" "uspace u t \<noteq> None" "length (userRegisters u t) = NumTotalRegs" "length (registers (umach u)) = NumTotalRegs"
  shows "umach u' = umach u" "uspace u' t \<noteq> None"
    "userRegisters u' t = (if currentThread (kern u) = t then registers (umach u) else userRegisters u t)"
proof -
  let ?t = "currentThread (kern u)"
  have "umach u' = umach u \<and> uspace u' t \<noteq> None \<and>
    userRegisters u' t = (if ?t = t then registers (umach u) else userRegisters u t)"
    using assms save_all [OF assms(3,4)]
    by (auto simp: Run_user_def SaveUserState_def Let_def rbind_eq_Inr_iff split: option.splits)
  then show "umach u' = umach u" "uspace u' t \<noteq> None" "userRegisters u' t = (if ?t = t then registers (umach u) else userRegisters u t)"
    by blast+
qed

lemma run_tail_user_restores:
  assumes "run_tail_user vm u = Inr u'" "length (registers (umach u)) = NumTotalRegs"
  shows "userRegisters u' = userRegisters u" "uspace u' = uspace u" "currentThread (kern u') = currentThread (kern u)"
    "length (registers (umach u')) = NumTotalRegs"
    "currentThread (kern u) = t \<Longrightarrow> uspace u t \<noteq> None \<Longrightarrow> length (userRegisters u t) = NumTotalRegs \<Longrightarrow> registers (umach u') = userRegisters u t"
proof -
  obtain k where k: "run_tail (kern u) = Inr k" "currentThread k = currentThread (kern u)"
    "(case uspace u (currentThread k) of None \<Rightarrow> Inr (u\<lparr>kern := k\<rparr>)
     | Some a \<Rightarrow> rbind (RestoreUserState (currentThread k) (u\<lparr>kern := k\<rparr>)) (\<lambda>u2. Inr (u2\<lparr>umach := RestoreState vm a (umach u2)\<rparr>))) = Inr u'"
    using assms(1) run_tail_current by (auto simp: run_tail_user_def Let_def rbind_eq_Inr_iff)
  have "userRegisters u' = userRegisters u \<and> uspace u' = uspace u \<and> currentThread (kern u') = currentThread (kern u) \<and>
      length (registers (umach u')) = NumTotalRegs"
    using k assms(2) restore_loop_length by (fastforce simp: RestoreUserState_def rbind_eq_Inr_iff split: option.splits)
  then show "userRegisters u' = userRegisters u" "uspace u' = uspace u" "currentThread (kern u') = currentThread (kern u)"
    "length (registers (umach u')) = NumTotalRegs" by blast+
  show "registers (umach u') = userRegisters u t" if "currentThread (kern u) = t" "uspace u t \<noteq> None" "length (userRegisters u t) = NumTotalRegs"
    using k that restore_all [OF that(3) assms(2)] by (auto simp: RestoreUserState_def rbind_eq_Inr_iff)
qed

lemma away_keeps:
  assumes "away vm t u u'" "uspace u t \<noteq> None" "length (userRegisters u t) = NumTotalRegs" "length (registers (umach u)) = NumTotalRegs"
  shows "userRegisters u' t = userRegisters u t \<and> uspace u' t \<noteq> None \<and> length (registers (umach u')) = NumTotalRegs"
  using assms
proof (induction rule: away.induct)
  case (away_switch u u1 n u2)
  then show ?case using Run_user_saves [of n u1 u2 t] by auto
next
  case (away_tail u u1 u2)
  then show ?case using run_tail_user_restores [of vm u1 u2] by auto
qed auto

text \<open>The registers of a thread in the kernel are those it came with, but for those of a load.\<close>

definition registers_kept :: "32 word list \<Rightarrow> Machine \<Rightarrow> bool" where
  "registers_kept xs m \<longleftrightarrow> length (registers m) = NumTotalRegs \<and> registers m ! LoadReg = 0 \<and>
     (\<forall>r < NumTotalRegs. r \<notin> {0, LoadReg, LoadValueReg} \<longrightarrow> registers m ! r = xs ! r)"

lemma in_kernel_keeps:
  assumes "in_kernel vm t u u'" "currentThread (kern u) = t" "uspace u t \<noteq> None" "length (userRegisters u t) = NumTotalRegs"
    "registers_kept xs (umach u)"
  shows "currentThread (kern u') = t \<and> uspace u' t \<noteq> None \<and> length (userRegisters u' t) = NumTotalRegs \<and> registers_kept xs (umach u')"
  using assms
proof (induction rule: in_kernel.induct)
  case (in_interrupt u u1 m)
  then have "registers_kept xs m" by (auto simp: registers_kept_def DelayedLoad_def Let_def nth_list_update)
  then show ?case using in_interrupt by simp
next
  case (in_switch u u1 n u2 u3 u4)
  then have 1: "currentThread (kern u1) = t" "uspace u1 t \<noteq> None" "length (userRegisters u1 t) = NumTotalRegs" "registers_kept xs (umach u1)"
    by auto
  then have len: "length (registers (umach u1)) = NumTotalRegs" by (simp add: registers_kept_def)
  note 2 = Run_user_saves [OF in_switch.hyps(2) 1(2,3) len]
  have "userRegisters u3 t = registers (umach u1) \<and> uspace u3 t \<noteq> None \<and> length (registers (umach u3)) = NumTotalRegs"
    using away_keeps [OF in_switch.hyps(3)] 2 1(1) len by simp
  then have "registers (umach u4) = registers (umach u1)" "uspace u4 t \<noteq> None" "currentThread (kern u4) = t" "userRegisters u4 t = registers (umach u1)"
    using run_tail_user_restores [OF in_switch.hyps(5)] in_switch.hyps(4) len by auto
  then show ?case using 1(4) len by (auto simp: registers_kept_def)
qed auto

lemma kernel_call_at_call:
  assumes "at_call xs s" "kernel_call vm s s1"
  shows "at_call xs s1"
proof -
  obtain t u u1 where u: "currentThread (kern u) = t" "uspace u t = Some (space s)" "length (userRegisters u t) = NumTotalRegs"
    "umach u = machine (us s)" "in_kernel vm t u u1" "machine (us s1) = umach u1" using assms(2) unfolding kernel_call_def by blast
  have "registers_kept (regs s) (umach u)" using assms(1) u(4) by (simp add: registers_kept_def at_call_def)
  then have "registers_kept (regs s) (machine (us s1))" using in_kernel_keeps [OF u(5,1)] u(2,3,6) by auto
  then show ?thesis using assms(1) by (auto simp: registers_kept_def at_call_def user_regs_def)
qed

interpretation counters: handler_invariant "at_call xs" "after_call xs" "kernel_call vm"
proof
  show "at_call xs s1" if "at_call xs s" "kernel_call vm s s1" for s s1 using that by (rule kernel_call_at_call)
  show "at_call xs s' = at_call xs s" if "machine (us s') = machine (us s)" for s s' using that by (simp add: at_call_def)
qed (rule result_at_call return_after_call kernel_read_at_call kernel_write_at_call; assumption)+

end
