(* ===== verification/Nachos_Coff.thy ===== *)
theory Nachos_Coff
  imports Nachos_AddrSpace
begin

text \<open>
  \<open>bin/coff2noff.c\<close>: the host program that turns the output of the cross linker (COFF) into the object format
  that \<open>AddrSpace\<close> loads (NOFF).  The program runs on the files of the host; \<open>writable\<close> and \<open>removable\<close> say for which names
  the host grants \<open>open\<close> for writing and \<open>unlink\<close>.
\<close>

section \<open>The input format\<close>

text \<open>
  \<open>bin/coff.h\<close> with \<open>DWORD\<close> an \<open>int\<close> (\<open>HOST_x86_64\<close>): the sizes of the three structures, and the members that the program reads.
\<close>

definition filehdrSize :: nat where "filehdrSize = 20"
definition aouthdrSize :: nat where "aouthdrSize = 56"
definition scnhdrSize :: nat where "scnhdrSize = 40"

definition MIPSELMAGIC :: "16 word" where "MIPSELMAGIC = 0x0162"
definition OMAGIC :: "16 word" where "OMAGIC = 0x107"

definition bytes_to_short :: "byte list \<Rightarrow> 16 word" where
  "bytes_to_short bs = ucast (bs ! 0) OR push_bit 8 (ucast (bs ! 1))"

record filehdr =
  f_magic :: "16 word"
  f_nscns :: "16 word"

definition bytes_to_filehdr :: "byte list \<Rightarrow> filehdr" where
  "bytes_to_filehdr bs = \<lparr>f_magic = bytes_to_short bs, f_nscns = bytes_to_short (drop 2 bs)\<rparr>"

record scnhdr =
  s_name :: "byte list"
  s_paddr :: "32 word"
  s_size :: "32 word"
  s_scnptr :: "32 word"

definition bytes_to_scnhdr :: "byte list \<Rightarrow> scnhdr" where
  "bytes_to_scnhdr bs = \<lparr>s_name = take 8 bs, s_paddr = bytes_to_word (drop 8 bs), s_size = bytes_to_word (drop 16 bs),
     s_scnptr = bytes_to_word (drop 20 bs)\<rparr>"

text \<open>
  \<open>strcmp\<close> with a literal of at most six characters: it never looks past the eight bytes of \<open>s_name\<close>.
\<close>

definition named :: "byte list \<Rightarrow> scnhdr \<Rightarrow> bool" where
  "named lit s \<longleftrightarrow> takeWhile (\<lambda>b. b \<noteq> 0) (s_name s) = lit"

definition is_text :: "scnhdr \<Rightarrow> bool" where
  "is_text s \<longleftrightarrow> named [46, 116, 101, 120, 116] s"

definition is_data :: "scnhdr \<Rightarrow> bool" where
  "is_data s \<longleftrightarrow> named [46, 100, 97, 116, 97] s \<or> named [46, 114, 100, 97, 116, 97] s"

definition is_bss :: "scnhdr \<Rightarrow> bool" where
  "is_bss s \<longleftrightarrow> named [46, 98, 115, 115] s \<or> named [46, 115, 98, 115, 115] s"

section \<open>The output format\<close>

definition segment_to_bytes :: "Segment \<Rightarrow> byte list" where
  "segment_to_bytes g = word_to_bytes (virtualAddr g) @ word_to_bytes (inFileAddr g) @ word_to_bytes (seg_size g)"

definition noff_to_bytes :: "NoffHeader \<Rightarrow> byte list" where
  "noff_to_bytes h = word_to_bytes (noffMagic h) @ segment_to_bytes (seg_code h) @ segment_to_bytes (initData h) @ segment_to_bytes (uninitData h)"

section \<open>The program\<close>

text \<open>The ways to \<open>exit(1)\<close>.\<close>

datatype coff_exit = Usage | Cannot_open | Too_short | Cannot_write | Not_MIPSEL | Not_OMAGIC | Both_data | Both_bss | Unknown_segment

text \<open>The files of the host, the offsets of the two descriptors, and the locals of \<open>main\<close> that the loop changes.\<close>

record Conv =
  conv_files :: host_files
  fdIn_pos :: nat
  fdOut_pos :: nat
  noffH :: NoffHeader
  inNoffFile :: "32 word"

type_synonym 'a conv = "(coff_exit \<times> Conv) + 'a"

definition cbind :: "'a conv \<Rightarrow> ('a \<Rightarrow> 'b conv) \<Rightarrow> 'b conv" where
  "cbind m f = (case m of Inl e \<Rightarrow> Inl e | Inr x \<Rightarrow> f x)"

text \<open>
  \<open>read\<close> and \<open>write\<close> with a negative count, or on descriptor -1, return -1; that is taken for success when the count is -1.
\<close>

definition conv_Read :: "byte list \<Rightarrow> 32 word \<Rightarrow> Conv \<Rightarrow> (byte list \<times> Conv) conv" where
  "conv_Read inF n c = (case conv_files c inF of None \<Rightarrow> Inl (Too_short, c) | Some bs \<Rightarrow>
     let got = (if sint n < 0 then [] else take (unat n) (drop (fdIn_pos c) bs)) in
     if (if sint n < 0 then n = -1 else length got = unat n) then Inr (got, c\<lparr>fdIn_pos := fdIn_pos c + length got\<rparr>)
     else Inl (Too_short, c))"

definition conv_Write :: "byte list option \<Rightarrow> byte list \<Rightarrow> 32 word \<Rightarrow> Conv \<Rightarrow> Conv conv" where
  "conv_Write outF buf n c = (if n = -1 then Inr c else
     case outF of None \<Rightarrow> Inl (Cannot_write, c)
     | Some f \<Rightarrow> (case conv_files c f of None \<Rightarrow> Inl (Cannot_write, c)
        | Some bs \<Rightarrow> Inr (c\<lparr>conv_files := (conv_files c)(f \<mapsto> host_write (fdOut_pos c) buf bs), fdOut_pos := fdOut_pos c + length buf\<rparr>)))"

definition lseek_in :: "32 word \<Rightarrow> Conv \<Rightarrow> Conv" where
  "lseek_in p c = (if sint p < 0 then c else c\<lparr>fdIn_pos := unat p\<rparr>)"

text \<open>The part that the branches for \<open>.text\<close> and for the data share.\<close>

definition copy_section :: "byte list \<Rightarrow> byte list option \<Rightarrow> scnhdr \<Rightarrow> Conv \<Rightarrow> (Segment \<times> Conv) conv" where
  "copy_section inF outF s c =
     cbind (conv_Read inF (s_size s) (lseek_in (s_scnptr s) c)) (\<lambda>(buffer, c1).
     cbind (conv_Write outF buffer (s_size s) c1) (\<lambda>c2.
     Inr (\<lparr>virtualAddr = s_paddr s, inFileAddr = inNoffFile c, seg_size = s_size s\<rparr>, c2\<lparr>inNoffFile := inNoffFile c + s_size s\<rparr>)))"

definition convert_section :: "byte list \<Rightarrow> byte list option \<Rightarrow> scnhdr \<Rightarrow> Conv \<Rightarrow> Conv conv" where
  "convert_section inF outF s c =
     (let h = noffH c in
      if s_size s = 0 then Inr c
      else if is_text s then cbind (copy_section inF outF s c) (\<lambda>(g, c1). Inr (c1\<lparr>noffH := h\<lparr>seg_code := g\<rparr>\<rparr>))
      else if is_data s then
        (if seg_size (initData h) \<noteq> 0 then Inl (Both_data, c)
         else cbind (copy_section inF outF s c) (\<lambda>(g, c1). Inr (c1\<lparr>noffH := h\<lparr>initData := g\<rparr>\<rparr>)))
      else if is_bss s then
        (let u = uninitData h in
         if seg_size u \<noteq> 0 then
           (if s_paddr s = virtualAddr u + seg_size u then Inl (Both_bss, c)
            else Inr (c\<lparr>noffH := h\<lparr>uninitData := u\<lparr>seg_size := seg_size u + s_size s\<rparr>\<rparr>\<rparr>))
         else Inr (c\<lparr>noffH := h\<lparr>uninitData := u\<lparr>virtualAddr := s_paddr s, seg_size := s_size s\<rparr>\<rparr>\<rparr>))
      else Inl (Unknown_segment, c))"

fun convert_sections :: "byte list \<Rightarrow> byte list option \<Rightarrow> scnhdr list \<Rightarrow> Conv \<Rightarrow> Conv conv" where
  "convert_sections inF outF [] c = Inr c"
| "convert_sections inF outF (s # ss) c = cbind (convert_section inF outF s c) (convert_sections inF outF ss)"

text \<open>From the first read to the last write; \<open>noffH c\<close> is uninitialised memory at first.\<close>

definition init_header :: "NoffHeader \<Rightarrow> NoffHeader" where
  "init_header h = h\<lparr>noffMagic := NOFFMAGIC, seg_code := (seg_code h)\<lparr>seg_size := 0\<rparr>, initData := (initData h)\<lparr>seg_size := 0\<rparr>,
     uninitData := (uninitData h)\<lparr>seg_size := 0\<rparr>\<rparr>"

definition conv_body :: "byte list \<Rightarrow> byte list option \<Rightarrow> Conv \<Rightarrow> Conv conv" where
  "conv_body inF outF c =
     cbind (conv_Read inF (of_nat filehdrSize) c) (\<lambda>(b1, c1).
     let fileh = bytes_to_filehdr b1 in
     if f_magic fileh \<noteq> MIPSELMAGIC then Inl (Not_MIPSEL, c1) else
     cbind (conv_Read inF (of_nat aouthdrSize) c1) (\<lambda>(b2, c2).
     if bytes_to_short b2 \<noteq> OMAGIC then Inl (Not_OMAGIC, c2) else
     let numsections = unat (f_nscns fileh) in
     cbind (conv_Read inF (of_nat (numsections * scnhdrSize)) c2) (\<lambda>(b3, c3).
     let secs = map (\<lambda>i. bytes_to_scnhdr (slot scnhdrSize b3 i)) [0..<numsections] in
     cbind (convert_sections inF outF secs
       (c3\<lparr>noffH := init_header (noffH c3), inNoffFile := of_nat NoffSize, fdOut_pos := NoffSize\<rparr>)) (\<lambda>c4.
     conv_Write outF (noff_to_bytes (noffH c4)) (of_nat NoffSize) (c4\<lparr>fdOut_pos := 0\<rparr>)))))"

text \<open>\<open>main\<close>; \<open>args\<close> are the arguments behind the name of the program, and the result is \<open>None\<close> for \<open>exit(0)\<close>.\<close>

definition coff2noff :: "(byte list \<Rightarrow> bool) \<Rightarrow> (byte list \<Rightarrow> bool) \<Rightarrow> NoffHeader \<Rightarrow> byte list list \<Rightarrow> host_files \<Rightarrow> coff_exit option \<times> host_files" where
  "coff2noff writable removable raw args fs = (case args of [] \<Rightarrow> (Some Usage, fs)
     | inF # rest \<Rightarrow> if fs inF = None then (Some Cannot_open, fs) else
        let outF = (case rest of [] \<Rightarrow> None | f # _ \<Rightarrow> if writable f then Some f else None);
            fs1 = (case outF of None \<Rightarrow> fs | Some f \<Rightarrow> fs(f \<mapsto> [])) in
        case conv_body inF outF \<lparr>conv_files = fs1, fdIn_pos = 0, fdOut_pos = 0, noffH = raw, inNoffFile = 0\<rparr> of
          Inr c \<Rightarrow> (None, conv_files c)
        | Inl (e, c) \<Rightarrow> (Some e, case rest of f # _ \<Rightarrow> if removable f then (conv_files c)(f := None) else conv_files c | [] \<Rightarrow> conv_files c))"

section \<open>Byte layout\<close>

lemma cbind_simps [simp]: "cbind (Inl e) f = Inl e" "cbind (Inr x) f = f x"
  by (simp_all add: cbind_def)

lemma length_segment_to_bytes [simp]: "length (segment_to_bytes g) = 12"
  by (simp add: segment_to_bytes_def)

lemma length_noff_to_bytes [simp]: "length (noff_to_bytes h) = NoffSize"
  by (simp add: noff_to_bytes_def NoffSize_def)

lemma bytes_to_segment_to_bytes [simp]: "bytes_to_segment (segment_to_bytes g @ bs) = g"
  by (simp add: bytes_to_segment_def segment_to_bytes_def)

lemma bytes_to_noff_to_bytes [simp]: "bytes_to_noff (noff_to_bytes h @ bs) = h"
  by (simp add: bytes_to_noff_def noff_to_bytes_def)

text \<open>The header that the converter writes is the one that the loader reads, whatever was in its buffer before.\<close>

lemma read_header_noff:
  assumes "noffMagic h = NOFFMAGIC" "length raw = NoffSize" "fs f = Some (noff_to_bytes h @ body)"
  shows "read_header raw f fs = Inr h"
proof -
  have "overwrite 0 (noff_to_bytes h) raw = noff_to_bytes h @ []" using assms(2) by (simp add: overwrite_def)
  then show ?thesis
    using assms bytes_to_noff_to_bytes [of h "[]"] by (simp add: read_header_def stub_ReadAt_def)
qed

section \<open>Well-formed input\<close>

definition coff_sections :: "byte list \<Rightarrow> scnhdr list" where
  "coff_sections bs = map (\<lambda>i. bytes_to_scnhdr (slot scnhdrSize (drop (filehdrSize + aouthdrSize) bs) i)) [0..<unat (f_nscns (bytes_to_filehdr bs))]"

definition nonempty :: "(scnhdr \<Rightarrow> bool) \<Rightarrow> scnhdr list \<Rightarrow> scnhdr list" where
  "nonempty P ss = filter (\<lambda>s. s_size s \<noteq> 0 \<and> P s) ss"

definition copied :: "scnhdr \<Rightarrow> bool" where
  "copied s \<longleftrightarrow> is_text s \<or> is_data s"

text \<open>What the file has for a section.\<close>

definition section_data :: "byte list \<Rightarrow> scnhdr \<Rightarrow> byte list" where
  "section_data bs s = take (unat (s_size s)) (drop (unat (s_scnptr s)) bs)"

definition sec_ok :: "byte list \<Rightarrow> scnhdr \<Rightarrow> bool" where
  "sec_ok bs s \<longleftrightarrow> s_size s = 0 \<or> is_bss s \<or>
     copied s \<and> 0 \<le> sint (s_scnptr s) \<and> 0 \<le> sint (s_size s) \<and> unat (s_scnptr s) + unat (s_size s) \<le> length bs"

text \<open>The headers are there, and there is at most one section of each kind that is not empty.\<close>

definition coff_ok :: "byte list \<Rightarrow> bool" where
  "coff_ok bs \<longleftrightarrow> filehdrSize + aouthdrSize + unat (f_nscns (bytes_to_filehdr bs)) * scnhdrSize \<le> length bs \<and>
     f_magic (bytes_to_filehdr bs) = MIPSELMAGIC \<and> bytes_to_short (drop filehdrSize bs) = OMAGIC \<and>
     list_all (sec_ok bs) (coff_sections bs) \<and>
     length (nonempty is_text (coff_sections bs)) \<le> 1 \<and> length (nonempty is_data (coff_sections bs)) \<le> 1 \<and>
     length (nonempty is_bss (coff_sections bs)) \<le> 1 \<and>
     NoffSize + sum_list (map (\<lambda>s. unat (s_size s)) (nonempty copied (coff_sections bs))) < 2 ^ 31"

lemma kinds_disjoint: "is_text s \<Longrightarrow> \<not> is_data s" "is_text s \<Longrightarrow> \<not> is_bss s" "is_data s \<Longrightarrow> \<not> is_bss s"
  by (auto simp: is_text_def is_data_def is_bss_def named_def)

section \<open>The loop\<close>

text \<open>The bytes of section \<open>s\<close> are in \<open>body\<close>, the output behind its header, where segment \<open>g\<close> says.\<close>

definition held :: "byte list \<Rightarrow> byte list \<Rightarrow> Segment \<Rightarrow> scnhdr \<Rightarrow> bool" where
  "held bs body g s \<longleftrightarrow> virtualAddr g = s_paddr s \<and> seg_size g = s_size s \<and> NoffSize \<le> unat (inFileAddr g) \<and>
     unat (inFileAddr g) - NoffSize + unat (s_size s) \<le> length body \<and>
     take (unat (s_size s)) (drop (unat (inFileAddr g) - NoffSize) body) = section_data bs s"

definition placed :: "Segment \<Rightarrow> scnhdr \<Rightarrow> bool" where
  "placed g s \<longleftrightarrow> virtualAddr g = s_paddr s \<and> seg_size g = s_size s"

definition holds_section :: "(Segment \<Rightarrow> scnhdr \<Rightarrow> bool) \<Rightarrow> (scnhdr \<Rightarrow> bool) \<Rightarrow> Segment \<Rightarrow> scnhdr list \<Rightarrow> bool" where
  "holds_section H P g ss \<longleftrightarrow> (case nonempty P ss of [] \<Rightarrow> seg_size g = 0 | s # _ \<Rightarrow> H g s)"

definition conv_inv :: "byte list \<Rightarrow> host_files \<Rightarrow> byte list \<Rightarrow> scnhdr list \<Rightarrow> byte list \<Rightarrow> Conv \<Rightarrow> bool" where
  "conv_inv bs fs f ss body c \<longleftrightarrow>
     conv_files c = fs(f \<mapsto> if body = [] then [] else replicate NoffSize 0 @ body) \<and>
     fdOut_pos c = NoffSize + length body \<and> inNoffFile c = of_nat (NoffSize + length body) \<and>
     length body = sum_list (map (\<lambda>s. unat (s_size s)) (nonempty copied ss)) \<and> noffMagic (noffH c) = NOFFMAGIC \<and>
     holds_section (held bs body) is_text (seg_code (noffH c)) ss \<and>
     holds_section (held bs body) is_data (initData (noffH c)) ss \<and>
     holds_section placed is_bss (uninitData (noffH c)) ss"

lemma held_append: "held bs body g s \<Longrightarrow> held bs (body @ x) g s"
  by (auto simp: held_def)

lemma nonempty_simps:
  "nonempty P [] = []" "nonempty P (xs @ ys) = nonempty P xs @ nonempty P ys"
  "nonempty P (s # ss) = (if s_size s \<noteq> 0 \<and> P s then s # nonempty P ss else nonempty P ss)"
  by (simp_all add: nonempty_def)

lemma holds_section_snoc:
  "\<not> (s_size s \<noteq> 0 \<and> P s) \<Longrightarrow> holds_section H P g (ss @ [s]) = holds_section H P g ss"
  "s_size s \<noteq> 0 \<Longrightarrow> P s \<Longrightarrow> nonempty P ss = [] \<Longrightarrow> holds_section H P g (ss @ [s]) = H g s"
  by (auto simp: holds_section_def nonempty_simps)

lemma holds_section_append: "holds_section (held bs body) P g ss \<Longrightarrow> holds_section (held bs (body @ x)) P g ss"
  by (auto simp: holds_section_def held_append split: list.splits)

lemma copy_section_ok:
  assumes inv: "conv_inv bs fs f ss body c" and "fs inF = Some bs" "inF \<noteq> f"
    and s: "0 \<le> sint (s_scnptr s)" "0 \<le> sint (s_size s)" "unat (s_scnptr s) + unat (s_size s) \<le> length bs" "s_size s \<noteq> 0"
    and room: "NoffSize + length body + unat (s_size s) < 2 ^ 31"
  obtains g c' where "copy_section inF (Some f) s c = Inr (g, c')" "noffH c' = noffH c" "held bs (body @ section_data bs s) g s"
    "conv_files c' = fs(f \<mapsto> replicate NoffSize 0 @ body @ section_data bs s)" "fdOut_pos c' = NoffSize + length (body @ section_data bs s)"
    "inNoffFile c' = of_nat (NoffSize + length (body @ section_data bs s))"
proof -
  have len: "length (section_data bs s) = unat (s_size s)" using s(3) by (simp add: section_data_def)
  moreover have pos: "unat (s_size s) > 0" using s(4) by (simp add: unat_gt_0)
  ultimately have ne: "section_data bs s \<noteq> []" by auto
  have c: "conv_files c inF = Some bs" "conv_files c f = Some (if body = [] then [] else replicate NoffSize 0 @ body)"
    "fdOut_pos c = NoffSize + length body" "inNoffFile c = of_nat (NoffSize + length body)"
    "(conv_files c)(f \<mapsto> x) = fs(f \<mapsto> x)" for x
    using inv assms(2,3) by (auto simp: conv_inv_def)
  have m1: "s_size s \<noteq> -1" using s(2) by auto
  have w: "host_write (NoffSize + length body) (section_data bs s) (if body = [] then [] else replicate NoffSize 0 @ body) =
      replicate NoffSize 0 @ body @ section_data bs s"
    by (simp add: host_write_def)
  have u: "unat (inNoffFile c) = NoffSize + length body" using room unfolding c(4) by (simp add: unat_of_nat take_bit_nat_eq_self del: of_nat_add)
  have "copy_section inF (Some f) s c = Inr (\<lparr>virtualAddr = s_paddr s, inFileAddr = inNoffFile c, seg_size = s_size s\<rparr>,
      c\<lparr>conv_files := fs(f \<mapsto> replicate NoffSize 0 @ body @ section_data bs s), fdIn_pos := unat (s_scnptr s) + unat (s_size s),
        fdOut_pos := NoffSize + length body + unat (s_size s), inNoffFile := inNoffFile c + s_size s\<rparr>)"
    using s len m1 c w by (simp add: copy_section_def conv_Read_def conv_Write_def lseek_in_def section_data_def Let_def)
  moreover have "held bs (body @ section_data bs s) \<lparr>virtualAddr = s_paddr s, inFileAddr = inNoffFile c, seg_size = s_size s\<rparr> s"
    using u len by (simp add: held_def)
  moreover have "inNoffFile c + s_size s = of_nat (NoffSize + length (body @ section_data bs s))"
    using c(4) len by simp
  ultimately show ?thesis using that len by simp
qed

lemma convert_section_ok:
  assumes inv: "conv_inv bs fs f ss body c" and f: "fs inF = Some bs" "inF \<noteq> f"
    and s: "sec_ok bs s" and room: "NoffSize + sum_list (map (\<lambda>s. unat (s_size s)) (nonempty copied (ss @ [s]))) < 2 ^ 31"
    and one: "length (nonempty is_text (ss @ [s])) \<le> 1" "length (nonempty is_data (ss @ [s])) \<le> 1" "length (nonempty is_bss (ss @ [s])) \<le> 1"
  shows "\<exists>c' body'. convert_section inF (Some f) s c = Inr c' \<and> conv_inv bs fs f (ss @ [s]) body' c'"
proof (cases "s_size s = 0 \<or> is_bss s")
  case True
  show ?thesis
  proof (cases "s_size s = 0")
    case True
    then have "convert_section inF (Some f) s c = Inr c" "conv_inv bs fs f (ss @ [s]) body c"
      using inv by (simp_all add: convert_section_def conv_inv_def holds_section_snoc(1) nonempty_simps)
    then show ?thesis by blast
  next
    case False
    with True have b: "is_bss s" "nonempty is_bss ss = []" "\<not> is_text s" "\<not> is_data s" "\<not> copied s"
      using one(3) kinds_disjoint by (auto simp: nonempty_simps copied_def)
    then have "seg_size (uninitData (noffH c)) = 0" using inv by (simp add: conv_inv_def holds_section_def)
    then have "convert_section inF (Some f) s c = Inr (c\<lparr>noffH := (noffH c)\<lparr>uninitData := (uninitData (noffH c))\<lparr>virtualAddr := s_paddr s, seg_size := s_size s\<rparr>\<rparr>\<rparr>)"
      using False b by (simp add: convert_section_def Let_def)
    moreover have "conv_inv bs fs f (ss @ [s]) body (c\<lparr>noffH := (noffH c)\<lparr>uninitData := (uninitData (noffH c))\<lparr>virtualAddr := s_paddr s, seg_size := s_size s\<rparr>\<rparr>\<rparr>)"
      using inv False b by (simp add: conv_inv_def holds_section_snoc nonempty_simps placed_def)
    ultimately show ?thesis by blast
  qed
next
  case False
  then have s': "copied s" "0 \<le> sint (s_scnptr s)" "0 \<le> sint (s_size s)" "unat (s_scnptr s) + unat (s_size s) \<le> length bs" "s_size s \<noteq> 0"
    using s by (auto simp: sec_ok_def)
  let ?body = "body @ section_data bs s"
  have len: "length (section_data bs s) = unat (s_size s)" using s'(4) by (simp add: section_data_def)
  have ne: "section_data bs s \<noteq> []" using len s'(5) by (auto simp: unat_gt_0 simp flip: length_greater_0_conv)
  have "NoffSize + length body + unat (s_size s) < 2 ^ 31" using room inv s'(1,5) by (simp add: conv_inv_def nonempty_simps)
  from copy_section_ok [OF inv f s'(2-5) this] obtain g c' where c':
    "copy_section inF (Some f) s c = Inr (g, c')" "noffH c' = noffH c" "held bs ?body g s"
    "conv_files c' = fs(f \<mapsto> replicate NoffSize 0 @ ?body)" "fdOut_pos c' = NoffSize + length ?body"
    "inNoffFile c' = of_nat (NoffSize + length ?body)" .
  note I = inv [unfolded conv_inv_def]
  have old: "holds_section (held bs ?body) P g' ss" if "holds_section (held bs body) P g' ss" for P g' using that by (rule holds_section_append)
  show ?thesis
  proof (cases "is_text s")
    case True
    then have t: "nonempty is_text ss = []" "\<not> is_data s" "\<not> is_bss s" using one(1) s'(5) kinds_disjoint by (auto simp: nonempty_simps)
    let ?c = "c'\<lparr>noffH := (noffH c)\<lparr>seg_code := g\<rparr>\<rparr>"
    have "convert_section inF (Some f) s c = Inr ?c" using True s'(5) c'(1) by (simp add: convert_section_def)
    moreover have "conv_inv bs fs f (ss @ [s]) ?body ?c"
      unfolding conv_inv_def using I True t s'(1,5) c' ne len by (simp add: old holds_section_snoc nonempty_simps)
    ultimately show ?thesis by blast
  next
    case no: False
    then have t: "is_data s" "nonempty is_data ss = []" "\<not> is_bss s" using one(2) s'(1,5) kinds_disjoint by (auto simp: nonempty_simps copied_def)
    then have "seg_size (initData (noffH c)) = 0" using I by (simp add: holds_section_def)
    let ?c = "c'\<lparr>noffH := (noffH c)\<lparr>initData := g\<rparr>\<rparr>"
    have "convert_section inF (Some f) s c = Inr ?c" using no t s'(5) c'(1) \<open>seg_size _ = 0\<close> by (simp add: convert_section_def)
    moreover have "conv_inv bs fs f (ss @ [s]) ?body ?c"
      unfolding conv_inv_def using I no t s'(1,5) c' ne len by (simp add: old holds_section_snoc nonempty_simps)
    ultimately show ?thesis by blast
  qed
qed

lemma convert_sections_ok:
  assumes "conv_inv bs fs f ss body c" and f: "fs inF = Some bs" "inF \<noteq> f" and "list_all (sec_ok bs) rest"
    and "NoffSize + sum_list (map (\<lambda>s. unat (s_size s)) (nonempty copied (ss @ rest))) < 2 ^ 31"
    and "length (nonempty is_text (ss @ rest)) \<le> 1" "length (nonempty is_data (ss @ rest)) \<le> 1" "length (nonempty is_bss (ss @ rest)) \<le> 1"
  shows "\<exists>c' body'. convert_sections inF (Some f) rest c = Inr c' \<and> conv_inv bs fs f (ss @ rest) body' c'"
  using assms
proof (induction rest arbitrary: ss body c)
  case (Cons s rest)
  have e: "nonempty P (ss @ s # rest) = nonempty P (ss @ [s]) @ nonempty P rest" for P by (simp add: nonempty_simps)
  have "\<exists>c' body'. convert_section inF (Some f) s c = Inr c' \<and> conv_inv bs fs f (ss @ [s]) body' c'"
    by (rule convert_section_ok [OF Cons.prems(1) f]) (use Cons.prems(4-8) [unfolded e] in simp_all)
  then obtain c' body' where "convert_section inF (Some f) s c = Inr c'" "conv_inv bs fs f (ss @ [s]) body' c'" by blast
  then show ?case using Cons.IH [of "ss @ [s]" body' c'] Cons.prems f by simp
qed auto

section \<open>The whole program\<close>

lemma conv_Read_ok:
  assumes "conv_files c inF = Some bs" "n < 2 ^ 31" "fdIn_pos c + n \<le> length bs"
  shows "conv_Read inF (of_nat n) c = Inr (take n (drop (fdIn_pos c) bs), c\<lparr>fdIn_pos := fdIn_pos c + n\<rparr>)"
proof -
  have n: "unat (of_nat n :: 32 word) = n" using assms(2) by (simp add: unat_of_nat take_bit_nat_eq_self)
  then have "\<not> sint (of_nat n :: 32 word) < 0" using sint_small [of "of_nat n"] assms(2) by simp
  then show ?thesis using assms n by (simp add: conv_Read_def)
qed

lemma numsections_small: "unat (n :: 16 word) * scnhdrSize < 2 ^ 31"
proof -
  have "unat n < 65536" using unsigned_less [of n] by simp
  then show ?thesis by (simp add: scnhdrSize_def)
qed

lemma bytes_to_short_take: "2 \<le> n \<Longrightarrow> bytes_to_short (take n bs) = bytes_to_short bs"
  by (simp add: bytes_to_short_def)

lemma bytes_to_filehdr_take: "4 \<le> n \<Longrightarrow> bytes_to_filehdr (take n bs) = bytes_to_filehdr bs"
  using bytes_to_short_take [of n bs] bytes_to_short_take [of "n - 2" "drop 2 bs"] by (simp add: bytes_to_filehdr_def drop_take)

lemma slot_take: "i < n \<Longrightarrow> slot k (take (n * k) bs) i = slot k bs i"
proof -
  assume "i < n"
  then have "i * k + k \<le> n * k" using mult_le_mono1 [of "Suc i" n k] by simp
  then show ?thesis by (simp add: slot_def drop_take min_def)
qed

lemma conv_body_ok:
  assumes ok: "coff_ok bs" and f: "fs inF = Some bs" "inF \<noteq> f" and c: "conv_files c = fs(f \<mapsto> [])" "fdIn_pos c = 0"
  shows "\<exists>c' h body. conv_body inF (Some f) c = Inr c' \<and> conv_files c' = fs(f \<mapsto> noff_to_bytes h @ body) \<and> noffMagic h = NOFFMAGIC \<and>
    holds_section (held bs body) is_text (seg_code h) (coff_sections bs) \<and>
    holds_section (held bs body) is_data (initData h) (coff_sections bs) \<and>
    holds_section placed is_bss (uninitData h) (coff_sections bs)"
proof -
  let ?n = "unat (f_nscns (bytes_to_filehdr bs))" and ?ss = "coff_sections bs"
  define c3 where "c3 = c\<lparr>fdIn_pos := filehdrSize + aouthdrSize + ?n * scnhdrSize, noffH := init_header (noffH c), inNoffFile := of_nat NoffSize, fdOut_pos := NoffSize\<rparr>"
  have len: "filehdrSize + aouthdrSize + ?n * scnhdrSize \<le> length bs" using ok by (simp add: coff_ok_def)
  have secs: "map (\<lambda>i. bytes_to_scnhdr (slot scnhdrSize (take (?n * scnhdrSize) (drop (filehdrSize + aouthdrSize) bs)) i)) [0..<?n] = ?ss"
    by (simp add: coff_sections_def slot_take)
  have cin: "conv_files (c\<lparr>fdIn_pos := p\<rparr>) inF = Some bs" for p using c f by simp
  have sizes: "filehdrSize < 2 ^ 31" "aouthdrSize < 2 ^ 31" "4 \<le> filehdrSize" "2 \<le> aouthdrSize"
    by (simp_all add: filehdrSize_def aouthdrSize_def)
  have r1: "conv_Read inF (of_nat filehdrSize) c = Inr (take filehdrSize bs, c\<lparr>fdIn_pos := filehdrSize\<rparr>)"
    using conv_Read_ok [of c inF bs filehdrSize] cin [of 0] c(2) len sizes by simp
  have r2: "conv_Read inF (of_nat aouthdrSize) (c\<lparr>fdIn_pos := filehdrSize\<rparr>) =
      Inr (take aouthdrSize (drop filehdrSize bs), c\<lparr>fdIn_pos := filehdrSize + aouthdrSize\<rparr>)"
    using conv_Read_ok [OF cin sizes(2), of filehdrSize] len by simp
  have r3: "conv_Read inF (of_nat (?n * scnhdrSize)) (c\<lparr>fdIn_pos := filehdrSize + aouthdrSize\<rparr>) =
      Inr (take (?n * scnhdrSize) (drop (filehdrSize + aouthdrSize) bs), c\<lparr>fdIn_pos := filehdrSize + aouthdrSize + ?n * scnhdrSize\<rparr>)"
    using conv_Read_ok [OF cin numsections_small, of "filehdrSize + aouthdrSize"] len by simp
  have "conv_inv bs fs f [] [] c3"
    using c by (simp add: c3_def conv_inv_def init_header_def holds_section_def nonempty_simps)
  from convert_sections_ok [OF this f, of ?ss] obtain c4 body where
    c4: "convert_sections inF (Some f) ?ss c3 = Inr c4" "conv_inv bs fs f ?ss body c4"
    using ok by (auto simp: coff_ok_def)
  have "conv_body inF (Some f) c = conv_Write (Some f) (noff_to_bytes (noffH c4)) (of_nat NoffSize) (c4\<lparr>fdOut_pos := 0\<rparr>)"
    using ok c4(1) r1 r2 r3 sizes secs
    by (simp add: conv_body_def coff_ok_def bytes_to_filehdr_take bytes_to_short_take Let_def c3_def del: of_nat_mult)
  moreover have "conv_Write (Some f) (noff_to_bytes (noffH c4)) (of_nat NoffSize) (c4\<lparr>fdOut_pos := 0\<rparr>) =
      Inr (c4\<lparr>conv_files := fs(f \<mapsto> noff_to_bytes (noffH c4) @ body), fdOut_pos := NoffSize\<rparr>)"
    using c4(2) by (simp add: conv_Write_def conv_inv_def host_write_def NoffSize_def)
  ultimately show ?thesis using c4(2) by (auto simp: conv_inv_def)
qed

text \<open>The bytes of section \<open>s\<close> are in the file \<open>out\<close> where segment \<open>g\<close> says.\<close>

definition stored :: "byte list \<Rightarrow> byte list \<Rightarrow> Segment \<Rightarrow> scnhdr \<Rightarrow> bool" where
  "stored bs out g s \<longleftrightarrow> placed g s \<and> take (unat (s_size s)) (drop (unat (inFileAddr g)) out) = section_data bs s"

lemma held_stored: "held bs body g s \<Longrightarrow> stored bs (noff_to_bytes h @ body) g s"
  by (simp add: held_def stored_def placed_def)

lemma holds_section_unique:
  assumes "holds_section H P g ss" "length (nonempty P ss) \<le> 1" "s \<in> set ss" "s_size s \<noteq> 0" "P s"
  shows "H g s"
proof -
  have "s \<in> set (nonempty P ss)" using assms(3-5) by (simp add: nonempty_def)
  then have "nonempty P ss = [s]" using assms(2) by (cases "nonempty P ss") auto
  then show ?thesis using assms(1) by (simp add: holds_section_def)
qed

text \<open>A well-formed COFF file becomes a NOFF file from which the loader reads every section.\<close>

lemma coff2noff_correct:
  assumes ok: "coff_ok bs" and f: "fs inF = Some bs" "inF \<noteq> f" "writable f" and buf: "length buf = NoffSize"
  shows "\<exists>out h. coff2noff writable removable raw [inF, f] fs = (None, fs(f \<mapsto> out)) \<and> read_header buf f (fs(f \<mapsto> out)) = Inr h \<and>
    (\<forall>s \<in> set (coff_sections bs). s_size s \<noteq> 0 \<longrightarrow> (is_text s \<longrightarrow> stored bs out (seg_code h) s) \<and>
      (is_data s \<longrightarrow> stored bs out (initData h) s) \<and> (is_bss s \<longrightarrow> placed (uninitData h) s))"
proof -
  let ?c = "\<lparr>conv_files = fs(f \<mapsto> []), fdIn_pos = 0, fdOut_pos = 0, noffH = raw, inNoffFile = 0\<rparr>"
  obtain c' h body where c': "conv_body inF (Some f) ?c = Inr c'" "conv_files c' = fs(f \<mapsto> noff_to_bytes h @ body)" "noffMagic h = NOFFMAGIC"
    "holds_section (held bs body) is_text (seg_code h) (coff_sections bs)" "holds_section (held bs body) is_data (initData h) (coff_sections bs)"
    "holds_section placed is_bss (uninitData h) (coff_sections bs)"
    using conv_body_ok [of bs fs inF f ?c] ok f by auto
  have one: "length (nonempty is_text (coff_sections bs)) \<le> 1" "length (nonempty is_data (coff_sections bs)) \<le> 1" "length (nonempty is_bss (coff_sections bs)) \<le> 1"
    using ok by (simp_all add: coff_ok_def)
  let ?out = "noff_to_bytes h @ body"
  have "coff2noff writable removable raw [inF, f] fs = (None, fs(f \<mapsto> ?out))" using c'(1,2) f by (simp add: coff2noff_def Let_def)
  moreover have "read_header buf f (fs(f \<mapsto> ?out)) = Inr h" using c'(3) buf by (intro read_header_noff) simp_all
  moreover have "\<forall>s \<in> set (coff_sections bs). s_size s \<noteq> 0 \<longrightarrow> (is_text s \<longrightarrow> stored bs ?out (seg_code h) s) \<and>
      (is_data s \<longrightarrow> stored bs ?out (initData h) s) \<and> (is_bss s \<longrightarrow> placed (uninitData h) s)"
    using c'(4-6) [THEN holds_section_unique] one held_stored by blast
  ultimately show ?thesis by blast
qed

text \<open>After a failure there is no output file, unless the host refuses to remove it.\<close>

lemma failed_conversion_removes_output:
  assumes "coff2noff writable removable raw [inF, f] fs = (Some e, fs')" "e \<noteq> Cannot_open" "removable f"
  shows "fs' f = None"
  using assms unfolding coff2noff_def conv_body_def
  by (auto simp: Let_def split: if_splits sum.splits prod.splits)

text \<open>
  The test for contiguous \<open>.bss\<close> and \<open>.sbss\<close> sections is the wrong way round: a second section that starts where the first ends is
  refused, and one that does not is counted as if it did.
\<close>

lemma bss_test_inverted:
  assumes "is_bss s" "s_size s \<noteq> 0" "seg_size (uninitData (noffH c)) \<noteq> 0"
  shows "convert_section inF outF s c =
    (if s_paddr s = virtualAddr (uninitData (noffH c)) + seg_size (uninitData (noffH c)) then Inl (Both_bss, c)
     else Inr (c\<lparr>noffH := (noffH c)\<lparr>uninitData := (uninitData (noffH c))\<lparr>seg_size := seg_size (uninitData (noffH c)) + s_size s\<rparr>\<rparr>\<rparr>))"
  using assms kinds_disjoint [of s] by (auto simp: convert_section_def Let_def)

end
