(* ===== verification/Nachos_Interp.thy ===== *)
theory Nachos_Interp
  imports Nachos_MIPS
begin

text \<open>
  \<open>bin/execute.c\<close>, the older interpreter of MIPS programs, and its agreement with \<open>machine/mipssim.cc\<close>.  It has
  no address translation, no exceptions and no delayed loads; its memory is one array at \<open>memoffset\<close>.  The program
  keeps addresses of the host in an \<open>int\<close>: the model is for hosts where that is possible.
\<close>

section \<open>State\<close>

definition MEMSIZE :: nat where "MEMSIZE = 2 ^ 24"
definition memoffset :: int where "memoffset = 0x10000000"

record Interp =
  iReg :: "32 word list"
  iHI :: "32 word"
  iLO :: "32 word"
  imem :: "byte list"

text \<open>
  What an instruction does: go on with the program counter after the next one, call \<open>system_trap\<close> or
  \<open>system_break\<close> of \<open>bin/system.c\<close>, or \<open>exit(2)\<close>.
\<close>

datatype interp_out = Next Interp "32 word" | System Interp "32 word" | Exit2

section \<open>Fields of an instruction (\<open>bin/instr.h\<close>)\<close>

definition i_rd :: "32 word \<Rightarrow> nat" where "i_rd i = bits_of i 11 0x1f"
definition i_rt :: "32 word \<Rightarrow> nat" where "i_rt i = bits_of i 16 0x1f"
definition i_rs :: "32 word \<Rightarrow> nat" where "i_rs i = bits_of i 21 0x1f"
definition i_shamt :: "32 word \<Rightarrow> nat" where "i_shamt i = bits_of i 6 0x1f"

definition immed :: "32 word \<Rightarrow> 32 word" where
  "immed i = (if i AND 0x8000 \<noteq> 0 then i OR 0xffff8000 else i AND 0x7fff)"

section \<open>Memory (\<open>bin/int.h\<close>)\<close>

definition mem_at :: "32 word \<Rightarrow> nat \<Rightarrow> Interp \<Rightarrow> nat res" where
  "mem_at addr n st = (let k = sint addr - memoffset in
     if 0 \<le> k \<and> nat k + n \<le> length (imem st) then Inr (nat k) else Inl BadIndex)"

definition fetch_bytes :: "32 word \<Rightarrow> nat \<Rightarrow> Interp \<Rightarrow> byte list res" where
  "fetch_bytes addr n st = rbind (mem_at addr n st) (\<lambda>k. Inr (take n (drop k (imem st))))"

definition fetch :: "32 word \<Rightarrow> Interp \<Rightarrow> 32 word res" where
  "fetch addr st = rbind (fetch_bytes addr 4 st) (\<lambda>bs. Inr (bytes_to_word bs))"

definition usfetch :: "32 word \<Rightarrow> Interp \<Rightarrow> 32 word res" where
  "usfetch addr st = rbind (fetch_bytes addr 2 st) (\<lambda>bs. Inr (ucast (bs ! 0) OR push_bit 8 (ucast (bs ! 1))))"

definition sfetch :: "32 word \<Rightarrow> Interp \<Rightarrow> 32 word res" where
  "sfetch addr st = rbind (usfetch addr st) (\<lambda>v. Inr (if v AND 0x8000 \<noteq> 0 then v OR 0xffff0000 else v))"

definition ucfetch :: "32 word \<Rightarrow> Interp \<Rightarrow> 32 word res" where
  "ucfetch addr st = rbind (fetch_bytes addr 1 st) (\<lambda>bs. Inr (ucast (bs ! 0)))"

definition cfetch :: "32 word \<Rightarrow> Interp \<Rightarrow> 32 word res" where
  "cfetch addr st = rbind (fetch_bytes addr 1 st) (\<lambda>bs. Inr (scast (bs ! 0)))"

definition store_bytes :: "32 word \<Rightarrow> byte list \<Rightarrow> Interp \<Rightarrow> Interp res" where
  "store_bytes addr bs st = rbind (mem_at addr (length bs) st) (\<lambda>k. Inr (st\<lparr>imem := overwrite k bs (imem st)\<rparr>))"

definition i_store :: "32 word \<Rightarrow> 32 word \<Rightarrow> Interp \<Rightarrow> Interp res" where
  "i_store addr v = store_bytes addr (word_to_bytes v)"

definition sstore :: "32 word \<Rightarrow> 32 word \<Rightarrow> Interp \<Rightarrow> Interp res" where
  "sstore addr v = store_bytes addr (take 2 (word_to_bytes v))"

definition cstore :: "32 word \<Rightarrow> 32 word \<Rightarrow> Interp \<Rightarrow> Interp res" where
  "cstore addr v = store_bytes addr [ucast v]"

section \<open>Instructions\<close>

definition i_reg :: "Interp \<Rightarrow> nat \<Rightarrow> 32 word" where
  "i_reg st n = iReg st ! n"

definition i_set :: "nat \<Rightarrow> 32 word \<Rightarrow> Interp \<Rightarrow> Interp" where
  "i_set n v st = st\<lparr>iReg := (iReg st)[n := v]\<rparr>"

definition i_flag :: "bool \<Rightarrow> 32 word" where
  "i_flag b = (if b then 1 else 0)"

text \<open>\<open>I_MULT\<close> and \<open>I_MULTU\<close>: the high word is put together from the halves, without the carry of the lower products.\<close>

definition mult_high :: "32 word \<Rightarrow> 32 word \<Rightarrow> 32 word" where
  "mult_high t1 t2 = (let t1l = t1 AND 0xffff; t1h = signed_drop_bit 16 t1 AND 0xffff;
       t2l = t2 AND 0xffff; t2h = signed_drop_bit 16 t2 AND 0xffff in
     t1h * t2h + signed_drop_bit 16 (t1h * t2l) + signed_drop_bit 16 (t2h * t1l))"

definition i_mult :: "32 word \<Rightarrow> 32 word \<Rightarrow> 32 word \<times> 32 word" where
  "i_mult a b =
     (let t1 = (if sint a < 0 then - a else a); t2 = (if sint b < 0 then - b else b);
          neg = ((sint a < 0) \<noteq> (sint b < 0));
          lo = t1 * t2; hi = mult_high t1 t2 in
      if neg then (let lo1 = NOT lo + 1 in (if lo1 = 0 then NOT hi + 1 else NOT hi, lo1)) else (hi, lo))"

definition i_multu :: "32 word \<Rightarrow> 32 word \<Rightarrow> 32 word \<times> 32 word" where
  "i_multu a b = (mult_high a b, a * b)"

text \<open>
  \<open>I_SPECIAL\<close>: \<open>f\<close> is the function field, \<open>xpc\<close> the address of the instruction and \<open>npc\<close> the default of the
  program counter after the next.  The registers are \<open>int\<close>s whose sums, differences and products wrap, which the program relies on for
  the unsigned instructions; a shift by a register is undefined when the count is not between 0 and 31.
\<close>

definition i_special :: "nat \<Rightarrow> 32 word \<Rightarrow> 32 word \<Rightarrow> 32 word \<Rightarrow> Interp \<Rightarrow> interp_out res" where
  "i_special f i xpc npc st =
     (let a = i_reg st (i_rs i); b = i_reg st (i_rt i); sh = i_shamt i;
          set_rd = (\<lambda>v. Inr (Next (i_set (i_rd i) v st) npc)) in
      if f = 0x00 then set_rd (push_bit sh b)
      else if f = 0x02 then set_rd (drop_bit sh b)
      else if f = 0x03 then set_rd (signed_drop_bit sh b)
      else if f = 0x04 then DEFINED (a < 32) (set_rd (push_bit (unat a) b))
      else if f = 0x06 then DEFINED (a < 32) (set_rd (drop_bit (unat a) b))
      else if f = 0x07 then DEFINED (a < 32) (set_rd (signed_drop_bit (unat a) b))
      else if f = 0x08 then Inr (Next st a)
      else if f = 0x09 then Inr (Next (i_set (i_rd i) (xpc + 8) st) a)
      else if f = 0x0c \<or> f = 0x0d then Inr (System st npc)
      else if f = 0x10 then set_rd (iHI st)
      else if f = 0x11 then Inr (Next (st\<lparr>iHI := a\<rparr>) npc)
      else if f = 0x12 then set_rd (iLO st)
      else if f = 0x13 then Inr (Next (st\<lparr>iLO := a\<rparr>) npc)
      else if f = 0x18 then (let (hi, lo) = i_mult a b in Inr (Next (st\<lparr>iHI := hi, iLO := lo\<rparr>) npc))
      else if f = 0x19 then (let (hi, lo) = i_multu a b in Inr (Next (st\<lparr>iHI := hi, iLO := lo\<rparr>) npc))
      else if f = 0x1a then
        (if b = 0 \<or> sint a = - (2 ^ 31) \<and> sint b = -1 then Inl DivTrap
         else Inr (Next (st\<lparr>iLO := word_of_int (sint a sdiv sint b), iHI := word_of_int (sint a smod sint b)\<rparr>) npc))
      else if f = 0x1b then (if b = 0 then Inl DivTrap else Inr (Next (st\<lparr>iLO := a div b, iHI := a mod b\<rparr>) npc))
      else if f = 0x20 \<or> f = 0x21 then set_rd (a + b)
      else if f = 0x22 \<or> f = 0x23 then set_rd (a - b)
      else if f = 0x24 then set_rd (a AND b)
      else if f = 0x25 then set_rd (a OR b)
      else if f = 0x26 then set_rd (a XOR b)
      else if f = 0x27 then set_rd (NOT (a OR b))
      else if f = 0x2a then set_rd (i_flag (sint a < sint b))
      else if f = 0x2b then set_rd (i_flag (a < b))
      else Inr Exit2)"

definition i_branch :: "bool \<Rightarrow> 32 word \<Rightarrow> 32 word \<Rightarrow> 32 word \<Rightarrow> Interp \<Rightarrow> interp_out res" where
  "i_branch c i xpc npc st = Inr (Next st (if c then xpc + 4 + push_bit 2 (immed i) else npc))"

text \<open>\<open>I_BCOND\<close>: the link register is set before the test.\<close>

definition i_bcond :: "32 word \<Rightarrow> 32 word \<Rightarrow> 32 word \<Rightarrow> Interp \<Rightarrow> interp_out res" where
  "i_bcond i xpc npc st =
     (let link = i_set 31 (xpc + 8) st in
      if i_rt i = 0x00 then i_branch (sint (i_reg st (i_rs i)) < 0) i xpc npc st
      else if i_rt i = 0x01 then i_branch (sint (i_reg st (i_rs i)) \<ge> 0) i xpc npc st
      else if i_rt i = 0x10 then i_branch (sint (i_reg link (i_rs i)) < 0) i xpc npc link
      else if i_rt i = 0x11 then i_branch (sint (i_reg link (i_rs i)) \<ge> 0) i xpc npc link
      else Inr Exit2)"

text \<open>The jumps, the branches and the operations with an immediate operand.\<close>

definition i_immediate :: "nat \<Rightarrow> 32 word \<Rightarrow> 32 word \<Rightarrow> 32 word \<Rightarrow> Interp \<Rightarrow> interp_out res option" where
  "i_immediate op i xpc npc st =
     (let a = i_reg st (i_rs i); b = i_reg st (i_rt i); target = (xpc AND 0xf0000000) OR push_bit 2 (i AND 0x03ffffff);
          set_rt = (\<lambda>v. Some (Inr (Next (i_set (i_rt i) v st) npc))) in
      if op = 0x02 then Some (Inr (Next st target))
      else if op = 0x03 then Some (Inr (Next (i_set 31 (xpc + 8) st) target))
      else if op = 0x04 then Some (i_branch (a = b) i xpc npc st)
      else if op = 0x05 then Some (i_branch (a \<noteq> b) i xpc npc st)
      else if op = 0x06 then Some (i_branch (sint a \<le> 0) i xpc npc st)
      else if op = 0x07 then Some (i_branch (sint a > 0) i xpc npc st)
      else if op = 0x08 \<or> op = 0x09 then set_rt (a + immed i)
      else if op = 0x0a then set_rt (i_flag (sint a < sint (immed i)))
      else if op = 0x0b then set_rt (i_flag (a < immed i))
      else if op = 0x0c then set_rt (a AND immed i)
      else if op = 0x0d then set_rt (a OR immed i)
      else if op = 0x0e then set_rt (a XOR immed i)
      else if op = 0x0f then set_rt (push_bit 16 i)
      else None)"

text \<open>
  Loads and stores.  In \<open>I_LWL\<close> the mask \<open>-1 >> n\<close> is -1 for every \<open>n\<close>: the shift of a negative \<open>int\<close> copies the sign.
\<close>

definition i_memory :: "nat \<Rightarrow> 32 word \<Rightarrow> 32 word \<Rightarrow> Interp \<Rightarrow> interp_out res option" where
  "i_memory op i npc st =
     (let ad = i_reg st (i_rs i) + immed i; b = i_reg st (i_rt i);
          set_rt = (\<lambda>r. Some (rbind r (\<lambda>v. Inr (Next (i_set (i_rt i) v st) npc))));
          stored = (\<lambda>r. Some (rbind r (\<lambda>st1. Inr (Next st1 npc)))) in
      if op = 0x20 then set_rt (cfetch ad st)
      else if op = 0x21 then set_rt (sfetch ad st)
      else if op = 0x22 then set_rt (rbind (fetch (ad AND 0xfffffffc) st) (\<lambda>v.
        Inr ((b AND signed_drop_bit (8 * unat (- ad AND 3)) (-1)) OR push_bit (8 * unat (ad AND 3)) v)))
      else if op = 0x23 then set_rt (fetch ad st)
      else if op = 0x24 then set_rt (ucfetch ad st)
      else if op = 0x25 then set_rt (usfetch ad st)
      else if op = 0x26 then set_rt (rbind (fetch (ad AND 0xfffffffc) st) (\<lambda>v.
        Inr ((if ad AND 3 = 0 then 0 else b AND push_bit (8 * unat (ad AND 3)) (-1)) OR signed_drop_bit (8 * unat (- ad AND 3)) v)))
      else if op = 0x28 then stored (cstore ad b st)
      else if op = 0x29 then stored (sstore ad b st)
      else if op = 0x2b then stored (i_store ad b st)
      else None)"

text \<open>The \<open>switch\<close>; \<open>SWL\<close>, \<open>SWR\<close>, the coprocessors and unknown codes end the interpreter.\<close>

definition i_execute :: "32 word \<Rightarrow> 32 word \<Rightarrow> 32 word \<Rightarrow> Interp \<Rightarrow> interp_out res" where
  "i_execute i xpc npc st =
     (let op = bits_of i 26 0x3f in
      if op = 0 then i_special (bits_of i 0 0x3f) i xpc npc st
      else if op = 1 then i_bcond i xpc npc st
      else case first_match [i_immediate op i xpc npc st, i_memory op i npc st] of Some r \<Rightarrow> r | None \<Rightarrow> Inr Exit2)"

text \<open>
  One round of the loop of \<open>runprogram\<close> with the two program counters; the result has the same shape.
\<close>

definition i_round :: "32 word \<Rightarrow> 32 word \<Rightarrow> Interp \<Rightarrow> (32 word \<times> interp_out) res" where
  "i_round pc npc st = rbind (fetch pc st) (\<lambda>instr.
     let st0 = i_set 0 0 st in
     if instr = 0 then Inr (npc, Next st0 (npc + 4)) else rbind (i_execute instr pc (npc + 4) st0) (\<lambda>r. Inr (npc, r)))"

text \<open>The stack that \<open>runprogram\<close> builds: the number of arguments, their addresses, and the strings with their NUL.\<close>

fun arg_loop :: "byte list list \<Rightarrow> 32 word \<Rightarrow> 32 word \<Rightarrow> Interp \<Rightarrow> Interp res" where
  "arg_loop [] aci ai st = Inr st"
| "arg_loop (s # ss) aci ai st = rbind (store_bytes ai (s @ [0]) st) (\<lambda>st1.
     rbind (i_store aci ai st1) (\<lambda>st2. arg_loop ss (aci + 4) (ai + of_nat (length s) + 1) st2))"

definition i_start :: "byte list list \<Rightarrow> Interp \<Rightarrow> Interp res" where
  "i_start argv st = (let sp = word_of_int (int MEMSIZE - 1024 + memoffset) in
     rbind (i_store sp (of_nat (length argv)) (i_set 29 sp st)) (\<lambda>st1. arg_loop argv (sp + 4) (sp + 36) st1))"

text \<open>\<open>ilog2\<close>.\<close>

definition ilog2_step :: "32 word \<Rightarrow> nat \<Rightarrow> 32 word \<times> nat \<Rightarrow> 32 word \<times> nat" where
  "ilog2_step m k p = (let j = fst p AND m in if j \<noteq> 0 then (j, snd p + k) else p)"

definition ilog2 :: "32 word \<Rightarrow> nat" where
  "ilog2 i = (if i = 0 then 0 else snd (ilog2_step 0xaaaaaaaa 1 (ilog2_step 0xcccccccc 2 (ilog2_step 0xf0f0f0f0 4
     (ilog2_step 0xff00ff00 8 (ilog2_step 0xffff0000 16 (i, 1)))))))"

section \<open>Decoding agrees\<close>

lemma masks: "(0xffff :: 32 word) = mask 16" "(0xffff0000 :: 32 word) = NOT (mask 16)" "(0x7fff :: 32 word) = mask 15"
  "(0xffff8000 :: 32 word) = NOT (mask 15)" "(0x8000 :: 32 word) = 2 ^ 15"
  by (simp_all add: mask_eq_exp_minus_1)

lemma bit_immed: "bit (immed v) n \<longleftrightarrow> n < 32 \<and> (if n < 15 then bit v n else bit v 15)"
proof -
  have b: "v AND 0x8000 = 0 \<longleftrightarrow> \<not> bit v 15" using and_exp_eq_0_iff_not_bit [of v 15] by simp
  show ?thesis unfolding immed_def b unfolding masks by (auto simp: bit_simps dest: bit_imp_le_length)
qed

lemma immed_extra: "(let e = v AND 0xffff in if e AND 0x8000 \<noteq> 0 then e OR 0xffff0000 else e) = immed v"
proof -
  have b: "x AND 0x8000 = 0 \<longleftrightarrow> \<not> bit x 15" for x :: "32 word" using and_exp_eq_0_iff_not_bit [of x 15] by simp
  have lt: "n < 16 \<longleftrightarrow> n < 15 \<or> n = 15" for n :: nat by auto
  show ?thesis unfolding Let_def b unfolding masks
    by (auto intro!: bit_word_eqI simp: bit_simps bit_immed lt split: if_splits)
qed

lemma Decode_fields: "rs (Decode w) = i_rs w" "rt (Decode w) = i_rt w" "rd (Decode w) = i_rd w"
  by (simp_all add: Decode_def i_rs_def i_rt_def i_rd_def Let_def split: prod.split)

lemma fields_less: "i_rs w < 32" "i_rt w < 32" "i_rd w < 32"
  by (simp_all add: i_rs_def i_rt_def i_rd_def bits_of_less)

lemma Decode_special:
  assumes "bits_of w 26 0x3f = 0"
  shows "opCode (Decode w) = specialTable ! bits_of w 0 0x3f" "unat (extra (Decode w)) = i_shamt w"
  using assms by (simp_all add: Decode_def opTable_def i_shamt_def bits_of_def)

lemma Decode_immediate:
  assumes "bits_of w 26 0x3f = n" "opTable ! n = (op, IFMT)" "op \<notin> {SPECIAL, BCOND}"
  shows "opCode (Decode w) = op" "extra (Decode w) = immed w"
  using assms immed_extra [of w] by (simp_all add: Decode_def Let_def)

lemma Decode_jump:
  assumes "bits_of w 26 0x3f = n" "opTable ! n = (op, JFMT)" "op \<notin> {SPECIAL, BCOND}"
  shows "opCode (Decode w) = op" "extra (Decode w) = w AND 0x3ffffff"
  using assms by (simp_all add: Decode_def Let_def)

section \<open>Instructions agree\<close>

text \<open>The registers of the two simulators hold the same values; register 0 may be wrong for the rest of an instruction.\<close>

definition agree :: "Machine \<Rightarrow> Interp \<Rightarrow> bool" where
  "agree m st \<longleftrightarrow> length (registers m) = NumTotalRegs \<and> length (iReg st) = 32 \<and> (\<forall>r. 0 < r \<and> r < 32 \<longrightarrow> reg m r = i_reg st r) \<and>
     reg m HiReg = iHI st \<and> reg m LoReg = iLO st"

text \<open>
  Both go on, with the same registers and the same program counter; the control registers of the simulator have not changed
  since \<open>m\<close>.
\<close>

definition control_kept :: "Machine \<Rightarrow> Machine \<Rightarrow> bool" where
  "control_kept m m' \<longleftrightarrow> (\<forall>r > LoReg. reg m' r = reg m r)"

definition same_step :: "Machine \<Rightarrow> exec_out res \<Rightarrow> interp_out res \<Rightarrow> bool" where
  "same_step m x y \<longleftrightarrow> (\<exists>m' pc st'. x = Inr (Cont m' pc 0 0) \<and> y = Inr (Next st' pc) \<and> agree m' st' \<and> control_kept m m')"

lemma control_kept_refl [simp]: "control_kept m m"
  by (simp add: control_kept_def)

lemma control_kept_set [simp]: "n \<le> LoReg \<Longrightarrow> control_kept m (set_reg n v m') = control_kept m m'"
  by (auto simp: control_kept_def)

lemma i_set_sel [simp]: "iHI (i_set n v st) = iHI st" "iLO (i_set n v st) = iLO st" "imem (i_set n v st) = imem st"
  "length (iReg (i_set n v st)) = length (iReg st)"
  by (simp_all add: i_set_def)

lemma agree_set: "agree m st \<Longrightarrow> n < 32 \<Longrightarrow> agree (set_reg n v m) (i_set n v st)"
  by (auto simp: agree_def i_reg_def i_set_def nth_list_update)

lemma agree_hi_lo:
  "agree m st \<Longrightarrow> agree (set_reg HiReg v m) (st\<lparr>iHI := v\<rparr>)" "agree m st \<Longrightarrow> agree (set_reg LoReg v m) (st\<lparr>iLO := v\<rparr>)"
  by (auto simp: agree_def i_reg_def)

lemma same_step_put: "agree m st \<Longrightarrow> n < 32 \<Longrightarrow> npc = next4 m \<Longrightarrow> same_step m (put m n v) (Inr (Next (i_set n v st) npc))"
  by (auto simp: same_step_def put_def agree_set)

lemma same_step_put_hi_lo:
  "agree m st \<Longrightarrow> npc = next4 m \<Longrightarrow> same_step m (put m HiReg v) (Inr (Next (st\<lparr>iHI := v\<rparr>) npc))"
  "agree m st \<Longrightarrow> npc = next4 m \<Longrightarrow> same_step m (put m LoReg v) (Inr (Next (st\<lparr>iLO := v\<rparr>) npc))"
  by (auto simp: same_step_def put_def agree_hi_lo)

lemma same_step_goto: "agree m' st \<Longrightarrow> control_kept m m' \<Longrightarrow> same_step m (goto m' pc) (Inr (Next st pc))"
  by (auto simp: same_step_def goto_def)

lemma same_step_branch:
  "agree m' st \<Longrightarrow> control_kept m m' \<Longrightarrow> c = c' \<Longrightarrow> extra i = immed w \<Longrightarrow> reg m NextPCReg = xpc + 4 \<Longrightarrow>
    same_step m (branch_if c i m') (i_branch c' w xpc (xpc + 8) st)"
proof -
  assume a: "agree m' st" "control_kept m m'" "c = c'" "extra i = immed w" "reg m NextPCReg = xpc + 4"
  then have "reg m' NextPCReg = xpc + 4" by (simp add: control_kept_def)
  then show ?thesis using a by (simp add: branch_if_def i_branch_def IndexToAddr_def next4_def same_step_goto add.commute)
qed

lemma agree_reg: "agree m st \<Longrightarrow> reg m 0 = 0 \<Longrightarrow> i_reg st 0 = 0 \<Longrightarrow> r < 32 \<Longrightarrow> i_reg st r = reg m r"
  by (cases "r = 0") (auto simp: agree_def)

lemma signed_drop_bit_nonneg: "0 \<le> sint (w :: 32 word) \<Longrightarrow> signed_drop_bit n w = drop_bit n w"
proof -
  assume "0 \<le> sint w"
  then have "\<not> bit w 31" using bit_last_iff [of w] by simp
  then have "bit (signed_drop_bit n w) k = bit (drop_bit n w) k" for k
    by (cases "32 - n \<le> k") (auto simp: bit_simps dest: bit_imp_le_length)
  then show ?thesis by (rule bit_word_eqI)
qed

lemma immed_nonneg: "0 \<le> sint (immed w) \<Longrightarrow> immed w AND 0xffff = immed w"
proof -
  assume "0 \<le> sint (immed w)"
  then have "\<not> bit w 15" using bit_last_iff [of "immed w"] bit_immed [of w 31] by simp
  then show ?thesis unfolding masks by (auto intro!: bit_word_eqI simp: bit_simps bit_immed split: if_splits)
qed

lemmas exec_parts = exec_def exec_add_def exec_branch_def exec_div_def exec_jump_def exec_load_def exec_move_def exec_shift_def exec_store_def

text \<open>
  The function codes on which the two agree, with the operands for which they do: \<open>ADD\<close> and \<open>SUB\<close> do not trap here, \<open>mipssim\<close>
  computes \<open>OR\<close> without its second operand and shifts copies of the sign in for \<open>SRL\<close> and \<open>SRLV\<close>, a division by
  zero ends this interpreter, a shift by more than 31 is undefined here, and \<open>JALR\<close> uses its target before and after the link.
\<close>

definition shared_special :: "nat \<Rightarrow> 32 word \<Rightarrow> Machine \<Rightarrow> bool" where
  "shared_special f w m \<longleftrightarrow> (let a = reg m (i_rs w); b = reg m (i_rt w) in
     f = 0x00 \<or> f = 0x03 \<or> f = 0x04 \<and> a < 32 \<or> f = 0x07 \<and> a < 32 \<or> f = 0x08 \<or> f = 0x10 \<or> f = 0x11 \<or> f = 0x12 \<or> f = 0x13 \<or> f = 0x21 \<or> f = 0x23 \<or>
     f = 0x24 \<or> f = 0x26 \<or> f = 0x27 \<or> f = 0x2a \<or> f = 0x2b \<or>
     f = 0x20 \<and> is_int32 (sint a + sint b) \<or> f = 0x22 \<and> is_int32 (sint a - sint b) \<or>
     f = 0x25 \<and> a OR b = a \<or> f = 0x02 \<and> 0 \<le> sint b \<or> f = 0x06 \<and> 0 \<le> sint b \<and> a < 32 \<or>
     f = 0x1a \<and> b \<noteq> 0 \<and> \<not> (sint a = - (2 ^ 31) \<and> sint b = -1) \<or> f = 0x1b \<and> b \<noteq> 0 \<or> f = 0x09 \<and> i_rd w \<noteq> i_rs w)"

lemma special_agrees:
  assumes ag: "agree m st" "reg m 0 = 0" "i_reg st 0 = 0" and pc: "reg m NextPCReg = xpc + 4"
    and op: "bits_of w 26 0x3f = 0" and sh: "shared_special (bits_of w 0 0x3f) w m"
  shows "same_step m (exec (Decode w) m) (i_special (bits_of w 0 0x3f) w xpc (xpc + 8) st)"
proof -
  note d = Decode_fields Decode_special [OF op]
  note r = agree_reg [OF ag] fields_less
  have n4: "next4 m = xpc + 8" using pc by (simp add: next4_def)
  have hl: "iHI st = reg m HiReg" "iLO st = reg m LoReg" "length (registers m) = NumTotalRegs" using ag(1) by (simp_all add: agree_def)
  have ne: "LoReg \<noteq> i_rs w" "LoReg \<noteq> i_rt w" "HiReg \<noteq> i_rs w" "HiReg \<noteq> i_rt w" "i_rd w \<le> LoReg" using fields_less [of w] by auto
  note steps = same_step_put [OF ag(1)] same_step_put_hi_lo [OF ag(1)] same_step_goto agree_hi_lo agree_set ag(1)
  have five: "a AND 0x1f = a" if "a < 32" for a :: "32 word"
    using that less_mask_eq [of a 5] by (simp add: mask_eq_exp_minus_1)
  show ?thesis
    using sh overflow_iff [of "reg m (i_rs w)" "reg m (i_rt w)"] unfolding shared_special_def Let_def
    by (elim disjE conjE)
      (auto simp: exec_parts d specialTable_def i_special_def r n4 hl steps i_flag_def signed_drop_bit_nonneg five Let_def ne)
qed

lemma bcond_field: "w AND 0x1f0000 = push_bit 16 (of_nat (i_rt w))"
proof -
  have m: "(0x1f0000 :: 32 word) = push_bit 16 (mask 5)" "(0x1f :: 32 word) = mask 5" by (simp_all add: mask_eq_exp_minus_1 push_bit_eq_mult)
  show ?thesis unfolding i_rt_def bits_of_def m by (auto intro!: bit_word_eqI simp: bit_simps)
qed

lemma Decode_bcond:
  assumes "bits_of w 26 0x3f = 1"
  shows "extra (Decode w) = immed w" "opCode (Decode w) = (if i_rt w = 0 then OP_BLTZ else if i_rt w = 1 then OP_BGEZ
    else if i_rt w = 16 then OP_BLTZAL else if i_rt w = 17 then OP_BGEZAL else OP_UNIMP)"
proof -
  show "extra (Decode w) = immed w" using assms immed_extra [of w] by (simp add: Decode_def opTable_def Let_def)
  have u: "unat (push_bit 16 (of_nat j) :: 32 word) = j * 65536" if "j < 32" for j
    unfolding push_bit_of_nat unat_of_nat using that by (simp add: push_bit_eq_mult take_bit_nat_eq_self)
  have eq: "push_bit 16 (of_nat k) = (push_bit 16 (of_nat (i_rt w)) :: 32 word) \<longleftrightarrow> i_rt w = k" if "k < 32" for k
    using u [OF that] u [OF fields_less(2) [of w]] by (metis mult_cancel2 zero_neq_numeral)
  show "opCode (Decode w) = (if i_rt w = 0 then OP_BLTZ else if i_rt w = 1 then OP_BGEZ
    else if i_rt w = 16 then OP_BLTZAL else if i_rt w = 17 then OP_BGEZAL else OP_UNIMP)"
    using assms eq [of 0] eq [of 1] eq [of 16] eq [of 17] by (auto simp: Decode_def opTable_def Let_def bcond_field)
qed

text \<open>
  The other codes: \<open>ADDI\<close> does not trap here, the logical operations with an immediate operand extend its sign here and
  do not in \<open>mipssim\<close>, and the upper bits of a jump come from the address of the jump here and from two instructions on there.
\<close>

definition shared_immediate :: "nat \<Rightarrow> 32 word \<Rightarrow> 32 word \<Rightarrow> Machine \<Rightarrow> bool" where
  "shared_immediate op w xpc m \<longleftrightarrow>
     op = 0x04 \<or> op = 0x05 \<or> op = 0x06 \<or> op = 0x07 \<or> op = 0x09 \<or> op = 0x0a \<or> op = 0x0b \<or> op = 0x0f \<or>
     op = 0x08 \<and> is_int32 (sint (reg m (i_rs w)) + sint (immed w)) \<or>
     op = 0x0c \<and> 0 \<le> sint (immed w) \<or> op = 0x0d \<and> 0 \<le> sint (immed w) \<or> op = 0x0e \<and> 0 \<le> sint (immed w) \<or>
     op = 0x02 \<and> (xpc + 8) AND 0xf0000000 = xpc AND 0xf0000000 \<or> op = 0x03 \<and> (xpc + 8) AND 0xf0000000 = xpc AND 0xf0000000"

definition shared :: "32 word \<Rightarrow> 32 word \<Rightarrow> Machine \<Rightarrow> bool" where
  "shared w xpc m \<longleftrightarrow> (let op = bits_of w 26 0x3f in
     if op = 0 then shared_special (bits_of w 0 0x3f) w m else if op = 1 then i_rt w \<in> {0, 1, 16, 17} else shared_immediate op w xpc m)"

lemma bcond_agrees:
  assumes ag: "agree m st" "reg m 0 = 0" "i_reg st 0 = 0" and pc: "reg m NextPCReg = xpc + 4"
    and op: "bits_of w 26 0x3f = 1" and sh: "i_rt w \<in> {0, 1, 16, 17}"
  shows "same_step m (exec (Decode w) m) (i_bcond w xpc (xpc + 8) st)"
proof -
  note d = Decode_fields Decode_bcond [OF op]
  have n4: "next4 m = xpc + 8" using pc by (simp add: next4_def)
  let ?l = "set_reg RetAddrReg (xpc + 8) m" and ?k = "i_set 31 (xpc + 8) st"
  have ag1: "agree ?l ?k" using ag(1) by (simp add: agree_set)
  have len: "length (iReg st) = 32" "length (registers m) = NumTotalRegs" using ag(1) by (simp_all add: agree_def)
  have r: "i_reg st (i_rs w) = reg m (i_rs w)" "i_reg ?k (i_rs w) = reg ?l (i_rs w)"
    using agree_reg [OF ag fields_less(1)] agree_reg [OF ag1 _ _ fields_less(1)] ag(2,3) len by (simp_all add: i_reg_def i_set_def)
  show ?thesis using sh
    by (auto simp: exec_parts d i_bcond_def Let_def n4 r sign_bit not_le
        intro!: same_step_branch [OF ag(1) _ _ _ pc] same_step_branch [OF ag1 _ _ _ pc])
qed

lemma immediate_agrees:
  assumes ag: "agree m st" "reg m 0 = 0" "i_reg st 0 = 0" and pc: "reg m NextPCReg = xpc + 4"
    and op: "bits_of w 26 0x3f = op" and sh: "shared_immediate op w xpc m"
  shows "\<exists>y. i_immediate op w xpc (xpc + 8) st = Some y \<and> same_step m (exec (Decode w) m) y"
proof -
  note d = Decode_fields Decode_immediate [OF op] Decode_jump [OF op]
  note r = agree_reg [OF ag] fields_less
  have n4: "next4 m = xpc + 8" using pc by (simp add: next4_def)
  note steps = same_step_put [OF ag(1)] same_step_branch [OF ag(1) _ _ _ pc] same_step_goto ag(1)
  have lui: "push_bit 16 (immed w) = push_bit 16 w"
  proof (rule bit_word_eqI)
    fix n assume "n < LENGTH(32)"
    then have "n - 16 < 15 \<or> n - 16 = 15" by auto
    then show "bit (push_bit 16 (immed w)) n = bit (push_bit 16 w) n" by (auto simp: bit_simps bit_immed)
  qed
  have link: "agree (set_reg RetAddrReg (xpc + 8) m) (i_set 31 (xpc + 8) st)" using agree_set [OF ag(1)] by simp
  note ov = overflow_iff(1) [of "immed w" "reg m (i_rs w)"]
  show ?thesis using sh unfolding shared_immediate_def
    by (elim disjE conjE)
      (auto simp: exec_parts d opTable_def i_immediate_def r n4 steps lui link i_flag_def immed_nonneg IndexToAddr_def Let_def
        ov [unfolded add.commute [of "immed w"] add.commute [of "sint (immed w)"] xor.commute [of "immed w" "reg m (i_rs w)"]])
qed

text \<open>On every shared instruction the two simulators do the same.\<close>

lemma execute_agrees:
  assumes "agree m st" "reg m 0 = 0" "i_reg st 0 = 0" "reg m NextPCReg = xpc + 4" "shared w xpc m"
  shows "same_step m (exec (Decode w) m) (i_execute w xpc (xpc + 8) st)"
proof -
  consider "bits_of w 26 0x3f = 0" | "bits_of w 26 0x3f = 1" | "bits_of w 26 0x3f \<noteq> 0" "bits_of w 26 0x3f \<noteq> 1" by blast
  then show ?thesis
  proof cases
    case 1
    then show ?thesis using special_agrees [OF assms(1-4)] assms(5) by (simp add: shared_def i_execute_def)
  next
    case 2
    then show ?thesis using bcond_agrees [OF assms(1-4)] assms(5) by (simp add: shared_def i_execute_def)
  next
    case 3
    then have "shared_immediate (bits_of w 26 0x3f) w xpc m" using assms(5) by (simp add: shared_def Let_def)
    from immediate_agrees [OF assms(1-4) refl this] obtain y where
      "i_immediate (bits_of w 26 0x3f) w xpc (xpc + 8) st = Some y" "same_step m (exec (Decode w) m) y" by blast
    then show ?thesis using 3 by (simp add: i_execute_def Let_def)
  qed
qed

text \<open>
  A whole round: the instruction is fetched, executed, and the program counters move on.  In a delay slot the two compute branches from
  different addresses, and a load that is still pending would reach its register at the end of the round of the simulator only.
\<close>

lemma agree_upd:
  "agree m st \<Longrightarrow> length xs = NumTotalRegs \<Longrightarrow> (\<And>r. 0 < r \<Longrightarrow> r \<le> LoReg \<Longrightarrow> xs ! r = reg m r) \<Longrightarrow> agree (m\<lparr>registers := xs\<rparr>) st"
  by (simp add: agree_def)

lemma finish_agrees:
  assumes "agree m st" "reg m LoadReg = 0" "reg m NextPCReg = xpc"
  shows "\<exists>m'. finish m pc 0 0 = Inr m' \<and> agree m' st \<and> reg m' PCReg = xpc \<and> reg m' NextPCReg = pc \<and> reg m' LoadReg = 0"
proof -
  have len: "length (registers m) = NumTotalRegs" using assms(1) by (simp add: agree_def)
  then show ?thesis using assms
    by (auto simp: finish_def DelayedLoad_def set_reg_def Let_def intro!: agree_upd [OF assms(1)])
qed

lemma agree_zero: "agree m st \<Longrightarrow> agree m (i_set 0 v st)"
  by (auto simp: agree_def i_reg_def i_set_def)

lemma round_agrees:
  assumes m: "cpu_ok m" "agree m st" "reg m PCReg = xpc" "reg m NextPCReg = xpc + 4" "reg m LoadReg = 0"
    and w: "ReadMem xpc 4 m = Inr (Inr w, m1)" "fetch xpc st = Inr w" "shared w xpc m"
  shows "\<exists>m' st' npc. OneInstruction h m = Inr m' \<and> i_round xpc (xpc + 4) st = Inr (xpc + 4, Next st' npc) \<and> agree m' st' \<and>
    reg m' PCReg = xpc + 4 \<and> reg m' NextPCReg = npc \<and> reg m' LoadReg = 0"
proof -
  let ?st = "i_set 0 0 st"
  have r1: "registers m1 = registers m" using ReadMem_safe [of m 4 xpc] m(1) w(1) by (auto simp: cpu_ok_def)
  have len: "length (iReg st) = 32" using m(2) by (simp add: agree_def)
  have a1: "agree m1 ?st" using agree_zero [OF m(2), of 0] r1 by (simp add: agree_def)
  have z: "reg m1 0 = 0" "i_reg ?st 0 = 0" "reg m1 NextPCReg = xpc + 4"
    using m(1,4) r1 len by (simp_all add: cpu_ok_def i_reg_def i_set_def)
  have sh: "shared w xpc m1" using w(3) unfolding shared_def shared_special_def shared_immediate_def r1 .
  obtain m2 pc st' where x: "exec (Decode w) m1 = Inr (Cont m2 pc 0 0)" "i_execute w xpc (xpc + 8) ?st = Inr (Next st' pc)" "agree m2 st'"
    "control_kept m1 m2"
    using execute_agrees [OF a1 z sh] by (auto simp: same_step_def)
  have c: "reg m2 LoadReg = 0" "reg m2 NextPCReg = xpc + 4" using x(4) m(4,5) r1 by (simp_all add: control_kept_def)
  obtain m3 where f: "finish m2 pc 0 0 = Inr m3" "agree m3 st'" "reg m3 PCReg = xpc + 4" "reg m3 NextPCReg = pc" "reg m3 LoadReg = 0"
    using finish_agrees [OF x(3) c] by blast
  have o: "OneInstruction h m = Inr m3"
    using m(3) w(1) x(1) f(1) by (simp add: OneInstruction_def fetch_execute_def)
  show ?thesis
  proof (cases "w = 0")
    case False
    then have "i_round xpc (xpc + 4) st = Inr (xpc + 4, Next st' pc)" using w(2) x(2) by (simp add: i_round_def add.assoc)
    then show ?thesis using o f by blast
  next
    case True
    have s: "st' = i_set 0 (i_reg ?st 0) ?st" "pc = xpc + 8"
      using x(2) unfolding True by (auto simp: i_execute_def i_special_def bits_of_def i_rd_def i_rt_def i_shamt_def Let_def)
    have "agree m3 ?st" using agree_zero [OF f(2), of 0] unfolding s by (simp add: i_set_def)
    moreover have "i_round xpc (xpc + 4) st = Inr (xpc + 4, Next ?st (xpc + 8))" using w(2) True by (simp add: i_round_def)
    ultimately show ?thesis using o f(3-5) s(2) by blast
  qed
qed

section \<open>What the interpreter gets wrong\<close>

text \<open>The high word of a product misses the carry of the lower parts; \<open>Mult\<close> of \<open>mipssim\<close> is exact.\<close>

lemma multu_differs: "i_multu 0xffffffff 0xffffffff \<noteq> Mult 0xffffffff 0xffffffff False"
  by code_simp

section \<open>The logarithm\<close>

text \<open>
  After the step for \<open>2 ^ k\<close>, the bits that are left have the same position as the highest one, \<open>h\<close>, up to the lower \<open>k\<close> bits
  of the position, and the second component has counted the other part of \<open>h\<close>.
\<close>

definition ilog2_inv :: "nat \<Rightarrow> nat \<Rightarrow> 32 word \<times> nat \<Rightarrow> bool" where
  "ilog2_inv h k p \<longleftrightarrow> bit (fst p) h \<and> (\<forall>n. bit (fst p) n \<longrightarrow> n \<le> h \<and> n div 2 ^ k = h div 2 ^ k) \<and> snd p = 1 + h div 2 ^ k * 2 ^ k"

lemma div_power_Suc: "(x :: nat) div 2 ^ Suc k = x div 2 ^ k div 2"
  by (metis div_mult2_eq mult.commute power_Suc)

lemma same_half:
  fixes a b :: nat
  assumes "a div 2 = b div 2"
  shows "odd a = odd b \<Longrightarrow> a = b" "a \<le> b \<Longrightarrow> even b \<Longrightarrow> even a"
  using assms by presburger+

lemma two_halves: "odd (x :: nat) \<Longrightarrow> x = x div 2 * 2 + 1" "even x \<Longrightarrow> x = x div 2 * 2"
  by presburger+

lemma ilog2_inv_step:
  assumes inv: "ilog2_inv h k' p" and m: "\<forall>n < 32. bit m n \<longleftrightarrow> odd (n div 2 ^ k)" and k: "k' = Suc k" "c = 2 ^ k"
  shows "ilog2_inv h k (ilog2_step m c p)"
proof -
  obtain i l where p: "p = (i, l)" by (cases p)
  have i: "bit i h" "\<And>n. bit i n \<Longrightarrow> n \<le> h \<and> n div 2 ^ Suc k = h div 2 ^ Suc k" "l = 1 + h div 2 ^ Suc k * 2 ^ Suc k"
    using inv unfolding k ilog2_inv_def p fst_conv snd_conv by blast+
  have lt: "n < 32" if "bit i n" for n using bit_imp_le_length [OF that] by simp
  have same: "n div 2 ^ k = h div 2 ^ k" if "bit i n" "odd (n div 2 ^ k) = odd (h div 2 ^ k)" for n
    using same_half(1) [of "n div 2 ^ k" "h div 2 ^ k"] i(2) [OF that(1), unfolded div_power_Suc] that(2) by blast
  show ?thesis
  proof (cases "odd (h div 2 ^ k)")
    case True
    then have "bit (i AND m) h" using i(1) m lt by (simp add: bit_and_iff)
    then have "i AND m \<noteq> 0" by auto
    moreover have "h div 2 ^ k * 2 ^ k = h div 2 ^ Suc k * 2 ^ Suc k + 2 ^ k"
    proof -
      have "h div 2 ^ k = h div 2 ^ Suc k * 2 + 1" using True unfolding div_power_Suc by (rule two_halves(1))
      then show ?thesis by (simp only: distrib_right power_Suc mult.assoc mult_1)
    qed
    ultimately have st: "ilog2_step m c p = (i AND m, 1 + h div 2 ^ k * 2 ^ k)" using i(3) k(2) by (simp add: ilog2_step_def p)
    have "n \<le> h \<and> n div 2 ^ k = h div 2 ^ k" if "bit (i AND m) n" for n
    proof -
      have "bit i n" "odd (n div 2 ^ k)" using that m lt by (auto simp: bit_and_iff)
      then show ?thesis using same True i(2) by blast
    qed
    then show ?thesis unfolding st ilog2_inv_def fst_conv snd_conv using \<open>bit (i AND m) h\<close> by blast
  next
    case False
    have "i AND m = 0"
    proof (rule bit_word_eqI)
      fix n
      have "n div 2 ^ k \<le> h div 2 ^ k" if "bit i n" using i(2) [OF that] by (simp add: div_le_mono)
      then have "\<not> odd (n div 2 ^ k)" if "bit i n"
        using same_half(2) [of "n div 2 ^ k" "h div 2 ^ k"] i(2) [OF that, unfolded div_power_Suc] False that by blast
      then show "bit (i AND m) n = bit 0 n" using m lt by (auto simp: bit_and_iff)
    qed
    then have st: "ilog2_step m c p = (i, l)" by (simp add: ilog2_step_def p)
    have "h div 2 ^ k * 2 ^ k = h div 2 ^ Suc k * 2 ^ Suc k"
    proof -
      have "h div 2 ^ k = h div 2 ^ Suc k * 2" using two_halves(2) [of "h div 2 ^ k"] False unfolding div_power_Suc by blast
      then show ?thesis by (simp only: power_Suc mult.assoc)
    qed
    moreover have "n div 2 ^ k = h div 2 ^ k" if "bit i n" for n
    proof (rule same [OF that])
      have "\<not> bit (i AND m) n" using \<open>i AND m = 0\<close> by simp
      then show "odd (n div 2 ^ k) = odd (h div 2 ^ k)" using that m lt False by (auto simp: bit_and_iff)
    qed
    ultimately show ?thesis unfolding st ilog2_inv_def fst_conv snd_conv using i by metis
  qed
qed

lemma ilog2_masks:
  "\<forall>n < 32. bit (0xffff0000 :: 32 word) n \<longleftrightarrow> odd (n div 2 ^ 4)" "\<forall>n < 32. bit (0xff00ff00 :: 32 word) n \<longleftrightarrow> odd (n div 2 ^ 3)"
  "\<forall>n < 32. bit (0xf0f0f0f0 :: 32 word) n \<longleftrightarrow> odd (n div 2 ^ 2)" "\<forall>n < 32. bit (0xcccccccc :: 32 word) n \<longleftrightarrow> odd (n div 2 ^ 1)"
  "\<forall>n < 32. bit (0xaaaaaaaa :: 32 word) n \<longleftrightarrow> odd (n div 2 ^ 0)"
  unfolding atLeast0LessThan [symmetric] by code_simp+

text \<open>\<open>ilog2\<close> is the length of a number in binary.  (The table in the comment of the source has other values.)\<close>

lemma ilog2_correct:
  assumes "bit i h" "\<forall>n > h. \<not> bit (i :: 32 word) n"
  shows "ilog2 i = h + 1"
proof -
  have h: "h < 32" using bit_imp_le_length [OF assms(1)] by simp
  have "ilog2_inv h 5 (i, 1)"
  proof -
    have "n \<le> h \<and> n < 32" if "bit i n" for n using assms(2) bit_imp_le_length [OF that] that by (auto simp: not_less [symmetric])
    then show ?thesis using assms(1) h by (auto simp: ilog2_inv_def)
  qed
  from ilog2_inv_step [OF this ilog2_masks(1)] have "ilog2_inv h 4 (ilog2_step 0xffff0000 16 (i, 1))" by simp
  from ilog2_inv_step [OF this ilog2_masks(2)] have "ilog2_inv h 3 (ilog2_step 0xff00ff00 8 (ilog2_step 0xffff0000 16 (i, 1)))" by simp
  from ilog2_inv_step [OF this ilog2_masks(3)]
  have "ilog2_inv h 2 (ilog2_step 0xf0f0f0f0 4 (ilog2_step 0xff00ff00 8 (ilog2_step 0xffff0000 16 (i, 1))))" by simp
  from ilog2_inv_step [OF this ilog2_masks(4)]
  have "ilog2_inv h 1 (ilog2_step 0xcccccccc 2 (ilog2_step 0xf0f0f0f0 4 (ilog2_step 0xff00ff00 8 (ilog2_step 0xffff0000 16 (i, 1)))))" by simp
  from ilog2_inv_step [OF this ilog2_masks(5)]
  have "snd (ilog2_step 0xaaaaaaaa 1 (ilog2_step 0xcccccccc 2 (ilog2_step 0xf0f0f0f0 4 (ilog2_step 0xff00ff00 8 (ilog2_step 0xffff0000 16 (i, 1)))))) = h + 1"
    by (simp add: ilog2_inv_def)
  moreover have "i \<noteq> 0" using assms(1) by auto
  ultimately show ?thesis by (simp add: ilog2_def)
qed

end
