(* ===== verification/Nachos_Stacks.thy ===== *)
theory Nachos_Stacks
  imports Nachos_List
begin

text \<open>
  The stacks of \<open>c++example/\<close>.  The abstract class \<open>Stack\<close> of \<open>inheritstack.h\<close> is a locale: its virtual functions are
  the operations, and its laws say that they behave like those of a sequence with its top in front.  \<open>ArrayStack\<close>, an array
  of fixed size, and \<open>ListStack\<close>, on the linked list of \<open>list.cc\<close>, are its interpretations.  \<open>SelfTest\<close> is written against the
  abstract class and is proved against the laws.  \<open>Stack<T>\<close> of \<open>templatestack.cc\<close> has the text of \<open>ArrayStack\<close> at the type \<open>T\<close>,
  and \<open>Stack\<close> of \<open>stack.cc\<close> at \<open>int\<close>; their \<open>SelfTest\<close> fills the whole array.
\<close>

section \<open>The array stack\<close>

record 'a ArrayStack =
  stk_size :: int
  stk_top :: int
  stk_array :: "'a list"

text \<open>\<open>new int[size]\<close> is memory with arbitrary contents, \<open>raw\<close>.\<close>

definition ArrayStack_new :: "(nat \<Rightarrow> 'a) \<Rightarrow> int \<Rightarrow> 'a ArrayStack res" where
  "ArrayStack_new raw sz = ASSERT (sz \<ge> 1) (Inr \<lparr>stk_size = sz, stk_top = 0, stk_array = map raw [0..<nat sz]\<rparr>)"

definition ArrayStack_Full :: "'a ArrayStack \<Rightarrow> bool" where
  "ArrayStack_Full s \<longleftrightarrow> stk_top s = stk_size s"

definition ArrayStack_Empty :: "'a ArrayStack \<Rightarrow> bool" where
  "ArrayStack_Empty s \<longleftrightarrow> stk_top s = 0"

definition ArrayStack_Push :: "'a \<Rightarrow> 'a ArrayStack \<Rightarrow> 'a ArrayStack res" where
  "ArrayStack_Push v s = ASSERT (\<not> ArrayStack_Full s)
     (rbind (array_set (stk_array s) (stk_top s) v) (\<lambda>a. Inr (s\<lparr>stk_array := a, stk_top := stk_top s + 1\<rparr>)))"

definition ArrayStack_Pop :: "'a ArrayStack \<Rightarrow> ('a \<times> 'a ArrayStack) res" where
  "ArrayStack_Pop s = ASSERT (\<not> ArrayStack_Empty s)
     (rbind (array_get (stk_array s) (stk_top s - 1)) (\<lambda>v. Inr (v, s\<lparr>stk_top := stk_top s - 1\<rparr>)))"

section \<open>The list of integers\<close>

text \<open>\<open>list.cc\<close> on the cells of \<open>Nachos_List\<close>; its elements have no key, which stays 0.\<close>

definition IntList_Empty :: "'a List_t \<Rightarrow> bool" where
  "IntList_Empty l \<longleftrightarrow> first_ptr l = None"

definition IntList_Prepend :: "'a \<Rightarrow> 'a List_t \<Rightarrow> 'a List_t res" where
  "IntList_Prepend v l =
     (let (element, l1) = new_element v 0 l in
      if IntList_Empty l1 then Inr (l1\<lparr>first_ptr := Some element, last_ptr := Some element\<rparr>)
      else rbind (set_next (Some element) (first_ptr l1) l1) (\<lambda>l2. Inr (l2\<lparr>first_ptr := Some element\<rparr>)))"

definition IntList_Remove :: "'a List_t \<Rightarrow> ('a \<times> 'a List_t) res" where
  "IntList_Remove l = ASSERT (\<not> IntList_Empty l) (rbind (deref l (first_ptr l)) (\<lambda>element.
     let l1 = (if first_ptr l = last_ptr l then l\<lparr>first_ptr := None, last_ptr := None\<rparr> else l\<lparr>first_ptr := next_ptr element\<rparr>)
     in Inr (item element, l1\<lparr>elements := (elements l1)(the (first_ptr l) := None)\<rparr>)))"

fun IntList_destroy :: "nat \<Rightarrow> 'a List_t \<Rightarrow> 'a List_t res" where
  "IntList_destroy 0 l = Inl Diverges"
| "IntList_destroy (Suc fuel) l = (if IntList_Empty l then Inr l else rbind (IntList_Remove l) (\<lambda>(_, l1). IntList_destroy fuel l1))"

section \<open>The list stack\<close>

definition ListStack_new :: "'a List_t" where
  "ListStack_new = List_new"

definition ListStack_Push :: "'a \<Rightarrow> 'a List_t \<Rightarrow> 'a List_t res" where
  "ListStack_Push v s = IntList_Prepend v s"

definition ListStack_Full :: "'a List_t \<Rightarrow> bool" where
  "ListStack_Full s \<longleftrightarrow> False"

definition ListStack_Empty :: "'a List_t \<Rightarrow> bool" where
  "ListStack_Empty s \<longleftrightarrow> IntList_Empty s"

definition ListStack_Pop :: "'a List_t \<Rightarrow> ('a \<times> 'a List_t) res" where
  "ListStack_Pop s = ASSERT (\<not> ListStack_Empty s) (IntList_Remove s)"

section \<open>The self test\<close>

datatype 'a stack_out = Pushing 'a | Popping 'a

text \<open>The loop \<open>while (!Empty())\<close>; the fuel of the two loops with \<open>while\<close> is an argument.\<close>

fun pop_loop :: "('s \<Rightarrow> ('a \<times> 's) res) \<Rightarrow> ('s \<Rightarrow> bool) \<Rightarrow> nat \<Rightarrow> 's \<Rightarrow> ('a stack_out list \<times> 's) res" where
  "pop_loop pop emp 0 s = Inl Diverges"
| "pop_loop pop emp (Suc fuel) s = (if emp s then Inr ([], s) else
     rbind (pop s) (\<lambda>(v, s1). rbind (pop_loop pop emp fuel s1) (\<lambda>(out, s2). Inr (Popping v # out, s2))))"

text \<open>The \<open>for\<close> loop of \<open>inheritstack.cc\<close>, \<open>n\<close> rounds, with the virtual functions as arguments.\<close>

fun test_push :: "(32 word \<Rightarrow> 's \<Rightarrow> 's res) \<Rightarrow> ('s \<Rightarrow> bool) \<Rightarrow> nat \<Rightarrow> 32 word \<Rightarrow> 's \<Rightarrow> (32 word stack_out list \<times> 's) res" where
  "test_push push full 0 c0 s = Inr ([], s)"
| "test_push push full (Suc n) c0 s = ASSERT (\<not> full s) (rbind (push c0 s) (\<lambda>s1.
     rbind (test_push push full n (c0 + 1) s1) (\<lambda>(out, s2). Inr (Pushing c0 # out, s2))))"

definition Stack_SelfTest :: "(32 word \<Rightarrow> 's \<Rightarrow> 's res) \<Rightarrow> ('s \<Rightarrow> (32 word \<times> 's) res) \<Rightarrow> ('s \<Rightarrow> bool) \<Rightarrow> ('s \<Rightarrow> bool) \<Rightarrow>
    nat \<Rightarrow> int \<Rightarrow> 's \<Rightarrow> (32 word stack_out list \<times> 's) res" where
  "Stack_SelfTest push pop full emp fuel numToPush s = rbind (test_push push full (nat numToPush) 17 s) (\<lambda>(out1, s1).
     rbind (pop_loop pop emp fuel s1) (\<lambda>(out2, s2). Inr (out1 @ out2, s2)))"

text \<open>\<open>main\<close> of \<open>inheritstack.cc\<close>, with the lines that each test prints.\<close>

definition inherit_main :: "nat \<Rightarrow> (nat \<Rightarrow> 32 word) \<Rightarrow> (32 word stack_out list \<times> 32 word stack_out list \<times> 32 word List_t) res" where
  "inherit_main fuel raw = rbind (ArrayStack_new raw 10) (\<lambda>s1.
     rbind (Stack_SelfTest ArrayStack_Push ArrayStack_Pop ArrayStack_Full ArrayStack_Empty fuel 10 s1) (\<lambda>(out1, _).
     rbind (Stack_SelfTest ListStack_Push ListStack_Pop ListStack_Full ListStack_Empty fuel 10 ListStack_new) (\<lambda>(out2, s2).
     rbind (IntList_destroy fuel s2) (\<lambda>s3. Inr (out1, out2, s3)))))"

text \<open>\<open>SelfTest\<close> of \<open>templatestack.cc\<close>, with \<open>count++\<close> of the type \<open>T\<close> as an argument: push while there is room.\<close>

fun fill_loop :: "('a \<Rightarrow> 'a) \<Rightarrow> nat \<Rightarrow> 'a \<Rightarrow> 'a ArrayStack \<Rightarrow> ('a stack_out list \<times> 'a ArrayStack) res" where
  "fill_loop inc 0 c0 s = Inl Diverges"
| "fill_loop inc (Suc fuel) c0 s = (if ArrayStack_Full s then Inr ([], s) else
     rbind (ArrayStack_Push c0 s) (\<lambda>s1. rbind (fill_loop inc fuel (inc c0) s1) (\<lambda>(out, s2). Inr (Pushing c0 # out, s2))))"

definition template_SelfTest :: "('a \<Rightarrow> 'a) \<Rightarrow> nat \<Rightarrow> 'a \<Rightarrow> 'a ArrayStack \<Rightarrow> ('a stack_out list \<times> 'a ArrayStack) res" where
  "template_SelfTest inc fuel start s = rbind (fill_loop inc fuel start s) (\<lambda>(out1, s1).
     rbind (pop_loop ArrayStack_Pop ArrayStack_Empty fuel s1) (\<lambda>(out2, s2). Inr (out1 @ out2, s2)))"

definition template_main :: "nat \<Rightarrow> (nat \<Rightarrow> 32 word) \<Rightarrow> (nat \<Rightarrow> byte) \<Rightarrow> (32 word stack_out list \<times> byte stack_out list) res" where
  "template_main fuel raw1 raw2 = rbind (ArrayStack_new raw1 10) (\<lambda>s1. rbind (ArrayStack_new raw2 10) (\<lambda>s2.
     rbind (template_SelfTest (\<lambda>x. x + 1) fuel 17 s1) (\<lambda>(out1, _).
     rbind (template_SelfTest (\<lambda>x. x + 1) fuel 97 s2) (\<lambda>(out2, _). Inr (out1, out2)))))"

text \<open>\<open>main\<close> and \<open>SelfTest\<close> of \<open>stack.cc\<close>.\<close>

definition stack_main :: "nat \<Rightarrow> (nat \<Rightarrow> 32 word) \<Rightarrow> 32 word stack_out list res" where
  "stack_main fuel raw = rbind (ArrayStack_new raw 10) (\<lambda>s. rbind (template_SelfTest (\<lambda>x. x + 1) fuel 17 s) (\<lambda>(out, _). Inr out))"

section \<open>The abstract class\<close>

text \<open>\<open>holds s vs\<close>: the stack \<open>s\<close> has the elements \<open>vs\<close>, the top first; \<open>cap\<close> is its capacity, if it has one.\<close>

locale stack_class =
  fixes push :: "'a \<Rightarrow> 's \<Rightarrow> 's res"
    and pop :: "'s \<Rightarrow> ('a \<times> 's) res"
    and full :: "'s \<Rightarrow> bool"
    and emp :: "'s \<Rightarrow> bool"
    and holds :: "'s \<Rightarrow> 'a list \<Rightarrow> bool"
    and cap :: "'s \<Rightarrow> nat option"
  assumes full_law: "holds s vs \<Longrightarrow> full s \<longleftrightarrow> cap s = Some (length vs)"
    and empty_law: "holds s vs \<Longrightarrow> emp s \<longleftrightarrow> vs = []"
    and push_law: "holds s vs \<Longrightarrow> \<not> full s \<Longrightarrow> \<exists>s'. push v s = Inr s' \<and> holds s' (v # vs) \<and> cap s' = cap s"
    and push_full: "holds s vs \<Longrightarrow> full s \<Longrightarrow> push v s = Inl Abort"
    and pop_law: "holds s (v # vs) \<Longrightarrow> \<exists>s'. pop s = Inr (v, s') \<and> holds s' vs \<and> cap s' = cap s"
    and pop_empty: "holds s [] \<Longrightarrow> pop s = Inl Abort"
begin

lemma pop_loop_ok: "holds s vs \<Longrightarrow> length vs < fuel \<Longrightarrow> \<exists>s'. pop_loop pop emp fuel s = Inr (map Popping vs, s') \<and> holds s' []"
proof (induction vs arbitrary: s fuel)
  case Nil
  then show ?case by (cases fuel) (auto simp: empty_law)
next
  case (Cons v vs)
  obtain f where f: "fuel = Suc f" "length vs < f" using Cons.prems(2) by (cases fuel) auto
  obtain s1 where s1: "pop s = Inr (v, s1)" "holds s1 vs" using pop_law [OF Cons.prems(1)] by blast
  with f show ?case using Cons.IH [OF s1(2) f(2)] empty_law [OF Cons.prems(1)] by auto
qed

end

text \<open>For \<open>SelfTest\<close>, the elements are integers.\<close>

locale int_stack_class = stack_class push pop full emp holds cap
  for push :: "32 word \<Rightarrow> 's \<Rightarrow> 's res" and pop and full and emp and holds and cap
begin

lemma test_push_ok:
  "holds s vs \<Longrightarrow> (\<And>c. cap s = Some c \<Longrightarrow> length vs + n \<le> c) \<Longrightarrow> cs = map (\<lambda>i. c0 + of_nat i) [0..<n] \<Longrightarrow>
    \<exists>s'. test_push push full n c0 s = Inr (map Pushing cs, s') \<and> holds s' (rev cs @ vs) \<and> cap s' = cap s"
proof (induction n arbitrary: s vs c0 cs)
  case (Suc n)
  have nf: "\<not> full s" using full_law [OF Suc.prems(1)] Suc.prems(2) by fastforce
  then obtain s1 where s1: "push c0 s = Inr s1" "holds s1 (c0 # vs)" "cap s1 = cap s" using push_law [OF Suc.prems(1)] by blast
  let ?cs = "map (\<lambda>i. c0 + 1 + of_nat i) [0..<n]"
  have cs: "cs = c0 # ?cs" using Suc.prems(3) by (simp add: upt_conv_Cons map_Suc_upt [symmetric] del: upt_Suc)
  have "\<exists>s'. test_push push full n (c0 + 1) s1 = Inr (map Pushing ?cs, s') \<and> holds s' (rev ?cs @ c0 # vs) \<and> cap s' = cap s1"
    using Suc.prems(2) s1(3) by (intro Suc.IH s1(2)) fastforce+
  then show ?case using nf s1 cs by auto
qed auto

theorem SelfTest_ok:
  assumes "holds s vs" "\<And>c. cap s = Some c \<Longrightarrow> length vs + n \<le> c" "length vs + n < fuel" "cs = map (\<lambda>i. 17 + of_nat i) [0..<n]"
  shows "\<exists>s'. Stack_SelfTest push pop full emp fuel (int n) s = Inr (map Pushing cs @ map Popping (rev cs @ vs), s') \<and> holds s' []"
proof -
  obtain s1 where s1: "test_push push full n 17 s = Inr (map Pushing cs, s1)" "holds s1 (rev cs @ vs)"
    using test_push_ok [OF assms(1,2,4)] by blast
  have "length (rev cs @ vs) < fuel" using assms(3,4) by simp
  from pop_loop_ok [OF s1(2) this] obtain s2 where "pop_loop pop emp fuel s1 = Inr (map Popping (rev cs @ vs), s2)" "holds s2 []" by blast
  then show ?thesis using s1(1) by (simp add: Stack_SelfTest_def)
qed

text \<open>A stack that is too small makes the test abort.\<close>

theorem SelfTest_aborts:
  assumes "holds s vs" "cap s = Some c" "length vs \<le> c" "c < length vs + n"
  shows "Stack_SelfTest push pop full emp fuel (int n) s = Inl Abort"
proof -
  have "test_push push full n c0 s = Inl Abort" if "holds s vs" "cap s = Some c" "length vs \<le> c" "c < length vs + n" for c0 s vs
    using that
  proof (induction n arbitrary: s vs c0)
    case (Suc n)
    show ?case
    proof (cases "full s")
      case False
      then obtain s1 where "push c0 s = Inr s1" "holds s1 (c0 # vs)" "cap s1 = Some c" using push_law [OF Suc.prems(1)] Suc.prems(2) by metis
      moreover have "length vs \<noteq> c" using False full_law [OF Suc.prems(1)] Suc.prems(2) by auto
      ultimately show ?thesis using False Suc.IH [of s1 "c0 # vs"] Suc.prems(3,4) by simp
    qed simp
  qed auto
  then show ?thesis using assms by (simp add: Stack_SelfTest_def)
qed

end

section \<open>The two implementations\<close>

definition arr_holds :: "'a ArrayStack \<Rightarrow> 'a list \<Rightarrow> bool" where
  "arr_holds s vs \<longleftrightarrow> stk_top s = int (length vs) \<and> stk_top s \<le> stk_size s \<and> stk_size s = int (length (stk_array s)) \<and>
     take (length vs) (stk_array s) = rev vs"

definition arr_cap :: "'a ArrayStack \<Rightarrow> nat option" where
  "arr_cap s = Some (nat (stk_size s))"

lemma ArrayStack_new_ok: "ArrayStack_new raw sz = (if sz \<ge> 1 then Inr \<lparr>stk_size = sz, stk_top = 0, stk_array = map raw [0..<nat sz]\<rparr> else Inl Abort)"
  "sz \<ge> 1 \<Longrightarrow> arr_holds \<lparr>stk_size = sz, stk_top = 0, stk_array = map raw [0..<nat sz]\<rparr> []"
  by (simp_all add: ArrayStack_new_def arr_holds_def)

interpretation arr: stack_class ArrayStack_Push ArrayStack_Pop ArrayStack_Full ArrayStack_Empty arr_holds arr_cap
proof
  fix s :: "'a ArrayStack" and vs v
  assume h: "arr_holds s vs"
  show "ArrayStack_Full s \<longleftrightarrow> arr_cap s = Some (length vs)" "ArrayStack_Empty s \<longleftrightarrow> vs = []"
    using h by (auto simp: arr_holds_def arr_cap_def ArrayStack_Full_def ArrayStack_Empty_def)
  show "ArrayStack_Push v s = Inl Abort" if "ArrayStack_Full s" using that by (simp add: ArrayStack_Push_def)
  assume "\<not> ArrayStack_Full s"
  then have lt: "length vs < length (stk_array s)" using h by (auto simp: arr_holds_def ArrayStack_Full_def)
  then have "take (Suc (length vs)) ((stk_array s)[length vs := v]) = rev (v # vs)"
    using h by (simp add: take_Suc_conv_app_nth arr_holds_def)
  then show "\<exists>s'. ArrayStack_Push v s = Inr s' \<and> arr_holds s' (v # vs) \<and> arr_cap s' = arr_cap s"
    using h lt \<open>\<not> ArrayStack_Full s\<close> by (auto simp: ArrayStack_Push_def arr_holds_def arr_cap_def)
next
  fix s :: "'a ArrayStack" and vs v
  assume h: "arr_holds s (v # vs)"
  then have lt: "length vs < length (stk_array s)" by (simp add: arr_holds_def)
  then have "take (length vs) (stk_array s) = rev vs \<and> stk_array s ! length vs = v"
    using h by (simp add: take_Suc_conv_app_nth arr_holds_def)
  then show "\<exists>s'. ArrayStack_Pop s = Inr (v, s') \<and> arr_holds s' vs \<and> arr_cap s' = arr_cap s"
    using h lt by (auto simp: ArrayStack_Pop_def ArrayStack_Empty_def arr_holds_def arr_cap_def)
next
  show "ArrayStack_Pop s = Inl Abort" if "arr_holds s []" for s :: "'a ArrayStack"
    using that by (simp add: ArrayStack_Pop_def ArrayStack_Empty_def arr_holds_def)
qed

definition lst_holds :: "'a List_t \<Rightarrow> 'a list \<Rightarrow> bool" where
  "lst_holds l vs \<longleftrightarrow> represents l (map (Pair 0) vs)"

lemma IntList_as_list:
  "IntList_Empty = IsEmpty" "IntList_Prepend = Prepend"
  "IntList_Remove l = ASSERT (\<not> IsEmpty l) (rbind (SortedRemove l) (\<lambda>(r, l1). Inr (snd (the r), l1)))"
proof -
  show e: "IntList_Empty = IsEmpty" by (rule ext) (simp add: IntList_Empty_def IsEmpty_def)
  show "IntList_Prepend = Prepend" by (intro ext) (simp add: IntList_Prepend_def Prepend_def e)
  show "IntList_Remove l = ASSERT (\<not> IsEmpty l) (rbind (SortedRemove l) (\<lambda>(r, l1). Inr (snd (the r), l1)))"
    by (cases "deref l (first_ptr l)") (auto simp: IntList_Remove_def SortedRemove_def e ASSERT_def Let_def)
qed

lemma IntList_Remove_ok: "lst_holds l (v # vs) \<Longrightarrow> \<exists>l'. IntList_Remove l = Inr (v, l') \<and> lst_holds l' vs"
  using SortedRemove_refines [of l "(0, v) # map (Pair 0) vs"] IsEmpty_represents [of l] by (auto simp: lst_holds_def IntList_as_list(3))

interpretation lst: stack_class ListStack_Push ListStack_Pop ListStack_Full ListStack_Empty lst_holds "\<lambda>_. None"
proof
  fix s :: "'a List_t" and vs v
  assume h: "lst_holds s vs"
  then show "ListStack_Empty s \<longleftrightarrow> vs = []" using IsEmpty_represents [of s] by (auto simp: lst_holds_def ListStack_Empty_def IntList_as_list(1))
  show "\<exists>s'. ListStack_Push v s = Inr s' \<and> lst_holds s' (v # vs) \<and> None = None"
    using Prepend_refines h by (auto simp: lst_holds_def ListStack_Push_def IntList_as_list(2) l_prepend_def)
  show "ListStack_Full s \<longleftrightarrow> None = Some (length vs)" by (simp add: ListStack_Full_def)
  show "ListStack_Push v s = Inl Abort" if "ListStack_Full s" using that by (simp add: ListStack_Full_def)
next
  fix s :: "'a List_t" and vs v
  assume h: "lst_holds s (v # vs)"
  then have "\<not> ListStack_Empty s" using IsEmpty_represents [of s] by (auto simp: lst_holds_def ListStack_Empty_def IntList_as_list(1))
  then show "\<exists>s'. ListStack_Pop s = Inr (v, s') \<and> lst_holds s' vs \<and> None = None"
    using IntList_Remove_ok [OF h] by (simp add: ListStack_Pop_def)
next
  show "ListStack_Pop s = Inl Abort" if "lst_holds s []" for s :: "'a List_t"
    using that IsEmpty_represents [of s] by (simp add: lst_holds_def ListStack_Pop_def ListStack_Empty_def IntList_as_list(1))
qed

interpretation int_arr: int_stack_class ArrayStack_Push ArrayStack_Pop ArrayStack_Full ArrayStack_Empty arr_holds arr_cap ..

interpretation int_lst: int_stack_class ListStack_Push ListStack_Pop ListStack_Full ListStack_Empty lst_holds "\<lambda>_. None" ..

section \<open>The programs\<close>

lemma IntList_destroy_ok: "lst_holds l vs \<Longrightarrow> length vs < fuel \<Longrightarrow> \<exists>l'. IntList_destroy fuel l = Inr l' \<and> lst_holds l' []"
proof (induction vs arbitrary: l fuel)
  case Nil
  then show ?case using IsEmpty_represents [of l] by (cases fuel) (auto simp: lst_holds_def IntList_as_list(1))
next
  case (Cons v vs)
  obtain f where f: "fuel = Suc f" "length vs < f" using Cons.prems(2) by (cases fuel) auto
  obtain l1 where l1: "IntList_Remove l = Inr (v, l1)" "lst_holds l1 vs" using IntList_Remove_ok [OF Cons.prems(1)] by blast
  have "\<not> IntList_Empty l" using IsEmpty_represents [of l] Cons.prems(1) by (auto simp: lst_holds_def IntList_as_list(1))
  then show ?case using Cons.IH [OF l1(2) f(2)] f(1) l1(1) by simp
qed

text \<open>Both stacks print the numbers in the order of the test and in reverse; no element of the list is left.\<close>

lemma inherit_main_ok:
  assumes "10 < fuel" "cs = map (\<lambda>i. 17 + of_nat i) [0..<10]"
  shows "\<exists>l. inherit_main fuel raw = Inr (map Pushing cs @ map Popping (rev cs), map Pushing cs @ map Popping (rev cs), l) \<and> lst_holds l []"
proof -
  note a = int_arr.SelfTest_ok [OF ArrayStack_new_ok(2) [of 10 raw], of 10 fuel cs]
  have l: "lst_holds ListStack_new []" by (simp add: lst_holds_def ListStack_new_def)
  obtain s2 where "Stack_SelfTest ListStack_Push ListStack_Pop ListStack_Full ListStack_Empty fuel 10 ListStack_new =
      Inr (map Pushing cs @ map Popping (rev cs), s2)" "lst_holds s2 []"
    using int_lst.SelfTest_ok [OF l, of 10 fuel cs] assms by auto
  then show ?thesis using a assms IntList_destroy_ok [of s2 "[]" fuel] by (auto simp: inherit_main_def ArrayStack_new_ok(1) arr_cap_def)
qed

lemma fill_loop_ok:
  "arr_holds s vs \<Longrightarrow> stk_size s = int (length vs + n) \<Longrightarrow> n < fuel \<Longrightarrow> cs = map (\<lambda>i. (inc ^^ i) c0) [0..<n] \<Longrightarrow>
    \<exists>s'. fill_loop inc fuel c0 s = Inr (map Pushing cs, s') \<and> arr_holds s' (rev cs @ vs)"
proof (induction n arbitrary: s vs fuel c0 cs)
  case 0
  then have "ArrayStack_Full s" by (simp add: arr_holds_def ArrayStack_Full_def)
  then show ?case using 0 by (cases fuel) auto
next
  case (Suc n)
  obtain f where f: "fuel = Suc f" "n < f" using Suc.prems(3) by (cases fuel) auto
  have nf: "\<not> ArrayStack_Full s" using arr.full_law [OF Suc.prems(1)] Suc.prems(2) by (simp add: arr_cap_def)
  then obtain s1 where s1: "ArrayStack_Push c0 s = Inr s1" "arr_holds s1 (c0 # vs)" "arr_cap s1 = arr_cap s"
    using arr.push_law [OF Suc.prems(1)] by blast
  have sz: "stk_size s1 = int (length (c0 # vs) + n)"
    using s1(2,3) Suc.prems(2) by (simp add: arr_cap_def arr_holds_def)
  let ?cs = "map (\<lambda>i. (inc ^^ i) (inc c0)) [0..<n]"
  have cs: "cs = c0 # ?cs"
    using Suc.prems(4) by (simp add: upt_conv_Cons map_Suc_upt [symmetric] funpow_swap1 del: upt_Suc)
  show ?case using Suc.IH [OF s1(2) sz f(2) refl, of "inc c0"] f nf s1(1) cs by auto
qed

lemma template_SelfTest_ok:
  assumes "sz \<ge> 1" "nat sz < fuel" "cs = map (\<lambda>i. (inc ^^ i) start) [0..<nat sz]"
  shows "\<exists>s s'. ArrayStack_new raw sz = Inr s \<and> template_SelfTest inc fuel start s = Inr (map Pushing cs @ map Popping (rev cs), s') \<and> arr_holds s' []"
proof -
  let ?s = "\<lparr>stk_size = sz, stk_top = 0, stk_array = map raw [0..<nat sz]\<rparr>"
  obtain s1 where s1: "fill_loop inc fuel start ?s = Inr (map Pushing cs, s1)" "arr_holds s1 (rev cs)"
    using fill_loop_ok [OF ArrayStack_new_ok(2) [OF assms(1)], of raw "nat sz" fuel cs inc start] assms by auto
  have "length (rev cs) < fuel" using assms(2,3) by simp
  from arr.pop_loop_ok [OF s1(2) this] obtain s2
    where "pop_loop ArrayStack_Pop ArrayStack_Empty fuel s1 = Inr (map Popping (rev cs), s2)" "arr_holds s2 []" by blast
  then show ?thesis using s1(1) assms(1) by (simp add: template_SelfTest_def ArrayStack_new_ok(1))
qed

lemma count_up: "((\<lambda>x. x + 1) ^^ i) x = x + of_nat i" for x :: "'a :: semiring_1"
  by (induction i) (simp_all add: ac_simps)

lemma stack_main_ok:
  assumes "10 < fuel" "cs = map (\<lambda>i. 17 + of_nat i) [0..<10]"
  shows "stack_main fuel raw = Inr (map Pushing cs @ map Popping (rev cs))"
proof -
  have "cs = map (\<lambda>i. ((\<lambda>x. x + 1) ^^ i) 17) [0..<nat 10]" using assms(2) by (simp add: count_up)
  from template_SelfTest_ok [of 10 fuel, OF _ _ this, of raw] assms(1) show ?thesis by (auto simp: stack_main_def)
qed

lemma template_main_ok:
  assumes "10 < fuel" "cs = map (\<lambda>i. 17 + of_nat i) [0..<10]" "ds = map (\<lambda>i. 97 + of_nat i) [0..<10]"
  shows "template_main fuel raw1 raw2 = Inr (map Pushing cs @ map Popping (rev cs), map Pushing ds @ map Popping (rev ds))"
proof -
  have c: "cs = map (\<lambda>i. ((\<lambda>x. x + 1) ^^ i) 17) [0..<nat 10]" and d: "ds = map (\<lambda>i. ((\<lambda>x. x + 1) ^^ i) 97) [0..<nat 10]"
    using assms(2,3) by (simp_all add: count_up)
  from template_SelfTest_ok [of 10 fuel, OF _ _ c, of raw1] template_SelfTest_ok [of 10 fuel, OF _ _ d, of raw2] assms(1)
  show ?thesis by (auto simp: template_main_def)
qed

end
