(* ===== verification/Nachos_Demo.thy ===== *)
theory Nachos_Demo
  imports Nachos_MIPS Nachos_Tables Nachos_FSTest Nachos_Locks Nachos_PostOffice Nachos_Console Nachos_Syscalls Nachos_Coff Nachos_Interp
begin

text \<open>
  Concrete states of every component, on which the properties of the root theory are applied: a
  machine with one mapped page, a bitmap and a list, the disk that \<open>Disk::Disk\<close> creates, and a
  kernel with two dining philosophers.
\<close>

section \<open>A machine and an allocator\<close>

definition demo_machine :: Machine where
  "demo_machine = (Machine_new None 1 False)\<lparr>pageTable := Some [\<lparr>virtualPage = 0, physicalPage = 3,
     valid = True, readOnly = False, use = False, dirty = False\<rparr>]\<rparr>"

lemma demo_machine_ok: "cpu_ok demo_machine" "machine_ok demo_machine"
  by (simp_all add: cpu_ok_def machine_ok_def demo_machine_def Machine_new_def)

text \<open>Its memory is 0, and so is its first instruction, which does nothing.\<close>

lemma demo_words: "bytes_to_word (replicate 4 0) = 0" "bytes_to_word [0x21, 0x18, 0x21, 0x00] = 0x00211821"
  by code_simp+

lemma demo_first: "opCode (Decode 0) = OP_SLL" "rd (Decode 0) = 0"
  by code_simp+

lemmas demo_read = ReadMem_def Translate_def misaligned_def set_entry_def WordToHost_def mem_word_def find_entry_def Let_def and_3_mod_4
  machine_sizes Machine_new_def demo_words

lemma demo_machine_steps: "\<exists>m'. fetch_execute demo_machine = Inr (None, m') \<and> registers m' ! NextPCReg = 4"
proof -
  have r: "registers demo_machine = replicate 40 0" by (simp add: demo_machine_def Machine_new_def)
  have "\<exists>m1. ReadMem 0 4 demo_machine = Inr (Inr 0, m1) \<and> registers m1 = replicate 40 0"
    by (simp add: demo_read demo_machine_def)
  then show ?thesis
    by (auto simp: fetch_execute_def r exec_parts demo_first put_def next4_def finish_def DelayedLoad_def Let_def set_reg_def)
qed

text \<open>The instruction \<open>addu $3,$1,$1\<close> at the first address of the memory of the older interpreter, for both.\<close>

definition demo_interp :: Interp where
  "demo_interp = \<lparr>iReg = (replicate 32 0)[1 := 21], iHI = 0, iLO = 0, imem = [0x21, 0x18, 0x21, 0x00]\<rparr>"

definition demo_program :: Machine where
  "demo_program = (Machine_new None 0 False)\<lparr>
     tlb := Some (\<lparr>virtualPage = 0x200000, physicalPage = 0, valid = True, readOnly = True, use = False, dirty = False\<rparr> #
       replicate 3 \<lparr>virtualPage = 0, physicalPage = 0, valid = False, readOnly = False, use = False, dirty = False\<rparr>),
     registers := (replicate 40 0)[1 := 21, PCReg := 0x10000000, NextPCReg := 0x10000004],
     mainMemory := [0x21, 0x18, 0x21, 0x00] @ replicate (MemorySize - 4) 0\<rparr>"

lemma demo_program_facts:
  "cpu_ok demo_program" "agree demo_program demo_interp" "\<exists>m1. ReadMem 0x10000000 4 demo_program = Inr (Inr 0x00211821, m1)"
  "fetch 0x10000000 demo_interp = Inr 0x00211821" "shared 0x00211821 0x10000000 demo_program"
proof -
  show "cpu_ok demo_program" by (simp add: cpu_ok_def machine_ok_def demo_program_def Machine_new_def machine_sizes TLBSize_def)
  show "agree demo_program demo_interp"
    by (auto simp: agree_def demo_program_def i_reg_def demo_interp_def nth_list_update)
  show "\<exists>m1. ReadMem 0x10000000 4 demo_program = Inr (Inr 0x00211821, m1)" by (simp add: demo_read demo_program_def TLBSize_def)
  show "fetch 0x10000000 demo_interp = Inr 0x00211821" by code_simp
  show "shared 0x00211821 0x10000000 demo_program" by (simp add: shared_def shared_special_def bits_of_def)
qed

definition demo_bitmap :: BitMap where
  "demo_bitmap = \<lparr>numBits = 4, numWords = 1, bits = [5]\<rparr>"

lemma demo_bitmap_ok: "bitmap_ok demo_bitmap" "used demo_bitmap = {0, 2}" "numBits demo_bitmap = 4"
proof -
  show "bitmap_ok demo_bitmap" by (simp add: demo_bitmap_def bitmap_ok_def divRoundUp_def BitsInWord_def)
  show "numBits demo_bitmap = 4" by (simp add: demo_bitmap_def)
  have "i \<in> used demo_bitmap \<longleftrightarrow> i \<in> {0, 2}" for i
  proof -
    consider "i = 0" | "i = 1" | "i = 2" | "i = 3" | "i < 0" | "i \<ge> 4" by linarith
    then show ?thesis
      by cases (simp_all add: used_def demo_bitmap_def word_index_def bit_index_def BitsInWord_def sdiv_nonneg smod_nonneg bit_numeral_rec)
  qed
  then show "used demo_bitmap = {0, 2}" by blast
qed

section \<open>A disk\<close>

definition demo_disk :: SynchDisk where
  "demo_disk = \<lparr>disk = \<lparr>image = host_write (DiskSize - 4) (int_to_bytes 0) (host_write 0 (int_to_bytes MagicNumber) []),
     active = False, lastSector = 0, bufferInit = 0\<rparr>, requests = 0, clock = (\<lambda>n. 10000 * int n), junk = (\<lambda>n. 0xa5)\<rparr>"

lemma demo_disk_new: "Disk_new None = Inr (disk demo_disk)"
  by (simp add: Disk_new_def demo_disk_def)

lemma demo_disk_ok: "disk_ok demo_disk"
  using Disk_new_fresh demo_disk_new by (auto simp: disk_ok_def)

text \<open>The disk after formatting.\<close>

lemma demo_format:
  obtains fs sd where "FileSystem_new True demo_disk = Inr (fs, sd)" "fs_ok fs sd" "fs_view fs sd = Map.empty"
    "seekPosition (freeMapFile fs) = 0" "seekPosition (directoryFile fs) = 0"
  using format_ok [OF demo_disk_ok] by blast

section \<open>A kernel\<close>

definition demo_globals :: Globals where
  "demo_globals = \<lparr>g_semaphores = [(1, 0)], g_locks = [(2, 3), (4, 5)], g_conditions = [6, 7, 8, 9, 10, 11],
     g_lists = [(12, 4, 11)],
     g_philosophers = \<lparr>dp = 2, self = [6, 7, 8, 9, 10], ph_state = [Thinking, Thinking, Thinking, Thinking, Thinking]\<rparr>,
     g_disk_semaphore = 1, g_disk_lock = 4, g_next = 13\<rparr>"

text \<open>Philosopher 2 gets hungry while philosopher 1 is eating.\<close>

definition demo_prog :: "code list" where
  "demo_prog = [Call_Fork [Call_pickup 1, Call_Yield, Call_putdown 1], Call_pickup 2, Call_putdown 2]"

definition demo_kernel :: Kernel where
  "demo_kernel = projr (Initialize True (\<lambda>n. 7 * n) \<lparr>image = [], active = False, lastSector = 0, bufferInit = 0\<rparr> demo_globals demo_prog)"

lemma demo_kernel_new:
  "Initialize True (\<lambda>n. 7 * n) \<lparr>image = [], active = False, lastSector = 0, bufferInit = 0\<rparr> demo_globals demo_prog = Inr demo_kernel"
  by (simp add: demo_kernel_def Initialize_def TimeOfNextInterrupt_def Schedule_def Statistics_new_def is_int32_def Let_def)

lemma demo_kernel_booted: "booted demo_kernel"
proof -
  have "boot_ok demo_globals demo_prog" by (simp add: boot_ok_def demo_globals_def demo_prog_def)
  moreover have "ph_ok (g_philosophers demo_globals)" by (simp add: ph_ok_list demo_globals_def)
  ultimately show ?thesis using demo_kernel_new unfolding booted_def by blast
qed

lemma demo_kernel_run:
  "case run_kernel 25 demo_kernel of Inr k \<Rightarrow> ph_state (philosophers k) = [Thinking, Eating, Hungry, Thinking, Thinking] | Inl f \<Rightarrow> False"
  by code_simp

lemma demo_kernel_steps:
  obtains k where "steps demo_kernel k" "ph_state (philosophers k) = [Thinking, Eating, Hungry, Thinking, Thinking]"
  using demo_kernel_run by (auto split: sum.splits intro: run_kernel_steps)

text \<open>Its locks are used through \<open>Acquire\<close> and \<open>Release\<close> only, and thread 13 takes lock 2.\<close>

abbreviation demo_mutexes :: "address \<rightharpoonup> address" where
  "demo_mutexes \<equiv> map_of (g_locks demo_globals)"

lemma demo_boot:
  assumes "boot_ok demo_globals prog" "lock_boot demo_globals prog" "Initialize ry rnd d demo_globals prog = Inr k"
  shows "lock_booted demo_mutexes k"
  using assms unfolding lock_booted_def by blast

lemma demo_kernel_lock_booted: "lock_booted demo_mutexes demo_kernel"
  by (rule demo_boot [OF _ _ demo_kernel_new]) (auto simp: boot_ok_def lock_boot_def demo_globals_def demo_prog_def)

lemma demo_lock_run:
  "case run_kernel 13 demo_kernel of Inr k \<Rightarrow> (case locks k 2 of Some lk \<Rightarrow> lockHolder lk = Some 13 | None \<Rightarrow> False) | Inl f \<Rightarrow> False"
  by code_simp

lemma demo_lock_steps:
  obtains k lk where "steps demo_kernel k" "locks k 2 = Some lk" "lockHolder lk = Some 13"
  using demo_lock_run by (auto split: sum.splits option.splits intro: run_kernel_steps)

text \<open>Two threads wait for semaphore 1 when a third one calls \<open>V\<close>.\<close>

definition demo_waiters_prog :: "code list" where
  "demo_waiters_prog = [Call_Fork [Call_P 1], Call_Fork [Call_V 1], Call_P 1]"

definition demo_waiters :: Kernel where
  "demo_waiters = projr (Initialize False (\<lambda>n. 7 * n) \<lparr>image = [], active = False, lastSector = 0, bufferInit = 0\<rparr> demo_globals demo_waiters_prog)"

lemma demo_waiters_new:
  "Initialize False (\<lambda>n. 7 * n) \<lparr>image = [], active = False, lastSector = 0, bufferInit = 0\<rparr> demo_globals demo_waiters_prog = Inr demo_waiters"
  by (simp add: demo_waiters_def Initialize_def TimeOfNextInterrupt_def Schedule_def Statistics_new_def is_int32_def Let_def)

lemma demo_waiters_booted: "lock_booted demo_mutexes demo_waiters"
  by (rule demo_boot [OF _ _ demo_waiters_new]) (auto simp: boot_ok_def lock_boot_def demo_globals_def demo_waiters_prog_def)

lemma demo_waiters_run:
  "case run_kernel 14 demo_waiters of Inr k \<Rightarrow> (case semaphores k 1 of Some sem \<Rightarrow> queue sem = [13] \<and> value sem = 1 | None \<Rightarrow> False) | Inl f \<Rightarrow> False"
  by code_simp

lemma demo_waiters_steps:
  obtains k sem where "steps demo_waiters k" "semaphores k 1 = Some sem" "queue sem = [13]" "value sem = 1"
  using demo_waiters_run by (auto split: sum.splits option.splits intro: run_kernel_steps)

section \<open>Two machines on a network\<close>

text \<open>Machine 0 sends four bytes to box 3 of machine 1, which receives them.\<close>

definition demo_world :: World where
  "demo_world = \<lparr>machines = [0 \<mapsto> PostOffice_new 0 1 10 (\<lambda>n. n) \<lparr>to_machine = 0, from_machine = 0, packet_length = 0\<rparr> (replicate 52 0) (replicate 52 0),
       1 \<mapsto> PostOffice_new 1 1 10 (\<lambda>n. n) \<lparr>to_machine = 0, from_machine = 0, packet_length = 0\<rparr> (replicate 52 0) (replicate 52 0)],
     sockets = [0 \<mapsto> [], 1 \<mapsto> []], sending = (\<lambda>_ _. None), offered = [], transmitted = [], received_mail = (\<lambda>_ _. [])\<rparr>"

definition demo_send :: action where
  "demo_send = Send_call 5 (replicate 52 0) \<lparr>to_machine = 1, from_machine = 9, packet_length = 0\<rparr>
     \<lparr>to_box = 3, from_box = 2, mail_length = 4\<rparr> [72, 111, 108, 97]"

definition demo_actions :: "(int \<times> action) list" where
  "demo_actions = [(0, demo_send), (0, Send_packet 5 (replicate 64 0)), (1, Advance 100), (1, Fire), (1, Deliver (replicate 40 0)),
     (1, Receive_call 3 (replicate 40 0))]"

lemma demo_world_start: "post_start 10 demo_world"
proof -
  have new: "\<exists>rel rnd hdr0 inbox0 buffer0. PostOffice_new a r 10 f h (replicate 52 0) (replicate 52 0) = PostOffice_new a rel 10 rnd hdr0 inbox0 buffer0 \<and>
      length inbox0 = 52 \<and> length buffer0 = 52" for a r f h
    by (intro exI conjI) (rule refl, simp_all)
  show ?thesis unfolding post_start_def by (auto simp: demo_world_def is_int32_def wire_sizes new)
qed

lemma demo_world_run:
  "case run_actions demo_actions demo_world of Some w \<Rightarrow> map (snd \<circ> snd) (received_mail w 1 3) = [[72, 111, 108, 97]] \<and> machines w 1 \<noteq> None \<and> sockets w 1 \<noteq> None
     | None \<Rightarrow> False"
  by code_simp

lemma demo_world_steps:
  obtains w n po sock where "post_steps demo_world w" "map (snd \<circ> snd) (received_mail w 1 3) = [[72, 111, 108, 97]]"
    "machines w 1 = Some (n, po)" "sockets w 1 = Some sock"
proof -
  obtain w where w: "run_actions demo_actions demo_world = Some w" "map (snd \<circ> snd) (received_mail w 1 3) = [[72, 111, 108, 97]]"
    "machines w 1 \<noteq> None" "sockets w 1 \<noteq> None"
    using demo_world_run by (cases "run_actions demo_actions demo_world") auto
  then obtain n po sock where "machines w 1 = Some (n, po)" "sockets w 1 = Some sock" by auto
  then show thesis by (rule that [OF run_actions_steps [OF w(1)] w(2)])
qed

section \<open>A console\<close>

definition demo_console :: Console where
  "demo_console = projr (Console_new (\<lambda>_. 3) (\<lambda>_. 4) None None)"

lemma demo_console_new: "Console_new (\<lambda>_. 3) (\<lambda>_. 4) None None = Inr demo_console"
  by (simp add: demo_console_def Console_new_def)

text \<open>An \<open>h\<close> is typed and echoed.\<close>

lemma demo_console_steps:
  obtains c e where "con_steps ([], demo_console, Echo_new) ([104], c, e)" "display c = [104]"
proof -
  let ?s0 = "([], demo_console, Echo_new)"
  let ?c1 = "demo_console\<lparr>keyboard := [104]\<rparr>"
  let ?c2 = "?c1\<lparr>con_now := 100\<rparr>"
  have init: "con_now demo_console = 0" "keyboard demo_console = []" "con_pending demo_console = [(100, ConsoleReadPoll)]" "incoming demo_console = EOF_char"
      "display demo_console = []" "\<not> putBusy demo_console"
    by (simp_all add: demo_console_def Console_new_def con_Schedule_def ConsoleTime_def)
  have 1: "con_step ?s0 ([104], ?c1, Echo_new)" using type_char [of "[]" demo_console Echo_new 104] init by simp
  have 2: "con_step ([104], ?c1, Echo_new) ([104], ?c2, Echo_new)" using advance [of "[104]" ?c1 Echo_new 100] init by simp
  obtain c3 e3 where p: "con_fire (?c2, Echo_new) = Inr (c3, e3)" "readAvail e3 = 1" "echo_state e3 = Reading" "incoming c3 = 104" "\<not> putBusy c3" "display c3 = []"
    using init by (auto simp: con_fire_def key_defs con_Schedule_def Echo_new_def)
  have 3: "con_step ([104], ?c2, Echo_new) ([104], c3, e3)" by (rule con_step.fire [OF _ _ p(1), of 100 ConsoleReadPoll "[]"]) (use init in simp_all)
  obtain c4 e4 where q: "echo_char (c3, e3) = Inr (c4, e4)" "display c4 = [104]"
    using p by (auto simp: echo_char_def GetChar_def PutChar_def)
  have 4: "con_step ([104], c3, e3) ([104], c4, e4)" by (rule con_step.read_char [OF p(3) _ q(1)]) (use p(2) in simp)
  have "con_steps ?s0 ([104], ?c1, Echo_new)" using 1 by (rule r_into_rtranclp)
  then have "con_steps ?s0 ([104], ?c2, Echo_new)" using 2 by (rule rtranclp.rtrancl_into_rtrancl)
  then have "con_steps ?s0 ([104], c3, e3)" using 3 by (rule rtranclp.rtrancl_into_rtrancl)
  then have "con_steps ?s0 ([104], c4, e4)" using 4 by (rule rtranclp.rtrancl_into_rtrancl)
  then show thesis using q(2) by (rule that)
qed

section \<open>User programs\<close>

text \<open>A program file: the header, and code of which the first bytes are there.\<close>

definition demo_noff :: "32 word \<Rightarrow> byte list" where
  "demo_noff sz = word_to_bytes NOFFMAGIC @ word_to_bytes 0 @ word_to_bytes 40 @ word_to_bytes sz @ replicate 24 0 @ [1, 2, 3, 4]"

definition demo_user :: "32 word \<Rightarrow> bool \<Rightarrow> BitMap \<Rightarrow> UserState" where
  "demo_user sz vm mm = \<lparr>machine = Machine_new (if vm then Some (replicate 4 \<lparr>virtualPage = 0, physicalPage = 0, valid = False, readOnly = False, use = False, dirty = False\<rparr>) else None) 0 False,
     memoryMap = mm, swapMap = \<lparr>numBits = 64, numWords = 2, bits = [0, 0]\<rparr>, hostFiles = [[112] \<mapsto> demo_noff sz], iter = 0\<rparr>"

definition demo_frames :: "32 word \<Rightarrow> BitMap" where
  "demo_frames b = \<lparr>numBits = 32, numWords = 1, bits = [b]\<rparr>"

lemma demo_frames_ok: "bitmap_ok (demo_frames b)" "numBits (demo_frames b) = 32" "used (demo_frames 0) = {}" "0 \<in> used (demo_frames 1)"
  by (simp_all add: demo_frames_def bitmap_ok_def used_def divRoundUp_def BitsInWord_def sdiv_nonneg smod_nonneg word_index_def bit_index_def)

text \<open>64 bytes of code fit, 200 do not.\<close>

lemma demo_space_run:
  "case AddrSpace_new False (replicate 40 0) [] [112] [112] (demo_user 64 False (demo_frames 0)) of Inr (a, us') \<Rightarrow> numPages a = 9 | Inl f \<Rightarrow> False"
  by code_simp

lemma demo_space:
  obtains a us' where "AddrSpace_new False (replicate 40 0) [] [112] [112] (demo_user 64 False (demo_frames 0)) = Inr (a, us')" "numPages a = 9"
  using demo_space_run by (auto split: sum.splits prod.splits)

lemma demo_big_header_run:
  "case read_header (replicate 40 0) [112] (hostFiles (demo_user 200 False (demo_frames 0))) of
     Inr h \<Rightarrow> space_pages h = 10 \<and> seg_size (seg_code h) = 200 \<and> inFileAddr (seg_code h) = 40 | Inl f \<Rightarrow> False"
  by code_simp

text \<open>With \<open>VM\<close>, a space for the program with no page loaded.\<close>

lemma demo_vm_run:
  "case AddrSpace_new True (replicate 40 0) [] [112] [112] (demo_user 64 True mm) of
     Inr (a, us') \<Rightarrow> length (as_pageTable a) = 9 \<and> ipt a = Some [-1] \<and> ejecutable a = [112] \<and> \<not> valid (as_pageTable a ! 0) \<and>
       seg_size (seg_code (noffH1 a)) = 64 | Inl f \<Rightarrow> False" if "mm \<in> {demo_frames 0, demo_frames 1}"
  using that by (elim insertE emptyE) (simp_all only:, code_simp+)

text \<open>The output of the linker for a program of four bytes.\<close>

definition demo_coff :: "byte list" where
  "demo_coff = [0x62, 1, 1, 0] @ replicate 16 0 @ [7, 1] @ replicate 54 0 @
     [46, 116, 101, 120, 116, 0, 0, 0] @ replicate 8 0 @ [4, 0, 0, 0] @ [116, 0, 0, 0] @ replicate 16 0 @ [1, 2, 3, 4]"

definition demo_text :: scnhdr where
  "demo_text = \<lparr>s_name = [46, 116, 101, 120, 116, 0, 0, 0], s_paddr = 0, s_size = 4, s_scnptr = 116\<rparr>"

lemma demo_coff: "coff_sections demo_coff = [demo_text]" "section_data demo_coff demo_text = [1, 2, 3, 4]" "coff_ok demo_coff"
proof -
  show s: "coff_sections demo_coff = [demo_text]" by code_simp
  show "section_data demo_coff demo_text = [1, 2, 3, 4]" by code_simp
  have h: "f_magic (bytes_to_filehdr demo_coff) = MIPSELMAGIC" "bytes_to_short (drop filehdrSize demo_coff) = OMAGIC"
    "unat (f_nscns (bytes_to_filehdr demo_coff)) = 1" "length demo_coff = 120" by code_simp+
  show "coff_ok demo_coff" unfolding coff_ok_def s h
    by (simp add: demo_text_def sec_ok_def h filehdrSize_def aouthdrSize_def scnhdrSize_def copied_def is_text_def is_data_def is_bss_def named_def nonempty_def NoffSize_def)
qed

end
