(* ===== verification/Spec2Isabelle.thy ===== *)
theory Spec2Isabelle
  imports Nachos_List Nachos_BitMap Nachos_Tables Nachos_Machine Nachos_MIPS Nachos_FileSys Nachos_FileService Nachos_FSTest Nachos_Steps Nachos_Ticks Nachos_Locks Nachos_PostOffice Nachos_Console Nachos_AddrSpace Nachos_Syscalls Nachos_Switch Nachos_Coff Nachos_Interp Nachos_Stacks Nachos_Demo
begin

text \<open>
  A verification development for NachOS-UCR: the NachOS teaching kernel of \<open>src/nachos64/code\<close> and the
  machine that it simulates.

  \<^bold>\<open>The program.\<close>  One host process holds a simulated machine (\<open>machine/\<close>: a MIPS processor with its
  memory and translation tables, an interrupt controller with a clock, a timer, a disk, a console and a network
  interface) and a kernel on it (\<open>threads/\<close>: threads, scheduler, synchronisation; \<open>filesys/\<close>: the file system on
  the disk; \<open>network/\<close>: mail boxes; \<open>userprog/\<close>: address spaces, system calls and tables for user programs).
  Kernel code runs natively; the clock moves when the kernel enables interrupts and when a user instruction is
  simulated, and only then do device interrupts fire.  Kernel threads lose the processor only in
  \<open>Scheduler::Run\<close>.  A user program enters the kernel through \<open>ExceptionHandler\<close>, which reads the registers and the
  memory of the simulated machine and calls the thread kernel and the host's files.

  \<^bold>\<open>Theories, and the code they model.\<close>
  \<^item> \<open>Nachos_Prelude\<close>: faults (\<open>ASSERT\<close> failures, bad pointers and indices, host traps, operations that C++ leaves undefined) as values of a
    sum type, integers at their width, bytes in memory, arrays (\<open>threads/utility.h\<close>).
  \<^item> \<open>Nachos_List\<close>: \<open>threads/list.h\<close> on an explicit store of cells; \<open>represents\<close> relates the cells to the
    sequence they hold, and every operation refines an operation on sequences.  Two interfaces,
    a first-in first-out queue and a priority queue, are interpreted on the operations.
  \<^item> \<open>Nachos_BitMap\<close>: \<open>userprog/bitmap.cc\<close> on 32-bit words; \<open>used\<close> is the set it stands for.  The
    interface of an allocator is interpreted on it and carries the proofs about disk sectors.
  \<^item> \<open>Nachos_Tables\<close>: \<open>userprog/nachostabla.cc\<close> and \<open>semTabla.cc\<close>, two interpretations of the interface of a
    handle table.  The open file table points to an array among those that exist; a local array ends with its block.
  \<^item> \<open>Nachos_Machine\<close>, \<open>Nachos_MIPS\<close>: \<open>machine/machine.cc\<close>, \<open>translate.cc\<close> and \<open>mipssim.cc\<close>: registers and
    memory, translation by page table or TLB, every instruction with delayed loads and branch
    slots.  \<open>fetch_execute\<close> is \<open>OneInstruction\<close> up to a trap; \<open>OneInstruction\<close> takes the
    kernel's trap handler as an argument.
  \<^item> \<open>Nachos_Disk\<close>: \<open>machine/disk.cc\<close> with its latency, and \<open>filesys/synchdisk.cc\<close> as one step from
    request to completion; \<open>sector\<close> is what a sector holds.
  \<^item> \<open>Nachos_OpenFile\<close>, \<open>Nachos_Directory\<close>, \<open>Nachos_FileSys\<close>: \<open>filesys/filehdr.cc\<close>, \<open>openfile.cc\<close>,
    \<open>directory.cc\<close>, \<open>filesys.cc\<close>, down to the bytes on the disk.  \<open>fs_ok\<close> is the invariant (files, system
    files and the free map agree and share no sector) and \<open>fs_view\<close> the abstract state, a map from names to contents.
  \<^item> \<open>Nachos_FileService\<close>: sequences of file operations with their specification \<open>spec_op\<close>, which also says when \<open>Create\<close> is refused:
    \<open>free_room\<close> is the number of sectors that the files leave, and the free map of the disk is shown to have exactly these.
  \<^item> \<open>Nachos_Kernel\<close>: \<open>threads/scheduler.cc\<close>, \<open>thread.cc\<close>, \<open>synch.cc\<close>, \<open>synchlist.h\<close>, \<open>dinningph.cc\<close>,
    \<open>system.cc\<close>, \<open>machine/interrupt.cc\<close>, \<open>timer.cc\<close>, \<open>stats.cc\<close> and \<open>synchdisk.cc\<close> as kernel code.  A thread has a stack of
    code points, the operations push the code points after which they may lose the processor, and
    \<open>kernel_step\<close> runs the one on top; \<open>steps\<close> is reachability.
  \<^item> \<open>Nachos_Sched\<close>: the scheduling invariant \<open>kernel_ok\<close> and that every step keeps it.
  \<^item> \<open>Nachos_Steps\<close>: relations that every step respects, from one locale with an interpretation for each (the
    clock, the philosophers, the mutexes of the locks); interrupts that are due.
  \<^item> \<open>Nachos_Ticks\<close>: the effect of \<open>OneTick\<close> with all the handlers it calls.
  \<^item> \<open>Nachos_Locks\<close>: the token of every lock (in the mutex, with the holder, or with a thread that is about to
    become the holder) and the threads that are on their way to a semaphore whose value is positive.
  \<^item> \<open>Nachos_Devices\<close>: the interface of an input device with a buffer for one item, a poll by interrupt and a
    semaphore; its laws give that items arrive once and in order.
  \<^item> \<open>Nachos_Network\<close>, \<open>Nachos_PostOffice\<close>: \<open>machine/network.cc\<close> and \<open>network/post.cc\<close>.  \<open>World\<close> holds the post
    offices and network interfaces of several machines and the sockets between them; \<open>perform\<close> is one step.  It
    also keeps what the callers of \<open>Send\<close> passed, with which the messages that arrive are compared.
  \<^item> \<open>Nachos_Console\<close>: \<open>machine/console.cc\<close> and the echo thread \<open>ConsoleTest\<close> of \<open>userprog/progtest.cc\<close>.
  \<^item> \<open>Nachos_AddrSpace\<close>: \<open>userprog/addrspace.cc\<close> with and without \<open>VM\<close>: the loading of an object file,
    frames and bit maps, page faults, the swap file, the TLB and its victims; the \<open>FILESYS_STUB\<close> classes it uses.
  \<^item> \<open>Nachos_Syscalls\<close>: \<open>userprog/exception.cc\<close>, every system call with the dispatcher.  A handler is a program
    that stops at a call of the thread kernel with the state and the rest of the handler.
    \<open>user_step\<close> is a round of \<open>Machine::Run\<close> with its traps.  The locale \<open>handler_invariant\<close> says what the few routines
    that touch the machine have to keep for a property to hold of every system call.
  \<^item> \<open>Nachos_Switch\<close>: the \<open>USER_PROGRAM\<close> blocks of \<open>Scheduler::Run\<close>, \<open>Thread::SaveUserState\<close> and \<open>RestoreUserState\<close>.  \<open>in_kernel\<close> is what a
    thread that waits in a system call goes through: kernel code, interrupts, and switches to threads that may do anything to the machine.
  \<^item> \<open>Nachos_FSTest\<close>: \<open>filesys/fstest.cc\<close>: \<open>Copy\<close>, \<open>Print\<close> and \<open>PerformanceTest\<close>, clients of the file system.
  \<^item> \<open>Nachos_Coff\<close>: \<open>bin/coff2noff.c\<close>, which makes the object files that \<open>AddrSpace\<close> loads.
  \<^item> \<open>Nachos_Interp\<close>: \<open>bin/execute.c\<close>, an older interpreter of MIPS programs, and the instructions on which it does
    what \<open>mipssim.cc\<close> does, for whole rounds of the two loops; \<open>shared\<close> lists them with the operands on which the two differ left out.
  \<^item> \<open>Nachos_Stacks\<close>: the stacks of the C++ tutorial \<open>c++example/\<close>; the abstract class is a locale with two
    interpretations, the array and the linked list.
  \<^item> \<open>Nachos_Demo\<close>: concrete states for the witnesses.

  \<^bold>\<open>What is shown.\<close>  The scheduler's data are consistent in every state that a booted kernel reaches;
  time is monotone as long as the \<open>int\<close> that holds it does not overflow, a tick calls the handlers of the interrupts that are due, neighbouring philosophers never eat together, a lock has one
  holder at most, and no wake-up is lost.  Any
  sequence of file operations within the limits of a header gives the replies of the
  specification, which leaves open only the contents of a new file, and keeps the disk consistent; formatting and mounting establish that state, and the
  limits that the code does not check are shown as faults.  A file copied into the file system prints as it was.  A user instruction changes no memory
  outside the frames its table maps writable; multiplication and overflow detection are exact; no sequence of instructions,
  system calls and page faults makes the machine ill formed; the two interpreters agree on the instructions they share.
  Lists, bitmaps and tables do what their clients rely on.  Mail arrives as it was sent, mail and typed characters (but for the byte 0xFF) arrive in order, none twice and
  none invented, and the network's assertions hold whatever the interleaving.  The frames of two address spaces are
  disjoint while there are free frames and a page that is loaded holds what the object file has there, the converter of object files writes what the loader reads; the search for a TLB entry to replace ends.
  A system call that ends leaves the program at the next instruction with its registers, whatever other threads do meanwhile.
  What the page fault code and the loader do outside of their limits is shown as faults.

  \<^bold>\<open>Loops.\<close>  Loops over an index are recursions over the list of indices, in the order of the code.
  The walks of \<open>Nachos_List\<close> carry the number of cells as fuel, which a well-formed list never uses up: each
  theorem states that a result is returned.  \<open>check_loop\<close> terminates because a handler schedules
  new interrupts in the future only.  \<open>victim_loop\<close> has fuel for two rounds over the TLB, which is shown
  to be enough: the first round clears the use bits.  \<open>cat_loop\<close> has the length of the file plus one, which is enough
  because every round but the last prints a character.  The loops of \<open>Nachos_Stacks\<close> take their fuel as an argument; any number
  above the number of elements gives the result.  The loops of \<open>P\<close>, \<open>Sleep\<close>, \<open>Broadcast\<close> and \<open>SynchList::Remove\<close> give up the
  processor and are code points, one round for each step.

  \<^bold>\<open>Integers.\<close>  Registers and bit arrays are words.  The \<open>int\<close>s of the thread kernel (the clock, the counters, the value of a semaphore) are
  integers, and a step that would take one out of the range of \<open>int\<close> is the fault \<open>Undefined\<close>; the \<open>int\<close>s of the file system and the
  tables are integers within \<open>is_int32\<close> or wrapped by \<open>i32\<close>.

  \<^bold>\<open>Arbitrary inputs.\<close>  The contents of fresh memory and of uninitialised buffers, the host's random numbers, and the
  time of each disk request in \<open>Nachos_Disk\<close> are arguments; the reliability of the network, a \<open>double\<close>, is a real
  number.  The pointer-free lists of the kernel are the sequences that \<open>Nachos_List\<close> shows \<open>threads/list.h\<close> to
  implement.  The post office and the console use semaphores through their values: a thread that takes a step has
  passed \<open>P\<close>.  The replies of the thread kernel to a system call are arguments of the handler's continuation.

  \<^bold>\<open>Not modelled.\<close>  Debug output and \<open>Print\<close> routines; the host's sockets, signals and polling
  (\<open>sysdep.cc\<close>), which the devices see as queues; \<open>preemptive.cc\<close>, which rests on host signals; the assembly of
  \<open>SWITCH\<close>; command line parsing in \<open>main.cc\<close> and \<open>system.cc\<close>; the drivers \<open>threadtest.cc\<close> and \<open>nettest.cc\<close>, which print; of \<open>bin/\<close>, \<open>coff2flat.c\<close> and the loader of the
  interpreter, which read COFF headers of the host system, the system calls of the interpreter (\<open>system.c\<close>) and the disassembler; the user programs of \<open>test/\<close>.
\<close>

section \<open>Threads and the scheduler\<close>

text \<open>
  C1 (invariant): in every state that a booted kernel reaches, the ready list holds exactly the ready
  threads, each once; only the current thread is running; a blocked thread has finished or waits in
  the queue of the semaphore that its stack names; and whoever is in the queue of a semaphore is
  blocked on that semaphore, and is there once.
\<close>

theorem scheduler_invariant:
  assumes "booted k0" "steps k0 k"
  shows "distinct (readyList k) \<and> set (readyList k) \<subseteq> dom (threads k) \<and>
    (\<forall>t th. threads k t = Some th \<longrightarrow>
       (thread_status th = READY \<longleftrightarrow> t \<in> set (readyList k)) \<and>
       (thread_status th = RUNNING \<longrightarrow> t = currentThread k) \<and>
       (thread_status th = BLOCKED \<longrightarrow> finished (frames th) \<or> (\<exists>s. waits_on s (frames th) \<and>
          (\<forall>sem. semaphores k s = Some sem \<longrightarrow> t \<in> set (queue sem)))) \<and>
       thread_status th \<noteq> JUST_CREATED) \<and>
    (\<forall>s sem. semaphores k s = Some sem \<longrightarrow> distinct (queue sem) \<and>
       (\<forall>t \<in> set (queue sem). \<exists>th. threads k t = Some th \<and> thread_status th = BLOCKED \<and> waits_on s (frames th)))"
proof -
  have ok: "kernel_ok k" using assms by (rule reachable_ok)
  show ?thesis
    using ready_distinct [OF ok] thread_places [OF ok] queue_distinct [OF ok] queue_members [OF ok] by blast
qed

theorem scheduler_invariant_witness:
  "\<exists>k. steps demo_kernel k \<and> ph_state (philosophers k) = [Thinking, Eating, Hungry, Thinking, Thinking] \<and>
    distinct (readyList k) \<and> (\<forall>t th. threads k t = Some th \<and> thread_status th = RUNNING \<longrightarrow> t = currentThread k)"
proof -
  obtain k where "steps demo_kernel k" "ph_state (philosophers k) = [Thinking, Eating, Hungry, Thinking, Thinking]"
    by (rule demo_kernel_steps)
  then show ?thesis using scheduler_invariant [OF demo_kernel_booted, of k] by blast
qed

text \<open>
  C2 (safety): in every state that a booted kernel reaches, no two neighbours among the five
  philosophers of \<open>DinningPh\<close> are eating.
\<close>

theorem neighbours_never_eat_together:
  assumes "booted k0" "steps k0 k" "i < 5"
  shows "\<not> (ph_state (philosophers k) ! i = Eating \<and> ph_state (philosophers k) ! ((i + 1) mod 5) = Eating)"
  using reachable_ph_ok [OF assms(1,2)] assms(3) by (simp add: ph_ok_def)

theorem neighbours_never_eat_together_witness:
  "\<exists>k. steps demo_kernel k \<and> ph_state (philosophers k) ! 1 = Eating \<and> ph_state (philosophers k) ! 2 = Hungry \<and>
    \<not> (ph_state (philosophers k) ! 1 = Eating \<and> ph_state (philosophers k) ! ((1 + 1) mod 5) = Eating)"
proof -
  obtain k where k: "steps demo_kernel k" "ph_state (philosophers k) = [Thinking, Eating, Hungry, Thinking, Thinking]"
    by (rule demo_kernel_steps)
  then show ?thesis using neighbours_never_eat_together [OF demo_kernel_booted k(1), of 1] by auto
qed

text \<open>
  C3 (safety): in every state that a booted kernel reaches, at most one thread is in the critical section of a
  lock: it has passed \<open>mutex->P()\<close> in \<open>Lock::Acquire\<close> and not yet run \<open>mutex->V()\<close> in \<open>Release\<close>.
\<close>

theorem lock_mutual_exclusion:
  assumes "lock_booted mx k0" "steps k0 k" "locks k l = Some lk" "in_section l lk k t" "in_section l lk k u"
  shows "t = u"
  using section_exclusive [OF reachable_sync(2) [OF assms(1,2)]] assms(3-5) by blast

theorem lock_mutual_exclusion_witness:
  "\<exists>k lk. steps demo_kernel k \<and> locks k 2 = Some lk \<and> in_section 2 lk k 13 \<and> (\<forall>u. in_section 2 lk k u \<longrightarrow> u = 13)"
proof -
  obtain k lk where k: "steps demo_kernel k" "locks k 2 = Some lk" "lockHolder lk = Some 13" by (rule demo_lock_steps)
  then have "in_section 2 lk k 13" by (simp add: in_section_def)
  then show ?thesis using k lock_mutual_exclusion [OF demo_kernel_lock_booted k(1,2)] by blast
qed

text \<open>
  C4 (liveness): no wake-up is lost.  In every state that a booted kernel reaches, when the value of a
  semaphore is positive although threads wait in its queue, some thread is running or ready and is about to test
  the value in \<open>Semaphore::P\<close>.
\<close>

theorem no_wakeup_is_lost:
  assumes "lock_booted mx k0" "steps k0 k" "semaphores k s = Some sem" "queue sem \<noteq> []" "0 < value sem"
  shows "\<exists>t th. threads k t = Some th \<and> heading s (frames th) \<and>
    (t \<in> set (readyList k) \<or> t = currentThread k \<and> thread_status th = RUNNING)"
  using reachable_sync [OF assms(1,2)] assms(3-5) by (intro somebody_takes_it)

theorem no_wakeup_is_lost_witness:
  "\<exists>k sem t th. steps demo_waiters k \<and> semaphores k 1 = Some sem \<and> queue sem = [13] \<and> value sem = 1 \<and>
    threads k t = Some th \<and> heading 1 (frames th) \<and> (t \<in> set (readyList k) \<or> t = currentThread k \<and> thread_status th = RUNNING)"
proof -
  obtain k sem where k: "steps demo_waiters k" "semaphores k 1 = Some sem" "queue sem = [13]" "value sem = 1"
    by (rule demo_waiters_steps)
  then show ?thesis using no_wakeup_is_lost [OF demo_waiters_booted k(1,2)] by fastforce
qed

text \<open>
  C5 (functional): \<open>Interrupt::OneTick\<close> calls the handler of every interrupt that is due.  In a consistent kernel with interrupts
  on and its pending interrupts sorted, and as long as no \<open>int\<close> overflows, it returns with the clock at the new time \<open>t\<close>, and: exactly the
  interrupts later than \<open>t\<close> are still pending, with one new timer interrupt within 200 ticks for each timer that was due;
  the disk's semaphore has been signalled once for each disk request that was due, which puts that many waiting threads on the ready list,
  and the disk is idle; and when a timer was due the current thread has yielded to the first ready one.
\<close>

theorem due_interrupts_fire:
  assumes "kernel_ok k" "level (interrupt k) = IntOn" "timely k" "status (interrupt k) \<noteq> IdleMode"
    "t = totalTicks (tick_stats (status (interrupt k)) (stats k))" "tick_defined (status (interrupt k)) (stats k)" "is_int32 (t + 200)"
    "semaphores k (disk_semaphore k) = Some sem" "is_int32 (value sem)" "is_int32 (value sem + int (due_at DiskDone t (pending (interrupt k))))"
  shows "\<exists>k'. OneTick k = Inr k' \<and> ticked t sem k k'"
proof -
  obtain cs where "running cs IntOn k" using assms(1,2) by (auto simp: kernel_ok_def running_def sleeping_def)
  then show ?thesis by (rule OneTick_effect [OF _ assms(3-10)])
qed

text \<open>The kernel after its first steps, which enable interrupts, with a timer and a disk request that are due.\<close>

definition demo_due :: Kernel where
  "demo_due = (projr (run_kernel 5 demo_kernel))\<lparr>interrupt := (interrupt (projr (run_kernel 5 demo_kernel)))\<lparr>
     pending := [(0, TimerPending 0), (5, \<lparr>handler = DiskDone, when = 5, int_type = DiskInt\<rparr>)]\<rparr>\<rparr>"

lemma demo_due_state:
  "level (interrupt demo_due) = IntOn" "status (interrupt demo_due) = SystemMode" "disk_semaphore demo_due = 1" "semaphores demo_due 1 = Some \<lparr>value = 0, queue = []\<rparr>" "\<not> isl (run_kernel 5 demo_kernel)"
  by code_simp+

lemma demo_due_ok: "kernel_ok demo_due"
proof -
  let ?k = "projr (run_kernel 5 demo_kernel)"
  have "run_kernel 5 demo_kernel = Inr ?k" using demo_due_state(5) by (metis sum.collapse(2))
  then have "kernel_ok ?k" using reachable_ok [OF demo_kernel_booted run_kernel_steps] by blast
  moreover have "same_sched ?k demo_due" by (simp add: same_sched_def demo_due_def)
  ultimately show ?thesis
    using inv_at_same [of ?k demo_due] by (auto simp: kernel_ok_def running_def sleeping_def same_sched_def demo_due_def)
qed

theorem due_interrupts_fire_witness:
  "\<exists>k' w. OneTick demo_due = Inr k' \<and> now k' = 40 \<and> semaphores k' 1 = Some \<lparr>value = 1, queue = []\<rparr> \<and>
    pending (interrupt k') = [(w, TimerPending w)] \<and> 40 < w"
proof -
  have t: "totalTicks (tick_stats (status (interrupt demo_due)) (stats demo_due)) = 40" "tick_defined (status (interrupt demo_due)) (stats demo_due)"
    by code_simp+
  have p: "pending (interrupt demo_due) = [(0, TimerPending 0), (5, \<lparr>handler = DiskDone, when = 5, int_type = DiskInt\<rparr>)]"
    by (simp add: demo_due_def)
  have d: "due_at DiskDone 40 (pending (interrupt demo_due)) = 1" "due_at TimerHandler 40 (pending (interrupt demo_due)) = 1"
    "later 40 (pending (interrupt demo_due)) = []"
    by (simp_all add: p due_at_def later_def TimerPending_def)
  have "timely demo_due" by (simp add: timely_def p)
  then obtain k' where k': "OneTick demo_due = Inr k'" "ticked 40 \<lparr>value = 0, queue = []\<rparr> demo_due k'"
    using due_interrupts_fire [OF demo_due_ok demo_due_state(1), of 40 "\<lparr>value = 0, queue = []\<rparr>"] t d demo_due_state(2-4)
    by (auto simp: is_int32_def)
  obtain new where n: "mset (pending (interrupt k')) = mset new" "length new = 1"
    "\<forall>(w, p) \<in> set new. 40 < w \<and> w \<le> 240 \<and> p = TimerPending w"
    using k'(2) unfolding ticked_def Let_def d by auto
  then obtain w where w: "new = [(w, TimerPending w)]" "40 < w" by (cases new) auto
  then have "pending (interrupt k') = [(w, TimerPending w)]" using n(1) by simp
  then show ?thesis using k' w(2) unfolding ticked_def Let_def d demo_due_state(3) by (intro exI [of _ k'] exI [of _ w]) simp
qed

text \<open>
  C6 (invariant): simulated time never runs backwards, as long as the clock, which is an \<open>int\<close>, does not overflow; the tick that
  would take it past the largest \<open>int\<close> is an undefined operation, from which the kernel does not go on.
\<close>

theorem clock_monotone:
  assumes "steps k k'"
  shows "now k \<le> now k' \<and> (\<not> is_int32 (totalTicks (tick_stats (status (interrupt k')) (stats k'))) \<longrightarrow> OneTick k' = Inl Undefined)"
  using clock.steps_rel [OF assms] by (simp add: OneTick_def tick_defined_def Let_def DEFINED_def)

theorem clock_monotone_witness: "\<exists>k. steps demo_kernel k \<and> now demo_kernel \<le> now k"
  by (rule demo_kernel_steps) (use clock_monotone [of demo_kernel] in blast)

section \<open>The file system\<close>

text \<open>
  C7 (refinement): any sequence of file operations on a consistent file system, with names without NUL, files of 0 to 3840 bytes (what a
  header can describe) and positions within \<open>int\<close>, runs to its end without a fault, keeps the file system consistent, and gives the
  replies and the contents of the files that the specification \<open>spec_op\<close> of files as named byte strings prescribes.  In
  particular \<open>Create\<close> succeeds exactly when the name is new, one of the ten entries of the directory is free, and the files leave
  sectors for a header and the data.
\<close>

theorem file_operations_refine:
  assumes "fs_ok fs sd" "\<forall>x \<in> set ops. op_ok x"
  shows "\<exists>replies sd'. run_ops (do_op fs) ops sd = Inr (replies, sd') \<and> fs_ok fs sd' \<and>
    spec_run (spec_op (capacity fs)) ops (fs_files fs sd) replies (fs_files fs sd')"
  using assms by (rule file_service.all_ops)

theorem file_operations_refine_witness:
  "\<exists>fs sd replies sd'. FileSystem_new True demo_disk = Inr (fs, sd) \<and>
    run_ops (do_op fs) [FCreate [97] 300, FWrite [97] [1, 2, 3] 200, FRead [97] 2 201, FRemove [97]] sd = Inr (replies, sd') \<and>
    fs_ok fs sd' \<and> spec_run (spec_op (capacity fs)) [FCreate [97] 300, FWrite [97] [1, 2, 3] 200, FRead [97] 2 201, FRemove [97]]
      Map.empty replies (fs_files fs sd')"
proof -
  obtain fs sd where f: "FileSystem_new True demo_disk = Inr (fs, sd)" "fs_ok fs sd" "fs_view fs sd = Map.empty"
    by (rule demo_format)
  have e: "fs_files fs sd = Map.empty" using f(3) by (simp add: fs_files_def fun_eq_iff)
  have "\<forall>x \<in> set [FCreate [97] 300, FWrite [97] [1, 2, 3] 200, FRead [97] 2 201, FRemove [97]]. op_ok x"
    by (simp add: is_int32_def NumDirect_def SectorSize_def)
  from file_operations_refine [OF f(2) this] show ?thesis using f(1) unfolding e by blast
qed

text \<open>
  C8 (functional): formatting any disk succeeds and leaves a consistent file system without files.
\<close>

theorem format_gives_empty_file_system:
  assumes "disk_ok sd"
  shows "\<exists>fs sd'. FileSystem_new True sd = Inr (fs, sd') \<and> fs_ok fs sd' \<and> fs_view fs sd' = Map.empty"
  using format_ok [OF assms] by blast

theorem format_gives_empty_file_system_witness:
  "\<exists>fs sd. FileSystem_new True demo_disk = Inr (fs, sd) \<and> fs_ok fs sd \<and> fs_view fs sd = Map.empty"
  by (rule format_gives_empty_file_system [OF demo_disk_ok])

text \<open>
  C9 (roundtrip): mounting the disk of a consistent file system opens the same two system files, with
  every sector as it was, so that a file system survives a restart.
\<close>

theorem mount_restores_file_system:
  assumes "fs_ok fs sd" "seekPosition (freeMapFile fs) = 0" "seekPosition (directoryFile fs) = 0"
  shows "\<exists>sd'. FileSystem_new False sd = Inr (fs, sd') \<and> sector sd' = sector sd \<and> fs_ok fs sd' \<and> fs_view fs sd' = fs_view fs sd"
  using mount_reopens [OF _ assms(2,3), of sd] same_data_view [OF assms(1)] assms(1) by (auto simp: fs_ok_def same_data_def)

theorem mount_restores_file_system_witness:
  "\<exists>fs sd sd'. FileSystem_new True demo_disk = Inr (fs, sd) \<and> FileSystem_new False sd = Inr (fs, sd') \<and> sector sd' = sector sd \<and>
    fs_ok fs sd' \<and> fs_view fs sd' = Map.empty"
  by (rule demo_format) (metis mount_restores_file_system)

text \<open>
  C10 (functional): \<open>FileSystem::Create\<close> with a new name, a free directory entry and enough free
  sectors, for at most \<open>NumDirect\<close> data sectors, adds a file of exactly the requested length under that name,
  leaves every other file as it was and keeps the free map in step with the files.
\<close>

theorem create_adds_file:
  assumes "fs_ok fs sd" "0 \<notin> set nm" "0 \<le> sz" "is_int32 sz" "room_for nm sz fs sd" "sectors_needed sz \<le> int NumDirect"
  shows "\<exists>sd' bs. Create nm sz fs sd = Inr (True, sd') \<and> fs_ok fs sd' \<and>
    fs_view fs sd' = (fs_view fs sd)(key_of nm \<mapsto> bs) \<and> int (length bs) = sz"
  using Create_ok [OF assms] by blast

theorem create_adds_file_witness:
  "\<exists>fs sd sd' bs. FileSystem_new True demo_disk = Inr (fs, sd) \<and> Create [97] 300 fs sd = Inr (True, sd') \<and>
    fs_ok fs sd' \<and> fs_view fs sd' = [key_of [97] \<mapsto> bs] \<and> length bs = 300"
proof -
  obtain fs sd where f: "FileSystem_new True demo_disk = Inr (fs, sd)" "fs_ok fs sd" "fs_view fs sd = Map.empty"
    by (rule demo_format)
  have "sectors_needed 300 = 3" by (simp add: sectors_needed_def divRoundUp_def SectorSize_def sdiv_nonneg smod_nonneg)
  then show ?thesis
    using create_adds_file [of fs sd "[97]" 300] no_files_room [OF f(2,3), of 300] f
    by (auto simp: is_int32_def NumDirect_def SectorSize_def)
qed

text \<open>
  C11 (error): \<open>FileSystem::Create\<close> fails and leaves the disk as it was when the name exists, the
  directory is full, or there are too few free sectors.
\<close>

theorem create_refused:
  assumes "system_ok fs sd" "0 \<notin> set nm" "0 \<le> sz" "\<not> room_for nm sz fs sd"
  shows "\<exists>sd'. Create nm sz fs sd = Inr (False, sd') \<and> same_data sd' sd"
  using assms by (rule Create_fails)

theorem create_refused_witness:
  "\<exists>fs sd sd'. FileSystem_new True demo_disk = Inr (fs, sd) \<and> Create [97] 200000 fs sd = Inr (False, sd') \<and> same_data sd' sd"
proof -
  obtain fs sd where f: "FileSystem_new True demo_disk = Inr (fs, sd)" "fs_ok fs sd" by (rule demo_format)
  have "free_sectors (disk_map fs sd) \<le> 1024"
    using card_mono [of "{0..<NumSectors}" "{0..<NumSectors} - used (disk_map fs sd)"] by (simp add: free_sectors_def disk_sizes)
  then have "\<not> room_for [97] 200000 fs sd"
    by (simp add: room_for_def sectors_needed_def divRoundUp_def SectorSize_def sdiv_nonneg smod_nonneg)
  then show ?thesis using create_refused [of fs sd "[97]" 200000] f by (auto simp: fs_ok_def)
qed

text \<open>
  C12 (error): a file that needs more than \<open>NumDirect\<close> data sectors, with room for them on the disk,
  makes \<open>Create\<close> write past the end of the array in its header: \<open>Allocate\<close> does not check the size.
\<close>

theorem create_overruns_header:
  assumes "system_ok fs sd" "0 \<notin> set nm" "0 \<le> sz" "room_for nm sz fs sd" "int NumDirect < sectors_needed sz"
  shows "Create nm sz fs sd = Inl BadIndex"
  using assms by (rule Create_overrun)

theorem create_overruns_header_witness:
  "\<exists>fs sd. FileSystem_new True demo_disk = Inr (fs, sd) \<and> Create [97] 4000 fs sd = Inl BadIndex"
proof -
  obtain fs sd where f: "FileSystem_new True demo_disk = Inr (fs, sd)" "fs_ok fs sd" "fs_view fs sd = Map.empty"
    by (rule demo_format)
  have "sectors_needed 4000 = 32" by (simp add: sectors_needed_def divRoundUp_def SectorSize_def sdiv_nonneg smod_nonneg)
  then show ?thesis
    using create_overruns_header [of fs sd "[97]" 4000] no_files_room [OF f(2,3), of 4000] f
    by (auto simp: fs_ok_def NumDirect_def SectorSize_def)
qed

text \<open>
  C13 (roundtrip): \<open>Copy\<close> of a host file that a header can hold creates the file with the contents of the host file when
  there is room, and \<open>Print\<close> then prints these contents; without room it reports so and changes no file.  The loops of
  both routines end.
\<close>

theorem copy_then_print:
  assumes "fs_ok fs sd" "0 \<notin> set nm" "host src = Some bs" "length bs \<le> NumDirect * SectorSize"
  shows "if room_for nm (int (length bs)) fs sd
    then \<exists>sd1 sd2. Copy host src nm fs sd = Inr ([], sd1) \<and> fs_view fs sd1 = (fs_view fs sd)(key_of nm \<mapsto> bs) \<and>
      Print nm fs sd1 = Inr (map M_char bs, sd2) \<and> fs_ok fs sd2 \<and> fs_view fs sd2 = fs_view fs sd1
    else \<exists>sd1. Copy host src nm fs sd = Inr ([M_copy_output nm], sd1) \<and> fs_ok fs sd1 \<and> fs_view fs sd1 = fs_view fs sd"
proof -
  obtain out sd1 where c: "Copy host src nm fs sd = Inr (out, sd1)" "fs_ok fs sd1"
    "if room_for nm (int (length bs)) fs sd then out = [] \<and> fs_view fs sd1 = (fs_view fs sd)(key_of nm \<mapsto> bs)
     else out = [M_copy_output nm] \<and> fs_view fs sd1 = fs_view fs sd"
    using Copy_correct [where host = host and src = src, OF assms] by blast
  show ?thesis
  proof (cases "room_for nm (int (length bs)) fs sd")
    case True
    then have "fs_view fs sd1 (key_of nm) = Some bs" using c(3) by simp
    from Print_correct [OF c(2) assms(2) this] show ?thesis using True c by auto
  qed (use c in auto)
qed

theorem copy_then_print_witness:
  "\<exists>fs sd sd1 sd2. FileSystem_new True demo_disk = Inr (fs, sd) \<and> Copy [[104] \<mapsto> replicate 25 7] [104] [97] fs sd = Inr ([], sd1) \<and>
    Print [97] fs sd1 = Inr (replicate 25 (M_char 7), sd2)"
proof -
  obtain fs sd where f: "FileSystem_new True demo_disk = Inr (fs, sd)" "fs_ok fs sd" "fs_view fs sd = Map.empty"
    by (rule demo_format)
  have "sectors_needed 25 = 1" by (simp add: sectors_needed_def divRoundUp_def SectorSize_def sdiv_nonneg smod_nonneg)
  then have "room_for [97] 25 fs sd" using no_files_room [OF f(2,3), of 25] by simp
  then show ?thesis using copy_then_print [OF f(2), of "[97]" "[[104] \<mapsto> replicate 25 7]" "[104]" "replicate 25 7"] f(1)
    by (auto simp: NumDirect_def SectorSize_def)
qed

text \<open>
  C14 (functional): \<open>OpenFile::ReadAt\<close> returns exactly the bytes of the file in the range, cut off at
  the end of the file, and changes no sector.
\<close>

theorem ReadAt_reads_the_range:
  assumes "disk_ok sd" "hdr_ok (hdr f)" "is_int32 (int p + int n)"
  shows "\<exists>sd'. ReadAt (int n) (int p) f sd = Inr (take n (drop p (file_bytes sd (hdr f))), sd') \<and>
    disk_ok sd' \<and> sector sd' = sector sd"
  using assms by (rule ReadAt_correct)

definition demo_file :: OpenFile where
  "demo_file = \<lparr>hdr = \<lparr>numBytes = 200, numSectors = 2, dataSectors = 7 # 5 # replicate 28 0\<rparr>, seekPosition = 0\<rparr>"

lemma demo_file_ok: "hdr_ok (hdr demo_file)" "hdr_int32 (hdr demo_file)"
  by (auto simp: demo_file_def hdr_ok_def hdr_int32_def NumDirect_def SectorSize_def disk_sizes is_int32_def)

theorem ReadAt_reads_the_range_witness:
  "\<exists>sd'. ReadAt (int 50) (int 120) demo_file demo_disk = Inr (take 50 (drop 120 (file_bytes demo_disk (hdr demo_file))), sd') \<and>
    disk_ok sd' \<and> sector sd' = sector demo_disk"
  by (rule ReadAt_reads_the_range [OF demo_disk_ok demo_file_ok(1)]) (simp add: is_int32_def)

text \<open>
  C15 (functional): \<open>OpenFile::WriteAt\<close> replaces exactly the bytes of the range that lie inside the
  file, for every alignment of its ends, and changes no sector that is not the file's.
\<close>

theorem WriteAt_writes_the_range:
  assumes "disk_ok sd" "hdr_ok (hdr f)" "is_int32 (int p + int n)" "n \<le> length bs"
  shows "\<exists>k sd'. WriteAt bs (int n) (int p) f sd = Inr (int k, sd') \<and>
    k = min n (nat (numBytes (hdr f)) - p) \<and> disk_ok sd' \<and>
    file_bytes sd' (hdr f) = overwrite p (take k bs) (file_bytes sd (hdr f)) \<and>
    (\<forall>t. 0 \<le> t \<and> t < NumSectors \<and> t \<notin> set (file_sectors (hdr f)) \<longrightarrow> sector sd' t = sector sd t)"
  using assms by (rule WriteAt_correct)

theorem WriteAt_writes_the_range_witness:
  "\<exists>sd'. WriteAt [1, 2, 3] (int 3) (int 127) demo_file demo_disk = Inr (3, sd') \<and>
    file_bytes sd' (hdr demo_file) = overwrite 127 [1, 2, 3] (file_bytes demo_disk (hdr demo_file))"
  using WriteAt_writes_the_range [OF demo_disk_ok demo_file_ok(1), of 127 3 "[1, 2, 3]"]
  by (auto simp: is_int32_def demo_file_def)

text \<open>
  C16 (roundtrip): a file header written to a sector with \<open>WriteBack\<close> is the header that
  \<open>FetchFrom\<close> reads from that sector.
\<close>

theorem header_roundtrip:
  assumes "disk_ok sd" "0 \<le> s" "s < NumSectors" "hdr_int32 h"
  shows "\<exists>sd1 sd2. Hdr_WriteBack s h sd = Inr sd1 \<and> Hdr_FetchFrom s sd1 = Inr (h, sd2)"
  using assms by (rule Hdr_WriteBack_FetchFrom)

theorem header_roundtrip_witness:
  "\<exists>sd1 sd2. Hdr_WriteBack 9 (hdr demo_file) demo_disk = Inr sd1 \<and> Hdr_FetchFrom 9 sd1 = Inr (hdr demo_file, sd2)"
  by (rule header_roundtrip [OF demo_disk_ok _ _ demo_file_ok(2)]) (simp_all add: disk_sizes)

text \<open>
  C17 (roundtrip): \<open>FileHeader::Allocate\<close> takes as many free sectors as the size needs, all different
  and none of them in use, and \<open>Deallocate\<close> gives exactly those back: the free map is what it was.
\<close>

theorem allocate_deallocate:
  assumes "bitmap_ok fm" "numBits fm = NumSectors" "0 \<le> sz" "length (dataSectors h) = NumDirect"
    "sectors_needed sz \<le> free_sectors fm" "sectors_needed sz \<le> int NumDirect"
  shows "\<exists>h' fm1 fm2. Allocate fm sz h = Inr (True, h', fm1) \<and> hdr_ok h' \<and> numBytes h' = sz \<and>
    set (file_sectors h') \<inter> used fm = {} \<and> used fm1 = used fm \<union> set (file_sectors h') \<and>
    Deallocate h' fm1 = Inr fm2 \<and> used fm2 = used fm"
proof -
  obtain h' fm1 where a: "Allocate fm sz h = Inr (True, h', fm1)" "hdr_ok h'" "numBytes h' = sz" "bitmap_ok fm1"
    "set (file_sectors h') \<inter> used fm = {}" "used fm1 = used fm \<union> set (file_sectors h')"
    using Allocate_ok [OF assms] by blast
  obtain fm2 where "Deallocate h' fm1 = Inr fm2" "used fm2 = used fm1 - set (file_sectors h')"
    using Deallocate_correct [OF a(2,4)] a(6) by blast
  then show ?thesis using a by (intro exI [of _ h'] exI [of _ fm1] exI [of _ fm2]) auto
qed

theorem allocate_deallocate_witness:
  "\<exists>fm h' fm1 fm2. new_bitmap demo_disk = Inr fm \<and> Allocate fm 1000 (hdr demo_file) = Inr (True, h', fm1) \<and>
    Deallocate h' fm1 = Inr fm2 \<and> used fm2 = {}"
proof -
  obtain fm where fm: "new_bitmap demo_disk = Inr fm" "bitmap_ok fm" "numBits fm = NumSectors" "used fm = {}"
    using new_bitmap_ok by blast
  have "sectors_needed 1000 = 8" by (simp add: sectors_needed_def divRoundUp_def SectorSize_def sdiv_nonneg smod_nonneg)
  then show ?thesis using allocate_deallocate [OF fm(2,3), of 1000 "hdr demo_file"] fm
    by (auto simp: demo_file_def free_sectors_def NumDirect_def disk_sizes SectorSize_def)
qed

text \<open>
  C18 (functional): a name that \<open>Directory::Add\<close> accepts is found at its sector, every name
  that differs from it in the first \<open>FileNameMaxLen\<close> characters is found where it was before, and
  \<open>Remove\<close> takes back exactly that addition.
\<close>

theorem directory_add_find_remove:
  assumes "dir_ok d" "0 \<notin> set nm" "0 \<le> s" "is_int32 s" "key_of nm \<notin> dom (dir_view d)" "\<not> dir_full d"
  shows "\<exists>d1 d2. Dir_Add nm s d = Inr (True, d1) \<and> Dir_Find nm d1 = Inr s \<and>
    (\<forall>nm'. 0 \<notin> set nm' \<and> key_of nm' \<noteq> key_of nm \<longrightarrow> Dir_Find nm' d1 = Dir_Find nm' d) \<and>
    Dir_Remove nm d1 = Inr (True, d2) \<and> dir_view d2 = dir_view d"
  using dir.look_after_add [OF assms(1,2) _ assms(5,6), of s] dir.add_remove [OF assms(1,2) _ assms(5,6), of s] assms(3,4)
  by auto

definition demo_dir :: Directory where
  "demo_dir = \<lparr>tableSize = 2, table = [\<lparr>inUse = True, sector_of = 5, name = [98] @ replicate 9 0, pad = replicate 5 0\<rparr>,
     \<lparr>inUse = False, sector_of = 0, name = replicate 10 0, pad = replicate 5 0\<rparr>]\<rparr>"

theorem directory_add_find_remove_witness:
  "\<exists>d1 d2. Dir_Add [97] 9 demo_dir = Inr (True, d1) \<and> Dir_Find [97] d1 = Inr 9 \<and>
    Dir_Find [98] d1 = Inr 5 \<and> Dir_Remove [97] d1 = Inr (True, d2) \<and> dir_view d2 = dir_view demo_dir"
proof -
  have d: "dir_ok demo_dir" "key_of [97] \<notin> dom (dir_view demo_dir)" "\<not> dir_full demo_dir" "key_of [98] \<noteq> key_of [97]"
    by (simp_all add: demo_dir_def dir_ok_def entry_ok_def is_int32_def keys_def dir_view_def dir_full_def key_of_def FileNameMaxLen_def)
  have "Dir_Find [98] demo_dir = Inr 5" by code_simp
  then show ?thesis
    using directory_add_find_remove [OF d(1) _ _ _ d(2,3), of 9] d(4) by (auto simp: is_int32_def)
qed

section \<open>The disk\<close>

text \<open>
  C19 (bounds): the latency that the disk computes for any request on a valid sector lies between
  one rotation step and the time of two revolutions: seek, rotation and transfer included.
\<close>

theorem latency_bounds:
  assumes "0 \<le> time" "0 \<le> s" "s < NumSectors" "0 \<le> lastSector d" "lastSector d < NumSectors"
  shows "RotationTime \<le> ComputeLatency time s w d \<and> ComputeLatency time s w d < 2 * SectorsPerTrack * RotationTime"
  using ComputeLatency_range [OF assms] by blast

theorem latency_bounds_witness:
  "RotationTime \<le> ComputeLatency 12345 700 False (disk demo_disk) \<and>
   ComputeLatency 12345 700 False (disk demo_disk) < 2 * SectorsPerTrack * RotationTime"
  by (rule latency_bounds) (simp_all add: disk_sizes demo_disk_def)

text \<open>
  C20 (roundtrip): \<open>SynchDisk::WriteSector\<close> followed by \<open>ReadSector\<close> gives the bytes back, the
  other sectors keep theirs, and a sector number out of range stops the simulator.
\<close>

theorem sector_roundtrip:
  assumes "disk_ok sd" "length bs = SectorSize"
  shows "if 0 \<le> s \<and> s < NumSectors
    then \<exists>sd1 sd2. WriteSector s bs sd = Inr sd1 \<and> ReadSector s sd1 = Inr (bs, sd2) \<and> disk_ok sd2 \<and>
      (\<forall>t. 0 \<le> t \<and> t < NumSectors \<and> t \<noteq> s \<longrightarrow> sector sd2 t = sector sd t)
    else ReadSector s sd = Inl Abort \<and> WriteSector s bs sd = Inl Abort"
proof (cases "0 \<le> s \<and> s < NumSectors")
  case True
  obtain sd1 where 1: "WriteSector s bs sd = Inr sd1" "disk_ok sd1" "sector sd1 s = bs"
    "\<forall>t. 0 \<le> t \<and> t < NumSectors \<and> t \<noteq> s \<longrightarrow> sector sd1 t = sector sd t"
    using sd.wr_law assms True by meson
  then show ?thesis using sd.rd_law [OF 1(2), of s] True by auto
next
  case False
  then show ?thesis using sd.out_of_range [OF assms(1)] by auto
qed

theorem sector_roundtrip_witness:
  "\<exists>sd1 sd2. WriteSector 1023 (replicate 128 7) demo_disk = Inr sd1 \<and> ReadSector 1023 sd1 = Inr (replicate 128 7, sd2)"
  using sector_roundtrip [OF demo_disk_ok, of "replicate 128 7" 1023] by (auto simp: disk_sizes)

section \<open>The simulated processor\<close>

text \<open>
  C21 (safety): one instruction of a user program on a well-formed machine either runs, or traps to
  the kernel, or stops the simulator in one of the two cases of \<open>exec_faults\<close>; whatever the program
  does, the machine stays well formed and no byte of main memory outside the frames that the
  program's table maps writable changes.
\<close>

theorem user_instruction_confined:
  assumes "cpu_ok m"
  shows "case fetch_execute m of
      Inr (trap, m') \<Rightarrow> confined m m' \<and> unat (reg m' LoadReg) < 32 \<and> (trap = None \<longrightarrow> cpu_ok m')
    | Inl f \<Rightarrow> \<exists>raw m1. ReadMem (reg m PCReg) 4 m = Inr (Inr raw, m1) \<and> exec_faults (Decode raw) m1 f"
  by (cases rule: fetch_execute_ok [OF assms, case_names trap run fault]) (auto simp: cpu_ok_def)

theorem user_instruction_confined_witness:
  "case fetch_execute demo_machine of
      Inr (trap, m') \<Rightarrow> confined demo_machine m' \<and> unat (reg m' LoadReg) < 32 \<and> (trap = None \<longrightarrow> cpu_ok m')
    | Inl f \<Rightarrow> \<exists>raw m1. ReadMem (reg demo_machine PCReg) 4 demo_machine = Inr (Inr raw, m1) \<and>
        exec_faults (Decode raw) m1 f"
  by (rule user_instruction_confined [OF demo_machine_ok(1)])

text \<open>
  C22 (functional): the shift-and-add multiplication of the simulator is exact for all operands:
  the double word it leaves in \<open>Hi\<close> and \<open>Lo\<close> is the signed product for \<open>MULT\<close> and the
  unsigned product for \<open>MULTU\<close>.
\<close>

theorem Mult_is_product:
  "case Mult a b s of (hi, lo) \<Rightarrow>
     (if s then sint (dword hi lo) = sint a * sint b else uint (dword hi lo) = uint a * uint b)"
  using Mult_exact [of a b s] by (cases "Mult a b s") auto

text \<open>
  C23 (roundtrip): after a user store that did not trap, a load of the same size from the same
  address gives the stored value back (a byte is sign extended, a half word zero extended).
\<close>

theorem store_load_roundtrip:
  assumes "machine_ok m" "sz \<in> {1, 2, 4}" "WriteMem a sz v m = Inr (None, m1)"
  shows "\<exists>m2. ReadMem a sz m1 = Inr (Inr (read_back sz v), m2)"
  using assms by (rule WriteMem_ReadMem)

theorem store_load_roundtrip_witness:
  "\<exists>m1 m2. WriteMem 8 4 77 demo_machine = Inr (None, m1) \<and> ReadMem 8 4 m1 = Inr (Inr 77, m2)"
proof -
  have "\<exists>m1. WriteMem 8 4 77 demo_machine = Inr (None, m1)"
    by (simp add: WriteMem_def Translate_def demo_machine_def Machine_new_def misaligned_def
        machine_sizes find_entry_def Let_def and_3_mod_4)
  then show ?thesis
    using store_load_roundtrip [OF demo_machine_ok(2), of 4 8 77] by (auto simp: read_back_def)
qed

text \<open>
  C24 (equivalence): the two interpreters of MIPS code agree on the instructions they share: from the same registers, and the same
  instruction at the program counter, \<open>Machine::OneInstruction\<close> of the simulator and a round of the loop of \<open>runprogram\<close> in
  \<open>bin/execute.c\<close> go on with the same registers and the same two program counters.  This holds outside of delay slots
  and when no load is pending, for the arithmetic, logical, shift, branch and jump instructions on the operands that \<open>shared\<close> allows.
\<close>

theorem interpreters_agree:
  assumes "cpu_ok m" "agree m st" "reg m PCReg = xpc" "reg m NextPCReg = xpc + 4" "reg m LoadReg = 0"
    "ReadMem xpc 4 m = Inr (Inr w, m1)" "fetch xpc st = Inr w" "shared w xpc m"
  shows "\<exists>m' st' npc. OneInstruction h m = Inr m' \<and> i_round xpc (xpc + 4) st = Inr (xpc + 4, Next st' npc) \<and> agree m' st' \<and>
    reg m' PCReg = xpc + 4 \<and> reg m' NextPCReg = npc \<and> reg m' LoadReg = 0"
  using assms by (rule round_agrees)

theorem interpreters_agree_witness:
  "\<exists>m' st' npc. OneInstruction (\<lambda>ex. Inr) demo_program = Inr m' \<and> i_round 0x10000000 0x10000004 demo_interp = Inr (0x10000004, Next st' npc) \<and>
    reg m' 3 = 42 \<and> i_reg st' 3 = 42 \<and> reg m' NextPCReg = 0x10000008"
proof -
  obtain m1 where r: "ReadMem 0x10000000 4 demo_program = Inr (Inr 0x00211821, m1)" using demo_program_facts(3) by blast
  have x: "i_round 0x10000000 0x10000004 demo_interp = Inr (0x10000004, Next (i_set 3 42 demo_interp) 0x10000008)" by code_simp
  have p: "reg demo_program PCReg = 0x10000000" "reg demo_program NextPCReg = 0x10000000 + 4" "reg demo_program LoadReg = 0"
    by (simp_all add: demo_program_def)
  obtain m' where "OneInstruction (\<lambda>ex. Inr) demo_program = Inr m'" "agree m' (i_set 3 42 demo_interp)" "reg m' NextPCReg = 0x10000008"
    using interpreters_agree [OF demo_program_facts(1,2) p r demo_program_facts(4,5), of "\<lambda>ex. Inr"] x by auto
  moreover have "i_reg (i_set 3 42 demo_interp) 3 = 42" by code_simp
  ultimately show ?thesis using x by (auto simp: agree_def)
qed

section \<open>Lists, bitmaps and tables\<close>

text \<open>
  C25 (equivalence): inserting items with \<open>SortedInsert\<close> and taking them all out with
  \<open>SortedRemove\<close> is a stable sort by key.
\<close>

theorem sorted_list_is_stable_sort:
  "\<exists>l1 l2. put_all (\<lambda>(k, x). SortedInsert x k) xs List_new = Inr l1 \<and>
    take_all SortedRemove (length xs) l1 = Inr (sort_key fst xs, l2) \<and> IsEmpty l2"
  using list_prio.put_take_sorts [OF represents_List_new, of xs] by (auto simp: IsEmpty_represents)

text \<open>
  C26 (refinement): \<open>SortedInsert\<close> on the linked cells ends, never follows a bad pointer, and
  inserts into the sequence that the cells represent, behind the items with an equal key.
\<close>

theorem SortedInsert_implements_insertion:
  assumes "represents l xs"
  shows "\<exists>l'. SortedInsert x k l = Inr l' \<and> represents l' (l_sorted_insert x k xs)"
  using assms by (rule SortedInsert_refines)

theorem SortedInsert_implements_insertion_witness:
  "\<exists>l'. SortedInsert ''b'' 5 List_new = Inr l' \<and> represents l' [(5, ''b'')]"
  using SortedInsert_implements_insertion [OF represents_List_new, of "''b''" 5] by simp

text \<open>
  C27 (functional): \<open>BitMap::Find\<close> takes the lowest clear bit and no other, and returns -1 without a
  change when every bit is set.
\<close>

theorem Find_takes_lowest_clear_bit:
  assumes "bitmap_ok bm"
  shows "if used bm = {0..<numBits bm} then Find bm = Inr (-1, bm)
    else \<exists>i bm'. Find bm = Inr (i, bm') \<and> i \<in> {0..<numBits bm} - used bm \<and> {0..<i} \<subseteq> used bm \<and>
      bitmap_ok bm' \<and> numBits bm' = numBits bm \<and> used bm' = insert i (used bm)"
proof (cases "used bm = {0..<numBits bm}")
  case True
  then show ?thesis using Find_correct(1) [OF assms] by simp
next
  case False
  moreover obtain i bm' where "Find bm = Inr (i, bm')" "i \<notin> used bm" "0 \<le> i" "i < numBits bm" "\<forall>j. 0 \<le> j \<and> j < i \<longrightarrow> j \<in> used bm"
    "bitmap_ok bm'" "numBits bm' = numBits bm" "used bm' = insert i (used bm)"
    using Find_correct(2) [OF assms False] by blast
  ultimately show ?thesis by (auto intro!: exI [of _ i])
qed

theorem Find_takes_lowest_clear_bit_witness:
  "\<exists>bm'. Find demo_bitmap = Inr (1, bm') \<and> used bm' = {0, 1, 2}"
proof -
  have "fst (projr (Find demo_bitmap)) = 1" by code_simp
  moreover have "1 \<in> {0..<numBits demo_bitmap}" "1 \<notin> used demo_bitmap" unfolding demo_bitmap_ok by simp_all
  then have "used demo_bitmap \<noteq> {0..<numBits demo_bitmap}" by metis
  ultimately show ?thesis
    using Find_takes_lowest_clear_bit [OF demo_bitmap_ok(1)] demo_bitmap_ok(2) by (auto simp: insert_commute)
qed

text \<open>
  C28 (error): a table of user semaphores that is full makes \<open>Create\<close> write at index -1, and a handle
  out of range aborts the kernel instead of being refused.
\<close>

theorem semaphore_table_limits:
  assumes "sem_ok t"
  shows "(dom (sem_view t) = {0..<maxSem} \<longrightarrow> Sem_Create v t = Inl BadIndex) \<and>
    (\<not> (0 \<le> i \<and> i < maxSem) \<longrightarrow> Sem_getSemaphore i t = Inl Abort)"
  using sem.create_full [OF assms] sem.lookup_abort [OF _ assms] by blast

theorem semaphore_table_limits_witness:
  "\<exists>t0 handles t. SemTabla_new (replicate 4 0) (replicate 128 0) 0 = Inr t0 \<and> create_all Sem_Create (replicate 128 7) t0 = Inr (handles, t) \<and>
    Sem_Create 5 t = Inl BadIndex \<and> Sem_getSemaphore 128 t = Inl Abort"
proof -
  obtain t0 where t0: "SemTabla_new (replicate 4 0) (replicate 128 0) 0 = Inr t0" "sem_ok t0" "sem_view t0 = Map.empty"
    using SemTabla_new_correct [of "replicate 4 0" "replicate 128 0" 0] by auto
  obtain handles t where c: "create_all Sem_Create (replicate 128 7) t0 = Inr (handles, t)" "sem_ok t" "length handles = 128" "distinct handles"
    "sem_view t = [handles [\<mapsto>] replicate 128 7]"
    using sem.create_all_law [OF t0(2), of "replicate 128 7"] t0(3) by (auto simp: maxSem_def)
  have d: "dom (sem_view t) = set handles" using c(3,5) by simp
  then have "set handles = {0..<maxSem}"
    using sem.view_range [OF c(2)] distinct_card [OF c(4)] c(3) by (intro card_subset_eq) (simp_all add: maxSem_def)
  then show ?thesis using semaphore_table_limits [OF c(2), of 5 128] d t0(1) c(1) by (auto simp: maxSem_def)
qed

text \<open>
  C29 (error): the constructor of \<open>NachosOpenFilesTable\<close> leaves the pointer to its array pointing to a local array, which ends with
  the constructor: \<open>Open\<close> of any file and the lookup of the three handles that are open from the start follow a dangling
  pointer.  \<open>isOpened\<close>, \<open>Close\<close> and the lookup of the other handles only look at the bitmap and say that these are not open.
\<close>

theorem open_file_table_dangles:
  assumes "8 \<le> length bits0" "length vec = 256"
  shows "\<exists>t. NachosOpenFilesTable_new bits0 raw p vec u mem = Inr t \<and> (\<forall>h. NOF_Open h t = Inl BadPointer) \<and>
    (\<forall>i. 0 \<le> i \<and> i < maxArch \<longrightarrow> NOF_isOpened i t = Inr (i \<le> 2) \<and> NOF_Close i t = Inr (-1, t) \<and>
      NOF_getUnixHandle i t = (if i \<le> 2 then Inl BadPointer else Inr (-1)))"
  using assms by (rule NachosOpenFilesTable_new_dangling)

theorem open_file_table_dangles_witness:
  "\<exists>t. NachosOpenFilesTable_new (replicate 8 0) 0 1000 (replicate 256 0) 0 Map.empty = Inr t \<and> NOF_Open 3 t = Inl BadPointer \<and>
    NOF_getUnixHandle 1 t = Inl BadPointer \<and> NOF_isOpened 1 t = Inr True \<and> NOF_isOpened 7 t = Inr False"
  using open_file_table_dangles [of "replicate 8 0" "replicate 256 0" 0 1000 0 Map.empty] by (auto simp: maxArch_def)

section \<open>The network and the console\<close>

text \<open>
  C30 (safety): what \<open>PostOffice::Receive\<close> has returned for a box are messages that were sent to that box, with the headers and the
  data that the callers of \<open>PostOffice::Send\<close> passed, in the order in which they were handed to the network and each at most once; on
  a network that loses nothing, what was sent is what was received followed by what the receiver still holds.
\<close>

theorem mail_arrives_in_order:
  assumes "post_start nb w0" "post_steps w0 w" "machines w a = Some (n, po)" "sockets w a = Some sock" "0 \<le> x" "x < nb"
  shows "subseq (received_mail w a x) (addressed a x (offered w)) \<and>
    addressed a x (transmitted w) = received_mail w a x @ in_hand (sock, n, po) x \<and>
    (reliable w \<longrightarrow> transmitted w = offered w)"
proof -
  have ok: "world_ok nb w" by (rule reachable_world(1) [OF assms(1,2)])
  have "node_ok nb w a (sock, n, po)" using ok assms(3,4) by (auto simp: world_ok_def)
  moreover have "subseq (received_mail w a x) (addressed a x (offered w))"
    using received_in_order(2) [OF ok _ assms(5,6)] assms(3) by blast
  ultimately show ?thesis using ok assms(5,6) by (simp add: node_ok_def world_ok_def)
qed

theorem mail_arrives_in_order_witness:
  "\<exists>w. post_steps demo_world w \<and> map (snd \<circ> snd) (received_mail w 1 3) = [[72, 111, 108, 97]] \<and>
    subseq (received_mail w 1 3) (addressed 1 3 (offered w))"
proof -
  obtain w n po sock where w: "post_steps demo_world w" "map (snd \<circ> snd) (received_mail w 1 3) = [[72, 111, 108, 97]]"
    "machines w 1 = Some (n, po)" "sockets w 1 = Some sock" by (rule demo_world_steps)
  then show ?thesis using mail_arrives_in_order [OF demo_world_start w(1,3,4), of 3] by auto
qed

text \<open>
  C31 (safety): no step of the post offices and their networks faults: no \<open>ASSERT\<close> of \<open>network.cc\<close> and \<open>post.cc\<close>
  fails and no buffer is overrun, as long as the callers of \<open>Send\<close> and \<open>Receive\<close> keep to the limits.
\<close>

theorem post_office_never_faults:
  assumes "post_start nb w0" "post_steps w0 w" "machines w a = Some (n, po)" "\<not> blocked act n po" "proper act po w"
  shows "\<exists>w'. perform a act n po w = Inr w'"
  using perform_ok [OF reachable_world(1) [OF assms(1,2)] assms(3-5) reachable_world(2) [OF assms(1,2)]] by blast

theorem post_office_never_faults_witness:
  "\<exists>n po w'. machines demo_world 0 = Some (n, po) \<and> perform 0 demo_send n po demo_world = Inr w'"
proof -
  obtain n po where m: "machines demo_world 0 = Some (n, po)" "senders po 5 = None" "numBoxes po = 10"
    by (simp add: demo_world_def PostOffice_new_def)
  then have "\<not> blocked demo_send n po" "proper demo_send po demo_world"
    by (simp_all add: demo_send_def demo_world_def wire_sizes mail_sizes is_int32_def)
  then show ?thesis using post_office_never_faults [OF demo_world_start rtranclp.rtrancl_refl m(1)] m(1) by blast
qed

text \<open>
  C32 (safety): as long as the byte 0xFF, which the device takes for the end of the file, is not typed, \<open>ConsoleTest\<close> echoes what is
  typed, in order: what was typed is what was displayed followed by what the device still holds.  The thread never writes while
  the display is busy.
\<close>

theorem console_echoes_in_order:
  assumes "Console_new open_rw open_w readFile writeFile = Inr c0" "con_steps ([], c0, Echo_new) (ts, c, e)" "EOF_char \<notin> set ts"
  shows "ts = display c @ keys.waiting (c, e) \<and> (echo_state e = Reading \<longrightarrow> \<not> putBusy c)"
proof -
  have "con_ok (ts, c, e)" using con_steps_ok [OF assms(2)] assms(3) Console_new_ok [OF assms(1)] by simp
  then show ?thesis by (auto simp: con_ok_def echo_ok_def)
qed

theorem console_echoes_in_order_witness:
  "\<exists>c e. con_steps ([], demo_console, Echo_new) ([104], c, e) \<and> display c = [104] \<and> [104] = display c @ keys.waiting (c, e)"
proof -
  obtain c e where c: "con_steps ([], demo_console, Echo_new) ([104], c, e)" "display c = [104]" by (rule demo_console_steps)
  have "EOF_char \<notin> set [104]" by (simp add: EOF_char_def)
  from console_echoes_in_order [OF demo_console_new c(1) this] show ?thesis using c by blast
qed

section \<open>User programs\<close>

text \<open>
  C33 (safety): without \<open>VM\<close>, when there are at least as many free frames as the program has pages (which the constructor of
  \<open>AddrSpace\<close> does not check), the constructor gives every page a frame of its own that was free, and changes no
  other frame of the memory; the destructor gives back exactly these frames.
\<close>

theorem address_space_isolated:
  assumes "AddrSpace_new False raw raw_name f nm u = Inr (a, u')" "bitmap_ok (memoryMap u)" "numBits (memoryMap u) = 32"
    "unat (numPages a) \<le> card ({0..<32} - used (memoryMap u))"
  shows "length (frames_of a) = unat (numPages a) \<and> distinct (frames_of a) \<and> set (frames_of a) \<inter> used (memoryMap u) = {} \<and>
    same_outside (set (frames_of a)) (machine u) (machine u') \<and>
    (\<exists>u''. AddrSpace_delete a u' = Inr u'' \<and> used (memoryMap u'') = used (memoryMap u))"
  using AddrSpace_new_isolated [OF assms] AddrSpace_new_delete [OF assms] by (auto simp: frames_of_def)

theorem address_space_isolated_witness:
  "\<exists>a u'. AddrSpace_new False (replicate 40 0) [] [112] [112] (demo_user 64 False (demo_frames 0)) = Inr (a, u') \<and>
    length (frames_of a) = 9 \<and> distinct (frames_of a)"
proof -
  obtain a u' where a: "AddrSpace_new False (replicate 40 0) [] [112] [112] (demo_user 64 False (demo_frames 0)) = Inr (a, u')" "numPages a = 9"
    by (rule demo_space)
  moreover have m: "memoryMap (demo_user 64 False (demo_frames 0)) = demo_frames 0" by (simp add: demo_user_def)
  ultimately show ?thesis using address_space_isolated [OF a(1)] demo_frames_ok by (auto simp: m)
qed

text \<open>
  C34 (error): the constructor divides the size of the code by the number of pages of the space instead of the size of a
  page: a program with more bytes of code than the square of its number of pages makes it read past the page table.
\<close>

theorem address_space_overruns_table:
  assumes "read_header raw f (hostFiles u) = Inr h" "hostFiles u f = Some bs"
    "space_pages h \<noteq> 0" "unat (space_pages h) \<le> 32" "unat (space_pages h) \<le> card ({0..<32} - used (memoryMap u))"
    "bitmap_ok (memoryMap u)" "numBits (memoryMap u) = 32" "length (mainMemory (machine u)) = MemorySize"
    "unat (space_pages h) * unat (space_pages h) < unat (seg_size (seg_code h))" "unat (seg_size (seg_code h)) < 2 ^ 31"
    "0 \<le> sint (inFileAddr (seg_code h))" "sint (inFileAddr (seg_code h)) + 128 * 32 < 2 ^ 31"
  shows "AddrSpace_new False raw raw_name f nm u = Inl BadIndex"
  using assms by (rule AddrSpace_new_overrun)

theorem address_space_overruns_table_witness:
  "AddrSpace_new False (replicate 40 0) [] [112] [112] (demo_user 200 False (demo_frames 0)) = Inl BadIndex"
proof -
  let ?u = "demo_user 200 False (demo_frames 0)"
  obtain h where h: "read_header (replicate 40 0) [112] (hostFiles ?u) = Inr h" "space_pages h = 10" "seg_size (seg_code h) = 200"
    "inFileAddr (seg_code h) = 40"
    using demo_big_header_run by (auto split: sum.splits)
  have m: "memoryMap ?u = demo_frames 0" "hostFiles ?u [112] = Some (demo_noff 200)" "length (mainMemory (machine ?u)) = MemorySize"
    by (simp_all add: demo_user_def Machine_new_def)
  show ?thesis
    by (rule address_space_overruns_table [OF h(1) m(2)]) (use h m demo_frames_ok in simp_all)
qed

text \<open>
  C35 (termination): the second-chance search of \<open>AddrSpace::buscarVictima\<close> ends after two passes over the frames at most,
  from every state: more rounds of the loop give the same result.
\<close>

theorem victim_search_ends: "victim_loop (Suc (Suc k)) a = buscarVictima a \<and> buscarVictima a \<noteq> Inl Diverges"
  using buscarVictima_twice by blast


definition demo_vm_space :: AddrSpace where
  "demo_vm_space = fst (projr (AddrSpace_new True (replicate 40 0) [] [112] [112] (demo_user 64 True (demo_frames 0))))"

lemma demo_vm_space:
  "length (as_pageTable demo_vm_space) = 9" "ipt demo_vm_space = Some [-1]" "ejecutable demo_vm_space = [112]"
  "\<not> valid (as_pageTable demo_vm_space ! 0)" "seg_size (seg_code (noffH1 demo_vm_space)) = 64"
  using demo_vm_run [of "demo_frames 0"] by (auto simp: demo_vm_space_def split: sum.splits)


text \<open>
  C37 (error): the constructor allocates one entry of \<open>ipt\<close> (\<open>new TPI\<close>) where the code uses one for each frame: with frame 0
  in use, no fault on a page that is not in memory can be served.
\<close>

theorem second_page_fault_fails:
  assumes "ipt a = Some [x]" "bitmap_ok (memoryMap u)" "0 \<in> used (memoryMap u)" "0 \<le> vpn" "vpn < int (length (as_pageTable a))"
    "\<not> valid (as_pageTable a ! nat vpn)"
  shows "\<exists>e. MoveraMemoria vpn a u = Inl e"
  using assms by (rule MoveraMemoria_overrun)

theorem second_page_fault_fails_witness: "\<exists>e. MoveraMemoria 0 demo_vm_space (demo_user 64 True (demo_frames 1)) = Inl e"
proof -
  have m: "memoryMap (demo_user 64 True (demo_frames 1)) = demo_frames 1" by (simp add: demo_user_def)
  show ?thesis
    by (rule second_page_fault_fails [OF demo_vm_space(2)]) (use m demo_frames_ok demo_vm_space in simp_all)
qed

text \<open>
  C38 (functional): a system call that ends leaves the program at the instruction after the call, with every register as it was
  except register 2 (the result), register 0 and those of pending loads and of the bad address.  While the call waits in
  the thread kernel, interrupts may come and any number of context switches to other threads, which may do anything to the machine:
  \<open>Scheduler::Run\<close> saves the registers of the thread and restores them before it goes on.
\<close>

theorem system_calls_return:
  assumes "length (regs s) = NumTotalRegs" "regs s ! LoadReg = 0"
    "completes (kernel_call vm) (ExceptionHandler raw_space SyscallException s) s'"
  shows "regs s' ! PrevPCReg = regs s ! PCReg \<and> regs s' ! PCReg = regs s ! NextPCReg \<and> regs s' ! NextPCReg = regs s ! NextPCReg + 4 \<and>
    (\<forall>r \<in> user_regs. regs s' ! r = regs s ! r)"
proof -
  have "at_call (regs s) s" using assms(1,2) by (simp add: at_call_def)
  then show ?thesis using counters.handler_yields assms(3) by (fastforce simp: counters.yields_def after_call_def)
qed

definition demo_sys :: Sys where
  "demo_sys = \<lparr>us = (demo_user 64 True (demo_frames 1))\<lparr>machine := (machine (demo_user 64 True (demo_frames 1)))
       \<lparr>registers := (replicate 40 0)[2 := 10, PCReg := 100, NextPCReg := 104]\<rparr>\<rparr>,
     space = demo_vm_space, NOP = \<lparr>openFiles = 0, openFilesMap = demo_bitmap, usage = 0, arrays = Map.empty\<rparr>,
     SMT = \<lparr>semaforosAbiertos = [], semaforosMap = demo_bitmap, sem_usage = 0\<rparr>, ejecutables = [], archivoAE = -1, currentThread_id = 1,
     Console_sem = 2, last_page = -1, pagPaults = 0, descriptors = Map.empty, input = [], printed = []\<rparr>"

text \<open>The program has called \<open>Yield\<close> as thread 20; thread 21, which is not a user program, gets the processor, overwrites all registers and gives it back.\<close>

definition demo_multi :: Multi where
  "demo_multi = (let th = \<lparr>thread_status = RUNNING, stack = None, frames = [], received = [], buffer = []\<rparr> in
     \<lparr>kern = demo_kernel\<lparr>currentThread := 20, threads := [20 \<mapsto> th, 21 \<mapsto> th]\<rparr>, umach = machine (us demo_sys),
      userRegisters = (\<lambda>_. replicate 40 0), uspace = [20 \<mapsto> demo_vm_space]\<rparr>)"

definition demo_clobber :: "Multi \<Rightarrow> Multi" where
  "demo_clobber u = u\<lparr>umach := (umach u)\<lparr>registers := replicate 40 7\<rparr>\<rparr>"

lemma demo_switch_run:
  "case Run_user 21 demo_multi of Inl f \<Rightarrow> False | Inr u1 \<Rightarrow> (case Run_user 20 (demo_clobber u1) of Inl f \<Rightarrow> False
     | Inr u2 \<Rightarrow> (case run_tail_user True u2 of Inl f \<Rightarrow> False
       | Inr u3 \<Rightarrow> currentThread (kern u1) = 21 \<and> currentThread (kern u2) = 20 \<and> uspace u2 20 \<noteq> None))"
  by code_simp

lemma demo_switch: "\<exists>s1. kernel_call True demo_sys s1"
proof -
  obtain u1 u2 u3 where u: "Run_user 21 demo_multi = Inr u1" "Run_user 20 (demo_clobber u1) = Inr u2" "run_tail_user True u2 = Inr u3"
    "currentThread (kern u1) = 21" "currentThread (kern u2) = 20" "uspace u2 20 \<noteq> None"
    using demo_switch_run by (auto split: sum.splits)
  have a: "away True 20 u1 (demo_clobber u1)"
    by (rule away_work [OF away_left]) (simp_all add: u(4) demo_clobber_def)
  have "away True 20 u1 u2" by (rule away_switch [OF a _ u(2)]) (simp add: u(4) demo_clobber_def)
  then have k: "in_kernel True 20 demo_multi u3" by (rule in_switch [OF in_start u(1) _ u(5,3)])
  have l: "currentThread (kern demo_multi) = 20" "uspace demo_multi 20 = Some (Sys.space demo_sys)" "length (userRegisters demo_multi 20) = NumTotalRegs"
    "umach demo_multi = machine (us demo_sys)" by (simp_all add: demo_multi_def Let_def demo_sys_def)
  have "registers_kept (regs demo_sys) (umach demo_multi)" by (simp add: registers_kept_def l(4)) (simp add: demo_sys_def)
  then obtain b where "uspace u3 20 = Some b" using in_kernel_keeps [OF k l(1) _ l(3)] l(2) by auto
  then have "kernel_call True demo_sys (set_machine (umach u3) (demo_sys\<lparr>Sys.space := b\<rparr>))"
    unfolding kernel_call_def using k l by (intro exI [of _ 20] exI [of _ demo_multi] exI [of _ u3]) (simp add: set_machine_def)
  then show ?thesis by blast
qed

theorem system_calls_return_witness:
  "\<exists>s'. completes (kernel_call True) (ExceptionHandler demo_vm_space SyscallException demo_sys) s' \<and> regs s' ! PCReg = 104 \<and> regs s' ! NextPCReg = 108"
proof -
  have at: "length (regs demo_sys) = NumTotalRegs" "regs demo_sys ! LoadReg = 0" "regs demo_sys ! NextPCReg = 104" by (simp_all add: demo_sys_def)
  have y: "ExceptionHandler demo_vm_space SyscallException demo_sys = Nachos_Yield demo_sys"
    by (simp add: ExceptionHandler_def pbind_def user_reg_def ReadRegister_def sys_machine_def demo_sys_def syscall_table_def)
  obtain s1 where s1: "kernel_call True demo_sys s1" using demo_switch by blast
  have "\<exists>s'. returnFromSystemCall s1 = Inr s'"
    by (simp add: returnFromSystemCall_def user_reg_def set_user_reg_def ReadRegister_def WriteRegister_def)
  then obtain s' where "completes (kernel_call True) (ret s1) s'" by (auto simp: ret_def pbind_def)
  then have "completes (kernel_call True) (ExceptionHandler demo_vm_space SyscallException demo_sys) s'"
    unfolding y Nachos_Yield_def by (intro completes_Call [where K = "kernel_call True", OF s1])
  then show ?thesis using system_calls_return [OF at(1,2)] at(3) by auto
qed

text \<open>
  C39 (type): whatever instructions a user program runs and whatever system calls and page faults they cause, the machine stays
  well formed: its registers, the memory, the TLB and the page table keep their sizes, register 0 is 0 and the register of a
  delayed load exists.
\<close>

theorem user_programs_keep_machine:
  assumes "cpu_ok (machine (us s))" "user_run resumes raw_space s s'"
  shows "cpu_ok (machine (us s'))"
  using user_run_ok [OF assms(2)] assms(1) by (simp add: sys_ok_def)

theorem user_programs_keep_machine_witness:
  "\<exists>s'. user_run resumes demo_vm_space (set_machine demo_machine demo_sys) s' \<and> cpu_ok (machine (us s')) \<and> regs s' ! NextPCReg = 4"
proof -
  let ?s = "set_machine demo_machine demo_sys"
  obtain m' where m: "fetch_execute demo_machine = Inr (None, m')" "registers m' ! NextPCReg = 4"
    using demo_machine_steps by blast
  have "completes resumes (user_step demo_vm_space ?s) (set_machine m' ?s)"
    using m(1) by (simp add: user_step_def sys_machine_def pbind_def)
  then have r: "user_run resumes demo_vm_space ?s (set_machine m' ?s)"
    by (rule run_step [OF run_start]) (simp add: resumes_def)
  then show ?thesis using user_programs_keep_machine [OF _ r] m(2) demo_machine_ok(1) by auto
qed

text \<open>
  C40 (roundtrip): \<open>coff2noff\<close> turns a well-formed COFF file into a file from which the constructor of \<open>AddrSpace\<close> reads a header
  that says for every section where its bytes are in the file, and they are the bytes of the section; the segment of
  uninitialised data has the address and the size of its section.
\<close>

theorem converted_program_loads:
  assumes "coff_ok bs" "fs inF = Some bs" "inF \<noteq> f" "writable f" "length buf = NoffSize"
  shows "\<exists>out h. coff2noff writable removable raw [inF, f] fs = (None, fs(f \<mapsto> out)) \<and> read_header buf f (fs(f \<mapsto> out)) = Inr h \<and>
    (\<forall>s \<in> set (coff_sections bs). s_size s \<noteq> 0 \<longrightarrow> (is_text s \<longrightarrow> stored bs out (seg_code h) s) \<and>
      (is_data s \<longrightarrow> stored bs out (initData h) s) \<and> (is_bss s \<longrightarrow> placed (uninitData h) s))"
  using assms by (rule coff2noff_correct)

theorem converted_program_loads_witness:
  "\<forall>raw. \<exists>out h. coff2noff (\<lambda>f. True) (\<lambda>f. True) raw [[99], [110]] [[99] \<mapsto> demo_coff] = (None, [[99] \<mapsto> demo_coff, [110] \<mapsto> out]) \<and>
    read_header (replicate 40 0) [110] [[99] \<mapsto> demo_coff, [110] \<mapsto> out] = Inr h \<and> seg_size (seg_code h) = 4 \<and>
    take 4 (drop (unat (inFileAddr (seg_code h))) out) = [1, 2, 3, 4]"
proof
  fix raw
  let ?fs = "[[99] \<mapsto> demo_coff]"
  have t: "is_text demo_text" "s_size demo_text = 4" by (simp_all add: demo_text_def is_text_def named_def)
  obtain out h where o: "coff2noff (\<lambda>f. True) (\<lambda>f. True) raw [[99], [110]] ?fs = (None, ?fs([110] \<mapsto> out))"
    "read_header (replicate 40 0) [110] (?fs([110] \<mapsto> out)) = Inr h" "stored demo_coff out (seg_code h) demo_text"
    using converted_program_loads [OF demo_coff(3), of ?fs "[99]" "[110]" "\<lambda>f. True" "replicate 40 0" "\<lambda>f. True" raw] t
    by (auto simp: demo_coff(1) NoffSize_def)
  then show "\<exists>out h. coff2noff (\<lambda>f. True) (\<lambda>f. True) raw [[99], [110]] ?fs = (None, ?fs([110] \<mapsto> out)) \<and>
    read_header (replicate 40 0) [110] (?fs([110] \<mapsto> out)) = Inr h \<and> seg_size (seg_code h) = 4 \<and>
    take 4 (drop (unat (inFileAddr (seg_code h))) out) = [1, 2, 3, 4]"
    using t(2) by (auto simp: stored_def placed_def demo_coff(2))
qed

end
